(* ===== verification/Prelude.thy ===== *)
theory Prelude
  imports Main "HOL-Library.Word"
begin

unbundle bit_operations_syntax

text \<open>
  Vocabulary shared by every component of the development: the C scalar types at their
  width, the result type of code that may be undefined or may be suspended for ever, byte
  order, C strings and byte buffers, and the collections of rewrite rules that the component
  proofs use.
\<close>

section \<open>Scalar types\<close>

type_synonym byte = "8 word"
type_synonym u16 = "16 word"
type_synonym u32 = "32 word"
type_synonym size_t = "64 word"
type_synonym fd = int

named_theorems outcome_simps "unfolding of sequenced computations"
named_theorems byte_simps "byte order, buffers and C strings"
named_theorems ptr_simps "tagged and aligned pointers"

section \<open>Results\<close>

text \<open>
  \<open>Ret x\<close> is a normal return, \<open>Fault\<close> an access outside an object or through a null or
  freed pointer, \<open>Wait\<close> a task that stays suspended because the environment delivers no
  further event.
\<close>

datatype 'a outcome = Ret 'a | Fault | Wait

definition bind_o :: "'a outcome \<Rightarrow> ('a \<Rightarrow> 'b outcome) \<Rightarrow> 'b outcome" where
  "bind_o m f = (case m of Ret x \<Rightarrow> f x | Fault \<Rightarrow> Fault | Wait \<Rightarrow> Wait)"

lemma bind_o_simps [simp, outcome_simps]:
  "bind_o (Ret x) f = f x"
  "bind_o Fault f = Fault"
  "bind_o Wait f = Wait"
  by (simp_all add: bind_o_def)

lemma bind_o_cong [fundef_cong]:
  assumes "m = m'" and "\<And>x. m' = Ret x \<Longrightarrow> f x = f' x"
  shows "bind_o m f = bind_o m' f'"
  using assms by (cases m') simp_all

lemma bind_o_Ret_iff:
  "bind_o m f = Ret y \<longleftrightarrow> (\<exists>x. m = Ret x \<and> f x = Ret y)"
  by (cases m) auto

lemma bind_o_Fault_iff:
  "bind_o m f = Fault \<longleftrightarrow> m = Fault \<or> (\<exists>x. m = Ret x \<and> f x = Fault)"
  by (cases m) auto

lemma bind_o_assoc: "bind_o (bind_o m f) g = bind_o m (\<lambda>x. bind_o (f x) g)"
  by (cases m) simp_all

lemma bind_o_split:
  "P (bind_o m f) \<longleftrightarrow>
     (\<forall>x. m = Ret x \<longrightarrow> P (f x)) \<and> (m = Fault \<longrightarrow> P Fault) \<and> (m = Wait \<longrightarrow> P Wait)"
  by (cases m) simp_all

definition is_ret :: "'a outcome \<Rightarrow> bool" where
  "is_ret m \<longleftrightarrow> (\<exists>x. m = Ret x)"

lemma is_ret_simps [simp]: "is_ret (Ret x)" "\<not> is_ret Fault" "\<not> is_ret Wait"
  by (simp_all add: is_ret_def)

definition of_option :: "'a option \<Rightarrow> 'a outcome" where
  "of_option m = (case m of Some x \<Rightarrow> Ret x | None \<Rightarrow> Fault)"

lemma of_option_simps [simp, outcome_simps]:
  "of_option (Some x) = Ret x" "of_option None = Fault"
  by (simp_all add: of_option_def)

lemma of_option_Ret_iff [simp]: "of_option m = Ret x \<longleftrightarrow> m = Some x"
  by (cases m) simp_all

section \<open>Byte order\<close>

text \<open>
  The Android ABIs are little endian: a 16-bit object occupies its low byte first.
  \<open>htons\<close> and \<open>ntohs\<close> exchange the two bytes, so an object that holds \<open>htons v\<close>
  has the high byte of \<open>v\<close> first in memory.
\<close>

definition hi8 :: "u16 \<Rightarrow> byte" where
  "hi8 w = ucast (drop_bit 8 w)"

definition lo8 :: "u16 \<Rightarrow> byte" where
  "lo8 w = ucast w"

definition mk16 :: "byte \<Rightarrow> byte \<Rightarrow> u16" where
  "mk16 h l = push_bit 8 (ucast h) OR ucast l"

lemma hi8_mk16 [simp, byte_simps]: "hi8 (mk16 h l) = h"
  unfolding mk16_def hi8_def
  by (rule bit_word_eqI) (auto simp: bit_simps dest: bit_imp_le_length)

lemma lo8_mk16 [simp, byte_simps]: "lo8 (mk16 h l) = l"
  unfolding mk16_def lo8_def
  by (rule bit_word_eqI) (auto simp: bit_simps dest: bit_imp_le_length)

lemma mk16_hi8_lo8 [simp, byte_simps]: "mk16 (hi8 w) (lo8 w) = w"
  unfolding mk16_def hi8_def lo8_def
  by (rule bit_word_eqI) (auto simp: bit_simps dest: bit_imp_le_length)

lemma mk16_eq_iff: "mk16 a b = mk16 c d \<longleftrightarrow> a = c \<and> b = d"
  by (metis hi8_mk16 lo8_mk16)

definition htons :: "u16 \<Rightarrow> u16" where
  "htons w = mk16 (lo8 w) (hi8 w)"

abbreviation ntohs :: "u16 \<Rightarrow> u16" where
  "ntohs \<equiv> htons"

lemma htons_htons [simp, byte_simps]: "htons (htons w) = w"
  by (simp add: htons_def)

lemma htons_mk16 [simp, byte_simps]: "htons (mk16 h l) = mk16 l h"
  by (simp add: htons_def)

lemma hi8_lo8_htons [simp, byte_simps]: "hi8 (htons w) = lo8 w" "lo8 (htons w) = hi8 w"
  by (simp_all add: htons_def)

text \<open>The two bytes of a 16-bit object, in memory order, and back.\<close>

definition store16 :: "u16 \<Rightarrow> byte list" where
  "store16 w = [lo8 w, hi8 w]"

fun load16 :: "byte list \<Rightarrow> u16" where
  "load16 (a # b # _) = mk16 b a"
| "load16 _ = 0"

lemma length_store16 [simp]: "length (store16 w) = 2"
  by (simp add: store16_def)

lemma load16_store16 [simp, byte_simps]: "load16 (store16 w @ bs) = w"
  by (simp add: store16_def)

lemma load16_store16' [simp, byte_simps]: "load16 (store16 w) = w"
  by (simp add: store16_def)

lemma store16_load16: "length bs = 2 \<Longrightarrow> store16 (load16 bs) = bs"
  by (cases bs rule: load16.cases) (auto simp: store16_def)

lemma store16_htons [simp, byte_simps]: "store16 (htons w) = [hi8 w, lo8 w]"
  by (simp add: store16_def)

text \<open>A 32-bit value in network order: most significant byte first.\<close>

definition be32 :: "u32 \<Rightarrow> byte list" where
  "be32 w = [ucast (drop_bit 24 w), ucast (drop_bit 16 w), ucast (drop_bit 8 w), ucast w]"

fun of_be32 :: "byte list \<Rightarrow> u32" where
  "of_be32 (a # b # c # d # _) =
     push_bit 24 (ucast a) OR push_bit 16 (ucast b) OR push_bit 8 (ucast c) OR ucast d"
| "of_be32 _ = 0"

lemma of_be32_be32 [simp, byte_simps]: "of_be32 (be32 w @ bs) = w"
proof -
  have "of_be32 (be32 w @ bs) = push_bit 24 (ucast (ucast (drop_bit 24 w) :: byte)) OR
      push_bit 16 (ucast (ucast (drop_bit 16 w) :: byte)) OR
      push_bit 8 (ucast (ucast (drop_bit 8 w) :: byte)) OR ucast (ucast w :: byte)"
    by (simp add: be32_def)
  also have "\<dots> = w"
  proof (rule bit_word_eqI)
    fix n assume "n < LENGTH(32)"
    then consider "n < 8" | "8 \<le> n" "n < 16" | "16 \<le> n" "n < 24" | "24 \<le> n" "n < 32"
      by fastforce
    then show "bit (push_bit 24 (ucast (ucast (drop_bit 24 w) :: byte)) OR
        push_bit 16 (ucast (ucast (drop_bit 16 w) :: byte)) OR
        push_bit 8 (ucast (ucast (drop_bit 8 w) :: byte)) OR ucast (ucast w :: byte) :: u32) n
        = bit w n"
      by cases (auto simp: bit_simps)
  qed
  finally show ?thesis .
qed

lemma length_be32 [simp]: "length (be32 w) = 4"
  by (simp add: be32_def)

section \<open>Buffers\<close>

text \<open>A checked read of one byte, a checked seg, and a store into a buffer.\<close>

definition rd :: "byte list \<Rightarrow> nat \<Rightarrow> byte option" where
  "rd bs i = (if i < length bs then Some (bs ! i) else None)"

definition seg :: "nat \<Rightarrow> nat \<Rightarrow> 'a list \<Rightarrow> 'a list" where
  "seg off n bs = take n (drop off bs)"

definition rd_seg :: "byte list \<Rightarrow> nat \<Rightarrow> nat \<Rightarrow> byte list option" where
  "rd_seg bs off n = (if off + n \<le> length bs then Some (seg off n bs) else None)"

definition put :: "nat \<Rightarrow> 'a list \<Rightarrow> 'a list \<Rightarrow> 'a list" where
  "put off new bs = take off bs @ new @ drop (off + length new) bs"

lemma rd_Some [simp, byte_simps]: "i < length bs \<Longrightarrow> rd bs i = Some (bs ! i)"
  by (simp add: rd_def)

lemma rd_eq_Some_iff: "rd bs i = Some b \<longleftrightarrow> i < length bs \<and> bs ! i = b"
  by (simp add: rd_def)

lemma rd_eq_None_iff: "rd bs i = None \<longleftrightarrow> length bs \<le> i"
  by (auto simp: rd_def)

lemma rd_seg_Some [simp, byte_simps]:
  "off + n \<le> length bs \<Longrightarrow> rd_seg bs off n = Some (seg off n bs)"
  by (simp add: rd_seg_def)

lemma length_seg [simp]: "off + n \<le> length bs \<Longrightarrow> length (seg off n bs) = n"
  by (simp add: seg_def)

lemma seg_append1 [byte_simps]:
  "off + n \<le> length as \<Longrightarrow> seg off n (as @ bs) = seg off n as"
  by (simp add: seg_def)

lemma seg_append2 [byte_simps]:
  "length as \<le> off \<Longrightarrow> seg off n (as @ bs) = seg (off - length as) n bs"
  by (simp add: seg_def)

lemma seg_0 [simp, byte_simps]: "seg 0 n bs = take n bs"
  by (simp add: seg_def)

lemma seg_Cons [simp, byte_simps]:
  "seg (Suc off) n (b # bs) = seg off n bs"
  by (simp add: seg_def)

lemma seg_numeral_Cons [simp, byte_simps]:
  "seg (numeral k) n (b # bs) = seg (pred_numeral k) n bs"
  by (simp add: seg_def)

lemma nth_seg: "i < n \<Longrightarrow> off + n \<le> length bs \<Longrightarrow> seg off n bs ! i = bs ! (off + i)"
  by (simp add: seg_def add.commute)

lemma length_put [simp]:
  "off + length new \<le> length bs \<Longrightarrow> length (put off new bs) = length bs"
  by (simp add: put_def)

lemma nth_put:
  assumes "off + length new \<le> length bs" "i < length bs"
  shows "put off new bs ! i =
    (if off \<le> i \<and> i < off + length new then new ! (i - off) else bs ! i)"
  using assms by (auto simp: put_def nth_append)

lemma seg_put_same [simp]:
  "off + length new \<le> length bs \<Longrightarrow> n = length new \<Longrightarrow> seg off n (put off new bs) = new"
  by (simp add: put_def seg_def)

lemma seg_put_disjoint:
  assumes "off' + n \<le> off \<or> off + length new \<le> off'" "off + length new \<le> length bs"
    "off' + n \<le> length bs"
  shows "seg off' n (put off new bs) = seg off' n bs"
proof (rule nth_equalityI)
  show "length (seg off' n (put off new bs)) = length (seg off' n bs)"
    using assms by simp
next
  fix i assume "i < length (seg off' n (put off new bs))"
  then have "i < n" using assms by simp
  then show "seg off' n (put off new bs) ! i = seg off' n bs ! i"
    using assms by (auto simp: nth_seg nth_put)
qed

section \<open>C strings\<close>

text \<open>The string that starts at offset \<open>off\<close>: the bytes before the first zero byte.
  Without a terminator inside the object the read runs out of it.\<close>

definition cstr_at :: "byte list \<Rightarrow> nat \<Rightarrow> byte list option" where
  "cstr_at bs off =
     (if 0 \<in> set (drop off bs) then Some (takeWhile (\<lambda>b. b \<noteq> 0) (drop off bs)) else None)"

definition is_cstr :: "byte list \<Rightarrow> bool" where
  "is_cstr s \<longleftrightarrow> 0 \<notin> set s"

text \<open>\<open>strncpy (dst, src, n)\<close> writes exactly \<open>n\<close> bytes: a prefix of the source, padded
  with zero bytes.\<close>

definition strncpy :: "byte list \<Rightarrow> byte list \<Rightarrow> nat \<Rightarrow> byte list" where
  "strncpy dst src n = take n (src @ replicate n 0) @ drop n dst"

lemma takeWhile_cstr:
  "is_cstr s \<Longrightarrow> takeWhile (\<lambda>b. b \<noteq> 0) (s @ 0 # bs) = s"
  by (induction s) (auto simp: is_cstr_def)

lemma cstr_at_append [simp, byte_simps]:
  "is_cstr s \<Longrightarrow> cstr_at (s @ 0 # bs) 0 = Some s"
  by (simp add: cstr_at_def takeWhile_cstr)

lemma is_cstr_takeWhile [simp]: "is_cstr (takeWhile (\<lambda>b. b \<noteq> 0) bs)"
  by (auto simp: is_cstr_def dest: set_takeWhileD)

lemma cstr_at_is_cstr: "cstr_at bs off = Some s \<Longrightarrow> is_cstr s"
  by (auto simp: cstr_at_def split: if_splits)

lemma length_strncpy [simp]: "n \<le> length dst \<Longrightarrow> length (strncpy dst src n) = length dst"
  by (simp add: strncpy_def)

lemma strncpy_short:
  "length src \<le> n \<Longrightarrow> strncpy dst src n = src @ replicate (n - length src) 0 @ drop n dst"
  by (simp add: strncpy_def)

end
