(* ===== verification/RBTree.thy ===== *)
theory RBTree
  imports Prelude
begin

text \<open>
  The intrusive red-black tree of \<open>src/core/src/hev-rbtree.c\<close>. A node is known by its place: the
  subtree below it and the path to the root, so the parent pointer of a node is the head of its
  path and the link it hangs from is the side that frame names. Every assignment to a child
  pointer or a parent pointer of the C code is a change of this pair; the colours are set where
  the code sets them. Dereferencing a null pointer is \<open>Fault\<close>.

  The theorems show that insertion and deletion keep the colour and height rules, never
  dereference null, and leave the order of the elements alone. The locale \<open>search_order\<close> then
  gives what the clients rely on: lookups, insertions and deletions of a finite map.
\<close>

datatype color = Red | Black

datatype 'a rbt = Nil | Nd "'a rbt" color 'a "'a rbt"

text \<open>A step of the path: the node is the left or the right child of a parent with this colour,
  element and other child.\<close>

datatype 'a frame = LeftOf color 'a "'a rbt" | RightOf "'a rbt" color 'a

fun zip_up :: "'a rbt \<Rightarrow> 'a frame list \<Rightarrow> 'a rbt" where
  "zip_up t [] = t"
| "zip_up t (LeftOf c x r # fs) = zip_up (Nd t c x r) fs"
| "zip_up t (RightOf l c x # fs) = zip_up (Nd l c x t) fs"

fun is_red :: "'a rbt \<Rightarrow> bool" where
  "is_red (Nd l Red x r) = True"
| "is_red _ = False"

fun paint :: "color \<Rightarrow> 'a rbt \<Rightarrow> 'a rbt" where
  "paint c Nil = Nil"
| "paint c (Nd l _ x r) = Nd l c x r"

fun frame_color :: "'a frame \<Rightarrow> color" where
  "frame_color (LeftOf c x r) = c"
| "frame_color (RightOf l c x) = c"

section \<open>Walking\<close>

fun leftmost :: "'a rbt \<Rightarrow> 'a frame list \<Rightarrow> 'a rbt \<times> 'a frame list" where
  "leftmost (Nd (Nd ll lc lx lr) c x r) fs = leftmost (Nd ll lc lx lr) (LeftOf c x r # fs)"
| "leftmost t fs = (t, fs)"

fun rightmost :: "'a rbt \<Rightarrow> 'a frame list \<Rightarrow> 'a rbt \<times> 'a frame list" where
  "rightmost (Nd l c x (Nd rl rc rx rr)) fs = rightmost (Nd rl rc rx rr) (RightOf l c x # fs)"
| "rightmost t fs = (t, fs)"

definition hev_rbtree_first :: "'a rbt \<Rightarrow> ('a rbt \<times> 'a frame list) option" where
  "hev_rbtree_first root = (case root of Nil \<Rightarrow> None | Nd l c x r \<Rightarrow> Some (leftmost root []))"

definition hev_rbtree_last :: "'a rbt \<Rightarrow> ('a rbt \<times> 'a frame list) option" where
  "hev_rbtree_last root = (case root of Nil \<Rightarrow> None | Nd l c x r \<Rightarrow> Some (rightmost root []))"

text \<open>Climbing while the node is a right (left) child; the result is the parent reached.\<close>

fun climb_right :: "'a rbt \<Rightarrow> 'a frame list \<Rightarrow> ('a rbt \<times> 'a frame list) option" where
  "climb_right t [] = None"
| "climb_right t (RightOf l c x # fs) = climb_right (Nd l c x t) fs"
| "climb_right t (LeftOf c x r # fs) = Some (Nd t c x r, fs)"

fun climb_left :: "'a rbt \<Rightarrow> 'a frame list \<Rightarrow> ('a rbt \<times> 'a frame list) option" where
  "climb_left t [] = None"
| "climb_left t (LeftOf c x r # fs) = climb_left (Nd t c x r) fs"
| "climb_left t (RightOf l c x # fs) = Some (Nd l c x t, fs)"

fun hev_rbtree_node_next :: "'a rbt \<Rightarrow> 'a frame list \<Rightarrow> ('a rbt \<times> 'a frame list) option" where
  "hev_rbtree_node_next (Nd l c x (Nd rl rc rx rr)) fs =
     Some (leftmost (Nd rl rc rx rr) (RightOf l c x # fs))"
| "hev_rbtree_node_next t fs = climb_right t fs"

fun hev_rbtree_node_prev :: "'a rbt \<Rightarrow> 'a frame list \<Rightarrow> ('a rbt \<times> 'a frame list) option" where
  "hev_rbtree_node_prev (Nd (Nd ll lc lx lr) c x r) fs =
     Some (rightmost (Nd ll lc lx lr) (LeftOf c x r # fs))"
| "hev_rbtree_node_prev t fs = climb_left t fs"

section \<open>Insertion\<close>

text \<open>\<open>hev_rbtree_node_link\<close>: a node without children; the colour bit of a fresh parent pointer is
  red.\<close>

definition hev_rbtree_node_link :: "'a \<Rightarrow> 'a rbt" where
  "hev_rbtree_node_link x = Nd Nil Red x Nil"

text \<open>The loop of \<open>hev_rbtree_insert_color\<close>; a red parent without a parent of its own is
  dereferenced.\<close>

fun hev_rbtree_insert_color :: "'a rbt \<Rightarrow> 'a frame list \<Rightarrow> 'a rbt outcome" where
  "hev_rbtree_insert_color n [] = Ret (paint Black n)"
| "hev_rbtree_insert_color n [f] = (if frame_color f = Black then Ret (zip_up n [f]) else Fault)"
| "hev_rbtree_insert_color n (LeftOf pc p pr # LeftOf gc g u # fs) =
     (if pc = Black then Ret (zip_up n (LeftOf pc p pr # LeftOf gc g u # fs))
      else if is_red u then hev_rbtree_insert_color (Nd (Nd n Black p pr) Red g (paint Black u)) fs
      else Ret (zip_up (Nd n gc p (Nd (paint Black pr) Red g u)) fs))"
| "hev_rbtree_insert_color n (RightOf pl pc p # LeftOf gc g u # fs) =
     (if pc = Black then Ret (zip_up n (RightOf pl pc p # LeftOf gc g u # fs))
      else if is_red u then hev_rbtree_insert_color (Nd (Nd pl Black p n) Red g (paint Black u)) fs
      else case n of
          Nil \<Rightarrow> Fault
        | Nd nl nc x nr \<Rightarrow>
            Ret (zip_up (Nd (Nd pl Red p (paint Black nl)) gc x (Nd (paint Black nr) Red g u)) fs))"
| "hev_rbtree_insert_color n (RightOf pl pc p # RightOf u gc g # fs) =
     (if pc = Black then Ret (zip_up n (RightOf pl pc p # RightOf u gc g # fs))
      else if is_red u then hev_rbtree_insert_color (Nd (paint Black u) Red g (Nd pl Black p n)) fs
      else Ret (zip_up (Nd (Nd u Red g (paint Black pl)) gc p n) fs))"
| "hev_rbtree_insert_color n (LeftOf pc p pr # RightOf u gc g # fs) =
     (if pc = Black then Ret (zip_up n (LeftOf pc p pr # RightOf u gc g # fs))
      else if is_red u then hev_rbtree_insert_color (Nd (paint Black u) Red g (Nd n Black p pr)) fs
      else case n of
          Nil \<Rightarrow> Fault
        | Nd nl nc x nr \<Rightarrow>
            Ret (zip_up (Nd (Nd u Red g (paint Black nl)) gc x (Nd (paint Black nr) Red p pr)) fs))"

text \<open>The new node takes the place of the victim.\<close>

definition hev_rbtree_replace :: "'a rbt \<Rightarrow> 'a frame list \<Rightarrow> 'a \<Rightarrow> 'a rbt outcome" where
  "hev_rbtree_replace victim fs new =
     (case victim of Nil \<Rightarrow> Fault | Nd l c x r \<Rightarrow> Ret (zip_up (Nd l c new r) fs))"

section \<open>Deletion\<close>

text \<open>Cases 2 to 4 of \<open>_hev_rbtree_erase_color\<close> for a left child \<open>n\<close> of \<open>p\<close> with the sibling
  \<open>sib\<close>: the subtree at the place of the parent, and whether the loop goes on above it.\<close>

fun erase_left :: "'a rbt \<Rightarrow> color \<Rightarrow> 'a \<Rightarrow> 'a rbt \<Rightarrow> ('a rbt \<times> bool) outcome" where
  "erase_left n pc p Nil = Fault"
| "erase_left n pc p (Nd sl sc s sr) =
     (if \<not> is_red sr then
        if \<not> is_red sl then
          if pc = Red then Ret (Nd n Black p (Nd sl Red s sr), False)
          else Ret (Nd n pc p (Nd sl Red s sr), True)
        else case sl of
            Nil \<Rightarrow> Fault
          | Nd a ac x b \<Rightarrow> Ret (Nd (Nd n Black p a) pc x (Nd (paint Black b) Black s sr), False)
      else Ret (Nd (Nd n Black p sl) pc s (paint Black sr), False))"

fun erase_right :: "'a rbt \<Rightarrow> color \<Rightarrow> 'a \<Rightarrow> 'a rbt \<Rightarrow> ('a rbt \<times> bool) outcome" where
  "erase_right n pc p Nil = Fault"
| "erase_right n pc p (Nd sl sc s sr) =
     (if \<not> is_red sl then
        if \<not> is_red sr then
          if pc = Red then Ret (Nd (Nd sl Red s sr) Black p n, False)
          else Ret (Nd (Nd sl Red s sr) pc p n, True)
        else case sr of
            Nil \<Rightarrow> Fault
          | Nd a ac x b \<Rightarrow> Ret (Nd (Nd sl Black s (paint Black a)) pc x (Nd b Black p n), False)
      else Ret (Nd (paint Black sl) pc s (Nd sr Black p n), False))"

text \<open>The loop. After case 1 the parent is red, so the loop ends in the same round.\<close>

fun hev_rbtree_erase_color :: "'a rbt \<Rightarrow> 'a frame list \<Rightarrow> 'a rbt outcome" where
  "hev_rbtree_erase_color n [] = Ret n"
| "hev_rbtree_erase_color n (LeftOf pc p sib # fs) =
     (case sib of
        Nil \<Rightarrow> Fault
      | Nd sl sc s sr \<Rightarrow>
          if sc = Red then
            (if sl = Nil then Fault
             else bind_o (erase_left n Red p (paint Black sl)) (\<lambda>(t, _).
               Ret (zip_up t (LeftOf pc s sr # fs))))
          else bind_o (erase_left n pc p sib) (\<lambda>(t, again).
            if again then hev_rbtree_erase_color t fs else Ret (zip_up t fs)))"
| "hev_rbtree_erase_color n (RightOf sib pc p # fs) =
     (case sib of
        Nil \<Rightarrow> Fault
      | Nd sl sc s sr \<Rightarrow>
          if sc = Red then
            (if sr = Nil then Fault
             else bind_o (erase_right n Red p (paint Black sr)) (\<lambda>(t, _).
               Ret (zip_up t (RightOf sl pc s # fs))))
          else bind_o (erase_right n pc p sib) (\<lambda>(t, again).
            if again then hev_rbtree_erase_color t fs else Ret (zip_up t fs)))"

text \<open>\<open>_hev_rbtree_erase\<close>: the tree, and the place to rebalance from when there is one. The
  successor of a node with two children is the leftmost node of its right subtree; it takes the
  place and the colour of the node.\<close>

definition hev_rbtree_erase_node :: "'a rbt \<Rightarrow> 'a frame list \<Rightarrow> ('a rbt \<times> 'a frame list \<times> bool) outcome" where
  "hev_rbtree_erase_node node fs =
     (case node of
        Nil \<Rightarrow> Fault
      | Nd Nil c x Nil \<Rightarrow> Ret (Nil, fs, c = Black)
      | Nd Nil c x r \<Rightarrow> Ret (paint c r, fs, False)
      | Nd l c x Nil \<Rightarrow> Ret (paint c l, fs, False)
      | Nd l c x r \<Rightarrow>
          (case leftmost r [] of
             (Nd _ sc s sr, inner) \<Rightarrow>
               let path = inner @ RightOf l c s # fs in
               if sr \<noteq> Nil then Ret (paint Black sr, path, False) else Ret (Nil, path, sc = Black)
           | _ \<Rightarrow> Fault))"

definition hev_rbtree_erase :: "'a rbt \<Rightarrow> 'a frame list \<Rightarrow> 'a rbt outcome" where
  "hev_rbtree_erase node fs =
     bind_o (hev_rbtree_erase_node node fs) (\<lambda>(t, path, rebalance).
       if rebalance \<and> path \<noteq> [] then hev_rbtree_erase_color t path else Ret (zip_up t path))"

section \<open>Order of the elements\<close>

fun inorder :: "'a rbt \<Rightarrow> 'a list" where
  "inorder Nil = []"
| "inorder (Nd l c x r) = inorder l @ x # inorder r"

fun before :: "'a frame list \<Rightarrow> 'a list" where
  "before [] = []"
| "before (LeftOf c x r # fs) = before fs"
| "before (RightOf l c x # fs) = before fs @ inorder l @ [x]"

fun behind :: "'a frame list \<Rightarrow> 'a list" where
  "behind [] = []"
| "behind (LeftOf c x r # fs) = x # inorder r @ behind fs"
| "behind (RightOf l c x # fs) = behind fs"

lemma inorder_zip [simp]: "inorder (zip_up t fs) = before fs @ inorder t @ behind fs"
  by (induction t fs rule: zip_up.induct) simp_all

lemma inorder_paint [simp]: "inorder (paint c t) = inorder t"
  by (cases t) simp_all

lemma zip_up_append [simp]: "zip_up t (fs @ gs) = zip_up (zip_up t fs) gs"
  by (induction t fs rule: zip_up.induct) simp_all

lemma before_append [simp]: "before (fs @ gs) = before gs @ before fs"
  and behind_append [simp]: "behind (fs @ gs) = behind fs @ behind gs"
proof -
  show "before (fs @ gs) = before gs @ before fs"
    by (induction fs rule: before.induct) simp_all
  show "behind (fs @ gs) = behind fs @ behind gs"
    by (induction fs rule: behind.induct) simp_all
qed

lemma zip_leftmost: "leftmost t fs = (u, gs) \<Longrightarrow> zip_up u gs = zip_up t fs"
  by (induction t fs rule: leftmost.induct) auto

lemma zip_rightmost: "rightmost t fs = (u, gs) \<Longrightarrow> zip_up u gs = zip_up t fs"
  by (induction t fs rule: rightmost.induct) auto

lemma leftmost_Nd:
  "leftmost (Nd l c x r) fs = (u, gs) \<Longrightarrow>
   \<exists>c' y r' hs. u = Nd Nil c' y r' \<and> gs = hs @ fs \<and> before hs = []"
proof (induction l arbitrary: c x r fs)
  case (Nd ll lc lx lr)
  then obtain c' y r' hs where "u = Nd Nil c' y r'" "gs = hs @ LeftOf c x r # fs" "before hs = []"
    by (metis leftmost.simps(1))
  then show ?case by (intro exI [of _ c'] exI [of _ y] exI [of _ r'] exI [of _ "hs @ [LeftOf c x r]"]) simp
qed auto

section \<open>Colours and heights\<close>

text \<open>\<open>rb_ok t n\<close>: no red node has a red child, and every path down has \<open>n\<close> black nodes.\<close>

fun rb_ok :: "'a rbt \<Rightarrow> nat \<Rightarrow> bool" where
  "rb_ok Nil n \<longleftrightarrow> n = 0"
| "rb_ok (Nd l Red x r) n \<longleftrightarrow> rb_ok l n \<and> rb_ok r n \<and> \<not> is_red l \<and> \<not> is_red r"
| "rb_ok (Nd l Black x r) n \<longleftrightarrow> (\<exists>m. n = Suc m \<and> rb_ok l m \<and> rb_ok r m)"

definition rbt_inv :: "'a rbt \<Rightarrow> bool" where
  "rbt_inv t \<longleftrightarrow> (\<exists>n. rb_ok t n) \<and> \<not> is_red t"

text \<open>A path that accepts a subtree of black height \<open>n\<close>, red or not.\<close>

fun path_ok :: "'a frame list \<Rightarrow> nat \<Rightarrow> bool \<Rightarrow> bool" where
  "path_ok [] n red \<longleftrightarrow> \<not> red"
| "path_ok (LeftOf Red p r # fs) n red \<longleftrightarrow> rb_ok r n \<and> \<not> red \<and> \<not> is_red r \<and> path_ok fs n True"
| "path_ok (LeftOf Black p r # fs) n red \<longleftrightarrow> rb_ok r n \<and> path_ok fs (Suc n) False"
| "path_ok (RightOf l Red p # fs) n red \<longleftrightarrow> rb_ok l n \<and> \<not> red \<and> \<not> is_red l \<and> path_ok fs n True"
| "path_ok (RightOf l Black p # fs) n red \<longleftrightarrow> rb_ok l n \<and> path_ok fs (Suc n) False"

lemma path_ok_black: "path_ok fs n red \<Longrightarrow> path_ok fs n False"
  by (cases "(fs, n, red)" rule: path_ok.cases) auto

lemma zip_inv: "rb_ok t n \<Longrightarrow> path_ok fs n (is_red t) \<Longrightarrow> rbt_inv (zip_up t fs)"
proof (induction fs arbitrary: t n)
  case Nil
  then show ?case by (auto simp: rbt_inv_def)
next
  case (Cons f fs)
  show ?case
  proof (cases f)
    case (LeftOf c x r)
    then show ?thesis
      using Cons.IH [of "Nd t c x r" "if c = Black then Suc n else n"] Cons.prems by (cases c) auto
  next
    case (RightOf l c x)
    then show ?thesis
      using Cons.IH [of "Nd l c x t" "if c = Black then Suc n else n"] Cons.prems by (cases c) auto
  qed
qed

lemma unzip_inv: "rbt_inv (zip_up t fs) \<Longrightarrow> \<exists>n. rb_ok t n \<and> path_ok fs n (is_red t)"
proof (induction fs arbitrary: t)
  case Nil
  then show ?case by (auto simp: rbt_inv_def)
next
  case (Cons f fs)
  show ?case
  proof (cases f)
    case (LeftOf c x r)
    then show ?thesis using Cons.IH [of "Nd t c x r"] Cons.prems by (cases c) fastforce+
  next
    case (RightOf l c x)
    then show ?thesis using Cons.IH [of "Nd l c x t"] Cons.prems by (cases c) fastforce+
  qed
qed

lemma rb_paint_black: "rb_ok t n \<Longrightarrow> \<exists>m. rb_ok (paint Black t) m"
  by (cases "(t, n)" rule: rb_ok.cases) auto

lemma not_red_paint [simp]: "\<not> is_red (paint Black t)"
  by (cases t) simp_all

lemma paint_black_id [simp]: "\<not> is_red t \<Longrightarrow> paint Black t = t"
  by (cases t rule: is_red.cases) simp_all

lemma rb_red_children: "is_red t \<Longrightarrow> rb_ok t n \<Longrightarrow> rb_ok (paint Black t) (Suc n)"
  by (cases "(t, n)" rule: rb_ok.cases) auto

section \<open>Insertion keeps the rules\<close>

lemma path_red_parent:
  "path_ok (LeftOf Red p s # LeftOf gc g u # fs) h False \<longleftrightarrow>
     gc = Black \<and> rb_ok s h \<and> \<not> is_red s \<and> rb_ok u h \<and> path_ok fs (Suc h) False"
  "path_ok (RightOf s Red p # LeftOf gc g u # fs) h False \<longleftrightarrow>
     gc = Black \<and> rb_ok s h \<and> \<not> is_red s \<and> rb_ok u h \<and> path_ok fs (Suc h) False"
  "path_ok (LeftOf Red p s # RightOf u gc g # fs) h False \<longleftrightarrow>
     gc = Black \<and> rb_ok s h \<and> \<not> is_red s \<and> rb_ok u h \<and> path_ok fs (Suc h) False"
  "path_ok (RightOf s Red p # RightOf u gc g # fs) h False \<longleftrightarrow>
     gc = Black \<and> rb_ok s h \<and> \<not> is_red s \<and> rb_ok u h \<and> path_ok fs (Suc h) False"
  by (cases gc; auto)+

lemma black_parent_done:
  assumes "frame_color f = Black" "rb_ok n h" "path_ok (f # fs) h False"
  shows "rbt_inv (zip_up n (f # fs))"
proof -
  have "path_ok (f # fs) h (is_red n)" using assms by (cases f) auto
  then show ?thesis using zip_inv [OF assms(2)] by blast
qed

lemma is_red_Nd: "is_red t \<Longrightarrow> \<exists>l x r. t = Nd l Red x r"
  by (cases t rule: is_red.cases) auto

lemma insert_color_inv:
  assumes "rb_ok n h" "is_red n" "path_ok fs h False"
  shows "\<exists>t. hev_rbtree_insert_color n fs = Ret t \<and> rbt_inv t \<and>
    inorder t = before fs @ inorder n @ behind fs"
  using assms
proof (induction n fs arbitrary: h rule: hev_rbtree_insert_color.induct)
  case (1 n)
  then show ?case by (auto simp: rbt_inv_def dest: rb_red_children)
next
  case (2 n f)
  have "frame_color f = Black" using 2(3) by (cases f; cases "frame_color f") auto
  then show ?case using black_parent_done [OF _ 2(1,3)] by simp
next
  case (3 n pc p pr gc g u fs)
  show ?case
  proof (cases pc)
    case Black
    then show ?thesis using black_parent_done [OF _ 3(2,4)] by simp
  next
    case Red
    note r = 3(4) [unfolded Red path_red_parent]
    show ?thesis
      using 3(1) [of "Suc h"] 3(2,3) Red r rb_red_children [of u h]
        zip_inv [of "Nd n gc p (Nd pr Red g u)" "Suc h" fs] by (cases "is_red u") auto
  qed
next
  case (4 n pl pc p gc g u fs)
  show ?case
  proof (cases pc)
    case Black
    then show ?thesis using black_parent_done [OF _ 4(2,4)] by simp
  next
    case Red
    note r = 4(4) [unfolded Red path_red_parent]
    obtain nl x nr where n: "n = Nd nl Red x nr" using is_red_Nd [OF 4(3)] by blast
    show ?thesis
      using 4(1) [of "Suc h"] 4(2,3) Red r rb_red_children [of u h] n
        zip_inv [of "Nd (Nd pl Red p nl) gc x (Nd nr Red g u)" "Suc h" fs]
      by (cases "is_red u") auto
  qed
next
  case (5 n pl pc p u gc g fs)
  show ?case
  proof (cases pc)
    case Black
    then show ?thesis using black_parent_done [OF _ 5(2,4)] by simp
  next
    case Red
    note r = 5(4) [unfolded Red path_red_parent]
    show ?thesis
      using 5(1) [of "Suc h"] 5(2,3) Red r rb_red_children [of u h]
        zip_inv [of "Nd (Nd u Red g pl) gc p n" "Suc h" fs] by (cases "is_red u") auto
  qed
next
  case (6 n pc p pr u gc g fs)
  show ?case
  proof (cases pc)
    case Black
    then show ?thesis using black_parent_done [OF _ 6(2,4)] by simp
  next
    case Red
    note r = 6(4) [unfolded Red path_red_parent]
    obtain nl x nr where n: "n = Nd nl Red x nr" using is_red_Nd [OF 6(3)] by blast
    show ?thesis
      using 6(1) [of "Suc h"] 6(2,3) Red r rb_red_children [of u h] n
        zip_inv [of "Nd (Nd u Red g nl) gc x (Nd nr Red p pr)" "Suc h" fs]
      by (cases "is_red u") auto
  qed
qed

section \<open>Deletion keeps the rules\<close>

text \<open>Cases 2 to 4: the subtree \<open>n\<close> is one black node short of its sibling.\<close>

lemma erase_left_inv:
  assumes "rb_ok n h" "\<not> is_red n" "rb_ok sib (Suc h)" "\<not> is_red sib"
  shows "\<exists>t again. erase_left n pc p sib = Ret (t, again) \<and> inorder t = inorder n @ p # inorder sib \<and>
    (again \<longrightarrow> pc = Black \<and> rb_ok t (Suc h) \<and> \<not> is_red t) \<and>
    (\<not> again \<longrightarrow> rb_ok t (if pc = Black then Suc (Suc h) else Suc h) \<and> (is_red t \<longrightarrow> pc = Red))"
proof -
  obtain sl s sr where sib: "sib = Nd sl Black s sr"
    using assms(3,4) by (cases "(sib, Suc h)" rule: rb_ok.cases) auto
  then have sub: "rb_ok sl h" "rb_ok sr h" using assms(3) by auto
  consider "is_red sr" | "\<not> is_red sr" "\<not> is_red sl" | a x b where "\<not> is_red sr" "sl = Nd a Red x b"
    using is_red_Nd by blast
  then show ?thesis
  proof cases
    case 1
    then show ?thesis using assms sib sub rb_red_children [OF 1 sub(2)]
      by (cases pc) auto
  next
    case 2
    then show ?thesis using assms sib sub by (cases pc) auto
  next
    case 3
    then show ?thesis using assms sib sub by (cases pc) auto
  qed
qed

lemma erase_right_inv:
  assumes "rb_ok n h" "\<not> is_red n" "rb_ok sib (Suc h)" "\<not> is_red sib"
  shows "\<exists>t again. erase_right n pc p sib = Ret (t, again) \<and> inorder t = inorder sib @ p # inorder n \<and>
    (again \<longrightarrow> pc = Black \<and> rb_ok t (Suc h) \<and> \<not> is_red t) \<and>
    (\<not> again \<longrightarrow> rb_ok t (if pc = Black then Suc (Suc h) else Suc h) \<and> (is_red t \<longrightarrow> pc = Red))"
proof -
  obtain sl s sr where sib: "sib = Nd sl Black s sr"
    using assms(3,4) by (cases "(sib, Suc h)" rule: rb_ok.cases) auto
  then have sub: "rb_ok sl h" "rb_ok sr h" using assms(3) by auto
  consider "is_red sl" | "\<not> is_red sl" "\<not> is_red sr" | a x b where "\<not> is_red sl" "sr = Nd a Red x b"
    using is_red_Nd by blast
  then show ?thesis
  proof cases
    case 1
    then show ?thesis using assms sib sub rb_red_children [OF 1 sub(1)]
      by (cases pc) auto
  next
    case 2
    then show ?thesis using assms sib sub by (cases pc) auto
  next
    case 3
    then show ?thesis using assms sib sub by (cases pc) auto
  qed
qed

lemma path_ok_mono: "path_ok fs n True \<Longrightarrow> path_ok fs n red"
  by (cases "(fs, n, red)" rule: path_ok.cases) auto

lemma not_red_rb_Suc: "rb_ok t (Suc n) \<Longrightarrow> t \<noteq> Nil"
  by auto

lemma erase_color_left:
  assumes "rb_ok n h" "\<not> is_red n" "path_ok (LeftOf pc p sib # fs) (Suc h) False"
  shows "(\<exists>t. hev_rbtree_erase_color n (LeftOf pc p sib # fs) = Ret t \<and> rbt_inv t \<and>
      inorder t = before fs @ inorder n @ p # inorder sib @ behind fs) \<or>
    (\<exists>t. hev_rbtree_erase_color n (LeftOf pc p sib # fs) = hev_rbtree_erase_color t fs \<and> rb_ok t (Suc h) \<and>
      \<not> is_red t \<and> path_ok fs (Suc (Suc h)) False \<and> inorder t = inorder n @ p # inorder sib)"
proof -
  have sib: "rb_ok sib (Suc h)" "pc = Red \<Longrightarrow> \<not> is_red sib \<and> path_ok fs (Suc h) True"
    "pc = Black \<Longrightarrow> path_ok fs (Suc (Suc h)) False" using assms(3) by (cases pc; simp)+
  show ?thesis
  proof (cases "is_red sib")
    case True
    obtain sl s sr where s: "sib = Nd sl Red s sr" using is_red_Nd [OF True] by blast
    then have sub: "rb_ok sl (Suc h)" "rb_ok sr (Suc h)" "\<not> is_red sl" "\<not> is_red sr" "pc = Black"
      using sib True by (cases pc; simp)+
    from erase_left_inv [OF assms(1,2) sub(1,3), of Red p]
    obtain t where "erase_left n Red p sl = Ret (t, False)" "inorder t = inorder n @ p # inorder sl"
      "rb_ok t (Suc h)" by fastforce
    then show ?thesis
      using s sub sib(3) not_red_rb_Suc [OF sub(1)] zip_inv [of t "Suc h" "LeftOf pc s sr # fs"]
      by simp
  next
    case False
    obtain t again where t: "erase_left n pc p sib = Ret (t, again)" "inorder t = inorder n @ p # inorder sib"
      "again \<Longrightarrow> pc = Black \<and> rb_ok t (Suc h) \<and> \<not> is_red t"
      "\<not> again \<Longrightarrow> rb_ok t (if pc = Black then Suc (Suc h) else Suc h) \<and> (is_red t \<longrightarrow> pc = Red)"
      using erase_left_inv [OF assms(1,2) sib(1) False, of pc p] by blast
    have eq: "hev_rbtree_erase_color n (LeftOf pc p sib # fs) =
        (if again then hev_rbtree_erase_color t fs else Ret (zip_up t fs))"
      using t(1) False not_red_rb_Suc [OF sib(1)] by (cases sib rule: is_red.cases) auto
    have "\<not> again \<Longrightarrow> rbt_inv (zip_up t fs)"
      using t(4) sib(2,3) path_ok_mono zip_inv [of t _ fs] by (cases pc) auto
    then show ?thesis using eq t sib(3) by (cases again) auto
  qed
qed

lemma erase_color_right:
  assumes "rb_ok n h" "\<not> is_red n" "path_ok (RightOf sib pc p # fs) (Suc h) False"
  shows "(\<exists>t. hev_rbtree_erase_color n (RightOf sib pc p # fs) = Ret t \<and> rbt_inv t \<and>
      inorder t = before fs @ inorder sib @ p # inorder n @ behind fs) \<or>
    (\<exists>t. hev_rbtree_erase_color n (RightOf sib pc p # fs) = hev_rbtree_erase_color t fs \<and> rb_ok t (Suc h) \<and>
      \<not> is_red t \<and> path_ok fs (Suc (Suc h)) False \<and> inorder t = inorder sib @ p # inorder n)"
proof -
  have sib: "rb_ok sib (Suc h)" "pc = Red \<Longrightarrow> \<not> is_red sib \<and> path_ok fs (Suc h) True"
    "pc = Black \<Longrightarrow> path_ok fs (Suc (Suc h)) False" using assms(3) by (cases pc; simp)+
  show ?thesis
  proof (cases "is_red sib")
    case True
    obtain sl s sr where s: "sib = Nd sl Red s sr" using is_red_Nd [OF True] by blast
    then have sub: "rb_ok sl (Suc h)" "rb_ok sr (Suc h)" "\<not> is_red sl" "\<not> is_red sr" "pc = Black"
      using sib True by (cases pc; simp)+
    from erase_right_inv [OF assms(1,2) sub(2,4), of Red p]
    obtain t where "erase_right n Red p sr = Ret (t, False)" "inorder t = inorder sr @ p # inorder n"
      "rb_ok t (Suc h)" by fastforce
    then show ?thesis
      using s sub sib(3) not_red_rb_Suc [OF sub(2)] zip_inv [of t "Suc h" "RightOf sl pc s # fs"]
      by simp
  next
    case False
    obtain t again where t: "erase_right n pc p sib = Ret (t, again)" "inorder t = inorder sib @ p # inorder n"
      "again \<Longrightarrow> pc = Black \<and> rb_ok t (Suc h) \<and> \<not> is_red t"
      "\<not> again \<Longrightarrow> rb_ok t (if pc = Black then Suc (Suc h) else Suc h) \<and> (is_red t \<longrightarrow> pc = Red)"
      using erase_right_inv [OF assms(1,2) sib(1) False, of pc p] by blast
    have eq: "hev_rbtree_erase_color n (RightOf sib pc p # fs) =
        (if again then hev_rbtree_erase_color t fs else Ret (zip_up t fs))"
      using t(1) False not_red_rb_Suc [OF sib(1)] by (cases sib rule: is_red.cases) auto
    have "\<not> again \<Longrightarrow> rbt_inv (zip_up t fs)"
      using t(4) sib(2,3) path_ok_mono zip_inv [of t _ fs] by (cases pc) auto
    then show ?thesis using eq t sib(3) by (cases again) auto
  qed
qed

lemma erase_color_inv:
  assumes "rb_ok n h" "\<not> is_red n" "path_ok fs (Suc h) False"
  shows "\<exists>t. hev_rbtree_erase_color n fs = Ret t \<and> rbt_inv t \<and>
    inorder t = before fs @ inorder n @ behind fs"
  using assms
proof (induction fs arbitrary: n h)
  case Nil
  then show ?case by (auto simp: rbt_inv_def)
next
  case (Cons f fs)
  show ?case
  proof (cases f)
    case (LeftOf pc p sib)
    then show ?thesis
      using erase_color_left [OF Cons.prems(1,2), of pc p sib fs] Cons.prems(3) Cons.IH [of _ "Suc h"]
      by fastforce
  next
    case (RightOf sib pc p)
    then show ?thesis
      using erase_color_right [OF Cons.prems(1,2), of sib pc p fs] Cons.prems(3) Cons.IH [of _ "Suc h"]
      by fastforce
  qed
qed

text \<open>Erasing a node of a valid tree.\<close>

lemma rb_one_child: "rb_ok (Nd Nil c x (Nd l k y r)) n \<Longrightarrow> c = Black \<and> k = Red \<and> l = Nil \<and> r = Nil \<and> n = Suc 0"
  and rb_one_child': "rb_ok (Nd (Nd l k y r) c x Nil) n \<Longrightarrow> c = Black \<and> k = Red \<and> l = Nil \<and> r = Nil \<and> n = Suc 0"
proof -
  have no: "rb_ok t 0 \<Longrightarrow> \<not> is_red t \<Longrightarrow> t = Nil" for t :: "'a rbt"
    by (cases "(t, 0::nat)" rule: rb_ok.cases) auto
  show "rb_ok (Nd Nil c x (Nd l k y r)) n \<Longrightarrow> c = Black \<and> k = Red \<and> l = Nil \<and> r = Nil \<and> n = Suc 0"
    using no [of l] no [of r] by (cases c; cases k) auto
  show "rb_ok (Nd (Nd l k y r) c x Nil) n \<Longrightarrow> c = Black \<and> k = Red \<and> l = Nil \<and> r = Nil \<and> n = Suc 0"
    using no [of l] no [of r] by (cases c; cases k) auto
qed

text \<open>Removing a leftmost node \<open>Nd Nil c s r\<close>, or one without children.\<close>

lemma erase_low_inv:
  assumes "rb_ok (Nd Nil c s r) n" "path_ok fs n (c = Red)" 
  shows "\<exists>t. (if r \<noteq> Nil then Ret (zip_up (paint Black r) fs)
      else if c = Black \<and> fs \<noteq> [] then hev_rbtree_erase_color Nil fs else Ret (zip_up Nil fs)) = Ret t \<and>
    rbt_inv t \<and> inorder t = before fs @ inorder r @ behind fs"
proof (cases r)
  case (Nd rl rc rx rr)
  then have r: "c = Black" "r = Nd Nil Red rx Nil" "n = Suc 0" using rb_one_child [of c s rl rc rx rr n] assms(1) by auto
  then show ?thesis using assms(2) zip_inv [of "Nd Nil Black rx Nil" "Suc 0" fs] by auto
next
  case Nil
  show ?thesis
  proof (cases c)
    case Red
    then show ?thesis using Nil assms zip_inv [of Nil 0 fs] path_ok_black by fastforce
  next
    case Black
    then have n: "n = Suc 0" using Nil assms(1) by auto
    show ?thesis
    proof (cases fs)
      case Nil
      then show ?thesis using \<open>r = Nil\<close> Black by (auto simp: rbt_inv_def)
    next
      case (Cons f fs')
      then show ?thesis
        using \<open>r = Nil\<close> Black n assms(2) erase_color_inv [of Nil 0 fs] by auto
    qed
  qed
qed

lemma rb_payload: "rb_ok (Nd l c x r) n \<longleftrightarrow> rb_ok (Nd l c y r) n"
  by (cases c) auto

lemma is_red_payload: "is_red (Nd l c x r) \<longleftrightarrow> c = Red"
  by (cases c) auto

lemma inv_payload: "rbt_inv (zip_up (Nd l c x r) fs) \<Longrightarrow> rbt_inv (zip_up (Nd l c y r) fs)"
  using unzip_inv [of "Nd l c x r" fs] zip_inv [of "Nd l c y r" _ fs] rb_payload [of l c x r]
  unfolding is_red_payload by blast

lemma erase_inv:
  assumes "rbt_inv (zip_up (Nd l c x r) fs)"
  shows "\<exists>t. hev_rbtree_erase (Nd l c x r) fs = Ret t \<and> rbt_inv t \<and>
    inorder t = before fs @ inorder l @ inorder r @ behind fs"
proof -
  obtain n where n: "rb_ok (Nd l c x r) n" "path_ok fs n (c = Red)"
    using unzip_inv [OF assms] unfolding is_red_payload by blast
  consider "l = Nil" | ll k y lr where "l = Nd ll k y lr" "r = Nil"
    | ll lc lx lr rl rc rx rr where "l = Nd ll lc lx lr" "r = Nd rl rc rx rr"
    by (cases l; cases r) auto
  then show ?thesis
  proof cases
    case 1
    have "r \<noteq> Nil \<Longrightarrow> c = Black" using n(1) 1 by (cases r) (auto dest: rb_one_child)
    then show ?thesis using erase_low_inv [OF n [unfolded 1]] 1
      by (cases r) (auto simp: hev_rbtree_erase_def hev_rbtree_erase_node_def)
  next
    case 2
    have "c = Black" "k = Red" "ll = Nil" "lr = Nil" "n = Suc 0"
      using rb_one_child' [of ll k y lr c x n] n(1) 2 by auto
    then show ?thesis using 2 n(2) zip_inv [of "Nd Nil Black y Nil" "Suc 0" fs]
      by (auto simp: hev_rbtree_erase_def hev_rbtree_erase_node_def)
  next
    case 3
    obtain sc s sr inner where lm: "leftmost r [] = (Nd Nil sc s sr, inner)" and b: "before inner = []"
      using leftmost_Nd [of rl rc rx rr "[]"] 3 by (cases "leftmost r []") auto
    have r: "zip_up (Nd Nil sc s sr) inner = r" using zip_leftmost [OF lm] by simp
    let ?path = "inner @ RightOf l c s # fs"
    have inv: "rbt_inv (zip_up (Nd Nil sc s sr) ?path)" using inv_payload [OF assms, of s] r by simp
    obtain m where m: "rb_ok (Nd Nil sc s sr) m" "path_ok ?path m (sc = Red)"
      using unzip_inv [OF inv] unfolding is_red_payload by blast
    have eq: "hev_rbtree_erase (Nd l c x r) fs =
        (if sr \<noteq> Nil then Ret (zip_up (paint Black sr) ?path)
         else if sc = Black \<and> ?path \<noteq> [] then hev_rbtree_erase_color Nil ?path else Ret (zip_up Nil ?path))"
      using 3 lm by (simp add: hev_rbtree_erase_def hev_rbtree_erase_node_def Let_def)
    have "inorder r = s # inorder sr @ behind inner" using arg_cong [OF r, of inorder] b by simp
    then show ?thesis unfolding eq using erase_low_inv [OF m] b by auto
  qed
qed

lemma insert_inv:
  assumes "rbt_inv (zip_up Nil fs)"
  shows "\<exists>t. hev_rbtree_insert_color (hev_rbtree_node_link x) fs = Ret t \<and> rbt_inv t \<and>
    inorder t = before fs @ x # behind fs"
proof -
  have "path_ok fs 0 False" using unzip_inv [OF assms] by auto
  then show ?thesis using insert_color_inv [of "hev_rbtree_node_link x" 0 fs]
    by (simp add: hev_rbtree_node_link_def)
qed

text \<open>The height of a valid tree is logarithmic in its size, so the walks are short.\<close>

fun height :: "'a rbt \<Rightarrow> nat" where
  "height Nil = 0"
| "height (Nd l c x r) = Suc (max (height l) (height r))"

lemma rb_height: "rb_ok t n \<Longrightarrow> height t \<le> 2 * n + (if is_red t then 1 else 0)"
proof (induction t arbitrary: n)
  case (Nd l c x r)
  show ?case
  proof (cases c)
    case Red
    then show ?thesis using Nd.prems Nd.IH(1) [of n] Nd.IH(2) [of n] by simp
  next
    case Black
    then obtain m where "n = Suc m" "rb_ok l m" "rb_ok r m" using Nd.prems by auto
    then show ?thesis using Black Nd.IH(1) [of m] Nd.IH(2) [of m]
      by (cases "is_red l"; cases "is_red r") simp_all
  qed
qed simp

lemma rb_size: "rb_ok t n \<Longrightarrow> 2 ^ n \<le> Suc (length (inorder t))"
proof (induction t arbitrary: n)
  case (Nd l c x r)
  show ?case
  proof (cases c)
    case Red
    then have "2 ^ n \<le> Suc (length (inorder l))" using Nd by simp
    then show ?thesis by simp
  next
    case Black
    then obtain m where "n = Suc m" "rb_ok l m" "rb_ok r m" using Nd.prems by auto
    then show ?thesis using Nd.IH(1) [of m] Nd.IH(2) [of m] by simp
  qed
qed simp

lemma inv_height: "rbt_inv t \<Longrightarrow> 2 ^ (height t div 2) \<le> Suc (length (inorder t))"
proof -
  assume "rbt_inv t"
  then obtain n where n: "rb_ok t n" "\<not> is_red t" by (auto simp: rbt_inv_def)
  then have "height t div 2 \<le> n" using rb_height [of t n] by simp
  then have "(2::nat) ^ (height t div 2) \<le> 2 ^ n" by (intro power_increasing) simp_all
  then show ?thesis using rb_size [OF n(1)] by linarith
qed

section \<open>Searching\<close>

text \<open>The loop the clients walk the tree with. \<open>cmp\<close> compares the element of a node with the key:
  the code goes left when the node is smaller, so the elements are in descending order.\<close>

fun descend :: "('a \<Rightarrow> int) \<Rightarrow> 'a rbt \<Rightarrow> 'a frame list \<Rightarrow> 'a rbt \<times> 'a frame list" where
  "descend cmp Nil fs = (Nil, fs)"
| "descend cmp (Nd l c x r) fs =
     (if cmp x < 0 then descend cmp l (LeftOf c x r # fs)
      else if cmp x > 0 then descend cmp r (RightOf l c x # fs)
      else (Nd l c x r, fs))"

lemma zip_descend: "descend cmp t fs = (u, gs) \<Longrightarrow> zip_up u gs = zip_up t fs"
  by (induction t arbitrary: fs) (auto split: if_splits)

lemma descend_found: "descend cmp t fs = (Nd l c x r, gs) \<Longrightarrow> cmp x = 0"
  by (induction t arbitrary: fs) (auto split: if_splits)

text \<open>The place of a node that is known by its address, the first argument of
  \<open>hev_rbtree_erase\<close>.\<close>

fun place :: "('a \<Rightarrow> bool) \<Rightarrow> 'a rbt \<Rightarrow> 'a frame list \<Rightarrow> ('a rbt \<times> 'a frame list) option" where
  "place is Nil fs = None"
| "place is (Nd l c x r) fs =
     (if is x then Some (Nd l c x r, fs)
      else case place is l (LeftOf c x r # fs) of
          Some p \<Rightarrow> Some p
        | None \<Rightarrow> place is r (RightOf l c x # fs))"

lemma place_Some:
  "place is t fs = Some (u, gs) \<Longrightarrow> zip_up u gs = zip_up t fs \<and> (\<exists>l c x r. u = Nd l c x r \<and> is x)"
  by (induction t arbitrary: fs) (auto split: if_splits option.splits)

lemma place_None: "place is t fs = None \<Longrightarrow> x \<in> set (inorder t) \<Longrightarrow> \<not> is x"
  by (induction t arbitrary: fs) (auto split: if_splits option.splits)

text \<open>What the clients rely on: a comparison that is a total order on the keys.\<close>

locale search_order =
  fixes key :: "'a \<Rightarrow> 'k" and key_cmp :: "'k \<Rightarrow> 'k \<Rightarrow> int"
  assumes cmp_zero: "key_cmp a b = 0 \<longleftrightarrow> a = b"
    and cmp_anti: "key_cmp a b < 0 \<longleftrightarrow> key_cmp b a > 0"
    and cmp_trans: "key_cmp a b > 0 \<Longrightarrow> key_cmp b c > 0 \<Longrightarrow> key_cmp a c > 0"
begin

definition above :: "'a \<Rightarrow> 'a \<Rightarrow> bool" where
  "above x y \<longleftrightarrow> key_cmp (key x) (key y) > 0"

definition ordered :: "'a rbt \<Rightarrow> bool" where
  "ordered t \<longleftrightarrow> sorted_wrt above (inorder t)"

definition tree_ok :: "'a rbt \<Rightarrow> bool" where
  "tree_ok t \<longleftrightarrow> ordered t \<and> rbt_inv t"

lemma tree_ok_Nil: "tree_ok Nil"
  by (simp add: tree_ok_def ordered_def rbt_inv_def)

lemma descend_sides:
  assumes "sorted_wrt above (before fs @ inorder t @ behind fs)"
    and "\<forall>x \<in> set (before fs). key_cmp (key x) k > 0" "\<forall>x \<in> set (behind fs). key_cmp (key x) k < 0"
    and "descend (\<lambda>x. key_cmp (key x) k) t fs = (u, gs)"
  shows "(\<forall>x \<in> set (before gs). key_cmp (key x) k > 0) \<and> (\<forall>x \<in> set (behind gs). key_cmp (key x) k < 0)"
  using assms
proof (induction t arbitrary: fs)
  case Nil
  then show ?case by simp
next
  case (Nd l c x r)
  consider "key_cmp (key x) k < 0" | "key_cmp (key x) k > 0" | "key_cmp (key x) k = 0" by linarith
  then show ?case
  proof cases
    case 1
    have k: "key_cmp k (key x) > 0" using 1 cmp_anti by blast
    have "above x y" if "y \<in> set (inorder r)" for y
      using Nd.prems(1) that by (simp add: sorted_wrt_append)
    then have g: "\<forall>y \<in> set (inorder r). key_cmp (key y) k < 0"
      using cmp_trans [OF k] cmp_anti unfolding above_def by blast
    show ?thesis by (rule Nd.IH(1) [of "LeftOf c x r # fs"]) (use 1 Nd.prems g in \<open>simp_all add: ball_Un\<close>)
  next
    case 2
    have "above y x" if "y \<in> set (inorder l)" for y
      using Nd.prems(1) that by (simp add: sorted_wrt_append)
    then have g: "\<forall>y \<in> set (inorder l). key_cmp (key y) k > 0"
      using cmp_trans [OF _ 2] unfolding above_def by blast
    show ?thesis by (rule Nd.IH(2) [of "RightOf l c x # fs"]) (use 2 Nd.prems g in \<open>simp_all add: ball_Un\<close>)
  next
    case 3
    then show ?thesis using Nd.prems by auto
  qed
qed

lemma descend_top:
  assumes "tree_ok t" "descend (\<lambda>x. key_cmp (key x) k) t [] = (u, gs)"
  shows "t = zip_up u gs" "\<forall>x \<in> set (before gs). key_cmp (key x) k > 0"
    "\<forall>x \<in> set (behind gs). key_cmp (key x) k < 0"
  using zip_descend [OF assms(2)] descend_sides [of "[]" t k u gs] assms
  by (auto simp: tree_ok_def ordered_def)

definition elem :: "'k \<Rightarrow> 'a rbt \<Rightarrow> 'a option" where
  "elem k t = (case fst (descend (\<lambda>x. key_cmp (key x) k) t []) of Nil \<Rightarrow> None | Nd l c x r \<Rightarrow> Some x)"

lemma keys_differ:
  "tree_ok t \<Longrightarrow> x \<in> set (inorder t) \<Longrightarrow> y \<in> set (inorder t) \<Longrightarrow> key x = key y \<Longrightarrow> x = y"
proof -
  assume t: "tree_ok t" and x: "x \<in> set (inorder t)" and y: "y \<in> set (inorder t)" and k: "key x = key y"
  have s: "sorted_wrt above (inorder t)" using t by (simp add: tree_ok_def ordered_def)
  obtain i j where ij: "i < length (inorder t)" "inorder t ! i = x" "j < length (inorder t)" "inorder t ! j = y"
    using x y by (metis in_set_conv_nth)
  have irr: "\<not> above a b" if "key a = key b" for a b
    using that cmp_zero [of "key a" "key b"] by (simp add: above_def)
  have "\<not> i < j" "\<not> j < i"
    using sorted_wrt_nth_less [OF s, of i j] sorted_wrt_nth_less [OF s, of j i] ij irr k by auto
  then show "x = y" using ij by (metis linorder_neqE_nat)
qed

lemma elem_iff: "tree_ok t \<Longrightarrow> elem k t = Some x \<longleftrightarrow> x \<in> set (inorder t) \<and> key x = k"
proof -
  assume t: "tree_ok t"
  obtain u gs where d: "descend (\<lambda>x. key_cmp (key x) k) t [] = (u, gs)" by fastforce
  note top = descend_top [OF t d]
  have miss: "x \<in> set (before gs) \<Longrightarrow> key x \<noteq> k" "x \<in> set (behind gs) \<Longrightarrow> key x \<noteq> k" for x
    using top(2,3) cmp_zero by force+
  show ?thesis
  proof (cases u)
    case Nil
    then show ?thesis using d top(1) miss by (auto simp: elem_def)
  next
    case (Nd l c y r)
    have "key y = k" using descend_found d Nd cmp_zero by fastforce
    then show ?thesis using d top(1) Nd keys_differ [OF t, of x y] by (auto simp: elem_def)
  qed
qed

lemma insert_elem:
  assumes "tree_ok t" "descend (\<lambda>x. key_cmp (key x) (key y)) t [] = (Nil, fs)"
  shows "\<exists>t'. hev_rbtree_insert_color (hev_rbtree_node_link y) fs = Ret t' \<and> tree_ok t' \<and>
    set (inorder t') = insert y (set (inorder t)) \<and> length (inorder t') = Suc (length (inorder t))"
proof -
  note top = descend_top [OF assms]
  have "rbt_inv (zip_up Nil fs)" using assms(1) top(1) by (simp add: tree_ok_def)
  then obtain t' where t': "hev_rbtree_insert_color (hev_rbtree_node_link y) fs = Ret t'" "rbt_inv t'"
    "inorder t' = before fs @ y # behind fs" using insert_inv [of fs y] by blast
  have t: "inorder t = before fs @ behind fs" using top(1) by simp
  have "\<forall>x \<in> set (behind fs). above y x" "\<forall>x \<in> set (before fs). above x y"
    using top(2,3) cmp_anti unfolding above_def by blast+
  moreover have "sorted_wrt above (before fs @ behind fs)"
    using assms(1) t by (simp add: tree_ok_def ordered_def)
  ultimately have "ordered t'" using t'(3) by (auto simp: ordered_def sorted_wrt_append)
  then show ?thesis using t t' by (intro exI [of _ t']) (simp add: tree_ok_def)
qed

lemma erase_elem:
  assumes "tree_ok (zip_up (Nd l c x r) fs)"
  shows "\<exists>t'. hev_rbtree_erase (Nd l c x r) fs = Ret t' \<and> tree_ok t' \<and>
    set (inorder t') = set (inorder (zip_up (Nd l c x r) fs)) - {x} \<and>
    Suc (length (inorder t')) = length (inorder (zip_up (Nd l c x r) fs))"
proof -
  obtain t' where t': "hev_rbtree_erase (Nd l c x r) fs = Ret t'" "rbt_inv t'"
    "inorder t' = before fs @ inorder l @ inorder r @ behind fs"
    using erase_inv [of l c x r fs] assms unfolding tree_ok_def by blast
  have s: "sorted_wrt above (before fs @ inorder l @ x # inorder r @ behind fs)"
    using assms by (simp add: tree_ok_def ordered_def)
  have irr: "\<not> above x x" using cmp_zero [of "key x" "key x"] by (simp add: above_def)
  have "ordered t'" using s t'(3) by (auto simp: ordered_def sorted_wrt_append)
  moreover have "x \<notin> set (inorder t')" using s irr t'(3) by (auto simp: sorted_wrt_append)
  ultimately show ?thesis using t' by (intro exI [of _ t']) (auto simp: tree_ok_def)
qed

end

section \<open>Walking visits the elements in order\<close>

text \<open>\<open>node_at u gs pre x post\<close>: the place \<open>(u, gs)\<close> is the node \<open>x\<close>, with the elements
  \<open>pre\<close> before it and \<open>post\<close> behind it.\<close>

definition node_at :: "'a rbt \<Rightarrow> 'a frame list \<Rightarrow> 'a list \<Rightarrow> 'a \<Rightarrow> 'a list \<Rightarrow> bool" where
  "node_at u gs pre x post \<longleftrightarrow> (\<exists>l c r. u = Nd l c x r \<and> pre = before gs @ inorder l \<and>
     post = inorder r @ behind gs)"

lemma climb_right_next:
  "case climb_right t fs of
     None \<Rightarrow> behind fs = []
   | Some (u, gs) \<Rightarrow> zip_up u gs = zip_up t fs \<and>
       (\<exists>y post. behind fs = y # post \<and> node_at u gs (before fs @ inorder t) y post)"
  by (induction t fs rule: climb_right.induct) (auto simp: node_at_def split: option.splits)

lemma leftmost_at:
  "leftmost (Nd l c x r) fs = (u, gs) \<Longrightarrow>
   \<exists>y post. inorder (Nd l c x r) @ behind fs = y # post \<and> node_at u gs (before fs) y post"
proof -
  assume lm: "leftmost (Nd l c x r) fs = (u, gs)"
  obtain c' y r' hs where u: "u = Nd Nil c' y r'" "gs = hs @ fs" "before hs = []"
    using leftmost_Nd [OF lm] by blast
  have "inorder (zip_up u gs) = inorder (zip_up (Nd l c x r) fs)" using zip_leftmost [OF lm] by simp
  then show ?thesis using u by (auto simp: node_at_def)
qed

lemma node_next_at:
  assumes "node_at t fs pre x post"
  shows "case hev_rbtree_node_next t fs of
      None \<Rightarrow> post = []
    | Some (u, gs) \<Rightarrow> zip_up u gs = zip_up t fs \<and>
        (\<exists>y post'. post = y # post' \<and> node_at u gs (pre @ [x]) y post')"
proof -
  obtain l c r where t: "t = Nd l c x r" "pre = before fs @ inorder l" "post = inorder r @ behind fs"
    using assms by (auto simp: node_at_def)
  show ?thesis
  proof (cases r)
    case Nil
    then show ?thesis using t climb_right_next [of fs t] by (auto split: option.splits)
  next
    case (Nd rl rc rx rr)
    obtain u gs where lm: "leftmost r (RightOf l c x # fs) = (u, gs)" by fastforce
    then show ?thesis
      using t Nd zip_leftmost [OF lm] leftmost_at [of rl rc rx rr "RightOf l c x # fs" u gs] by auto
  qed
qed

lemma climb_left_prev:
  "case climb_left t fs of
     None \<Rightarrow> before fs = []
   | Some (u, gs) \<Rightarrow> zip_up u gs = zip_up t fs \<and>
       (\<exists>y pre. before fs = pre @ [y] \<and> node_at u gs pre y (inorder t @ behind fs))"
  by (induction t fs rule: climb_left.induct) (auto simp: node_at_def split: option.splits)

lemma rightmost_at:
  "rightmost (Nd l c x r) fs = (u, gs) \<Longrightarrow>
   \<exists>y pre. before fs @ inorder (Nd l c x r) = pre @ [y] \<and> node_at u gs pre y (behind fs)"
proof (induction r arbitrary: l c x fs)
  case Nil
  then show ?case by (auto simp: node_at_def)
next
  case (Nd rl rc rx rr)
  from Nd.IH(2) [of rl rc rx "RightOf l c x # fs"] Nd.prems show ?case by simp
qed

lemma node_prev_at:
  assumes "node_at t fs pre x post"
  shows "case hev_rbtree_node_prev t fs of
      None \<Rightarrow> pre = []
    | Some (u, gs) \<Rightarrow> zip_up u gs = zip_up t fs \<and>
        (\<exists>y pre'. pre = pre' @ [y] \<and> node_at u gs pre' y (x # post))"
proof -
  obtain l c r where t: "t = Nd l c x r" "pre = before fs @ inorder l" "post = inorder r @ behind fs"
    using assms by (auto simp: node_at_def)
  show ?thesis
  proof (cases l)
    case Nil
    then show ?thesis using t climb_left_prev [of fs t] by (auto split: option.splits)
  next
    case (Nd ll lc lx lr)
    obtain u gs where rm: "rightmost l (LeftOf c x r # fs) = (u, gs)" by fastforce
    then show ?thesis
      using t Nd zip_rightmost [OF rm] rightmost_at [of ll lc lx lr "LeftOf c x r # fs" u gs] by auto
  qed
qed

section \<open>Theorems\<close>

text \<open>Linking a new node at the empty place a search ended at and rebalancing never
  dereferences null, keeps the red-black rules, and puts the new element exactly at that place in
  the order of the elements.\<close>

lemma rbtree_insert:
  assumes "rbt_inv t" "descend cmp t [] = (Nil, fs)"
  shows "inorder t = before fs @ behind fs \<and>
    (\<exists>t'. hev_rbtree_insert_color (hev_rbtree_node_link x) fs = Ret t' \<and> rbt_inv t' \<and>
      inorder t' = before fs @ x # behind fs)"
proof -
  have t: "zip_up Nil fs = t" using zip_descend [OF assms(2)] by simp
  then have "inorder t = before fs @ behind fs" by auto
  then show ?thesis using insert_inv [of fs x] assms(1) t by simp
qed

lemma rbtree_insert_example:
  "\<exists>t'. hev_rbtree_insert_color (hev_rbtree_node_link (5::int)) [RightOf Nil Black 7] = Ret t' \<and> rbt_inv t' \<and>
    inorder t' = [7, 5]"
proof -
  have "rbt_inv (Nd Nil Black (7::int) Nil)" by (auto simp: rbt_inv_def)
  then show ?thesis
    using rbtree_insert [of "Nd Nil Black (7::int) Nil" "\<lambda>x. x - 5" "[RightOf Nil Black 7]" 5] by simp
qed

text \<open>Erasing a node of a valid tree never dereferences null, keeps the red-black rules, and
  removes exactly this element from the order.\<close>

lemma rbtree_erase:
  assumes "rbt_inv (zip_up (Nd l c x r) fs)"
  shows "\<exists>t'. hev_rbtree_erase (Nd l c x r) fs = Ret t' \<and> rbt_inv t' \<and>
    inorder t' = before fs @ inorder l @ inorder r @ behind fs"
  by (rule erase_inv [OF assms])

definition demo_tree :: "int rbt" where
  "demo_tree = Nd (Nd Nil Black 9 Nil) Black 7 (Nd Nil Black 5 Nil)"

lemma rbtree_erase_example:
  "\<exists>t'. hev_rbtree_erase (Nd Nil Black 9 Nil) [LeftOf Black 7 (Nd Nil Black 5 Nil)] = Ret t' \<and> rbt_inv t' \<and>
    inorder t' = [7, 5 :: int]"
proof -
  have "rbt_inv demo_tree" by (auto simp: rbt_inv_def demo_tree_def)
  then show ?thesis
    using rbtree_erase [of Nil Black "9::int" Nil "[LeftOf Black 7 (Nd Nil Black 5 Nil)]"]
    by (simp add: demo_tree_def)
qed

text \<open>A valid tree with \<open>n\<close> elements has height at most twice the logarithm of \<open>n + 1\<close>, plus
  one: every search and every rebalancing is a walk of logarithmic length.\<close>

lemma rbtree_height:
  assumes "rbt_inv t"
  shows "2 ^ (height t div 2) \<le> Suc (length (inorder t))"
  by (rule inv_height [OF assms])

lemma rbtree_height_example: "rbt_inv demo_tree \<and> (2::nat) ^ (height demo_tree div 2) \<le> 4"
proof -
  have "rbt_inv demo_tree" by (auto simp: rbt_inv_def demo_tree_def)
  then show ?thesis using rbtree_height [of demo_tree] by (simp add: demo_tree_def)
qed

text \<open>Iterating \<open>hev_rbtree_node_next\<close> from \<open>hev_rbtree_first\<close>.\<close>

fun walk_next :: "nat \<Rightarrow> ('a rbt \<times> 'a frame list) option \<Rightarrow> 'a list" where
  "walk_next 0 p = []"
| "walk_next (Suc n) p =
     (case p of
        Some (Nd l c x r, fs) \<Rightarrow> x # walk_next n (hev_rbtree_node_next (Nd l c x r) fs)
      | _ \<Rightarrow> [])"

lemma walk_next_at:
  "node_at t fs pre x post \<Longrightarrow> length post < n \<Longrightarrow> walk_next n (Some (t, fs)) = x # post"
proof (induction n arbitrary: t fs pre x post)
  case (Suc n)
  obtain l c r where t: "t = Nd l c x r" using Suc.prems(1) by (auto simp: node_at_def)
  show ?case
  proof (cases "hev_rbtree_node_next t fs")
    case None
    then show ?thesis using node_next_at [OF Suc.prems(1)] t by (cases n) simp_all
  next
    case (Some p)
    obtain u gs where p: "p = (u, gs)" by fastforce
    obtain y post' where n: "post = y # post'" "node_at u gs (pre @ [x]) y post'"
      using node_next_at [OF Suc.prems(1)] Some p by auto
    have "walk_next n (Some (u, gs)) = y # post'" by (rule Suc.IH [OF n(2)]) (use Suc.prems(2) n in simp)
    then show ?thesis using Some p n t by simp
  qed
qed simp

text \<open>Walking from the first node with \<open>next\<close> until there is none visits every element
  once, in order; \<open>prev\<close> undoes \<open>next\<close>. As many steps as there are elements are enough.\<close>

lemma rbtree_walk:
  "walk_next (Suc (length (inorder t))) (hev_rbtree_first t) = inorder t \<and>
   (\<forall>u gs. node_at u gs pre x (y # post) \<longrightarrow>
      (\<exists>v hs. hev_rbtree_node_next u gs = Some (v, hs) \<and> node_at v hs (pre @ [x]) y post \<and>
        (\<exists>w ks. hev_rbtree_node_prev v hs = Some (w, ks) \<and> node_at w ks pre x (y # post) \<and>
          zip_up w ks = zip_up u gs)))"
proof (intro conjI allI impI)
  show "walk_next (Suc (length (inorder t))) (hev_rbtree_first t) = inorder t"
  proof (cases t)
    case (Nd l c x r)
    obtain u gs where lm: "leftmost (Nd l c x r) [] = (u, gs)" by fastforce
    obtain y post where "inorder t = y # post" "node_at u gs [] y post"
      using leftmost_at [OF lm] Nd by auto
    then show ?thesis using walk_next_at [of u gs "[]" y post "Suc (length (inorder t))"] lm Nd
      by (simp add: hev_rbtree_first_def)
  qed (simp add: hev_rbtree_first_def)
next
  fix u gs assume u: "node_at u gs pre x (y # post)"
  obtain v hs where v: "hev_rbtree_node_next u gs = Some (v, hs)" "node_at v hs (pre @ [x]) y post"
      "zip_up v hs = zip_up u gs"
    using node_next_at [OF u] by (auto split: option.splits)
  obtain w ks where "hev_rbtree_node_prev v hs = Some (w, ks)" "node_at w ks pre x (y # post)"
      "zip_up w ks = zip_up v hs"
    using node_prev_at [OF v(2)] by (auto split: option.splits)
  then show "\<exists>v hs. hev_rbtree_node_next u gs = Some (v, hs) \<and> node_at v hs (pre @ [x]) y post \<and>
        (\<exists>w ks. hev_rbtree_node_prev v hs = Some (w, ks) \<and> node_at w ks pre x (y # post) \<and>
          zip_up w ks = zip_up u gs)"
    using v by auto
qed

lemma rbtree_walk_example:
  "walk_next 4 (hev_rbtree_first demo_tree) = [9, 7, 5] \<and>
   (\<exists>v hs. hev_rbtree_node_next (Nd Nil Black 9 Nil) [LeftOf Black 7 (Nd Nil Black 5 Nil)] = Some (v, hs) \<and>
     node_at v hs [9] 7 [5 :: int])"
  using rbtree_walk [of demo_tree "[]" "9::int" 7 "[5]"]
  by (auto simp: demo_tree_def node_at_def eval_nat_numeral)

end
