(* ===== verification/RingBuffer.thy ===== *)
theory RingBuffer
  imports Prelude
begin

text \<open>
  The two byte buffers of the data path. \<open>src/misc/hev-ring-buffer.c\<close> is the buffer of a TCP
  session: bytes are written by \<open>readv\<close>, handed to lwIP (which keeps pointers into the
  buffer) and released when the peer acknowledges them. \<open>hev-circular-buffer.c\<close> of the task
  system is the buffer of the socket-to-socket splice. Both models keep the C fields at the
  width of \<open>size_t\<close> and the storage as a list of bytes. The locales state the contract the
  splice loops rely on: a byte channel, and a byte channel with acknowledgement.
\<close>

section \<open>Circular segments of a list\<close>

definition cyc :: "'a list \<Rightarrow> nat \<Rightarrow> nat \<Rightarrow> 'a list" where
  "cyc d s n = map (\<lambda>i. d ! ((s + i) mod length d)) [0..<n]"

lemma length_cyc [simp]: "length (cyc d s n) = n"
  by (simp add: cyc_def)

lemma nth_cyc: "i < n \<Longrightarrow> cyc d s n ! i = d ! ((s + i) mod length d)"
  by (simp add: cyc_def)

lemma cyc_0 [simp]: "cyc d s 0 = []"
  by (simp add: cyc_def)

lemma cyc_add: "cyc d s (m + n) = cyc d s m @ cyc d (s + m) n"
  by (rule nth_equalityI) (auto simp: nth_cyc nth_append add.assoc)

lemma cyc_cong_mod: "s mod length d = s' mod length d \<Longrightarrow> cyc d s n = cyc d s' n"
  by (rule nth_equalityI) (auto simp: nth_cyc intro!: arg_cong [where f = "(!) d"] mod_add_cong)

lemma drop_cyc: "m \<le> n \<Longrightarrow> drop m (cyc d s n) = cyc d (s + m) (n - m)"
  by (rule nth_equalityI) (auto simp: nth_cyc add.assoc)

lemma take_cyc: "m \<le> n \<Longrightarrow> take m (cyc d s n) = cyc d s m"
  by (rule nth_equalityI) (auto simp: nth_cyc)

lemma cyc_segs:
  assumes "s < length d" "n \<le> length d"
  shows "cyc d s n =
    (if s + n \<le> length d then seg s n d
     else seg s (length d - s) d @ seg 0 (n - (length d - s)) d)"
proof (cases "s + n \<le> length d")
  case True
  then show ?thesis
    by (auto intro!: nth_equalityI simp: nth_cyc nth_seg)
next
  case False
  have "cyc d s n ! i = (seg s (length d - s) d @ seg 0 (n - (length d - s)) d) ! i"
    if "i < n" for i
  proof (cases "s + i < length d")
    case True
    then have "i < length d - s" by simp
    then show ?thesis using that assms True by (simp add: nth_cyc nth_append nth_seg)
  next
    case b: False
    then have "(s + i) mod length d = s + i - length d"
      using that assms by (simp add: mod_if)
    moreover have "\<not> i < length d - s" "s + i - length d = i + s - length d"
      using b by simp_all
    ultimately show ?thesis using that assms
      by (simp add: nth_cyc nth_append nth_seg)
  qed
  then show ?thesis using False assms
    by (auto intro!: nth_equalityI simp del: seg_0)
qed

section \<open>Scatter and gather over an I/O vector\<close>

text \<open>An I/O vector names parts of the buffer by offset and length. \<open>writev\<close> gathers them in
  order; \<open>readv\<close> fills them in order with the bytes it delivers.\<close>

type_synonym iovec = "size_t \<times> size_t"

fun iov_gather :: "iovec list \<Rightarrow> 'a list \<Rightarrow> 'a list" where
  "iov_gather [] d = []"
| "iov_gather ((b, l) # v) d = seg (unat b) (unat l) d @ iov_gather v d"

fun iov_scatter :: "iovec list \<Rightarrow> byte list \<Rightarrow> byte list \<Rightarrow> byte list" where
  "iov_scatter [] bs d = d"
| "iov_scatter ((b, l) # v) bs d =
     iov_scatter v (drop (unat l) bs) (put (unat b) (take (unat l) bs) d)"

fun iov_space :: "iovec list \<Rightarrow> nat" where
  "iov_space [] = 0"
| "iov_space ((b, l) # v) = unat l + iov_space v"

definition circ_iov :: "size_t \<Rightarrow> size_t \<Rightarrow> size_t \<Rightarrow> iovec list" where
  "circ_iov mx p n = (if n \<le> mx - p then [(p, n)] else [(p, mx - p), (0, n - (mx - p))])"

lemma iov_gather_circ:
  assumes "unat mx = length d" "p < mx" "n \<le> mx"
  shows "iov_gather (circ_iov mx p n) d = cyc d (unat p) (unat n)"
proof -
  have p: "unat p < length d" and n: "unat n \<le> length d"
    using assms by (simp_all flip: assms(1) add: word_less_nat_alt word_le_nat_alt)
  have up: "unat (mx - p) = length d - unat p"
    using assms p by (simp add: unat_sub word_le_nat_alt)
  show ?thesis
  proof (cases "n \<le> mx - p")
    case True
    then have "unat p + unat n \<le> length d" using up p by (simp add: word_le_nat_alt)
    then show ?thesis using True p n by (simp add: circ_iov_def cyc_segs)
  next
    case False
    then have "\<not> unat p + unat n \<le> length d" using up p by (simp add: word_le_nat_alt)
    moreover have "unat (n - (mx - p)) = unat n - (length d - unat p)"
      using False up by (simp add: unat_sub)
    ultimately show ?thesis using False p n up by (simp add: circ_iov_def cyc_segs)
  qed
qed

lemma iov_space_circ:
  assumes "p < mx" "n \<le> mx"
  shows "iov_space (circ_iov mx p n) = unat n"
proof (cases "n \<le> mx - p")
  case True
  then show ?thesis by (simp add: circ_iov_def)
next
  case False
  then have "mx - p \<le> n" by simp
  then show ?thesis using False
    by (simp add: circ_iov_def unat_sub word_le_nat_alt)
qed

lemma length_iov_scatter_circ:
  assumes "unat mx = length d" "p < mx" "n \<le> mx" "length bs \<le> unat n"
  shows "length (iov_scatter (circ_iov mx p n) bs d) = length d"
proof -
  have p: "unat p < length d" and n: "unat n \<le> length d"
    using assms by (simp_all flip: assms(1) add: word_less_nat_alt word_le_nat_alt)
  have up: "unat (mx - p) = length d - unat p"
    using assms p by (simp add: unat_sub word_le_nat_alt)
  show ?thesis using up p n assms
    by (auto simp: circ_iov_def word_le_nat_alt put_def unat_sub)
qed

text \<open>What \<open>readv\<close> leaves in the buffer: position \<open>p + i\<close>, counted around the ring, holds the
  \<open>i\<close>-th delivered byte, and every later position keeps its old byte.\<close>

lemma nth_iov_scatter_circ:
  assumes "unat mx = length d" "p < mx" "n \<le> mx" "length bs \<le> unat n" "i < length d"
  shows "iov_scatter (circ_iov mx p n) bs d ! ((unat p + i) mod length d) =
    (if i < length bs then bs ! i else d ! ((unat p + i) mod length d))"
proof -
  have p: "unat p < length d" and n: "unat n \<le> length d"
    using assms by (simp_all flip: assms(1) add: word_less_nat_alt word_le_nat_alt)
  have up: "unat (mx - p) = length d - unat p"
    using assms p by (simp add: unat_sub word_le_nat_alt)
  show ?thesis
  proof (cases "unat p + i < length d")
    case True
    have "iov_scatter (circ_iov mx p n) bs d ! (unat p + i) =
        (if i < length bs then bs ! i else d ! (unat p + i))"
    proof (cases "n \<le> mx - p")
      case le: True
      then have "length bs \<le> length d - unat p" using up assms(4) by (simp add: word_le_nat_alt)
      then show ?thesis using le True p assms(4)
        by (simp add: circ_iov_def nth_put)
    next
      case False
      let ?k = "length d - unat p"
      have l0: "length (drop ?k bs) \<le> unat p" using assms(4) n by simp
      show ?thesis using False True p up l0
        by (auto simp: circ_iov_def nth_put)
    qed
    then show ?thesis using True by simp
  next
    case False
    then have m: "(unat p + i) mod length d = unat p + i - length d"
      using assms(5) p by (simp add: mod_if)
    let ?k = "length d - unat p"
    have "iov_scatter (circ_iov mx p n) bs d ! (unat p + i - length d) =
        (if i < length bs then bs ! i else d ! (unat p + i - length d))"
    proof (cases "n \<le> mx - p")
      case le: True
      then have "length bs \<le> ?k" using up assms(4) by (simp add: word_le_nat_alt)
      moreover have "\<not> unat p \<le> unat p + i - length d" "\<not> i < length bs"
        using False assms(5) p calculation by linarith+
      ultimately show ?thesis using le False p assms(4,5)
        by (simp add: circ_iov_def nth_put)
    next
      case gt: False
      have un: "unat (n - (mx - p)) = unat n - ?k"
        using gt up by (simp add: unat_sub)
      let ?j = "unat p + i - length d" and ?d = "put (unat p) (take ?k bs) d"
      have l0: "length (drop ?k bs) \<le> unat n - ?k" using assms(4) by simp
      have ld: "length ?d = length d" using p by simp
      have "put 0 (drop ?k bs) ?d ! ?j = (if ?j < length (drop ?k bs) then drop ?k bs ! ?j else ?d ! ?j)"
        using ld n assms(4,5) p by (subst nth_put) auto
      moreover have "?d ! ?j = d ! ?j"
        using p assms(5) False by (subst nth_put) auto
      moreover have "?j < length (drop ?k bs) \<longleftrightarrow> i < length bs" "?k + ?j = i"
        using False p by auto
      ultimately show ?thesis using gt p up un l0
        by (simp add: circ_iov_def add.commute)
    qed
    then show ?thesis using m by simp
  qed
qed

lemma cyc_scatter_written:
  assumes "unat mx = length d" "p < mx" "n \<le> mx" "length bs \<le> unat n"
  shows "cyc (iov_scatter (circ_iov mx p n) bs d) (unat p) (length bs) = bs"
proof -
  have "unat n \<le> length d" using assms by (simp flip: assms(1) add: word_le_nat_alt)
  then show ?thesis using assms
    by (auto intro!: nth_equalityI simp: nth_cyc length_iov_scatter_circ nth_iov_scatter_circ)
qed

lemma cyc_scatter_kept:
  assumes "unat mx = length d" "p < mx" "n \<le> mx" "length bs \<le> unat n"
    and "unat n \<le> k" "k + m \<le> length d"
  shows "cyc (iov_scatter (circ_iov mx p n) bs d) (unat p + k) m = cyc d (unat p + k) m"
  using assms
  by (auto intro!: nth_equalityI simp: nth_cyc length_iov_scatter_circ nth_iov_scatter_circ
      add.assoc)

section \<open>The contract of a byte buffer\<close>

text \<open>A channel takes bytes up to its free room, shows what is pending and forgets what was
  consumed. \<open>chan_run\<close> performs a schedule of such operations and collects what was put in and
  what was taken out.\<close>

datatype chan_op = Push "byte list" | Pop nat

fun chan_run :: "(byte list \<Rightarrow> 'b \<Rightarrow> 'b) \<Rightarrow> ('b \<Rightarrow> byte list) \<Rightarrow> (nat \<Rightarrow> 'b \<Rightarrow> 'b) \<Rightarrow>
    chan_op list \<Rightarrow> 'b \<Rightarrow> byte list \<times> byte list \<times> 'b" where
  "chan_run push peek pop [] b = ([], [], b)"
| "chan_run push peek pop (Push bs # ops) b =
     (case chan_run push peek pop ops (push bs b) of (i, out, b') \<Rightarrow> (bs @ i, out, b'))"
| "chan_run push peek pop (Pop n # ops) b =
     (case chan_run push peek pop ops (pop n b) of (i, out, b') \<Rightarrow> (i, take n (peek b) @ out, b'))"

text \<open>The schedules a caller may perform: \<open>readv\<close> never delivers more than the room offered,
  and no more is consumed than was shown.\<close>

fun chan_ok :: "('b \<Rightarrow> nat) \<Rightarrow> (byte list \<Rightarrow> 'b \<Rightarrow> 'b) \<Rightarrow> ('b \<Rightarrow> byte list) \<Rightarrow> (nat \<Rightarrow> 'b \<Rightarrow> 'b) \<Rightarrow>
    chan_op list \<Rightarrow> 'b \<Rightarrow> bool" where
  "chan_ok room push peek pop [] b = True"
| "chan_ok room push peek pop (Push bs # ops) b =
     (length bs \<le> room b \<and> chan_ok room push peek pop ops (push bs b))"
| "chan_ok room push peek pop (Pop n # ops) b =
     (n \<le> length (peek b) \<and> chan_ok room push peek pop ops (pop n b))"

text \<open>With acknowledgement a third operation releases consumed bytes; \<open>ack_run\<close> collects what was
  put in and what was released.\<close>

datatype ack_op = Put "byte list" | Take nat | Ack nat

fun ack_run :: "(byte list \<Rightarrow> 'b \<Rightarrow> 'b) \<Rightarrow> (nat \<Rightarrow> 'b \<Rightarrow> 'b) \<Rightarrow> ('b \<Rightarrow> byte list) \<Rightarrow> (nat \<Rightarrow> 'b \<Rightarrow> 'b) \<Rightarrow>
    ack_op list \<Rightarrow> 'b \<Rightarrow> byte list \<times> byte list \<times> 'b" where
  "ack_run push pop held release [] b = ([], [], b)"
| "ack_run push pop held release (Put bs # ops) b =
     (case ack_run push pop held release ops (push bs b) of (i, a, b') \<Rightarrow> (bs @ i, a, b'))"
| "ack_run push pop held release (Take n # ops) b = ack_run push pop held release ops (pop n b)"
| "ack_run push pop held release (Ack n # ops) b =
     (case ack_run push pop held release ops (release n b) of (i, a, b') \<Rightarrow> (i, take n (held b) @ a, b'))"

fun ack_ok :: "('b \<Rightarrow> nat) \<Rightarrow> (byte list \<Rightarrow> 'b \<Rightarrow> 'b) \<Rightarrow> ('b \<Rightarrow> byte list) \<Rightarrow> (nat \<Rightarrow> 'b \<Rightarrow> 'b) \<Rightarrow>
    ('b \<Rightarrow> byte list) \<Rightarrow> (nat \<Rightarrow> 'b \<Rightarrow> 'b) \<Rightarrow> ack_op list \<Rightarrow> 'b \<Rightarrow> bool" where
  "ack_ok room push peek pop held release [] b = True"
| "ack_ok room push peek pop held release (Put bs # ops) b =
     (length bs \<le> room b \<and> ack_ok room push peek pop held release ops (push bs b))"
| "ack_ok room push peek pop held release (Take n # ops) b =
     (n \<le> length (peek b) \<and> ack_ok room push peek pop held release ops (pop n b))"
| "ack_ok room push peek pop held release (Ack n # ops) b =
     (n \<le> length (held b) \<and> ack_ok room push peek pop held release ops (release n b))"

locale byte_channel =
  fixes inv :: "'b \<Rightarrow> bool"
    and room :: "'b \<Rightarrow> nat"
    and push :: "byte list \<Rightarrow> 'b \<Rightarrow> 'b"
    and peek :: "'b \<Rightarrow> byte list"
    and pop :: "nat \<Rightarrow> 'b \<Rightarrow> 'b"
  assumes push_inv: "inv b \<Longrightarrow> length bs \<le> room b \<Longrightarrow> inv (push bs b)"
    and push_peek: "inv b \<Longrightarrow> length bs \<le> room b \<Longrightarrow> peek (push bs b) = peek b @ bs"
    and pop_inv: "inv b \<Longrightarrow> n \<le> length (peek b) \<Longrightarrow> inv (pop n b)"
    and pop_peek: "inv b \<Longrightarrow> n \<le> length (peek b) \<Longrightarrow> peek (pop n b) = drop n (peek b)"
begin

lemma run_inv:
  "inv b \<Longrightarrow> chan_ok room push peek pop ops b \<Longrightarrow>
   chan_run push peek pop ops b = (i, out, b') \<Longrightarrow> inv b'"
proof (induction ops arbitrary: b i out)
  case (Cons op ops)
  show ?case
  proof (cases op)
    case (Push bs)
    with Cons.prems have "inv (push bs b)" "chan_ok room push peek pop ops (push bs b)"
      by (simp_all add: push_inv)
    moreover obtain i' where "chan_run push peek pop ops (push bs b) = (i', out, b')"
      using Cons.prems(3) Push by (auto split: prod.splits)
    ultimately show ?thesis by (rule Cons.IH)
  next
    case (Pop n)
    with Cons.prems have "inv (pop n b)" "chan_ok room push peek pop ops (pop n b)"
      by (simp_all add: pop_inv)
    moreover obtain out' where "chan_run push peek pop ops (pop n b) = (i, out', b')"
      using Cons.prems(3) Pop by (auto split: prod.splits)
    ultimately show ?thesis by (rule Cons.IH)
  qed
qed simp

text \<open>First in, first out: what came out, followed by what is still pending, is what was
  pending at the start followed by everything that was put in.\<close>

lemma run_fifo:
  "inv b \<Longrightarrow> chan_ok room push peek pop ops b \<Longrightarrow>
   chan_run push peek pop ops b = (i, out, b') \<Longrightarrow> out @ peek b' = peek b @ i"
proof (induction ops arbitrary: b i out)
  case Nil
  then show ?case by simp
next
  case (Cons op ops)
  show ?case
  proof (cases op)
    case (Push bs)
    with Cons.prems obtain i' where r: "chan_run push peek pop ops (push bs b) = (i', out, b')"
      and i: "i = bs @ i'" by (auto split: prod.splits)
    from Push Cons.prems have "inv (push bs b)" "chan_ok room push peek pop ops (push bs b)"
      by (auto simp: push_inv)
    from Cons.IH [OF this r] i Push Cons.prems show ?thesis by (simp add: push_peek)
  next
    case (Pop n)
    with Cons.prems obtain out' where r: "chan_run push peek pop ops (pop n b) = (i, out', b')"
      and out: "out = take n (peek b) @ out'" by (auto split: prod.splits)
    from Pop Cons.prems have "inv (pop n b)" "chan_ok room push peek pop ops (pop n b)"
      by (auto simp: pop_inv)
    from Cons.IH [OF this r] Pop Cons.prems have "out' @ peek b' = drop n (peek b) @ i"
      by (simp add: pop_peek)
    then show ?thesis using out by (metis append_assoc append_take_drop_id)
  qed
qed

end

text \<open>A channel whose consumed bytes stay in use until they are released: the consumer holds
  pointers to them.\<close>

locale acked_channel = byte_channel inv room push peek pop
  for inv :: "'b \<Rightarrow> bool" and room :: "'b \<Rightarrow> nat" and push :: "byte list \<Rightarrow> 'b \<Rightarrow> 'b"
    and peek :: "'b \<Rightarrow> byte list" and pop :: "nat \<Rightarrow> 'b \<Rightarrow> 'b" +
  fixes held :: "'b \<Rightarrow> byte list"
    and release :: "nat \<Rightarrow> 'b \<Rightarrow> 'b"
  assumes push_held: "inv b \<Longrightarrow> length bs \<le> room b \<Longrightarrow> held (push bs b) = held b"
    and pop_held: "inv b \<Longrightarrow> n \<le> length (peek b) \<Longrightarrow> held (pop n b) = held b @ take n (peek b)"
    and release_inv: "inv b \<Longrightarrow> n \<le> length (held b) \<Longrightarrow> inv (release n b)"
    and release_held: "inv b \<Longrightarrow> n \<le> length (held b) \<Longrightarrow> held (release n b) = drop n (held b)"
    and release_peek: "inv b \<Longrightarrow> n \<le> length (held b) \<Longrightarrow> peek (release n b) = peek b"
begin

text \<open>Everything in the buffer is a suffix of the stream that went in: nothing is lost,
  repeated, reordered, or overwritten before its release.\<close>

lemma push_stream:
  "inv b \<Longrightarrow> length bs \<le> room b \<Longrightarrow>
   held (push bs b) @ peek (push bs b) = (held b @ peek b) @ bs"
  by (simp add: push_held push_peek)

lemma pop_stream:
  "inv b \<Longrightarrow> n \<le> length (peek b) \<Longrightarrow> held (pop n b) @ peek (pop n b) = held b @ peek b"
  by (simp add: pop_held pop_peek)

lemma release_stream:
  "inv b \<Longrightarrow> n \<le> length (held b) \<Longrightarrow>
   take n (held b) @ held (release n b) @ peek (release n b) = held b @ peek b"
  by (simp add: release_held release_peek flip: append_assoc)

lemma ack_run_stream:
  "inv b \<Longrightarrow> ack_ok room push peek pop held release ops b \<Longrightarrow>
   ack_run push pop held release ops b = (i, a, b') \<Longrightarrow>
   inv b' \<and> a @ held b' @ peek b' = held b @ peek b @ i"
proof (induction ops arbitrary: b i a)
  case (Cons op ops)
  show ?case
  proof (cases op)
    case (Put bs)
    with Cons.prems obtain i' where r: "ack_run push pop held release ops (push bs b) = (i', a, b')"
      and i: "i = bs @ i'" by (auto split: prod.splits)
    from Put Cons.prems Cons.IH [OF _ _ r] show ?thesis by (simp add: i push_inv push_held push_peek)
  next
    case (Take n)
    with Cons.prems have r: "ack_run push pop held release ops (pop n b) = (i, a, b')" by simp
    from Take Cons.prems Cons.IH [OF _ _ r] have "inv b'"
      and "a @ held b' @ peek b' = (held (pop n b) @ peek (pop n b)) @ i"
      by (simp_all add: pop_inv)
    then show ?thesis using Take Cons.prems by (simp add: pop_stream)
  next
    case (Ack n)
    with Cons.prems obtain a' where r: "ack_run push pop held release ops (release n b) = (i, a', b')"
      and a: "a = take n (held b) @ a'" by (auto split: prod.splits)
    from Ack Cons.prems Cons.IH [OF _ _ r] have "inv b'"
      and "a' @ held b' @ peek b' = held (release n b) @ peek (release n b) @ i"
      by (simp_all add: release_inv)
    then show ?thesis using a Ack Cons.prems release_stream [of b n] by simp
  qed
qed simp

end

section \<open>The ring buffer of a TCP session\<close>

record ring =
  rp :: size_t
  wp :: size_t
  rda_size :: size_t
  use_size :: size_t
  max_size :: size_t
  rdata :: "byte list"

text \<open>\<open>mem\<close> is the uninitialised storage that \<open>alloca\<close> returns.\<close>

definition hev_ring_buffer_alloca :: "size_t \<Rightarrow> byte list \<Rightarrow> ring" where
  "hev_ring_buffer_alloca s mem =
     \<lparr>rp = 0, wp = 0, rda_size = 0, use_size = 0, max_size = s, rdata = mem\<rparr>"

definition hev_ring_buffer_get_max_size :: "ring \<Rightarrow> size_t" where
  "hev_ring_buffer_get_max_size self = max_size self"

definition hev_ring_buffer_get_use_size :: "ring \<Rightarrow> size_t" where
  "hev_ring_buffer_get_use_size self = use_size self"

text \<open>The returned vector has 0, 1 or 2 entries, the value the C function returns.\<close>

definition hev_ring_buffer_reading :: "ring \<Rightarrow> iovec list" where
  "hev_ring_buffer_reading self =
     (if rda_size self = 0 then []
      else let upper_size = max_size self - rp self in
        if rda_size self \<le> upper_size then [(rp self, rda_size self)]
        else [(rp self, upper_size), (0, rda_size self - upper_size)])"

definition hev_ring_buffer_read_finish :: "size_t \<Rightarrow> ring \<Rightarrow> ring" where
  "hev_ring_buffer_read_finish sz self =
     self\<lparr>rp := (rp self + sz) mod max_size self, rda_size := rda_size self - sz\<rparr>"

definition hev_ring_buffer_read_release :: "size_t \<Rightarrow> ring \<Rightarrow> ring" where
  "hev_ring_buffer_read_release sz self =
     (let self = self\<lparr>use_size := use_size self - sz\<rparr> in
      if use_size self = 0 then self\<lparr>rp := 0, wp := 0\<rparr> else self)"

definition hev_ring_buffer_writing :: "ring \<Rightarrow> iovec list" where
  "hev_ring_buffer_writing self =
     (if use_size self = max_size self then []
      else let upper_size = max_size self - wp self; spc_size = max_size self - use_size self in
        if spc_size \<le> upper_size then [(wp self, spc_size)]
        else [(wp self, upper_size), (0, spc_size - upper_size)])"

definition hev_ring_buffer_write_finish :: "size_t \<Rightarrow> ring \<Rightarrow> ring" where
  "hev_ring_buffer_write_finish sz self =
     self\<lparr>wp := (wp self + sz) mod max_size self, use_size := use_size self + sz,
       rda_size := rda_size self + sz\<rparr>"

text \<open>One turn of the reader side of the splice loop, \<open>readv\<close> into the writing vector followed
  by \<open>hev_ring_buffer_write_finish\<close>.\<close>

definition ring_fill :: "byte list \<Rightarrow> ring \<Rightarrow> ring" where
  "ring_fill bs self =
     hev_ring_buffer_write_finish (of_nat (length bs))
       (self\<lparr>rdata := iov_scatter (hev_ring_buffer_writing self) bs (rdata self)\<rparr>)"

subsection \<open>Abstraction and invariant\<close>

definition ring_used :: "ring \<Rightarrow> byte list" where
  "ring_used r =
     cyc (rdata r) (unat (wp r) + unat (max_size r) - unat (use_size r)) (unat (use_size r))"

definition ring_held :: "ring \<Rightarrow> byte list" where
  "ring_held r = take (unat (use_size r) - unat (rda_size r)) (ring_used r)"

definition ring_pending :: "ring \<Rightarrow> byte list" where
  "ring_pending r = drop (unat (use_size r) - unat (rda_size r)) (ring_used r)"

definition ring_room :: "ring \<Rightarrow> nat" where
  "ring_room r = unat (max_size r) - unat (use_size r)"

text \<open>\<open>tcp_buffer_size\<close> is a C \<open>int\<close>, so the capacity stays below half the address space and
  position sums do not wrap.\<close>

definition ring_inv :: "ring \<Rightarrow> bool" where
  "ring_inv r \<longleftrightarrow>
     0 < max_size r \<and> unat (max_size r) < 2 ^ 63 \<and> length (rdata r) = unat (max_size r) \<and>
     rp r < max_size r \<and> wp r < max_size r \<and>
     rda_size r \<le> use_size r \<and> use_size r \<le> max_size r \<and>
     unat (rp r) = (unat (wp r) + unat (max_size r) - unat (rda_size r)) mod unat (max_size r)"

lemma ring_inv_nat:
  assumes "ring_inv r"
  shows "unat (wp r) < length (rdata r)" "unat (rp r) < length (rdata r)"
    "unat (rda_size r) \<le> unat (use_size r)" "unat (use_size r) \<le> length (rdata r)"
    "length (rdata r) < 2 ^ 63" "unat (max_size r) = length (rdata r)"
    "unat (rp r) = (unat (wp r) + length (rdata r) - unat (rda_size r)) mod length (rdata r)"
  using assms by (simp_all add: ring_inv_def word_less_nat_alt word_le_nat_alt)

lemma ring_reading_circ:
  "hev_ring_buffer_reading r =
     (if rda_size r = 0 then [] else circ_iov (max_size r) (rp r) (rda_size r))"
  by (simp add: hev_ring_buffer_reading_def circ_iov_def Let_def)

lemma ring_writing_circ:
  "hev_ring_buffer_writing r =
     (if use_size r = max_size r then []
      else circ_iov (max_size r) (wp r) (max_size r - use_size r))"
  by (simp add: hev_ring_buffer_writing_def circ_iov_def Let_def)

subsection \<open>The operations on the abstraction\<close>

lemma ring_reading_gather:
  assumes "ring_inv r"
  shows "iov_gather (hev_ring_buffer_reading r) (rdata r) = ring_pending r"
proof -
  note n = ring_inv_nat [OF assms]
  let ?L = "length (rdata r)"
  have "ring_pending r =
      cyc (rdata r) (unat (wp r) + ?L - unat (use_size r) + (unat (use_size r) - unat (rda_size r)))
        (unat (rda_size r))"
    using n by (simp add: ring_pending_def ring_used_def drop_cyc)
  also have "\<dots> = cyc (rdata r) (unat (rp r)) (unat (rda_size r))"
    using n by (intro cyc_cong_mod) simp
  finally have p: "ring_pending r = cyc (rdata r) (unat (rp r)) (unat (rda_size r))" .
  show ?thesis
  proof (cases "rda_size r = 0")
    case True
    then show ?thesis using p by (simp add: ring_reading_circ)
  next
    case False
    have "rp r < max_size r" "rda_size r \<le> max_size r"
      using assms by (auto simp: ring_inv_def)
    then show ?thesis using p False n by (simp add: ring_reading_circ iov_gather_circ)
  qed
qed

lemma ring_room_writing:
  assumes "ring_inv r"
  shows "iov_space (hev_ring_buffer_writing r) = ring_room r"
proof (cases "use_size r = max_size r")
  case False
  from assms have "wp r < max_size r" "use_size r \<le> max_size r" by (simp_all add: ring_inv_def)
  moreover from this have "max_size r - use_size r \<le> max_size r"
    by (simp add: word_le_nat_alt unat_sub)
  ultimately show ?thesis using False
    by (simp add: ring_writing_circ iov_space_circ ring_room_def unat_sub)
qed (simp add: ring_writing_circ ring_room_def)

text \<open>The storage after \<open>readv\<close>: the used part is untouched and the new bytes follow it.\<close>

lemma ring_scatter:
  assumes inv: "ring_inv r" and len: "length bs \<le> ring_room r"
  defines "d \<equiv> iov_scatter (hev_ring_buffer_writing r) bs (rdata r)"
  shows "length d = length (rdata r)"
    and "cyc d (unat (wp r)) (length bs) = bs"
    and "cyc d (unat (wp r) + length (rdata r) - unat (use_size r)) (unat (use_size r)) = ring_used r"
proof -
  note n = ring_inv_nat [OF inv]
  have w: "wp r < max_size r" "max_size r - use_size r \<le> max_size r"
    "unat (max_size r - use_size r) = length (rdata r) - unat (use_size r)"
    using inv n by (simp_all add: ring_inv_def word_le_nat_alt unat_sub)
  have l: "length bs \<le> unat (max_size r - use_size r)"
    using len w n by (simp add: ring_room_def)
  show "length d = length (rdata r)"
    and "cyc d (unat (wp r)) (length bs) = bs"
    and "cyc d (unat (wp r) + length (rdata r) - unat (use_size r)) (unat (use_size r)) = ring_used r"
    using n w l len
      cyc_scatter_kept [of "max_size r" "rdata r" "wp r" "max_size r - use_size r" bs
        "length (rdata r) - unat (use_size r)" "unat (use_size r)"]
    by (auto simp: d_def ring_writing_circ length_iov_scatter_circ cyc_scatter_written ring_room_def
        ring_used_def)
qed

lemma unat_small: "n < 2 ^ 64 \<Longrightarrow> unat (of_nat n :: size_t) = n"
  by (simp add: unat_of_nat)

lemma back_mod:
  fixes w L n u :: nat
  assumes "w < L" "u + n \<le> L"
  shows "((w + n) mod L + L - (u + n)) mod L = (w + L - u) mod L"
proof (cases "w + n < L")
  case True
  then show ?thesis by simp
next
  case False
  then have "(w + n) mod L + L - (u + n) = w - u"
    using assms by (simp add: mod_if)
  moreover have "w + L - u = (w - u) + L" using False assms by simp
  ultimately show ?thesis by simp
qed

lemma ring_fill_used:
  assumes inv: "ring_inv r" and len: "length bs \<le> ring_room r"
  shows "ring_inv (ring_fill bs r)" "ring_used (ring_fill bs r) = ring_used r @ bs"
    "unat (use_size (ring_fill bs r)) = unat (use_size r) + length bs"
    "unat (rda_size (ring_fill bs r)) = unat (rda_size r) + length bs"
proof -
  note n = ring_inv_nat [OF inv] and sc = ring_scatter [OF inv len]
  let ?r = "ring_fill bs r" and ?L = "length (rdata r)" and ?n = "length bs"
  have nn: "?n \<le> ?L - unat (use_size r)" using len n by (simp add: ring_room_def)
  have un: "unat (of_nat ?n :: size_t) = ?n" using nn n by (intro unat_small) simp
  have wp: "unat (wp ?r) = (unat (wp r) + ?n) mod ?L"
    using n nn un
    by (simp add: ring_fill_def hev_ring_buffer_write_finish_def unat_mod unat_word_ariths)
  have use: "unat (use_size ?r) = unat (use_size r) + ?n"
    and rda: "unat (rda_size ?r) = unat (rda_size r) + ?n"
    using n nn un
    by (simp_all add: ring_fill_def hev_ring_buffer_write_finish_def unat_word_ariths)
  have same: "rp ?r = rp r" "max_size ?r = max_size r" "length (rdata ?r) = ?L"
    using sc by (simp_all add: ring_fill_def hev_ring_buffer_write_finish_def)
  have L0: "0 < ?L" using n by linarith
  have wlt: "(unat (wp r) + ?n) mod ?L < ?L" using L0 by simp
  note m = back_mod [of "unat (wp r)" ?L _ ?n]
  show "ring_inv ?r"
    using inv n nn wp use rda same m [of "unat (rda_size r)"] wlt
    by (simp add: ring_inv_def word_less_nat_alt word_le_nat_alt)
  show "unat (use_size ?r) = unat (use_size r) + ?n" "unat (rda_size ?r) = unat (rda_size r) + ?n"
    using use rda by blast+
  have "ring_used ?r = cyc (rdata ?r) (unat (wp r) + ?L - unat (use_size r)) (unat (use_size r) + ?n)"
    using n nn wp use same m [of "unat (use_size r)"]
    by (auto simp: ring_used_def intro!: cyc_cong_mod)
  also have "\<dots> = ring_used r @ cyc (rdata ?r) (unat (wp r) + ?L) ?n"
    using sc n by (simp add: cyc_add ring_fill_def hev_ring_buffer_write_finish_def)
  also have "cyc (rdata ?r) (unat (wp r) + ?L) ?n = cyc (rdata ?r) (unat (wp r)) ?n"
    using same by (intro cyc_cong_mod) simp
  also have "\<dots> = bs" using sc by (simp add: ring_fill_def hev_ring_buffer_write_finish_def)
  finally show "ring_used ?r = ring_used r @ bs" .
qed

lemma ring_read_finish_abs:
  assumes inv: "ring_inv r" and le: "n \<le> length (ring_pending r)"
  defines "r' \<equiv> hev_ring_buffer_read_finish (of_nat n) r"
  shows "ring_inv r'" "ring_used r' = ring_used r" "use_size r' = use_size r"
    "unat (rda_size r') = unat (rda_size r) - n"
proof -
  note c = ring_inv_nat [OF inv]
  let ?L = "length (rdata r)"
  have len: "length (ring_pending r) = unat (rda_size r)"
    using c by (simp add: ring_pending_def ring_used_def)
  have un: "unat (of_nat n :: size_t) = n" using le len c by (intro unat_small) simp
  have L0: "0 < ?L" using c by linarith
  have rp: "unat (rp r') = (unat (rp r) + n) mod ?L"
    using c un le len
    by (simp add: r'_def hev_ring_buffer_read_finish_def unat_mod unat_word_ariths)
  have rda: "unat (rda_size r') = unat (rda_size r) - n"
    using un le len
    by (simp add: r'_def hev_ring_buffer_read_finish_def unat_sub word_le_nat_alt)
  have same: "wp r' = wp r" "max_size r' = max_size r" "use_size r' = use_size r"
    "rdata r' = rdata r"
    by (simp_all add: r'_def hev_ring_buffer_read_finish_def)
  have "unat (wp r) + ?L - (unat (rda_size r) - n) = unat (wp r) + ?L - unat (rda_size r) + n"
    using c le len by simp
  then have "(unat (rp r) + n) mod ?L = (unat (wp r) + ?L - (unat (rda_size r) - n)) mod ?L"
    using c(7) by (simp add: mod_add_left_eq)
  then show "ring_inv r'"
    using inv c rp rda same L0
    by (simp add: ring_inv_def word_less_nat_alt word_le_nat_alt)
  show "ring_used r' = ring_used r" "use_size r' = use_size r"
    "unat (rda_size r') = unat (rda_size r) - n"
    using same rda by (simp_all add: ring_used_def)
qed

lemma ring_release_abs:
  assumes inv: "ring_inv r" and le: "n \<le> length (ring_held r)"
  defines "r' \<equiv> hev_ring_buffer_read_release (of_nat n) r"
  shows "ring_inv r'" "ring_used r' = drop n (ring_used r)"
    "unat (use_size r') = unat (use_size r) - n" "rda_size r' = rda_size r"
proof -
  note c = ring_inv_nat [OF inv]
  let ?L = "length (rdata r)"
  have len: "length (ring_held r) = unat (use_size r) - unat (rda_size r)"
    using c by (simp add: ring_held_def ring_used_def)
  have un: "unat (of_nat n :: size_t) = n" using le len c by (intro unat_small) simp
  have use: "unat (use_size r - of_nat n) = unat (use_size r) - n"
    using un le len by (simp add: unat_sub word_le_nat_alt)
  have z: "use_size r = of_nat n \<longleftrightarrow> unat (use_size r) = n"
    using un by (auto simp: word_eq_iff_unsigned)
  have same: "max_size r' = max_size r" "rdata r' = rdata r" "rda_size r' = rda_size r"
    "use_size r' = use_size r - of_nat n"
    by (simp_all add: r'_def hev_ring_buffer_read_release_def Let_def)
  have pos: "rp r' = (if unat (use_size r) = n then 0 else rp r)"
    "wp r' = (if unat (use_size r) = n then 0 else wp r)"
    by (simp_all add: r'_def hev_ring_buffer_read_release_def Let_def z)
  have rda0: "unat (use_size r) = n \<Longrightarrow> unat (rda_size r) = 0" using le len c by linarith
  show "ring_inv r'"
    using inv c same pos use le len rda0
    by (auto simp: ring_inv_def word_less_nat_alt word_le_nat_alt)
  show "ring_used r' = drop n (ring_used r)"
  proof (cases "unat (use_size r) = n")
    case True
    then show ?thesis using same use by (simp add: ring_used_def)
  next
    case False
    have "unat (wp r) + ?L - (unat (use_size r) - n) = unat (wp r) + ?L - unat (use_size r) + n"
      using c le len by simp
    then show ?thesis using False same pos use c le len
      by (simp add: ring_used_def drop_cyc)
  qed
  show "unat (use_size r') = unat (use_size r) - n" "rda_size r' = rda_size r"
    using same use by simp_all
qed

lemma length_ring_used [simp]: "length (ring_used r) = unat (use_size r)"
  by (simp add: ring_used_def)

lemma length_ring_parts:
  assumes "ring_inv r"
  shows "length (ring_pending r) = unat (rda_size r)"
    "length (ring_held r) = unat (use_size r) - unat (rda_size r)"
  using ring_inv_nat [OF assms] by (simp_all add: ring_pending_def ring_held_def)

lemma ring_read_finish_parts:
  assumes inv: "ring_inv r" and le: "n \<le> length (ring_pending r)"
  defines "r' \<equiv> hev_ring_buffer_read_finish (of_nat n) r"
  shows "ring_pending r' = drop n (ring_pending r)"
    "ring_held r' = ring_held r @ take n (ring_pending r)"
proof -
  have "unat (use_size r) - (unat (rda_size r) - n) = unat (use_size r) - unat (rda_size r) + n"
    using ring_inv_nat [OF inv] le length_ring_parts [OF inv] by simp
  then show "ring_pending r' = drop n (ring_pending r)"
    "ring_held r' = ring_held r @ take n (ring_pending r)"
    by (simp_all add: ring_pending_def ring_held_def r'_def ring_read_finish_abs [OF inv le]
        take_add add.commute [of n])
qed

lemma ring_release_parts:
  assumes inv: "ring_inv r" and le: "n \<le> length (ring_held r)"
  defines "r' \<equiv> hev_ring_buffer_read_release (of_nat n) r"
  shows "ring_pending r' = ring_pending r" "ring_held r' = drop n (ring_held r)"
proof -
  have "n + (unat (use_size r) - n - unat (rda_size r)) = unat (use_size r) - unat (rda_size r)"
    using ring_inv_nat [OF inv] le length_ring_parts [OF inv] by simp
  then show "ring_pending r' = ring_pending r" "ring_held r' = drop n (ring_held r)"
    by (simp_all add: ring_pending_def ring_held_def r'_def ring_release_abs [OF inv le]
        drop_take add.commute)
qed

interpretation rb: acked_channel ring_inv ring_room ring_fill ring_pending
  "\<lambda>n. hev_ring_buffer_read_finish (of_nat n)" ring_held
  "\<lambda>n. hev_ring_buffer_read_release (of_nat n)"
proof (unfold_locales, goal_cases)
  case (2 b bs)
  then show ?case using ring_inv_nat [OF 2(1)] by (simp add: ring_pending_def ring_fill_used)
next
  case (5 b bs)
  then show ?case using ring_inv_nat [OF 5(1)] by (simp add: ring_held_def ring_fill_used)
qed (simp_all add: ring_fill_used ring_read_finish_abs ring_read_finish_parts
    ring_release_abs ring_release_parts)

subsection \<open>Positions\<close>

text \<open>The positions of the storage that the reader was handed and has not released, and those the
  reading vector names. lwIP keeps pointers to the former.\<close>

definition held_pos :: "ring \<Rightarrow> nat list" where
  "held_pos r = cyc [0..<length (rdata r)] (unat (wp r) + unat (max_size r) - unat (use_size r))
     (unat (use_size r) - unat (rda_size r))"

lemma map_nth_cyc: "0 < length d \<Longrightarrow> map ((!) d) (cyc [0..<length d] s n) = cyc d s n"
  by (simp add: cyc_def)

lemma held_pos_nth:
  assumes "ring_inv r"
  shows "map ((!) (rdata r)) (held_pos r) = ring_held r" "set (held_pos r) \<subseteq> {..<length (rdata r)}"
    "length (held_pos r) = length (ring_held r)"
proof -
  note n = ring_inv_nat [OF assms]
  have p: "0 < length (rdata r)" using n by linarith
  have "ring_held r = cyc (rdata r) (unat (wp r) + unat (max_size r) - unat (use_size r))
      (unat (use_size r) - unat (rda_size r))"
    using n by (simp add: ring_held_def ring_used_def take_cyc)
  then show "map ((!) (rdata r)) (held_pos r) = ring_held r"
    "length (held_pos r) = length (ring_held r)"
    using p by (simp_all add: held_pos_def map_nth_cyc)
  show "set (held_pos r) \<subseteq> {..<length (rdata r)}"
    using p by (auto simp: held_pos_def cyc_def)
qed

lemma held_pos_fill:
  assumes inv: "ring_inv r" and len: "length bs \<le> ring_room r"
  shows "held_pos (ring_fill bs r) = held_pos r"
proof -
  note n = ring_inv_nat [OF inv] and sc = ring_scatter [OF inv len] and f = ring_fill_used [OF inv len]
  let ?L = "length (rdata r)" and ?n = "length bs"
  have nn: "?n \<le> ?L - unat (use_size r)" using len n by (simp add: ring_room_def)
  have un: "unat (of_nat ?n :: size_t) = ?n" using nn n by (intro unat_small) simp
  have wp: "unat (wp (ring_fill bs r)) = (unat (wp r) + ?n) mod ?L"
    using n nn un by (simp add: ring_fill_def hev_ring_buffer_write_finish_def unat_mod unat_word_ariths)
  have same: "max_size (ring_fill bs r) = max_size r" "length (rdata (ring_fill bs r)) = ?L"
    using sc by (simp_all add: ring_fill_def hev_ring_buffer_write_finish_def)
  show ?thesis
    using n nn wp same f back_mod [of "unat (wp r)" ?L "unat (use_size r)" ?n]
    by (auto simp: held_pos_def intro!: cyc_cong_mod)
qed

lemma held_pos_finish:
  assumes inv: "ring_inv r"
  shows "held_pos (hev_ring_buffer_read_finish (rda_size r) r) =
    held_pos r @ iov_gather (hev_ring_buffer_reading r) [0..<length (rdata r)]"
proof -
  note n = ring_inv_nat [OF inv]
  let ?L = "length (rdata r)" and ?s = "unat (wp r) + unat (max_size r) - unat (use_size r)"
  let ?h = "unat (use_size r) - unat (rda_size r)"
  have "held_pos (hev_ring_buffer_read_finish (rda_size r) r) = cyc [0..<?L] ?s (?h + unat (rda_size r))"
    using n by (simp add: held_pos_def hev_ring_buffer_read_finish_def)
  also have "\<dots> = held_pos r @ cyc [0..<?L] (?s + ?h) (unat (rda_size r))"
    by (simp add: cyc_add held_pos_def)
  also have "cyc [0..<?L] (?s + ?h) (unat (rda_size r)) = cyc [0..<?L] (unat (rp r)) (unat (rda_size r))"
    using n by (intro cyc_cong_mod) simp
  also have "\<dots> = iov_gather (hev_ring_buffer_reading r) [0..<?L]"
  proof (cases "rda_size r = 0")
    case False
    have "rp r < max_size r" "rda_size r \<le> max_size r" using inv by (auto simp: ring_inv_def)
    then show ?thesis using False n by (simp add: ring_reading_circ iov_gather_circ)
  qed (simp add: ring_reading_circ)
  finally show ?thesis .
qed

lemma held_pos_release:
  assumes inv: "ring_inv r" and le: "n \<le> length (ring_held r)"
  shows "held_pos (hev_ring_buffer_read_release (of_nat n) r) = drop n (held_pos r)"
proof -
  note c = ring_inv_nat [OF inv] and rel = ring_release_abs [OF inv le]
  let ?r = "hev_ring_buffer_read_release (of_nat n) r"
  have len: "length (ring_held r) = unat (use_size r) - unat (rda_size r)"
    using c by (simp add: ring_held_def)
  have same: "max_size ?r = max_size r" "rdata ?r = rdata r"
    by (simp_all add: hev_ring_buffer_read_release_def Let_def)
  show ?thesis
  proof (cases "unat (use_size ?r) = 0")
    case True
    then have "n = unat (use_size r)" "unat (rda_size r) = 0" using rel(3) le len c by linarith+
    then show ?thesis using True by (simp add: held_pos_def rel)
  next
    case False
    then have "wp ?r = wp r"
      by (auto simp: hev_ring_buffer_read_release_def Let_def unat_eq_zero)
    then show ?thesis using same rel c le len by (simp add: held_pos_def drop_cyc add.commute [of n])
  qed
qed

section \<open>The circular buffer of the socket splice\<close>

record circ =
  crp :: size_t
  cuse_size :: size_t
  cmax_size :: size_t
  ref_count :: u32
  cdata :: "byte list"

text \<open>\<open>mem\<close> is what \<open>hev_malloc\<close> returned: nothing, or uninitialised storage.\<close>

definition hev_circular_buffer_new :: "size_t \<Rightarrow> byte list option \<Rightarrow> circ option" where
  "hev_circular_buffer_new sz mem =
     (case mem of None \<Rightarrow> None
      | Some d \<Rightarrow> Some \<lparr>crp = 0, cuse_size = 0, cmax_size = sz, ref_count = 1, cdata = d\<rparr>)"

definition hev_circular_buffer_ref :: "circ \<Rightarrow> circ" where
  "hev_circular_buffer_ref self = self\<lparr>ref_count := ref_count self + 1\<rparr>"

text \<open>\<open>None\<close> is the freed buffer.\<close>

definition hev_circular_buffer_unref :: "circ \<Rightarrow> circ option" where
  "hev_circular_buffer_unref self =
     (let self = self\<lparr>ref_count := ref_count self - 1\<rparr> in
      if ref_count self \<noteq> 0 then Some self else None)"

definition hev_circular_buffer_get_max_size :: "circ \<Rightarrow> size_t" where
  "hev_circular_buffer_get_max_size self = cmax_size self"

definition hev_circular_buffer_get_use_size :: "circ \<Rightarrow> size_t" where
  "hev_circular_buffer_get_use_size self = cuse_size self"

definition hev_circular_buffer_reading :: "circ \<Rightarrow> iovec list" where
  "hev_circular_buffer_reading self =
     (let upper_size = cmax_size self - crp self in
      if cuse_size self = 0 then []
      else if cuse_size self \<le> upper_size then [(crp self, cuse_size self)]
      else [(crp self, upper_size), (0, cuse_size self - upper_size)])"

definition hev_circular_buffer_read_finish :: "size_t \<Rightarrow> circ \<Rightarrow> circ" where
  "hev_circular_buffer_read_finish sz self =
     self\<lparr>crp := (crp self + sz) mod cmax_size self, cuse_size := cuse_size self - sz\<rparr>"

definition hev_circular_buffer_writing :: "circ \<Rightarrow> iovec list" where
  "hev_circular_buffer_writing self =
     (let wp = (crp self + cuse_size self) mod cmax_size self;
          upper_size = cmax_size self - wp; spc_size = cmax_size self - cuse_size self in
      if cuse_size self = cmax_size self then []
      else if spc_size \<le> upper_size then [(wp, spc_size)]
      else [(wp, upper_size), (0, spc_size - upper_size)])"

definition hev_circular_buffer_write_finish :: "size_t \<Rightarrow> circ \<Rightarrow> circ" where
  "hev_circular_buffer_write_finish sz self = self\<lparr>cuse_size := cuse_size self + sz\<rparr>"

definition circ_fill :: "byte list \<Rightarrow> circ \<Rightarrow> circ" where
  "circ_fill bs self =
     hev_circular_buffer_write_finish (of_nat (length bs))
       (self\<lparr>cdata := iov_scatter (hev_circular_buffer_writing self) bs (cdata self)\<rparr>)"

definition circ_used :: "circ \<Rightarrow> byte list" where
  "circ_used c = cyc (cdata c) (unat (crp c)) (unat (cuse_size c))"

definition circ_room :: "circ \<Rightarrow> nat" where
  "circ_room c = unat (cmax_size c) - unat (cuse_size c)"

definition circ_inv :: "circ \<Rightarrow> bool" where
  "circ_inv c \<longleftrightarrow>
     unat (cmax_size c) < 2 ^ 63 \<and> length (cdata c) = unat (cmax_size c) \<and>
     crp c < cmax_size c \<and> cuse_size c \<le> cmax_size c"

lemma circ_inv_nat:
  assumes "circ_inv c"
  shows "unat (crp c) < length (cdata c)" "unat (cuse_size c) \<le> length (cdata c)"
    "length (cdata c) < 2 ^ 63" "unat (cmax_size c) = length (cdata c)"
  using assms by (simp_all add: circ_inv_def word_less_nat_alt word_le_nat_alt)

lemma circ_new_inv:
  assumes "0 < n" "n < 2 ^ 63" "length d = n"
    and "hev_circular_buffer_new (of_nat n) (Some d) = Some c"
  shows "circ_inv c" "circ_used c = []" "circ_room c = n"
  using assms unat_small [of n]
  by (auto simp: hev_circular_buffer_new_def circ_inv_def circ_used_def circ_room_def
      word_less_nat_alt)

lemma circ_reading_gather:
  assumes "circ_inv c"
  shows "iov_gather (hev_circular_buffer_reading c) (cdata c) = circ_used c"
proof -
  have "hev_circular_buffer_reading c =
      (if cuse_size c = 0 then [] else circ_iov (cmax_size c) (crp c) (cuse_size c))"
    by (simp add: hev_circular_buffer_reading_def circ_iov_def Let_def)
  then show ?thesis
    using assms by (simp add: circ_inv_def iov_gather_circ circ_used_def)
qed

definition circ_wp :: "circ \<Rightarrow> size_t" where
  "circ_wp c = (crp c + cuse_size c) mod cmax_size c"

lemma circ_writing_circ:
  "hev_circular_buffer_writing c =
     (if cuse_size c = cmax_size c then []
      else circ_iov (cmax_size c) (circ_wp c) (cmax_size c - cuse_size c))"
  by (simp add: hev_circular_buffer_writing_def circ_iov_def circ_wp_def Let_def)

lemma circ_wp_nat:
  assumes "circ_inv c"
  shows "unat (circ_wp c) = (unat (crp c) + unat (cuse_size c)) mod length (cdata c)"
    "circ_wp c < cmax_size c" "cmax_size c - cuse_size c \<le> cmax_size c"
    "unat (cmax_size c - cuse_size c) = length (cdata c) - unat (cuse_size c)"
proof -
  note n = circ_inv_nat [OF assms]
  show wp: "unat (circ_wp c) = (unat (crp c) + unat (cuse_size c)) mod length (cdata c)"
    using n by (simp add: circ_wp_def unat_mod unat_word_ariths)
  have "0 < length (cdata c)" using n by linarith
  then show "circ_wp c < cmax_size c" using wp n by (simp add: word_less_nat_alt)
  show "cmax_size c - cuse_size c \<le> cmax_size c"
    "unat (cmax_size c - cuse_size c) = length (cdata c) - unat (cuse_size c)"
    using n by (simp_all add: word_le_nat_alt unat_sub)
qed

lemma circ_room_writing:
  assumes "circ_inv c"
  shows "iov_space (hev_circular_buffer_writing c) = circ_room c"
    "hev_circular_buffer_writing c = [] \<longleftrightarrow> circ_room c = 0"
proof -
  note n = circ_inv_nat [OF assms] and w = circ_wp_nat [OF assms]
  show "iov_space (hev_circular_buffer_writing c) = circ_room c"
    using w n by (simp add: circ_writing_circ iov_space_circ circ_room_def)
  show "hev_circular_buffer_writing c = [] \<longleftrightarrow> circ_room c = 0"
  proof -
    have "cuse_size c = cmax_size c \<longleftrightarrow> unat (cuse_size c) = unat (cmax_size c)"
      by (metis unsigned_word_eqI)
    then show ?thesis using n by (auto simp: circ_writing_circ circ_room_def circ_iov_def)
  qed
qed

lemma circ_fill_used:
  assumes inv: "circ_inv c" and len: "length bs \<le> circ_room c"
  shows "circ_inv (circ_fill bs c)" "circ_used (circ_fill bs c) = circ_used c @ bs"
    "circ_room (circ_fill bs c) = circ_room c - length bs"
proof -
  note n = circ_inv_nat [OF inv] and w = circ_wp_nat [OF inv]
  let ?c = "circ_fill bs c" and ?L = "length (cdata c)" and ?u = "unat (cuse_size c)"
  let ?n = "length bs"
  have nn: "?n \<le> ?L - ?u" using len n by (simp add: circ_room_def)
  have un: "unat (of_nat ?n :: size_t) = ?n" using nn n by (intro unat_small) simp
  have use: "unat (cuse_size ?c) = ?u + ?n"
    using n nn un
    by (simp add: circ_fill_def hev_circular_buffer_write_finish_def unat_word_ariths)
  have same: "crp ?c = crp c" "cmax_size ?c = cmax_size c"
    by (simp_all add: circ_fill_def hev_circular_buffer_write_finish_def)
  have dat: "cdata ?c = (if cuse_size c = cmax_size c then cdata c else
      iov_scatter (circ_iov (cmax_size c) (circ_wp c) (cmax_size c - cuse_size c)) bs (cdata c))"
    by (simp add: circ_fill_def hev_circular_buffer_write_finish_def circ_writing_circ)
  have ld: "length (cdata ?c) = ?L"
    using dat n w nn by (simp add: length_iov_scatter_circ)
  show inv': "circ_inv ?c"
    using inv n nn use same ld by (simp add: circ_inv_def word_le_nat_alt)
  show "circ_room ?c = circ_room c - ?n" using use same by (simp add: circ_room_def)
  have new: "cyc (cdata ?c) (unat (circ_wp c)) ?n = bs"
    using dat n w(2-4) nn by (auto simp: cyc_scatter_written)
  have "(unat (circ_wp c) + (?L - ?u)) mod ?L = (unat (crp c) + ?u + (?L - ?u)) mod ?L"
    using w(1) by (simp add: mod_add_left_eq)
  then have pos: "(unat (circ_wp c) + (?L - ?u)) mod ?L = unat (crp c) mod ?L"
    using n by simp
  have "cyc (cdata ?c) (unat (circ_wp c) + (?L - ?u)) ?u = cyc (cdata c) (unat (circ_wp c) + (?L - ?u)) ?u"
    using dat n w(2-4) nn
      cyc_scatter_kept [of "cmax_size c" "cdata c" "circ_wp c" "cmax_size c - cuse_size c" bs
        "?L - ?u" ?u] by auto
  then have old: "cyc (cdata ?c) (unat (crp c)) ?u = circ_used c"
    unfolding circ_used_def
    using pos ld cyc_cong_mod [of "unat (circ_wp c) + (?L - ?u)" "cdata ?c" "unat (crp c)" ?u]
      cyc_cong_mod [of "unat (circ_wp c) + (?L - ?u)" "cdata c" "unat (crp c)" ?u] by simp
  have "cyc (cdata ?c) (unat (crp c) + ?u) ?n = cyc (cdata ?c) (unat (circ_wp c)) ?n"
    using w(1) ld by (intro cyc_cong_mod) simp
  then show "circ_used ?c = circ_used c @ bs"
    using old new use same by (simp add: circ_used_def cyc_add)
qed

lemma circ_read_finish_used:
  assumes inv: "circ_inv c" and le: "n \<le> length (circ_used c)"
  defines "c' \<equiv> hev_circular_buffer_read_finish (of_nat n) c"
  shows "circ_inv c'" "circ_used c' = drop n (circ_used c)"
proof -
  note b = circ_inv_nat [OF inv]
  let ?L = "length (cdata c)"
  have le': "n \<le> unat (cuse_size c)" using le by (simp add: circ_used_def)
  have un: "unat (of_nat n :: size_t) = n" using le' b by (intro unat_small) simp
  have rp: "unat (crp c') = (unat (crp c) + n) mod ?L"
    using b un le' by (simp add: c'_def hev_circular_buffer_read_finish_def unat_mod unat_word_ariths)
  have use: "unat (cuse_size c') = unat (cuse_size c) - n"
    using un le' by (simp add: c'_def hev_circular_buffer_read_finish_def unat_sub word_le_nat_alt)
  have same: "cmax_size c' = cmax_size c" "cdata c' = cdata c"
    by (simp_all add: c'_def hev_circular_buffer_read_finish_def)
  have "0 < ?L" using b by linarith
  then show "circ_inv c'" using inv b rp use same
    by (simp add: circ_inv_def word_less_nat_alt word_le_nat_alt)
  have "circ_used c' = cyc (cdata c) (unat (crp c) + n) (unat (cuse_size c) - n)"
    using rp use same by (auto simp: circ_used_def intro!: cyc_cong_mod)
  then show "circ_used c' = drop n (circ_used c)"
    using le' by (simp add: circ_used_def drop_cyc)
qed

interpretation cb: byte_channel circ_inv circ_room circ_fill circ_used
  "\<lambda>n. hev_circular_buffer_read_finish (of_nat n)"
  by unfold_locales (simp_all add: circ_fill_used circ_read_finish_used)

section \<open>Theorems\<close>

lemma ring_alloca_inv:
  assumes "0 < n" "n < 2 ^ 63" "length d = n"
  shows "ring_inv (hev_ring_buffer_alloca (of_nat n) d)"
    "ring_held (hev_ring_buffer_alloca (of_nat n) d) = []"
    "ring_pending (hev_ring_buffer_alloca (of_nat n) d) = []"
  using assms unat_small [of n]
  by (auto simp: hev_ring_buffer_alloca_def ring_inv_def ring_held_def ring_pending_def ring_used_def
      word_less_nat_alt)

abbreviation ring_run :: "ack_op list \<Rightarrow> ring \<Rightarrow> byte list \<times> byte list \<times> ring" where
  "ring_run \<equiv> ack_run ring_fill (\<lambda>n. hev_ring_buffer_read_finish (of_nat n)) ring_held
     (\<lambda>n. hev_ring_buffer_read_release (of_nat n))"

abbreviation ring_ok :: "ack_op list \<Rightarrow> ring \<Rightarrow> bool" where
  "ring_ok \<equiv> ack_ok ring_room ring_fill ring_pending (\<lambda>n. hev_ring_buffer_read_finish (of_nat n))
     ring_held (\<lambda>n. hev_ring_buffer_read_release (of_nat n))"

text \<open>C13. The ring buffer of a TCP session: over every schedule of filling, handing to lwIP and
  acknowledging, the bytes put in are the bytes acknowledged, then those lwIP still points to, then
  those that the reading vector shows. Nothing is lost, repeated, reordered or overwritten before
  it is acknowledged, and the positions stay inside the storage.\<close>

theorem ring_stream:
  assumes "0 < n" "n < 2 ^ 63" "length d = n"
    and "ring_ok ops (hev_ring_buffer_alloca (of_nat n) d)"
    and "ring_run ops (hev_ring_buffer_alloca (of_nat n) d) = (i, a, r)"
  shows "ring_inv r \<and>
    i = a @ ring_held r @ iov_gather (hev_ring_buffer_reading r) (rdata r)"
proof -
  note new = ring_alloca_inv [OF assms(1-3)]
  have "ring_inv r \<and> a @ ring_held r @ ring_pending r = i"
    using rb.ack_run_stream [OF new(1) assms(4,5)] new(2,3) by simp
  then show ?thesis using ring_reading_gather by auto
qed

theorem ring_stream_witness:
  "\<exists>r. ring_run [Put [1, 2, 3], Take 2, Ack 1, Put [4, 5]] (hev_ring_buffer_alloca (of_nat 4) [0, 0, 0, 0]) =
      ([1, 2, 3, 4, 5], [1], r) \<and>
    [1, 2, 3, 4, 5] = [1] @ ring_held r @ iov_gather (hev_ring_buffer_reading r) (rdata r)"
proof -
  let ?b = "hev_ring_buffer_alloca (of_nat 4) [0, 0, 0, 0]"
  let ?ops = "[Put [1, 2, 3], Take 2, Ack 1, Put [4, 5]]"
  have run: "case ring_run ?ops ?b of (i, a, r) \<Rightarrow> i = [1, 2, 3, 4, 5] \<and> a = [1]" by code_simp
  have ok: "ring_ok ?ops ?b" by code_simp
  obtain r where r: "ring_run ?ops ?b = ([1, 2, 3, 4, 5], [1], r)"
    using run by (auto split: prod.splits)
  show ?thesis using ring_stream [OF _ _ _ ok r] r by simp
qed

text \<open>The circular buffer of the socket splice is a first-in first-out channel: over every
  schedule, what was taken out followed by what the reading vector shows is what was put in.\<close>

lemma circ_fifo:
  assumes "0 < n" "n < 2 ^ 63" "length d = n"
    and "hev_circular_buffer_new (of_nat n) (Some d) = Some b"
    and "chan_ok circ_room circ_fill circ_used (\<lambda>n. hev_circular_buffer_read_finish (of_nat n)) ops b"
    and "chan_run circ_fill circ_used (\<lambda>n. hev_circular_buffer_read_finish (of_nat n)) ops b = (i, out, b')"
  shows "circ_inv b' \<and> out @ iov_gather (hev_circular_buffer_reading b') (cdata b') = i"
proof -
  note new = circ_new_inv [OF assms(1-4)]
  have inv: "circ_inv b'" by (rule cb.run_inv [OF new(1) assms(5,6)])
  show ?thesis
    using inv cb.run_fifo [OF new(1) assms(5,6)] new(2) circ_reading_gather [OF inv] by simp
qed

lemma circ_fifo_example:
  "\<exists>b b'. hev_circular_buffer_new (of_nat 3) (Some [0, 0, 0]) = Some b \<and>
    chan_run circ_fill circ_used (\<lambda>n. hev_circular_buffer_read_finish (of_nat n))
      [Push [1, 2], Pop 1, Push [3, 4]] b = ([1, 2, 3, 4], [1], b') \<and>
    [1] @ iov_gather (hev_circular_buffer_reading b') (cdata b') = [1, 2, 3, 4]"
proof -
  let ?ops = "[Push [1, 2], Pop 1, Push [3, 4]]"
  obtain b where b: "hev_circular_buffer_new (of_nat 3) (Some [0, 0, 0]) = Some b"
    by (simp add: hev_circular_buffer_new_def)
  have "case hev_circular_buffer_new (of_nat 3) (Some [0, 0, 0]) of None \<Rightarrow> False | Some b \<Rightarrow>
      chan_ok circ_room circ_fill circ_used (\<lambda>n. hev_circular_buffer_read_finish (of_nat n)) ?ops b \<and>
      (case chan_run circ_fill circ_used (\<lambda>n. hev_circular_buffer_read_finish (of_nat n)) ?ops b of
         (i, out, b') \<Rightarrow> i = [1, 2, 3, 4] \<and> out = [1])"
    by code_simp
  then obtain b' where
    ok: "chan_ok circ_room circ_fill circ_used (\<lambda>n. hev_circular_buffer_read_finish (of_nat n)) ?ops b" and
    run: "chan_run circ_fill circ_used (\<lambda>n. hev_circular_buffer_read_finish (of_nat n)) ?ops b =
      ([1, 2, 3, 4], [1], b')"
    using b by (auto split: prod.splits)
  show ?thesis using circ_fifo [OF _ _ _ b ok run] b run by simp
qed

end
