(* ===== verification/SockIO.thy ===== *)
theory SockIO
  imports RingBuffer
begin

text \<open>
  Socket input and output of the task system
  (\<open>third-part/hev-task-system/src/lib/io/socket/hev-task-io-socket.c\<close>,
  \<open>lib/io/basic/hev-task-io.c\<close>). A descriptor is a channel: the events its next system calls
  will meet, in order, and the bytes the kernel has taken. An event that would block carries
  what happens while the task sleeps, so every retry loop is a recursion on the events; a task
  that waits when its events are used up stays suspended (\<open>Wait\<close>), a call that must not wait
  fails with \<open>EAGAIN\<close>. The locale \<open>io_task\<close> states what the
  loops need of a yielder, and inside it the loops are shown to be independent of how the
  network cuts the stream.
\<close>

section \<open>Sleeping and yielding\<close>

datatype yield_type = HEV_TASK_YIELD | HEV_TASK_WAITIO

text \<open>One sleep: the milliseconds left when the task wakes (0 when the time ran out), and
  whether the object was terminated meanwhile by another task.\<close>

datatype nap = Nap (left: nat) (kill: bool)

type_synonym 's yielder = "yield_type \<Rightarrow> nap \<Rightarrow> 's \<Rightarrow> int \<times> 's"

definition hev_task_sleep :: "int \<Rightarrow> nap \<Rightarrow> int" where
  "hev_task_sleep milliseconds p =
     (if milliseconds = 0 then 0 else min (int (left p)) milliseconds)"

definition task_wait :: "'s yielder option \<Rightarrow> nap \<Rightarrow> 's \<Rightarrow> int \<times> 's" where
  "task_wait y p s = (case y of Some f \<Rightarrow> f HEV_TASK_WAITIO p s | None \<Rightarrow> (0, s))"

definition calm :: "nap \<Rightarrow> bool" where
  "calm p \<longleftrightarrow> 0 < left p \<and> \<not> kill p"

section \<open>System calls on a stream socket\<close>

datatype rx_event = RxData "byte list" | RxEof | RxErr | RxAgain nap
datatype tx_event = TxTake nat | TxErr | TxAgain nap
datatype 'a sysr = SOk 'a | SAgain nap | SErr
datatype errno = E_NONE | EAGAIN | E_OTHER

text \<open>A descriptor: what its reads and writes will meet, the bytes the kernel took so far,
  whether its write side was shut down, and the error number of its last failed call.\<close>

record chan =
  rxs :: "rx_event list"
  txs :: "tx_event list"
  wire :: "byte list"
  wr_shut :: bool
  errno_of :: errno

text \<open>\<open>recv\<close> takes at most \<open>n\<close> bytes of what has arrived; the rest stays queued. The end of
  the stream is seen by every later call.\<close>

fun sys_recv :: "nat \<Rightarrow> rx_event list \<Rightarrow> (byte list sysr \<times> rx_event list) option" where
  "sys_recv n [] = None"
| "sys_recv n (RxData bs # es) =
     Some (SOk (take n bs), if length bs \<le> n then es else RxData (drop n bs) # es)"
| "sys_recv n (RxEof # es) = Some (SOk [], RxEof # es)"
| "sys_recv n (RxErr # es) = Some (SErr, es)"
| "sys_recv n (RxAgain p # es) = Some (SAgain p, es)"

text \<open>\<open>send\<close> takes a prefix of what it is given, as much as there is room for; room not used
  stays available.\<close>

fun sys_send :: "byte list \<Rightarrow> tx_event list \<Rightarrow> (byte list sysr \<times> tx_event list) option" where
  "sys_send bs [] = None"
| "sys_send bs (TxTake k # es) =
     Some (SOk (take k bs), if k \<le> length bs then es else TxTake (k - length bs) # es)"
| "sys_send bs (TxErr # es) = Some (SErr, es)"
| "sys_send bs (TxAgain p # es) = Some (SAgain p, es)"

definition rx_weight :: "rx_event list \<Rightarrow> nat" where
  "rx_weight es = (\<Sum>e\<leftarrow>es. case e of RxData bs \<Rightarrow> Suc (length bs) | _ \<Rightarrow> 1)"

lemma rx_weight_simps [simp]:
  "rx_weight [] = 0"
  "rx_weight (RxData bs # es) = Suc (length bs) + rx_weight es"
  "rx_weight (RxEof # es) = Suc (rx_weight es)"
  "rx_weight (RxErr # es) = Suc (rx_weight es)"
  "rx_weight (RxAgain p # es) = Suc (rx_weight es)"
  by (simp_all add: rx_weight_def)

lemma sys_recv_weight:
  assumes "sys_recv n es = Some (r, es')" "r \<noteq> SOk []"
  shows "rx_weight es' < rx_weight es"
  using assms by (cases "(n, es)" rule: sys_recv.cases) (auto split: if_splits)

definition tx_weight :: "tx_event list \<Rightarrow> nat" where
  "tx_weight es = (\<Sum>e\<leftarrow>es. case e of TxTake k \<Rightarrow> Suc k | _ \<Rightarrow> 1)"

lemma tx_weight_simps [simp]:
  "tx_weight [] = 0"
  "tx_weight (TxTake k # es) = Suc k + tx_weight es"
  "tx_weight (TxErr # es) = Suc (tx_weight es)"
  "tx_weight (TxAgain p # es) = Suc (tx_weight es)"
  by (simp_all add: tx_weight_def)

lemma sys_send_weight:
  assumes "sys_send bs es = Some (r, es')" "r \<noteq> SOk []"
  shows "tx_weight es' < tx_weight es"
  using assms by (cases "(bs, es)" rule: sys_send.cases; cases bs) (auto split: if_splits)

section \<open>The retry loops\<close>

text \<open>\<open>buf\<close> holds the \<open>size\<close> bytes received so far. The result is the value returned, the
  error number, the bytes stored, the yielder's object and the events left.\<close>

function recv_retry :: "'s yielder option \<Rightarrow> bool \<Rightarrow> bool \<Rightarrow> nat \<Rightarrow> byte list \<Rightarrow> errno \<Rightarrow> 's \<Rightarrow>
    rx_event list \<Rightarrow> (int \<times> errno \<times> byte list \<times> 's \<times> rx_event list) outcome" where
  "recv_retry y waitall dontwait len buf e s evs =
     (case sys_recv (len - length buf) evs of
        None \<Rightarrow> if dontwait then Ret (if waitall \<and> buf \<noteq> [] then int (length buf) else - 1, EAGAIN, buf, s, evs)
                else Wait
      | Some (SAgain p, evs') \<Rightarrow>
          if \<not> dontwait then
            (case task_wait y p s of (r, s') \<Rightarrow>
               if r \<noteq> 0
               then Ret (if buf \<noteq> [] then int (length buf) else - 2, EAGAIN, buf, s', evs')
               else recv_retry y waitall dontwait len buf EAGAIN s' evs')
          else if \<not> waitall then Ret (- 1, EAGAIN, buf, s, evs')
          else Ret (if buf \<noteq> [] then int (length buf) else - 1, EAGAIN, buf, s, evs')
      | Some (SErr, evs') \<Rightarrow>
          if \<not> waitall then Ret (- 1, E_OTHER, buf, s, evs')
          else Ret (if buf \<noteq> [] then int (length buf) else - 1, E_OTHER, buf, s, evs')
      | Some (SOk d, evs') \<Rightarrow>
          if \<not> waitall then Ret (int (length d), e, buf @ d, s, evs')
          else if d = [] then Ret (if buf \<noteq> [] then int (length buf) else 0, e, buf, s, evs')
          else if length (buf @ d) < len then recv_retry y waitall dontwait len (buf @ d) e s evs'
          else Ret (int (length (buf @ d)), e, buf @ d, s, evs'))"
  by pat_completeness auto
termination
  by (relation "measure (\<lambda>(y, w, d, l, b, e, s, evs). rx_weight evs)")
    (auto intro: sys_recv_weight simp: in_measure)

declare recv_retry.simps [simp del]

definition hev_task_io_socket_recv :: "'s yielder option \<Rightarrow> bool \<Rightarrow> bool \<Rightarrow> nat \<Rightarrow> 's \<Rightarrow> chan \<Rightarrow>
    (int \<times> byte list \<times> 's \<times> chan) outcome" where
  "hev_task_io_socket_recv y waitall dontwait len s c =
     bind_o (recv_retry y waitall dontwait len [] (errno_of c) s (rxs c))
       (\<lambda>(r, e, buf, s', evs). Ret (r, buf, s', c\<lparr>rxs := evs, errno_of := e\<rparr>))"

text \<open>\<open>bs\<close> is what remains to be sent, \<open>size\<close> the count sent so far.\<close>

function send_retry :: "'s yielder option \<Rightarrow> bool \<Rightarrow> bool \<Rightarrow> byte list \<Rightarrow> nat \<Rightarrow> errno \<Rightarrow> byte list \<Rightarrow> 's \<Rightarrow>
    tx_event list \<Rightarrow> (int \<times> errno \<times> byte list \<times> 's \<times> tx_event list) outcome" where
  "send_retry y waitall dontwait bs sz e w s evs =
     (case sys_send bs evs of
        None \<Rightarrow> if dontwait then Ret (if waitall \<and> sz \<noteq> 0 then int sz else - 1, EAGAIN, w, s, evs)
                else Wait
      | Some (SAgain p, evs') \<Rightarrow>
          if \<not> dontwait then
            (case task_wait y p s of (r, s') \<Rightarrow>
               if r \<noteq> 0 then Ret (if sz \<noteq> 0 then int sz else - 2, EAGAIN, w, s', evs')
               else send_retry y waitall dontwait bs sz EAGAIN w s' evs')
          else if \<not> waitall then Ret (- 1, EAGAIN, w, s, evs')
          else Ret (if sz \<noteq> 0 then int sz else - 1, EAGAIN, w, s, evs')
      | Some (SErr, evs') \<Rightarrow>
          if \<not> waitall then Ret (- 1, E_OTHER, w, s, evs')
          else Ret (if sz \<noteq> 0 then int sz else - 1, E_OTHER, w, s, evs')
      | Some (SOk d, evs') \<Rightarrow>
          if \<not> waitall then Ret (int (length d), e, w @ d, s, evs')
          else if d = [] then Ret (if sz \<noteq> 0 then int sz else 0, e, w, s, evs')
          else if length d < length bs
          then send_retry y waitall dontwait (drop (length d) bs) (sz + length d) e (w @ d) s evs'
          else Ret (int (sz + length d), e, w @ d, s, evs'))"
  by pat_completeness auto
termination
  by (relation "measure (\<lambda>(y, wa, d, b, z, e, w, s, evs). tx_weight evs)")
    (auto intro: sys_send_weight simp: in_measure)

declare send_retry.simps [simp del]

definition hev_task_io_socket_send :: "'s yielder option \<Rightarrow> bool \<Rightarrow> bool \<Rightarrow> byte list \<Rightarrow> 's \<Rightarrow> chan \<Rightarrow>
    (int \<times> 's \<times> chan) outcome" where
  "hev_task_io_socket_send y waitall dontwait bs s c =
     bind_o (send_retry y waitall dontwait bs 0 (errno_of c) (wire c) s (txs c))
       (\<lambda>(r, e, w, s', evs). Ret (r, s', c\<lparr>txs := evs, wire := w, errno_of := e\<rparr>))"

text \<open>The gather form sends a vector of buffers; after a short write the vector is advanced to
  the first byte not sent.\<close>

fun iov_advance :: "nat \<Rightarrow> byte list list \<Rightarrow> byte list list" where
  "iov_advance s [] = []"
| "iov_advance s (b # v) = (if s < length b then drop s b # v else iov_advance (s - length b) v)"

function sendmsg_retry :: "'s yielder option \<Rightarrow> bool \<Rightarrow> bool \<Rightarrow> byte list list \<Rightarrow> nat \<Rightarrow> nat \<Rightarrow> errno \<Rightarrow>
    byte list \<Rightarrow> 's \<Rightarrow> tx_event list \<Rightarrow>
    (int \<times> errno \<times> byte list \<times> 's \<times> tx_event list) outcome" where
  "sendmsg_retry y waitall dontwait iov len sz e w s evs =
     (case sys_send (concat iov) evs of
        None \<Rightarrow> if dontwait then Ret (if waitall \<and> sz \<noteq> 0 then int sz else - 1, EAGAIN, w, s, evs)
                else Wait
      | Some (SAgain p, evs') \<Rightarrow>
          if \<not> dontwait then
            (case task_wait y p s of (r, s') \<Rightarrow>
               if r \<noteq> 0 then Ret (if sz \<noteq> 0 then int sz else - 2, EAGAIN, w, s', evs')
               else sendmsg_retry y waitall dontwait iov len sz EAGAIN w s' evs')
          else if \<not> waitall then Ret (- 1, EAGAIN, w, s, evs')
          else Ret (if sz \<noteq> 0 then int sz else - 1, EAGAIN, w, s, evs')
      | Some (SErr, evs') \<Rightarrow>
          if \<not> waitall then Ret (- 1, E_OTHER, w, s, evs')
          else Ret (if sz \<noteq> 0 then int sz else - 1, E_OTHER, w, s, evs')
      | Some (SOk d, evs') \<Rightarrow>
          if \<not> waitall then Ret (int (length d), e, w @ d, s, evs')
          else if d = [] then Ret (if sz \<noteq> 0 then int sz else 0, e, w, s, evs')
          else if sz + length d < len
          then sendmsg_retry y waitall dontwait (iov_advance (length d) iov) len (sz + length d) e
                 (w @ d) s evs'
          else Ret (int (sz + length d), e, w @ d, s, evs'))"
  by pat_completeness auto
termination
  by (relation "measure (\<lambda>(y, wa, d, v, l, z, e, w, s, evs). tx_weight evs)")
    (auto intro: sys_send_weight simp: in_measure)

declare sendmsg_retry.simps [simp del]

definition hev_task_io_socket_sendmsg :: "'s yielder option \<Rightarrow> bool \<Rightarrow> bool \<Rightarrow> byte list list \<Rightarrow> 's \<Rightarrow>
    chan \<Rightarrow> (int \<times> 's \<times> chan) outcome" where
  "hev_task_io_socket_sendmsg y waitall dontwait iov s c =
     bind_o (sendmsg_retry y waitall dontwait iov (\<Sum>b\<leftarrow>iov. length b) 0 (errno_of c) (wire c) s
         (txs c))
       (\<lambda>(r, e, w, s', evs). Ret (r, s', c\<lparr>txs := evs, wire := w, errno_of := e\<rparr>))"

text \<open>The scatter form stores into parts of a buffer, given by offset and length.\<close>

fun scatter :: "(nat \<times> nat) list \<Rightarrow> byte list \<Rightarrow> byte list \<Rightarrow> byte list" where
  "scatter [] bs d = d"
| "scatter ((b, l) # v) bs d = scatter v (drop l bs) (put b (take l bs) d)"

fun iov_advance_off :: "nat \<Rightarrow> (nat \<times> nat) list \<Rightarrow> (nat \<times> nat) list" where
  "iov_advance_off s [] = []"
| "iov_advance_off s ((b, l) # v) = (if s < l then (b + s, l - s) # v else iov_advance_off (s - l) v)"

function recvmsg_retry :: "'s yielder option \<Rightarrow> bool \<Rightarrow> bool \<Rightarrow> (nat \<times> nat) list \<Rightarrow> nat \<Rightarrow> nat \<Rightarrow> byte list \<Rightarrow>
    errno \<Rightarrow> 's \<Rightarrow> rx_event list \<Rightarrow> (int \<times> errno \<times> byte list \<times> 's \<times> rx_event list) outcome" where
  "recvmsg_retry y waitall dontwait iov len sz mem e s evs =
     (case sys_recv (\<Sum>(b, l)\<leftarrow>iov. l) evs of
        None \<Rightarrow> if dontwait then Ret (if waitall \<and> sz \<noteq> 0 then int sz else - 1, EAGAIN, mem, s, evs)
                else Wait
      | Some (SAgain p, evs') \<Rightarrow>
          if \<not> dontwait then
            (case task_wait y p s of (r, s') \<Rightarrow>
               if r \<noteq> 0 then Ret (if sz \<noteq> 0 then int sz else - 2, EAGAIN, mem, s', evs')
               else recvmsg_retry y waitall dontwait iov len sz mem EAGAIN s' evs')
          else if \<not> waitall then Ret (- 1, EAGAIN, mem, s, evs')
          else Ret (if sz \<noteq> 0 then int sz else - 1, EAGAIN, mem, s, evs')
      | Some (SErr, evs') \<Rightarrow>
          if \<not> waitall then Ret (- 1, E_OTHER, mem, s, evs')
          else Ret (if sz \<noteq> 0 then int sz else - 1, E_OTHER, mem, s, evs')
      | Some (SOk d, evs') \<Rightarrow>
          if \<not> waitall then Ret (int (length d), e, scatter iov d mem, s, evs')
          else if d = [] then Ret (if sz \<noteq> 0 then int sz else 0, e, mem, s, evs')
          else if sz + length d < len
          then recvmsg_retry y waitall dontwait (iov_advance_off (length d) iov) len (sz + length d)
                 (scatter iov d mem) e s evs'
          else Ret (int (sz + length d), e, scatter iov d mem, s, evs'))"
  by pat_completeness auto
termination
  by (relation "measure (\<lambda>(y, w, d, v, l, z, m, e, s, evs). rx_weight evs)")
    (auto intro: sys_recv_weight simp: in_measure)

declare recvmsg_retry.simps [simp del]

text \<open>The areas that the vector gives to the kernel must lie inside the buffer; a vector that reaches
  beyond it lets the kernel write into foreign memory, which is a \<open>Fault\<close>.\<close>

definition iov_in :: "(nat \<times> nat) list \<Rightarrow> nat \<Rightarrow> bool" where
  "iov_in v n \<longleftrightarrow> (\<forall>(b, l) \<in> set v. b + l \<le> n)"

definition hev_task_io_socket_recvmsg :: "'s yielder option \<Rightarrow> bool \<Rightarrow> bool \<Rightarrow> (nat \<times> nat) list \<Rightarrow>
    byte list \<Rightarrow> 's \<Rightarrow> chan \<Rightarrow> (int \<times> byte list \<times> 's \<times> chan) outcome" where
  "hev_task_io_socket_recvmsg y waitall dontwait iov mem s c =
     (if \<not> iov_in iov (length mem) then Fault
      else bind_o (recvmsg_retry y waitall dontwait iov (\<Sum>(b, l)\<leftarrow>iov. l) 0 mem (errno_of c) s (rxs c))
        (\<lambda>(r, e, mem', s', evs). Ret (r, mem', s', c\<lparr>rxs := evs, errno_of := e\<rparr>)))"

section \<open>Connecting\<close>

datatype conn_event = ConnOk | ConnIsConn | ConnBusy nap | ConnErr

fun hev_task_io_socket_connect :: "'s yielder option \<Rightarrow> 's \<Rightarrow> conn_event list \<Rightarrow>
    (int \<times> 's \<times> conn_event list) outcome" where
  "hev_task_io_socket_connect y s [] = Wait"
| "hev_task_io_socket_connect y s (ConnOk # es) = Ret (0, s, es)"
| "hev_task_io_socket_connect y s (ConnIsConn # es) = Ret (0, s, es)"
| "hev_task_io_socket_connect y s (ConnBusy p # es) =
     (case task_wait y p s of (r, s') \<Rightarrow>
        if r \<noteq> 0 then Ret (- 2, s', es) else hev_task_io_socket_connect y s' es)"
| "hev_task_io_socket_connect y s (ConnErr # es) = Ret (- 1, s, es)"

section \<open>What a channel still holds\<close>

fun rx_stream :: "rx_event list \<Rightarrow> byte list" where
  "rx_stream [] = []"
| "rx_stream (RxData bs # es) = bs @ rx_stream es"
| "rx_stream (RxEof # es) = []"
| "rx_stream (RxErr # es) = rx_stream es"
| "rx_stream (RxAgain p # es) = rx_stream es"

lemma sys_recv_stream:
  assumes "sys_recv n es = Some (r, es')"
  shows "rx_stream es = (case r of SOk d \<Rightarrow> d | _ \<Rightarrow> []) @ rx_stream es'"
    "r = SOk d \<Longrightarrow> length d \<le> n"
  using assms by (cases "(n, es)" rule: sys_recv.cases; auto split: if_splits)+

text \<open>Nothing is lost, repeated or reordered by the loop, whatever the network and the yielder
  do: the bytes stored are the next bytes of the stream and the rest stays in the channel.\<close>

lemma recv_retry_stream:
  assumes "recv_retry y wa dw len buf e s evs = Ret (r, e', buf', s', evs')" "length buf \<le> len"
  shows "\<exists>d. buf' = buf @ d \<and> rx_stream evs = d @ rx_stream evs' \<and> length buf' \<le> len \<and>
    (0 < r \<and> (wa \<or> buf = []) \<longrightarrow> r = int (length buf'))"
  using assms
proof (induction "rx_weight evs" arbitrary: buf e s evs rule: less_induct)
  case less
  note eq = recv_retry.simps [of y wa dw len buf e s evs]
  show ?case
  proof (cases "sys_recv (len - length buf) evs = None")
    case True
    then show ?thesis using less.prems eq by (auto split: if_splits)
  next
  case False
  then obtain x evs1 where sys: "sys_recv (len - length buf) evs = Some (x, evs1)" by fastforce
  note st = sys_recv_stream [OF sys]
  show ?thesis
  proof (cases x)
    case (SAgain p)
    obtain k s1 where w: "task_wait y p s = (k, s1)" by fastforce
    have sm: "rx_weight evs1 < rx_weight evs" using sys_recv_weight [OF sys] SAgain by simp
    show ?thesis
    proof (cases "dw \<or> k \<noteq> 0")
      case True
      then show ?thesis using less.prems eq sys st SAgain w by (auto split: if_splits)
    next
      case False
      then have "recv_retry y wa dw len buf EAGAIN s1 evs1 = Ret (r, e', buf', s', evs')"
        using less.prems eq sys SAgain w by simp
      from less.hyps [OF sm this less.prems(2)] st SAgain show ?thesis by simp
    qed
  next
    case SErr
    then show ?thesis using less.prems eq sys st by (auto split: if_splits)
  next
    case (SOk d)
    have le: "length (buf @ d) \<le> len" using st(2) [OF SOk] less.prems(2) by simp
    show ?thesis
    proof (cases "wa \<and> d \<noteq> [] \<and> length (buf @ d) < len")
      case True
      then have "recv_retry y wa dw len (buf @ d) e s evs1 = Ret (r, e', buf', s', evs')"
        using less.prems eq sys SOk by simp
      moreover have "rx_weight evs1 < rx_weight evs" using sys_recv_weight [OF sys] SOk True by simp
      ultimately obtain d' where "buf' = (buf @ d) @ d'" "rx_stream evs1 = d' @ rx_stream evs'"
        "length buf' \<le> len" "0 < r \<longrightarrow> r = int (length buf')"
        using less.hyps [of evs1 "buf @ d" e s] le True by blast
      then show ?thesis using st(1) SOk by (intro exI [of _ "d @ d'"]) simp
    next
      case False
      then show ?thesis using less.prems eq sys st SOk le by (auto split: if_splits)
    qed
  qed
  qed
qed

text \<open>A channel from which \<open>n\<close> bytes can be read without an error, a time-out or the end of
  the stream, and one that will take \<open>n\<close> bytes.\<close>

fun rx_ready :: "nat \<Rightarrow> rx_event list \<Rightarrow> bool" where
  "rx_ready n [] = (n = 0)"
| "rx_ready n (RxData bs # es) = (n = 0 \<or> bs \<noteq> [] \<and> rx_ready (n - length bs) es)"
| "rx_ready n (RxEof # es) = (n = 0)"
| "rx_ready n (RxErr # es) = (n = 0)"
| "rx_ready n (RxAgain p # es) = (n = 0 \<or> calm p \<and> rx_ready n es)"

fun tx_ready :: "nat \<Rightarrow> tx_event list \<Rightarrow> bool" where
  "tx_ready n [] = (n = 0)"
| "tx_ready n (TxTake k # es) = (n = 0 \<or> 0 < k \<and> tx_ready (n - k) es)"
| "tx_ready n (TxErr # es) = (n = 0)"
| "tx_ready n (TxAgain p # es) = (n = 0 \<or> calm p \<and> tx_ready n es)"

lemma rx_ready_0 [simp]: "rx_ready 0 es"
  by (cases "(0::nat, es)" rule: rx_ready.cases) auto

lemma tx_ready_0 [simp]: "tx_ready 0 es"
  by (cases "(0::nat, es)" rule: tx_ready.cases) auto

lemma rx_ready_stream: "rx_ready n es \<Longrightarrow> n \<le> length (rx_stream es)"
  by (induction n es rule: rx_ready.induct) auto

lemma rx_ready_mono: "rx_ready n es \<Longrightarrow> m \<le> n \<Longrightarrow> rx_ready m es"
  by (induction n es arbitrary: m rule: rx_ready.induct) auto

lemma tx_ready_mono: "tx_ready n es \<Longrightarrow> m \<le> n \<Longrightarrow> tx_ready m es"
  by (induction n es arbitrary: m rule: tx_ready.induct) auto

lemma sys_recv_ready:
  assumes "rx_ready n es" "0 < m" "m \<le> n"
  shows "case sys_recv m es of
      Some (SAgain p, es') \<Rightarrow> calm p \<and> rx_ready n es' \<and> rx_stream es' = rx_stream es
    | Some (SOk d, es') \<Rightarrow> d \<noteq> [] \<and> length d \<le> m \<and> rx_ready (n - length d) es' \<and>
        rx_stream es = d @ rx_stream es'
    | _ \<Rightarrow> False"
  using assms by (cases "(n, es)" rule: rx_ready.cases) (auto simp: min_def)

lemma sys_send_ready:
  assumes "tx_ready n es" "bs \<noteq> []" "length bs \<le> n"
  shows "case sys_send bs es of
      Some (SAgain p, es') \<Rightarrow> calm p \<and> tx_ready n es'
    | Some (SOk d, es') \<Rightarrow> d \<noteq> [] \<and> (\<exists>r. bs = d @ r) \<and> tx_ready (n - length d) es'
    | _ \<Rightarrow> False"
  using assms by (cases "(n, es)" rule: tx_ready.cases)
    (auto simp: min_def intro: append_take_drop_id [symmetric])

section \<open>The vector forms are the plain forms\<close>

lemma concat_iov_advance: "concat (iov_advance n iov) = drop n (concat iov)"
  by (induction n iov rule: iov_advance.induct) auto

lemma sum_list_length_concat: "(\<Sum>b\<leftarrow>iov. length b) = length (concat iov)"
  by (simp add: length_concat)

lemma sys_send_prefix: "sys_send bs es = Some (SOk d, es') \<Longrightarrow> \<exists>r. bs = d @ r"
  by (cases "(bs, es)" rule: sys_send.cases) (auto intro: append_take_drop_id [symmetric])

lemma sendmsg_retry_eq:
  "len = sz + length (concat iov) \<Longrightarrow>
   sendmsg_retry y wa dw iov len sz e w s evs = send_retry y wa dw (concat iov) sz e w s evs"
proof (induction "tx_weight evs" arbitrary: iov sz e w s evs rule: less_induct)
  case less
  note eqs = sendmsg_retry.simps [of y wa dw iov len sz e w s evs]
    send_retry.simps [of y wa dw "concat iov" sz e w s evs]
  show ?case
  proof (cases "sys_send (concat iov) evs")
    case None
    then show ?thesis using eqs by simp
  next
    case (Some xe)
    obtain x evs1 where sys: "sys_send (concat iov) evs = Some (x, evs1)"
      using Some by (cases xe) simp
    have w: "x \<noteq> SOk [] \<Longrightarrow> tx_weight evs1 < tx_weight evs" using sys_send_weight [OF sys] .
    show ?thesis
    proof (cases x)
      case (SAgain p)
      then have "sendmsg_retry y wa dw iov len sz EAGAIN w s1 evs1 =
          send_retry y wa dw (concat iov) sz EAGAIN w s1 evs1" for s1
        using less.hyps [OF _ less.prems] w by simp
      then show ?thesis unfolding eqs using SAgain sys
        by (cases dw; cases "sz = 0") (auto split: prod.split)
    next
      case SErr
      then show ?thesis using eqs sys by simp
    next
      case (SOk d)
      obtain r where r: "concat iov = d @ r" using sys_send_prefix sys SOk by blast
      have "sendmsg_retry y wa dw (iov_advance (length d) iov) len (sz + length d) e (w @ d) s evs1 =
          send_retry y wa dw (drop (length d) (concat iov)) (sz + length d) e (w @ d) s evs1"
        if "d \<noteq> []"
        using less.hyps [of evs1 "sz + length d" "iov_advance (length d) iov"] that w SOk r less.prems
        by (simp add: concat_iov_advance)
      then show ?thesis using eqs sys SOk r less.prems by (cases wa) auto
    qed
  qed
qed

lemma sendmsg_eq_send:
  "hev_task_io_socket_sendmsg y wa dw iov s c = hev_task_io_socket_send y wa dw (concat iov) s c"
  by (simp add: hev_task_io_socket_sendmsg_def hev_task_io_socket_send_def
      sendmsg_retry_eq sum_list_length_concat)

lemma put_Nil [simp]: "put b [] m = m"
  by (simp add: put_def)

lemma put_put_append:
  "b \<le> length m \<Longrightarrow> put (b + length d) r (put b d m) = put b (d @ r) m"
  by (simp add: put_def add.assoc add.commute [of "length r"])

lemma scatter_Nil [simp]: "scatter v [] m = m"
  by (induction v arbitrary: m) auto

lemma length_scatter [simp]: "iov_in v (length m) \<Longrightarrow> length (scatter v d m) = length m"
  by (induction v d m rule: scatter.induct) (auto simp: iov_in_def)

lemma iov_in_advance: "iov_in v n \<Longrightarrow> iov_in (iov_advance_off k v) n"
  by (induction k v rule: iov_advance_off.induct) (auto simp: iov_in_def)

lemma iov_advance_sum:
  "(\<Sum>(b, l)\<leftarrow>iov_advance_off k v. l) = (\<Sum>(b, l)\<leftarrow>v. l) - k"
  by (induction k v rule: iov_advance_off.induct) auto

lemma scatter_advance:
  "iov_in v (length m) \<Longrightarrow>
   scatter (iov_advance_off (length d) v) r (scatter v d m) = scatter v (d @ r) m"
proof (induction v arbitrary: d m)
  case (Cons x v)
  obtain b l where x: "x = (b, l)" by fastforce
  have bl: "b + l \<le> length m" and v: "iov_in v (length m)"
    using Cons.prems x by (auto simp: iov_in_def)
  show ?case
  proof (cases "length d < l")
    case True
    have "put (b + length d) (take (l - length d) r) (put b d m) = put b (d @ take (l - length d) r) m"
      using bl by (intro put_put_append) simp
    then show ?thesis using True x by simp
  next
    case False
    have "length (put b (take l d) m) = length m" using bl by simp
    then show ?thesis using Cons.IH [of "put b (take l d) m" "drop l d"] v False x by simp
  qed
qed simp

lemma recvmsg_retry_eq:
  assumes "iov_in iov (length mem)" "len = length buf + (\<Sum>(b, l)\<leftarrow>iov. l)"
  shows "recvmsg_retry y True dw iov len (length buf) mem e s evs =
    bind_o (recv_retry y True dw len buf e s evs)
      (\<lambda>(r, e', buf', s', evs'). Ret (r, e', scatter iov (drop (length buf) buf') mem, s', evs'))"
  using assms
proof (induction "rx_weight evs" arbitrary: iov mem buf e s evs rule: less_induct)
  case less
  note eqs = recvmsg_retry.simps [of y True dw iov len "length buf" mem e s evs]
    recv_retry.simps [of y True dw len buf e s evs]
  have k: "len - length buf = (\<Sum>(b, l)\<leftarrow>iov. l)" using less.prems by simp
  show ?case
  proof (cases "sys_recv (len - length buf) evs")
    case None
    then show ?thesis using eqs k by simp
  next
    case (Some xe)
    obtain x evs1 where sys: "sys_recv (len - length buf) evs = Some (x, evs1)"
      using Some by (cases xe) simp
    have w: "x \<noteq> SOk [] \<Longrightarrow> rx_weight evs1 < rx_weight evs" using sys_recv_weight [OF sys] .
    show ?thesis
    proof (cases x)
      case (SAgain p)
      then have "recvmsg_retry y True dw iov len (length buf) mem EAGAIN s1 evs1 =
          bind_o (recv_retry y True dw len buf EAGAIN s1 evs1) (\<lambda>(r, e', buf', s', evs').
            Ret (r, e', scatter iov (drop (length buf) buf') mem, s', evs'))" for s1
        using less.hyps [OF _ less.prems] w by simp
      then show ?thesis unfolding eqs using SAgain sys k
        by (cases dw; cases "buf = []") (auto split: prod.split)
    next
      case SErr
      then show ?thesis using eqs sys k by simp
    next
      case (SOk d)
      have le: "length d \<le> len - length buf" using sys_recv_stream(2) [OF sys SOk] .
      have step: "recvmsg_retry y True dw (iov_advance_off (length d) iov) len (length buf + length d)
            (scatter iov d mem) e s evs1 =
          bind_o (recv_retry y True dw len (buf @ d) e s evs1) (\<lambda>(r, e', buf', s', evs').
            Ret (r, e', scatter (iov_advance_off (length d) iov) (drop (length (buf @ d)) buf')
              (scatter iov d mem), s', evs'))" if "d \<noteq> []"
        using less.hyps [of evs1 "iov_advance_off (length d) iov" "scatter iov d mem" "buf @ d" e s]
          that w SOk less.prems le k by (simp add: iov_in_advance iov_advance_sum)
      show ?thesis
      proof (cases "d \<noteq> [] \<and> length (buf @ d) < len")
        case True
        have "scatter (iov_advance_off (length d) iov) (drop (length (buf @ d)) buf')
              (scatter iov d mem) = scatter iov (drop (length buf) buf') mem"
          if "recv_retry y True dw len (buf @ d) e s evs1 = Ret (r, e', buf', s', evs')"
          for r e' buf' s' evs'
          using recv_retry_stream [OF that] True less.prems(1) by (auto simp: scatter_advance)
        then show ?thesis using eqs sys SOk step True k
          by (auto intro!: bind_o_cong)
      next
        case False
        then show ?thesis using eqs sys SOk k by auto
      qed
    qed
  qed
qed

section \<open>Pauses, and no faults\<close>

text \<open>How often the bytes left will have to be waited for. A loop only uses up pauses.\<close>

fun rx_pauses :: "rx_event list \<Rightarrow> nat" where
  "rx_pauses [] = 0"
| "rx_pauses (RxAgain p # es) = Suc (rx_pauses es)"
| "rx_pauses (e # es) = rx_pauses es"

lemma sys_recv_pauses: "sys_recv n es = Some (r, es') \<Longrightarrow> rx_pauses es' \<le> rx_pauses es"
  by (cases "(n, es)" rule: sys_recv.cases) (auto split: if_splits)

lemma recv_retry_pauses:
  "recv_retry y wa dw len buf e s evs = Ret (r, e', buf', s', evs') \<Longrightarrow> rx_pauses evs' \<le> rx_pauses evs"
proof (induction "rx_weight evs" arbitrary: buf e s evs rule: less_induct)
  case less
  note eq = recv_retry.simps [of y wa dw len buf e s evs]
  show ?case
  proof (cases "sys_recv (len - length buf) evs")
    case None
    then show ?thesis using less.prems eq by (auto split: if_splits)
  next
    case (Some xe)
    obtain x evs1 where sys: "sys_recv (len - length buf) evs = Some (x, evs1)" using Some by (cases xe) simp
    note p = sys_recv_pauses [OF sys]
    consider "evs' = evs1" | b e1 s1 where "recv_retry y wa dw len b e1 s1 evs1 = Ret (r, e', buf', s', evs')" "x \<noteq> SOk []"
      using less.prems unfolding eq sys by (cases x) (auto split: if_splits prod.splits)
    then show ?thesis
    proof cases
      case 2
      then show ?thesis using less.hyps [OF sys_recv_weight [OF sys 2(2)] 2(1)] p by simp
    qed (use p in simp)
  qed
qed

lemma recv_retry_no_fault: "recv_retry y wa dw len buf e s evs \<noteq> Fault"
proof (induction "rx_weight evs" arbitrary: buf e s evs rule: less_induct)
  case less
  note eq = recv_retry.simps [of y wa dw len buf e s evs]
  show ?case
  proof (cases "sys_recv (len - length buf) evs")
    case None
    then show ?thesis using eq by simp
  next
    case (Some xe)
    obtain x evs1 where sys: "sys_recv (len - length buf) evs = Some (x, evs1)" using Some by (cases xe) simp
    have "recv_retry y wa dw len b e1 s1 evs1 \<noteq> Fault" if "x \<noteq> SOk []" for b e1 s1
      using less.hyps [OF sys_recv_weight [OF sys that]] .
    then show ?thesis unfolding eq sys by (cases x) (auto split: prod.split)
  qed
qed

lemma send_retry_no_fault: "send_retry y wa dw bs sz e w s evs \<noteq> Fault"
proof (induction "tx_weight evs" arbitrary: bs sz e w s evs rule: less_induct)
  case less
  note eq = send_retry.simps [of y wa dw bs sz e w s evs]
  show ?case
  proof (cases "sys_send bs evs")
    case None
    then show ?thesis using eq by simp
  next
    case (Some xe)
    obtain x evs1 where sys: "sys_send bs evs = Some (x, evs1)" using Some by (cases xe) simp
    have "send_retry y wa dw b z e1 w1 s1 evs1 \<noteq> Fault" if "x \<noteq> SOk []" for b z e1 w1 s1
      using less.hyps [OF sys_send_weight [OF sys that]] .
    then show ?thesis unfolding eq sys by (cases x) (auto split: prod.split)
  qed
qed

section \<open>What a yielder keeps, the loops keep\<close>

lemma recv_retry_keeps:
  assumes "\<And>p s. I s \<Longrightarrow> I (snd (task_wait y p s))"
    and "recv_retry y wa dw len buf e s evs = Ret (r, e', buf', s', evs')" "I s"
  shows "I s'"
  using assms(2,3)
proof (induction "rx_weight evs" arbitrary: buf e s evs rule: less_induct)
  case less
  note eq = recv_retry.simps [of y wa dw len buf e s evs]
  show ?case
  proof (cases "sys_recv (len - length buf) evs = None")
    case True
    then show ?thesis using less.prems eq by (auto split: if_splits)
  next
    case False
    then obtain x evs1 where sys: "sys_recv (len - length buf) evs = Some (x, evs1)" by fastforce
    note wt = sys_recv_weight [OF sys]
    show ?thesis
    proof (cases x)
      case (SAgain p)
      obtain k s1 where w: "task_wait y p s = (k, s1)" by fastforce
      have s1: "I s1" using assms(1) [OF less.prems(2), of p] w by simp
      show ?thesis using less.prems eq sys SAgain w s1 less.hyps [of evs1 buf EAGAIN s1] wt
        by (auto split: if_splits)
    qed (use less.prems eq sys less.hyps wt in \<open>auto split: if_splits\<close>)
  qed
qed

lemma send_retry_keeps:
  assumes "\<And>p s. I s \<Longrightarrow> I (snd (task_wait y p s))"
    and "send_retry y wa dw bs sz e w s evs = Ret (r, e', w', s', evs')" "I s"
  shows "I s'"
  using assms(2,3)
proof (induction "tx_weight evs" arbitrary: bs sz e w s evs rule: less_induct)
  case less
  note eq = send_retry.simps [of y wa dw bs sz e w s evs]
  show ?case
  proof (cases "sys_send bs evs = None")
    case True
    then show ?thesis using less.prems eq by (auto split: if_splits)
  next
    case False
    then obtain x evs1 where sys: "sys_send bs evs = Some (x, evs1)" by fastforce
    note wt = sys_send_weight [OF sys]
    show ?thesis
    proof (cases x)
      case (SAgain p)
      obtain k s1 where v: "task_wait y p s = (k, s1)" by fastforce
      have s1: "I s1" using assms(1) [OF less.prems(2), of p] v by simp
      show ?thesis using less.prems eq sys SAgain v s1 less.hyps [of evs1 bs sz EAGAIN w s1] wt
        by (auto split: if_splits)
    qed (use less.prems eq sys less.hyps wt in \<open>auto split: if_splits\<close>)
  qed
qed

lemma connect_keeps:
  assumes "\<And>p s. I s \<Longrightarrow> I (snd (task_wait y p s))"
  shows "hev_task_io_socket_connect y s evs = Ret (r, s', evs') \<Longrightarrow> I s \<Longrightarrow> I s'"
proof (induction evs arbitrary: s)
  case (Cons ev evs)
  show ?case
  proof (cases ev)
    case (ConnBusy p)
    obtain k s1 where v: "task_wait y p s = (k, s1)" by fastforce
    have "I s1" using assms [OF Cons.prems(2), of p] v by simp
    then show ?thesis using Cons ConnBusy v by (auto split: if_splits)
  qed (use Cons.prems in auto)
qed simp

section \<open>What the loops need of a yielder\<close>

locale io_task =
  fixes y :: "'s yielder" and live :: "'s \<Rightarrow> bool"
  assumes calm_wait: "live s \<Longrightarrow> calm p \<Longrightarrow> y HEV_TASK_WAITIO p s = (0, s)"
begin

lemma recv_retry_all:
  assumes "live s" "length buf < len" "rx_ready (len - length buf + m) evs"
  shows "\<exists>e' evs'. recv_retry (Some y) True False len buf e s evs =
      Ret (int len, e', buf @ take (len - length buf) (rx_stream evs), s, evs') \<and>
      rx_stream evs' = drop (len - length buf) (rx_stream evs) \<and> rx_ready m evs'"
  using assms(2,3)
proof (induction "rx_weight evs" arbitrary: buf e evs rule: less_induct)
  case less
  note eq = recv_retry.simps [of "Some y" True False len buf e s evs]
  let ?k = "len - length buf"
  have k: "0 < ?k" "?k \<le> ?k + m" using less.prems by auto
  note rdy = sys_recv_ready [OF less.prems(2) k]
  obtain x evs1 where sys: "sys_recv ?k evs = Some (x, evs1)"
    using rdy by (auto split: option.splits)
  show ?case
  proof (cases x)
    case (SAgain p)
    then have c: "calm p" "rx_ready (?k + m) evs1" "rx_stream evs1 = rx_stream evs"
      using rdy sys by simp_all
    have "rx_weight evs1 < rx_weight evs" using sys_recv_weight [OF sys] SAgain by simp
    from less.hyps [OF this less.prems(1) c(2), of EAGAIN] eq sys SAgain c assms(1)
    show ?thesis by (simp add: task_wait_def calm_wait)
  next
    case SErr
    then show ?thesis using rdy sys by simp
  next
    case (SOk d)
    then have c: "d \<noteq> []" "length d \<le> ?k" "rx_ready (?k + m - length d) evs1"
      "rx_stream evs = d @ rx_stream evs1" using rdy sys by simp_all
    show ?thesis
    proof (cases "length (buf @ d) < len")
      case True
      have "rx_weight evs1 < rx_weight evs" using sys_recv_weight [OF sys] SOk c by simp
      moreover have "rx_ready (len - length (buf @ d) + m) evs1"
        using c(3) True by (simp add: add.commute)
      ultimately show ?thesis
        using less.hyps [of evs1 "buf @ d" e] True eq sys SOk c by (simp add: take_Cons')
    next
      case False
      then have "length d = ?k" using c(2) less.prems(1) by simp
      then show ?thesis using False eq sys SOk c less.prems(1) by simp
    qed
  qed
qed

lemma send_retry_all:
  assumes "live s" "bs \<noteq> []" "tx_ready (length bs + m) evs"
  shows "\<exists>e' evs'. send_retry (Some y) True False bs sz e w s evs =
      Ret (int (sz + length bs), e', w @ bs, s, evs') \<and> tx_ready m evs'"
  using assms(2,3)
proof (induction "tx_weight evs" arbitrary: bs sz e w evs rule: less_induct)
  case less
  note eq = send_retry.simps [of "Some y" True False bs sz e w s evs]
  note rdy = sys_send_ready [OF less.prems(2,1) le_add1]
  obtain x evs1 where sys: "sys_send bs evs = Some (x, evs1)"
    using rdy by (auto split: option.splits)
  show ?case
  proof (cases x)
    case (SAgain p)
    then have c: "calm p" "tx_ready (length bs + m) evs1" using rdy sys by simp_all
    have "tx_weight evs1 < tx_weight evs" using sys_send_weight [OF sys] SAgain by simp
    from less.hyps [OF this less.prems(1) c(2), of sz EAGAIN w] eq sys SAgain c assms(1)
    show ?thesis by (simp add: task_wait_def calm_wait)
  next
    case SErr
    then show ?thesis using rdy sys by simp
  next
    case (SOk d)
    then obtain r where c: "d \<noteq> []" "bs = d @ r" "tx_ready (length bs + m - length d) evs1"
      using rdy sys by auto
    show ?thesis
    proof (cases "r = []")
      case False
      have "tx_weight evs1 < tx_weight evs" using sys_send_weight [OF sys] SOk c by simp
      then show ?thesis
        using less.hyps [of evs1 r "sz + length d" e "w @ d"] False c eq sys SOk
        by (simp add: add.assoc)
    next
      case True
      then show ?thesis using eq sys SOk c by simp
    qed
  qed
qed

text \<open>The same on the channel of a descriptor: a complete read returns the next \<open>n\<close> bytes of
  the stream however the network cut it, and a complete write puts all bytes on the wire.\<close>

lemma recv_all:
  assumes "live s" "0 < n" "rx_ready (n + m) (rxs c)"
  obtains c' where
    "hev_task_io_socket_recv (Some y) True False n s c =
       Ret (int n, take n (rx_stream (rxs c)), s, c')"
    "rx_stream (rxs c') = drop n (rx_stream (rxs c))" "rx_ready m (rxs c')"
    "txs c' = txs c" "wire c' = wire c" "wr_shut c' = wr_shut c"
proof -
  obtain e' evs' where "recv_retry (Some y) True False n [] (errno_of c) s (rxs c) =
      Ret (int n, e', take n (rx_stream (rxs c)), s, evs')"
    "rx_stream evs' = drop n (rx_stream (rxs c))" "rx_ready m evs'"
    using recv_retry_all [of s "[]" n m "rxs c" "errno_of c"] assms by auto
  then show thesis
    using that [of "c\<lparr>rxs := evs', errno_of := e'\<rparr>"] by (simp add: hev_task_io_socket_recv_def)
qed

lemma send_all:
  assumes "live s" "bs \<noteq> []" "tx_ready (length bs + m) (txs c)"
  obtains c' where
    "hev_task_io_socket_send (Some y) True False bs s c = Ret (int (length bs), s, c')"
    "wire c' = wire c @ bs" "tx_ready m (txs c')" "rxs c' = rxs c" "wr_shut c' = wr_shut c"
proof -
  obtain e' evs' where "send_retry (Some y) True False bs 0 (errno_of c) (wire c) s (txs c) =
      Ret (int (length bs), e', wire c @ bs, s, evs')" "tx_ready m evs'"
    using send_retry_all [of s bs m "txs c" 0 "errno_of c" "wire c"] assms by auto
  then show thesis
    using that [of "c\<lparr>txs := evs', wire := wire c @ bs, errno_of := e'\<rparr>"]
    by (simp add: hev_task_io_socket_send_def)
qed

lemma recvmsg_all:
  assumes "live s" "n = (\<Sum>(b, l)\<leftarrow>iov. l)" "0 < n" "iov_in iov (length mem)" "rx_ready (n + m) (rxs c)"
  obtains c' where
    "hev_task_io_socket_recvmsg (Some y) True False iov mem s c =
       Ret (int n, scatter iov (take n (rx_stream (rxs c))) mem, s, c')"
    "rx_stream (rxs c') = drop n (rx_stream (rxs c))" "rx_ready m (rxs c')"
    "txs c' = txs c" "wire c' = wire c" "wr_shut c' = wr_shut c"
proof -
  obtain e' evs' where "recv_retry (Some y) True False n [] (errno_of c) s (rxs c) =
      Ret (int n, e', take n (rx_stream (rxs c)), s, evs')"
    "rx_stream evs' = drop n (rx_stream (rxs c))" "rx_ready m evs'"
    using recv_retry_all [of s "[]" n m "rxs c" "errno_of c"] assms by auto
  moreover from this(1) have "hev_task_io_socket_recvmsg (Some y) True False iov mem s c =
      Ret (int n, scatter iov (take n (rx_stream (rxs c))) mem, s, c\<lparr>rxs := evs', errno_of := e'\<rparr>)"
    using recvmsg_retry_eq [OF assms(4), of n "[]" "Some y" False "errno_of c" s "rxs c"]
      assms(4) unfolding hev_task_io_socket_recvmsg_def assms(2) [symmetric] by (simp add: assms(2))
  ultimately show thesis by (intro that [of "c\<lparr>rxs := evs', errno_of := e'\<rparr>"]) simp_all
qed

end

section \<open>Theorems\<close>

text \<open>C40. The vectored calls are equivalent to the plain ones. Sending a vector of buffers, with its
  advance after short writes, behaves on every network exactly like sending their concatenation; receiving
  into a vector of areas of a buffer behaves exactly like receiving into one area of the total length and
  then scattering the bytes.\<close>

theorem vectored_io_equivalent:
  assumes "iov_in v (length m)"
  shows "hev_task_io_socket_sendmsg y waitall dontwait iov s c =
      hev_task_io_socket_send y waitall dontwait (concat iov) s c \<and>
    hev_task_io_socket_recvmsg y True dontwait v m s c =
      bind_o (hev_task_io_socket_recv y True dontwait (\<Sum>(b, l)\<leftarrow>v. l) s c)
        (\<lambda>(r, buf, s', c'). Ret (r, scatter v buf m, s', c'))"
  using recvmsg_retry_eq [OF assms, of "\<Sum>(b, l)\<leftarrow>v. l" "[]" y dontwait "errno_of c" s "rxs c"]
    assms
  by (simp add: sendmsg_eq_send hev_task_io_socket_recvmsg_def hev_task_io_socket_recv_def bind_o_assoc split_beta)

theorem vectored_io_equivalent_witness:
  "\<exists>c'. hev_task_io_socket_recvmsg (None :: unit yielder option) True False [(1, 2), (4, 1)] [0, 0, 0, 0, 0] ()
      \<lparr>rxs = [RxData [7], RxAgain (Nap 1 False), RxData [8, 9, 10]], txs = [], wire = [], wr_shut = False, errno_of = E_NONE\<rparr> =
    Ret (3, [0, 7, 8, 0, 9], (), c')"
proof -
  have i: "iov_in [(1, 2), (4, 1)] (length ([0, 0, 0, 0, 0] :: byte list))" by (simp add: iov_in_def)
  show ?thesis
    using vectored_io_equivalent [OF i, of "None :: unit yielder option" True False "[]" "()"
        "\<lparr>rxs = [RxData [7], RxAgain (Nap 1 False), RxData [8, 9, 10]], txs = [], wire = [], wr_shut = False, errno_of = E_NONE\<rparr>"]
    by (simp add: hev_task_io_socket_recv_def recv_retry.simps task_wait_def put_def)
qed

end
