(* ===== verification/Socks5.thy ===== *)
theory Socks5
  imports SockIO
begin

text \<open>
  The SOCKS5 object and its helpers: the wire constants of \<open>hev-socks5-proto.h\<close>, the object
  and its yielder (\<open>hev-socks5.c\<close>, \<open>hev-socks5-misc.c\<close>), and the conversions between the
  packed address of the wire, socket addresses and the addresses of lwIP
  (\<open>hev-socks5-misc.c\<close>, \<open>src/misc/hev-utils.c\<close>). An address is the memory of the packed
  union, a list of bytes; every access is checked against its length.
\<close>

section \<open>Wire constants\<close>

abbreviation (input) HEV_SOCKS5_VERSION_5 :: byte where "HEV_SOCKS5_VERSION_5 \<equiv> 5"
abbreviation (input) HEV_SOCKS5_AUTH_METHOD_NONE :: byte where "HEV_SOCKS5_AUTH_METHOD_NONE \<equiv> 0"
abbreviation (input) HEV_SOCKS5_AUTH_METHOD_USER :: byte where "HEV_SOCKS5_AUTH_METHOD_USER \<equiv> 2"
abbreviation (input) HEV_SOCKS5_AUTH_METHOD_DENY :: byte where "HEV_SOCKS5_AUTH_METHOD_DENY \<equiv> 255"
abbreviation (input) HEV_SOCKS5_AUTH_VERSION_1 :: byte where "HEV_SOCKS5_AUTH_VERSION_1 \<equiv> 1"
abbreviation (input) HEV_SOCKS5_REQ_CMD_CONNECT :: byte where "HEV_SOCKS5_REQ_CMD_CONNECT \<equiv> 1"
abbreviation (input) HEV_SOCKS5_REQ_CMD_UDP_ASC :: byte where "HEV_SOCKS5_REQ_CMD_UDP_ASC \<equiv> 3"
abbreviation (input) HEV_SOCKS5_REQ_CMD_FWD_UDP :: byte where "HEV_SOCKS5_REQ_CMD_FWD_UDP \<equiv> 5"
abbreviation (input) HEV_SOCKS5_RES_REP_SUCC :: byte where "HEV_SOCKS5_RES_REP_SUCC \<equiv> 0"
abbreviation (input) HEV_SOCKS5_RES_REP_FAIL :: byte where "HEV_SOCKS5_RES_REP_FAIL \<equiv> 1"
abbreviation (input) HEV_SOCKS5_RES_REP_HOST :: byte where "HEV_SOCKS5_RES_REP_HOST \<equiv> 4"
abbreviation (input) HEV_SOCKS5_RES_REP_IMPL :: byte where "HEV_SOCKS5_RES_REP_IMPL \<equiv> 7"
abbreviation (input) HEV_SOCKS5_RES_REP_ADDR :: byte where "HEV_SOCKS5_RES_REP_ADDR \<equiv> 8"
abbreviation (input) HEV_SOCKS5_ADDR_TYPE_IPV4 :: byte where "HEV_SOCKS5_ADDR_TYPE_IPV4 \<equiv> 1"
abbreviation (input) HEV_SOCKS5_ADDR_TYPE_NAME :: byte where "HEV_SOCKS5_ADDR_TYPE_NAME \<equiv> 3"
abbreviation (input) HEV_SOCKS5_ADDR_TYPE_IPV6 :: byte where "HEV_SOCKS5_ADDR_TYPE_IPV6 \<equiv> 4"

section \<open>The object\<close>

datatype socks5_type = TYPE_NONE | TYPE_TCP | TYPE_UDP_IN_TCP | TYPE_UDP_IN_UDP
datatype addr_family = FAMILY_IPV4 | FAMILY_IPV6 | FAMILY_UNSPEC

record socks5 =
  sfd :: fd
  timeout :: int
  udp_associated :: int
  stype :: socks5_type
  family :: addr_family

definition hev_socks5_get_timeout :: "'a socks5_scheme \<Rightarrow> int" where
  "hev_socks5_get_timeout self = timeout self"

definition hev_socks5_set_timeout :: "'a socks5_scheme \<Rightarrow> int \<Rightarrow> 'a socks5_scheme" where
  "hev_socks5_set_timeout self t = self\<lparr>timeout := t\<rparr>"

definition hev_socks5_get_addr_family :: "'a socks5_scheme \<Rightarrow> addr_family" where
  "hev_socks5_get_addr_family self = family self"

definition hev_socks5_set_addr_family :: "'a socks5_scheme \<Rightarrow> addr_family \<Rightarrow> 'a socks5_scheme" where
  "hev_socks5_set_addr_family self f = self\<lparr>family := f\<rparr>"

text \<open>The constructor works on zeroed memory and leaves \<open>udp_associated\<close> alone.\<close>

definition hev_socks5_construct :: "'a socks5_scheme \<Rightarrow> socks5_type \<Rightarrow> 'a socks5_scheme" where
  "hev_socks5_construct self type =
     self\<lparr>sfd := - 1, timeout := - 1, stype := type, family := FAMILY_UNSPEC\<rparr>"

text \<open>The default binder accepts every descriptor.\<close>

definition hev_socks5_bind :: "'a socks5_scheme \<Rightarrow> fd \<Rightarrow> int" where
  "hev_socks5_bind self sock = 0"

text \<open>The result is the descriptor to remove from the task and close, if there is one.\<close>

definition hev_socks5_destruct :: "'a socks5_scheme \<Rightarrow> fd option" where
  "hev_socks5_destruct self = (if sfd self \<ge> 0 then Some (sfd self) else None)"

section \<open>Global parameters\<close>

record socks5_params =
  connect_timeout :: int
  tcp_timeout :: int
  udp_timeout :: int
  task_stack_size :: int
  udp_recv_buffer_size :: int
  udp_copy_buffer_nums :: int

definition socks5_default_params :: socks5_params where
  "socks5_default_params = \<lparr>connect_timeout = 10000, tcp_timeout = 300000, udp_timeout = 60000,
     task_stack_size = 8192, udp_recv_buffer_size = 512 * 1024, udp_copy_buffer_nums = 10\<rparr>"

definition hev_socks5_set_connect_timeout :: "int \<Rightarrow> socks5_params \<Rightarrow> socks5_params" where
  "hev_socks5_set_connect_timeout t g = g\<lparr>connect_timeout := t\<rparr>"

definition hev_socks5_set_tcp_timeout :: "int \<Rightarrow> socks5_params \<Rightarrow> socks5_params" where
  "hev_socks5_set_tcp_timeout t g = g\<lparr>tcp_timeout := t\<rparr>"

definition hev_socks5_set_udp_timeout :: "int \<Rightarrow> socks5_params \<Rightarrow> socks5_params" where
  "hev_socks5_set_udp_timeout t g = g\<lparr>udp_timeout := t\<rparr>"

definition hev_socks5_set_task_stack_size :: "int \<Rightarrow> socks5_params \<Rightarrow> socks5_params" where
  "hev_socks5_set_task_stack_size n g = g\<lparr>task_stack_size := n\<rparr>"

definition hev_socks5_set_udp_recv_buffer_size :: "int \<Rightarrow> socks5_params \<Rightarrow> socks5_params" where
  "hev_socks5_set_udp_recv_buffer_size n g = g\<lparr>udp_recv_buffer_size := n\<rparr>"

definition hev_socks5_set_udp_copy_buffer_nums :: "int \<Rightarrow> socks5_params \<Rightarrow> socks5_params" where
  "hev_socks5_set_udp_copy_buffer_nums n g = g\<lparr>udp_copy_buffer_nums := n\<rparr>"

section \<open>The yielder\<close>

text \<open>While a task sleeps another task may terminate its session
  (\<open>hev_socks5_session_terminate\<close>), which clears the time-out of the object.\<close>

definition woken :: "nap \<Rightarrow> 'a socks5_scheme \<Rightarrow> 'a socks5_scheme" where
  "woken p self = (if kill p then self\<lparr>timeout := 0\<rparr> else self)"

definition hev_socks5_task_io_yielder :: "'a socks5_scheme yielder" where
  "hev_socks5_task_io_yielder type p self =
     (if type = HEV_TASK_YIELD then (0, woken p self)
      else if timeout self < 0 then (0, woken p self)
      else let t = hev_task_sleep (timeout self) p in
        if t \<le> 0 then (- 1, woken p self) else (0, woken p self))"

definition live :: "'a socks5_scheme \<Rightarrow> bool" where
  "live self \<longleftrightarrow> timeout self \<noteq> 0"

interpretation socks5_io: io_task hev_socks5_task_io_yielder live
  by unfold_locales
    (auto simp: hev_socks5_task_io_yielder_def live_def calm_def woken_def hev_task_sleep_def Let_def)

text \<open>A terminated object stops at its next wait.\<close>

lemma yielder_stops:
  "timeout self = 0 \<Longrightarrow> fst (hev_socks5_task_io_yielder HEV_TASK_WAITIO p self) = - 1"
  by (simp add: hev_socks5_task_io_yielder_def hev_task_sleep_def)

section \<open>Sockets\<close>

record sockaddr6 =
  sin6_port :: u16
  sin6_addr :: "byte list"

text \<open>The answers of the next \<open>socket\<close> and \<open>setsockopt\<close> calls, what the next \<open>connect\<close>
  calls meet, the local name \<open>bind\<close> gives a socket, the local names of the sockets, whether
  the allocator has memory, and the descriptors the process has open.\<close>

record os =
  sock_res :: "(fd \<times> int) list"
  conn_evs :: "conn_event list"
  reuse_ok :: bool
  bind_name :: "fd \<Rightarrow> sockaddr6 \<Rightarrow> sockaddr6 option"
  sock_name :: "fd \<Rightarrow> sockaddr6 option"
  mem_ok :: bool
  open_fds :: "fd set"

definition close_fd :: "fd \<Rightarrow> os \<Rightarrow> os" where
  "close_fd fd w = w\<lparr>open_fds := open_fds w - {fd}\<rparr>"

definition hev_socks5_socket :: "os \<Rightarrow> (fd \<times> os) outcome" where
  "hev_socks5_socket w =
     (case sock_res w of
        [] \<Rightarrow> Wait
      | (fd, opt) # rest \<Rightarrow>
          let w = w\<lparr>sock_res := rest\<rparr> in
          if fd < 0 then Ret (- 1, w)
          else let w = w\<lparr>open_fds := insert fd (open_fds w)\<rparr> in
            if opt < 0 then Ret (- 1, close_fd fd w) else Ret (fd, w))"

text \<open>What the kernel guarantees of the descriptors it will hand out: none is open, and no two
  are the same.\<close>

definition fresh_fds :: "os \<Rightarrow> bool" where
  "fresh_fds w \<longleftrightarrow> distinct (map fst (sock_res w)) \<and> fst ` set (sock_res w) \<inter> open_fds w = {}"

lemma socket_Ret:
  assumes "hev_socks5_socket w = Ret (fd, w')" "fresh_fds w"
  shows "fresh_fds w'" "fd < 0 \<and> open_fds w' = open_fds w \<or>
    0 \<le> fd \<and> fd \<notin> open_fds w \<and> open_fds w' = insert fd (open_fds w)"
proof -
  obtain f opt tl0 where w: "sock_res w = (f, opt) # tl0"
    using assms(1) by (auto simp: hev_socks5_socket_def split: list.splits)
  have f: "f \<notin> open_fds w" "\<And>a b. (a, b) \<in> set tl0 \<Longrightarrow> a \<noteq> f \<and> a \<notin> open_fds w" "distinct (map fst tl0)"
    using assms(2) w by (force simp: fresh_fds_def)+
  show "fresh_fds w'" "fd < 0 \<and> open_fds w' = open_fds w \<or>
    0 \<le> fd \<and> fd \<notin> open_fds w \<and> open_fds w' = insert fd (open_fds w)"
    using assms(1) w f
    by (auto simp: hev_socks5_socket_def Let_def fresh_fds_def close_fd_def dest: f(2) split: if_splits)
qed

lemma open_fds_close_fd [simp]: "open_fds (close_fd fd w) = open_fds w - {fd}"
  by (simp add: close_fd_def)

section \<open>Packed addresses\<close>

text \<open>Byte 0 is the type; an IPv4 address has its four bytes at 1 and its port at 5, an IPv6
  address its sixteen bytes at 1 and its port at 17, a name its length at 1, its bytes from 2
  on and its port behind them. A \<open>HevSocks5Addr\<close> object has 260 bytes.\<close>

abbreviation rdo :: "byte list \<Rightarrow> nat \<Rightarrow> byte outcome" where
  "rdo bs i \<equiv> of_option (rd bs i)"

abbreviation rd_sego :: "byte list \<Rightarrow> nat \<Rightarrow> nat \<Rightarrow> byte list outcome" where
  "rd_sego bs off n \<equiv> of_option (rd_seg bs off n)"

definition putc :: "nat \<Rightarrow> byte list \<Rightarrow> byte list \<Rightarrow> byte list outcome" where
  "putc off new bs = (if off + length new \<le> length bs then Ret (put off new bs) else Fault)"

definition hev_socks5_addr_len :: "byte list \<Rightarrow> int outcome" where
  "hev_socks5_addr_len addr =
     bind_o (rdo addr 0) (\<lambda>atype.
       if atype = HEV_SOCKS5_ADDR_TYPE_IPV4 then Ret 7
       else if atype = HEV_SOCKS5_ADDR_TYPE_IPV6 then Ret 19
       else if atype = HEV_SOCKS5_ADDR_TYPE_NAME
       then bind_o (rdo addr 1) (\<lambda>len. Ret (4 + uint len))
       else Ret (- 1))"

text \<open>\<open>port\<close> is already in network order: its bytes are copied as they are in memory.\<close>

definition hev_socks5_addr_from_name :: "byte list \<Rightarrow> byte list \<Rightarrow> int \<Rightarrow> (int \<times> byte list) outcome" where
  "hev_socks5_addr_from_name addr name port =
     bind_o (putc 0 [HEV_SOCKS5_ADDR_TYPE_NAME] addr) (\<lambda>addr.
     bind_o (putc 2 (take 256 (name @ replicate 256 0)) addr) (\<lambda>addr.
     bind_o (of_option (cstr_at addr 2)) (\<lambda>s.
       let len = of_nat (length s) :: byte in
       bind_o (putc 1 [len] addr) (\<lambda>addr.
       bind_o (putc (2 + unat len) (store16 (word_of_int port)) addr) (\<lambda>addr.
         Ret (4 + uint len, addr))))))"

definition hev_socks5_addr_from_ipv4 :: "byte list \<Rightarrow> byte list \<Rightarrow> int \<Rightarrow> (int \<times> byte list) outcome" where
  "hev_socks5_addr_from_ipv4 addr ipv4 port =
     bind_o (rd_sego ipv4 0 4) (\<lambda>a.
     bind_o (putc 0 ([HEV_SOCKS5_ADDR_TYPE_IPV4] @ a @ store16 (word_of_int port)) addr) (\<lambda>addr.
       Ret (7, addr)))"

definition hev_socks5_addr_from_ipv6 :: "byte list \<Rightarrow> byte list \<Rightarrow> int \<Rightarrow> (int \<times> byte list) outcome" where
  "hev_socks5_addr_from_ipv6 addr ipv6 port =
     bind_o (rd_sego ipv6 0 16) (\<lambda>a.
     bind_o (putc 0 ([HEV_SOCKS5_ADDR_TYPE_IPV6] @ a @ store16 (word_of_int port)) addr) (\<lambda>addr.
       Ret (19, addr)))"

section \<open>Socket addresses\<close>

definition v4mapped :: "byte list \<Rightarrow> bool" where
  "v4mapped a \<longleftrightarrow> take 10 a = replicate 10 0 \<and> seg 10 2 a = [0xff, 0xff]"

definition hev_socks5_addr_from_sockaddr6 :: "byte list \<Rightarrow> sockaddr6 \<Rightarrow> (int \<times> byte list) outcome" where
  "hev_socks5_addr_from_sockaddr6 addr saddr =
     (if v4mapped (sin6_addr saddr) then
        bind_o (rd_sego (sin6_addr saddr) 12 4) (\<lambda>a.
        bind_o (putc 0 ([HEV_SOCKS5_ADDR_TYPE_IPV4] @ a @ store16 (sin6_port saddr)) addr) (\<lambda>addr.
          Ret (7, addr)))
      else
        bind_o (rd_sego (sin6_addr saddr) 0 16) (\<lambda>a.
        bind_o (putc 0 ([HEV_SOCKS5_ADDR_TYPE_IPV6] @ a @ store16 (sin6_port saddr)) addr) (\<lambda>addr.
          Ret (19, addr))))"

definition map4 :: "byte list \<Rightarrow> byte list" where
  "map4 a = replicate 10 0 @ [0xff, 0xff] @ a"

definition hev_socks5_ipv4_into_sockaddr6 :: "byte list \<Rightarrow> sockaddr6 outcome" where
  "hev_socks5_ipv4_into_sockaddr6 addr =
     bind_o (rd_sego addr 1 4) (\<lambda>a. bind_o (rd_sego addr 5 2) (\<lambda>port.
       Ret \<lparr>sin6_port = load16 port, sin6_addr = map4 a\<rparr>))"

definition hev_socks5_ipv6_into_sockaddr6 :: "byte list \<Rightarrow> sockaddr6 outcome" where
  "hev_socks5_ipv6_into_sockaddr6 addr =
     bind_o (rd_sego addr 1 16) (\<lambda>a. bind_o (rd_sego addr 17 2) (\<lambda>port.
       Ret \<lparr>sin6_port = load16 port, sin6_addr = a\<rparr>))"

text \<open>The resolver of the system: literal addresses (\<open>inet_pton\<close>) and names
  (\<open>getaddrinfo\<close> for a family, answering with a family and the bytes of an address).\<close>

record resolver =
  pton4 :: "byte list \<Rightarrow> byte list option"
  pton6 :: "byte list \<Rightarrow> byte list option"
  gai :: "byte list \<Rightarrow> addr_family \<Rightarrow> (addr_family \<times> byte list) option"

definition hev_socks5_name_resolve_ipv4 :: "resolver \<Rightarrow> byte list \<Rightarrow> sockaddr6 \<Rightarrow> int \<times> sockaddr6" where
  "hev_socks5_name_resolve_ipv4 rv name saddr =
     (let saddr = saddr\<lparr>sin6_addr := put 0 (replicate 10 0) (sin6_addr saddr)\<rparr> in
      case pton4 rv name of
        None \<Rightarrow> (- 1, saddr)
      | Some a \<Rightarrow> (0, saddr\<lparr>sin6_addr := put 10 ([0xff, 0xff] @ a) (sin6_addr saddr)\<rparr>))"

definition hev_socks5_name_resolve_ipv6 :: "resolver \<Rightarrow> byte list \<Rightarrow> sockaddr6 \<Rightarrow> int \<times> sockaddr6" where
  "hev_socks5_name_resolve_ipv6 rv name saddr =
     (case pton6 rv name of None \<Rightarrow> (- 1, saddr) | Some a \<Rightarrow> (0, saddr\<lparr>sin6_addr := a\<rparr>))"

definition hev_socks5_name_resolve_name :: "resolver \<Rightarrow> byte list \<Rightarrow> sockaddr6 \<Rightarrow> addr_family \<Rightarrow>
    int \<times> sockaddr6 \<times> addr_family" where
  "hev_socks5_name_resolve_name rv name saddr fam =
     (case gai rv name fam of
        None \<Rightarrow> (- 1, saddr, fam)
      | Some (FAMILY_IPV4, a) \<Rightarrow> (0, saddr\<lparr>sin6_addr := map4 a\<rparr>, FAMILY_IPV4)
      | Some (FAMILY_IPV6, a) \<Rightarrow> (0, saddr\<lparr>sin6_addr := a\<rparr>, FAMILY_IPV6)
      | Some (FAMILY_UNSPEC, a) \<Rightarrow> (- 1, saddr, fam))"

definition hev_socks5_name_into_sockaddr6 :: "resolver \<Rightarrow> byte list \<Rightarrow> int \<Rightarrow> sockaddr6 \<Rightarrow>
    addr_family \<Rightarrow> int \<times> sockaddr6 \<times> addr_family" where
  "hev_socks5_name_into_sockaddr6 rv name port saddr fam =
     (let saddr = saddr\<lparr>sin6_port := htons (word_of_int port)\<rparr>;
          (res, saddr) = hev_socks5_name_resolve_ipv4 rv name saddr in
      if res = 0 then (0, saddr, FAMILY_IPV4)
      else let (res, saddr) = hev_socks5_name_resolve_ipv6 rv name saddr in
        if res = 0 then (0, saddr, FAMILY_IPV6)
        else hev_socks5_name_resolve_name rv name saddr fam)"

text \<open>The name is copied into 256 bytes with its terminator, and used up to its first zero
  byte.\<close>

definition hev_socks5_addr_into_sockaddr6 :: "resolver \<Rightarrow> byte list \<Rightarrow> sockaddr6 \<Rightarrow> addr_family \<Rightarrow>
    (int \<times> sockaddr6 \<times> addr_family) outcome" where
  "hev_socks5_addr_into_sockaddr6 rv addr saddr fam =
     bind_o (rdo addr 0) (\<lambda>atype.
       if atype = HEV_SOCKS5_ADDR_TYPE_IPV4 then
         bind_o (hev_socks5_ipv4_into_sockaddr6 addr) (\<lambda>sa. Ret (0, sa, FAMILY_IPV4))
       else if atype = HEV_SOCKS5_ADDR_TYPE_IPV6 then
         bind_o (hev_socks5_ipv6_into_sockaddr6 addr) (\<lambda>sa. Ret (0, sa, FAMILY_IPV6))
       else if atype = HEV_SOCKS5_ADDR_TYPE_NAME then
         bind_o (rdo addr 1) (\<lambda>len.
         bind_o (rd_sego addr 2 (unat len)) (\<lambda>name.
         bind_o (rd_sego addr (2 + unat len) 2) (\<lambda>port.
           Ret (hev_socks5_name_into_sockaddr6 rv (takeWhile (\<lambda>b. b \<noteq> 0) name)
             (uint (ntohs (load16 port))) saddr fam))))
       else Ret (- 1, saddr, fam))"

section \<open>Addresses by value\<close>

text \<open>What a packed address stands for, with the port as a number, and its bytes on the wire.\<close>

datatype saddr = SV4 "byte list" u16 | SV6 "byte list" u16 | SName "byte list" u16

fun saddr_wf :: "saddr \<Rightarrow> bool" where
  "saddr_wf (SV4 a p) = (length a = 4)"
| "saddr_wf (SV6 a p) = (length a = 16)"
| "saddr_wf (SName n p) = (length n \<le> 255)"

fun saddr_enc :: "saddr \<Rightarrow> byte list" where
  "saddr_enc (SV4 a p) = HEV_SOCKS5_ADDR_TYPE_IPV4 # a @ [hi8 p, lo8 p]"
| "saddr_enc (SV6 a p) = HEV_SOCKS5_ADDR_TYPE_IPV6 # a @ [hi8 p, lo8 p]"
| "saddr_enc (SName n p) = HEV_SOCKS5_ADDR_TYPE_NAME # of_nat (length n) # n @ [hi8 p, lo8 p]"

lemma unat_of_nat_byte: "n \<le> 255 \<Longrightarrow> unat (of_nat n :: byte) = n"
  by (simp add: unat_of_nat)

lemma uint_of_nat_byte: "n \<le> 255 \<Longrightarrow> uint (of_nat n :: byte) = int n"
  by (simp only: uint_nat unat_of_nat_byte)

lemma addr_len_enc:
  "saddr_wf a \<Longrightarrow> hev_socks5_addr_len (saddr_enc a @ bs) = Ret (int (length (saddr_enc a)))"
  by (cases a) (simp_all add: hev_socks5_addr_len_def uint_of_nat_byte)

lemma putc_eq [simp]:
  "putc off new bs = Ret bs' \<longleftrightarrow> off + length new \<le> length bs \<and> bs' = put off new bs"
  by (auto simp: putc_def)

lemma putc_Ret [simp]: "off + length new \<le> length bs \<Longrightarrow> putc off new bs = Ret (put off new bs)"
  by simp

lemma put_0: "put 0 new bs = new @ drop (length new) bs"
  by (simp add: put_def)

lemma word_of_int_uint_16 [simp]: "word_of_int (uint (w :: u16)) = w"
  by simp

lemma addr_from_ipv4_enc:
  assumes "length a = 4" "7 \<le> length buf"
  shows "hev_socks5_addr_from_ipv4 buf a (uint (htons p)) = Ret (7, saddr_enc (SV4 a p) @ drop 7 buf)"
  using assms by (simp add: hev_socks5_addr_from_ipv4_def put_0)

lemma addr_from_ipv6_enc:
  assumes "length a = 16" "19 \<le> length buf"
  shows "hev_socks5_addr_from_ipv6 buf a (uint (htons p)) = Ret (19, saddr_enc (SV6 a p) @ drop 19 buf)"
  using assms by (simp add: hev_socks5_addr_from_ipv6_def put_0)

lemma addr_from_name_enc:
  assumes "is_cstr name" "length name \<le> 255" "length buf = 260"
  shows "\<exists>rest. hev_socks5_addr_from_name buf name (uint (htons p)) =
    Ret (int (length (saddr_enc (SName name p))), saddr_enc (SName name p) @ rest) \<and>
    length (saddr_enc (SName name p) @ rest) = 260"
proof -
  let ?n = "length name" and ?T = "HEV_SOCKS5_ADDR_TYPE_NAME"
  obtain b0 b1 bs where buf: "buf = b0 # b1 # bs" and bs: "length bs = 258"
    using assms(3) by (cases buf; cases "tl buf") auto
  let ?m = "?T # b1 # name @ replicate (256 - ?n) 0 @ drop 256 bs"
  have t: "take 256 (name @ replicate 256 0) = name @ replicate (256 - ?n) 0"
    using assms(2) by simp
  have p2: "put 2 (name @ replicate (256 - ?n) 0) (?T # b1 # bs) = ?m"
    using assms(2) bs by (simp add: put_def numeral_2_eq_2)
  have z: "replicate (256 - ?n) 0 = (0::byte) # replicate (255 - ?n) 0"
    using assms(2) by (simp add: Suc_diff_le flip: replicate_Suc)
  have s: "cstr_at ?m 2 = Some name"
    using assms(1) by (simp add: cstr_at_def z takeWhile_cstr)
  let ?l = "of_nat ?n :: byte"
  have "put (2 + ?n) [hi8 p, lo8 p] (?T # ?l # name @ replicate (256 - ?n) 0 @ drop 256 bs) =
      ?T # ?l # name @ [hi8 p, lo8 p] @ drop 2 (replicate (256 - ?n) 0 @ drop 256 bs)"
    by (simp add: put_def)
  moreover have "put 1 [?l] ?m = ?T # ?l # name @ replicate (256 - ?n) 0 @ drop 256 bs"
    by (simp add: put_def)
  moreover have "length (replicate (256 - ?n) 0 @ drop 256 bs) = 258 - ?n" using assms(2) bs by simp
  ultimately show ?thesis
    using assms(2) bs s p2 t buf
    by (simp add: hev_socks5_addr_from_name_def Let_def unat_of_nat_byte uint_of_nat_byte put_0)
qed

lemma v4mapped_map4 [simp]: "v4mapped (map4 a)"
  by (simp add: v4mapped_def map4_def seg_def)

lemma v4mapped_split: "v4mapped a \<Longrightarrow> a = map4 (drop 12 a)"
proof -
  assume "v4mapped a"
  then have t: "take 10 a = replicate 10 0" "take 2 (drop 10 a) = [0xff, 0xff]"
    by (simp_all add: v4mapped_def seg_def)
  have "drop 2 (drop 10 a) = drop 12 a" by simp
  then have "drop 10 a = take 2 (drop 10 a) @ drop 12 a" by (metis append_take_drop_id)
  then have "a = take 10 a @ take 2 (drop 10 a) @ drop 12 a" by (metis append_take_drop_id)
  then show "a = map4 (drop 12 a)" unfolding map4_def t by simp
qed

text \<open>From a socket address to the wire and back.\<close>

definition saddr_of :: "sockaddr6 \<Rightarrow> saddr" where
  "saddr_of sa =
     (if v4mapped (sin6_addr sa) then SV4 (drop 12 (sin6_addr sa)) (ntohs (sin6_port sa))
      else SV6 (sin6_addr sa) (ntohs (sin6_port sa)))"

lemma saddr_wf_of: "length (sin6_addr sa) = 16 \<Longrightarrow> saddr_wf (saddr_of sa)"
  by (simp add: saddr_of_def)

lemma addr_from_sockaddr6_enc:
  assumes "length (sin6_addr sa) = 16" "19 \<le> length buf"
  shows "hev_socks5_addr_from_sockaddr6 buf sa = Ret (int (length (saddr_enc (saddr_of sa))),
    saddr_enc (saddr_of sa) @ drop (length (saddr_enc (saddr_of sa))) buf)"
  using assms
  by (auto simp: hev_socks5_addr_from_sockaddr6_def put_0 seg_def store16_def saddr_of_def)

lemma seg_1_Cons [simp]: "seg 1 n (b # bs) = take n bs"
  by (simp add: seg_def)

lemma addr_into_sockaddr6_v4:
  "length a = 4 \<Longrightarrow> hev_socks5_addr_into_sockaddr6 rv (saddr_enc (SV4 a p) @ bs) sa0 f =
    Ret (0, \<lparr>sin6_port = htons p, sin6_addr = map4 a\<rparr>, FAMILY_IPV4)"
  by (simp add: hev_socks5_addr_into_sockaddr6_def hev_socks5_ipv4_into_sockaddr6_def seg_def htons_def)

lemma addr_into_sockaddr6_v6:
  "length a = 16 \<Longrightarrow> hev_socks5_addr_into_sockaddr6 rv (saddr_enc (SV6 a p) @ bs) sa0 f =
    Ret (0, \<lparr>sin6_port = htons p, sin6_addr = a\<rparr>, FAMILY_IPV6)"
  by (simp add: hev_socks5_addr_into_sockaddr6_def hev_socks5_ipv6_into_sockaddr6_def seg_def htons_def)

lemma takeWhile_is_cstr [simp]: "is_cstr n \<Longrightarrow> takeWhile (\<lambda>b. b \<noteq> 0) n = n"
  by (auto simp: is_cstr_def takeWhile_eq_all_conv)

lemma addr_into_sockaddr6_name:
  "length n \<le> 255 \<Longrightarrow> is_cstr n \<Longrightarrow>
   hev_socks5_addr_into_sockaddr6 rv (saddr_enc (SName n p) @ bs) sa0 f =
    Ret (hev_socks5_name_into_sockaddr6 rv n (uint p) sa0 f)"
  by (simp add: hev_socks5_addr_into_sockaddr6_def unat_of_nat_byte seg_append1 seg_append2)

lemma addr_sockaddr6_roundtrip:
  assumes "length (sin6_addr sa) = 16" "19 \<le> length buf"
    and "hev_socks5_addr_from_sockaddr6 buf sa = Ret (r, addr)"
  shows "hev_socks5_addr_into_sockaddr6 rv addr sa0 f =
      Ret (0, sa, if v4mapped (sin6_addr sa) then FAMILY_IPV4 else FAMILY_IPV6)"
    "hev_socks5_addr_len addr = Ret r"
proof -
  note enc = addr_from_sockaddr6_enc [OF assms(1,2)]
  show "hev_socks5_addr_len addr = Ret r"
    using enc assms(1,3) addr_len_enc [OF saddr_wf_of] by auto
  show "hev_socks5_addr_into_sockaddr6 rv addr sa0 f =
      Ret (0, sa, if v4mapped (sin6_addr sa) then FAMILY_IPV4 else FAMILY_IPV6)"
  proof (cases "v4mapped (sin6_addr sa)")
    case True
    then show ?thesis
      using enc [unfolded saddr_of_def] assms(1,3) addr_into_sockaddr6_v4
          [of "drop 12 (sin6_addr sa)" rv "ntohs (sin6_port sa)" "drop 7 buf" sa0 f]
        v4mapped_split [OF True] by auto
  next
    case False
    then show ?thesis
      using enc [unfolded saddr_of_def] assms(1,3) addr_into_sockaddr6_v6
          [of "sin6_addr sa" rv "ntohs (sin6_port sa)" "drop 19 buf" sa0 f] by auto
  qed
qed

end
