(* ===== verification/Actions.thy ===== *)
theory Actions
  imports Socks5
begin

text \<open>
  Sequencing for the protocol code. An action runs on an object, the channel of its descriptor
  and the operating system; it is the C function with its early returns. \<open>runs\<close> is total
  correctness of an action, with one rule per primitive; the \<open>Ret\<close> lemmas invert a run that
  returned, for claims that hold whatever the environment does.
\<close>

section \<open>Actions\<close>

type_synonym ('a, 's) act = "'s \<Rightarrow> chan \<Rightarrow> os \<Rightarrow> ('a \<times> 's \<times> chan \<times> os) outcome"

definition ret_a :: "'a \<Rightarrow> ('a, 's) act" where
  "ret_a x = (\<lambda>s c w. Ret (x, s, c, w))"

definition bind_a :: "('a, 's) act \<Rightarrow> ('a \<Rightarrow> ('b, 's) act) \<Rightarrow> ('b, 's) act" where
  "bind_a m f = (\<lambda>s c w. bind_o (m s c w) (\<lambda>(x, s', c', w'). f x s' c' w'))"

definition get_a :: "('s, 's) act" where
  "get_a = (\<lambda>s c w. Ret (s, s, c, w))"

definition upd_a :: "('s \<Rightarrow> 's) \<Rightarrow> (unit, 's) act" where
  "upd_a f = (\<lambda>s c w. Ret ((), f s, c, w))"

definition lift_a :: "'a outcome \<Rightarrow> ('a, 's) act" where
  "lift_a m = (\<lambda>s c w. bind_o m (\<lambda>x. Ret (x, s, c, w)))"

definition recv_a :: "nat \<Rightarrow> (int \<times> byte list, 'a socks5_scheme) act" where
  "recv_a n = (\<lambda>s c w.
     bind_o (hev_task_io_socket_recv (Some hev_socks5_task_io_yielder) True False n s c)
       (\<lambda>(r, buf, s', c'). Ret ((r, buf), s', c', w)))"

definition send_a :: "byte list \<Rightarrow> (int, 'a socks5_scheme) act" where
  "send_a bs = (\<lambda>s c w.
     bind_o (hev_task_io_socket_send (Some hev_socks5_task_io_yielder) True False bs s c)
       (\<lambda>(r, s', c'). Ret (r, s', c', w)))"

definition sendmsg_a :: "byte list list \<Rightarrow> (int, 'a socks5_scheme) act" where
  "sendmsg_a iov = (\<lambda>s c w.
     bind_o (hev_task_io_socket_sendmsg (Some hev_socks5_task_io_yielder) True False iov s c)
       (\<lambda>(r, s', c'). Ret (r, s', c', w)))"

lemmas act_defs = ret_a_def bind_a_def get_a_def upd_a_def lift_a_def

definition andthen :: "(int, 's) act \<Rightarrow> (int, 's) act \<Rightarrow> (int, 's) act" where
  "andthen m k = bind_a m (\<lambda>res. if res < 0 then ret_a (- 1) else k)"

section \<open>Total correctness of actions\<close>

text \<open>\<open>runs m P\<close>: the action returns, and what it returns satisfies \<open>P\<close>.\<close>

definition runs :: "('a, 's) act \<Rightarrow> ('a \<Rightarrow> 's \<Rightarrow> chan \<Rightarrow> os \<Rightarrow> bool) \<Rightarrow> 's \<Rightarrow> chan \<Rightarrow> os \<Rightarrow> bool" where
  "runs m P s c w \<longleftrightarrow> (\<exists>x s' c' w'. m s c w = Ret (x, s', c', w') \<and> P x s' c' w')"

lemma runs_ret [simp]: "runs (ret_a x) P s c w = P x s c w"
  and runs_bind [simp]: "runs (bind_a m f) Q s c w = runs m (\<lambda>x. runs (f x) Q) s c w"
  and runs_get [simp]: "runs get_a R s c w = R s s c w"
  and runs_upd [simp]: "runs (upd_a g) S s c w = S () (g s) c w"
  and runs_lift [simp]: "runs (lift_a (Ret x)) P s c w = P x s c w"
  by (auto simp: runs_def act_defs bind_o_Ret_iff)

definition if_ok :: "(int \<Rightarrow> 's \<Rightarrow> chan \<Rightarrow> os \<Rightarrow> bool) \<Rightarrow> (int, 's) act \<Rightarrow>
    int \<Rightarrow> 's \<Rightarrow> chan \<Rightarrow> os \<Rightarrow> bool" where
  "if_ok P k res s c w = (if res < 0 then P (- 1) s c w else runs k P s c w)"

lemma if_ok_0 [simp]: "if_ok P k 0 s c w = runs k P s c w"
  by (simp add: if_ok_def)

lemma runs_andthen [simp]: "runs (andthen m k) P s c w = runs m (if_ok P k) s c w"
proof -
  have "(\<lambda>x :: int. runs (if x < 0 then ret_a (- 1) else k) P) = if_ok P k"
    by (auto simp: fun_eq_iff if_ok_def)
  then show ?thesis by (simp only: andthen_def runs_bind)
qed

lemma runs_if: "runs (if b then m else m') P s c w = (if b then runs m P s c w else runs m' P s c w)"
  by simp

lemma runs_conseq: "runs m P s c w \<Longrightarrow> (\<And>x s c w. P x s c w \<Longrightarrow> Q x s c w) \<Longrightarrow> runs m Q s c w"
  unfolding runs_def by blast

lemma runsD: "runs m P s c w \<Longrightarrow> \<exists>x s' c' w'. m s c w = Ret (x, s', c', w') \<and> P x s' c' w'"
  by (simp add: runs_def)

text \<open>The state of a channel: the bytes \<open>i\<close> can be read, \<open>r\<close> may follow, \<open>out\<close> has been written
  and \<open>l\<close> more bytes will be taken.\<close>

definition chan_st :: "byte list \<Rightarrow> byte list \<Rightarrow> byte list \<Rightarrow> nat \<Rightarrow> chan \<Rightarrow> bool" where
  "chan_st i r out l c \<longleftrightarrow>
     rx_stream (rxs c) = i @ r \<and> rx_ready (length i) (rxs c) \<and> wire c = out \<and> tx_ready l (txs c)"

lemma runs_recv_a:
  assumes "chan_st (a @ b) r out l c" "live s" "length a = n" "0 < n"
    and "\<And>c'. chan_st b r out l c' \<Longrightarrow> P (int n, a) s c' w"
  shows "runs (recv_a n) P s c w"
proof -
  have "rx_ready (n + length b) (rxs c)" using assms(1,3) by (simp add: chan_st_def)
  from socks5_io.recv_all [OF assms(2,4) this] obtain c' where
    "hev_task_io_socket_recv (Some hev_socks5_task_io_yielder) True False n s c =
       Ret (int n, take n (rx_stream (rxs c)), s, c')"
    "rx_stream (rxs c') = drop n (rx_stream (rxs c))" "rx_ready (length b) (rxs c')"
    "txs c' = txs c" "wire c' = wire c" by metis
  then have "recv_a n s c w = Ret ((int n, a), s, c', w)" "chan_st b r out l c'"
    using assms(1,3) by (simp_all add: recv_a_def chan_st_def)
  then show ?thesis using assms(5) unfolding runs_def by blast
qed

lemma runs_send_a:
  assumes "chan_st i r out n c" "live s" "bs \<noteq> []" "n = length bs + l"
    and "\<And>c'. chan_st i r (out @ bs) l c' \<Longrightarrow> P (int (length bs)) s c' w"
  shows "runs (send_a bs) P s c w"
proof -
  have "tx_ready (length bs + l) (txs c)" using assms(1,4) by (simp add: chan_st_def)
  from socks5_io.send_all [OF assms(2,3) this] obtain c' where
    "hev_task_io_socket_send (Some hev_socks5_task_io_yielder) True False bs s c =
       Ret (int (length bs), s, c')" "wire c' = wire c @ bs" "tx_ready l (txs c')" "rxs c' = rxs c"
    by metis
  then have "send_a bs s c w = Ret (int (length bs), s, c', w)" "chan_st i r (out @ bs) l c'"
    using assms(1) by (simp_all add: send_a_def chan_st_def)
  then show ?thesis using assms(5) unfolding runs_def by blast
qed

lemma sendmsg_a_eq: "sendmsg_a iov = send_a (concat iov)"
  by (simp add: sendmsg_a_def send_a_def sendmsg_eq_send)

section \<open>Inverting a run\<close>

text \<open>\<open>rest c\<close> is the input not yet read.\<close>

abbreviation rest :: "chan \<Rightarrow> byte list" where
  "rest c \<equiv> rx_stream (rxs c)"

lemma bind_a_Ret:
  assumes "bind_a m f s c w = Ret y"
  obtains x s' c' w' where "m s c w = Ret (x, s', c', w')" "f x s' c' w' = Ret y"
  using assms by (auto simp: bind_a_def bind_o_Ret_iff)

lemma andthen_Ret:
  assumes "andthen m k s c w = Ret (x, s2, c2, w2)" "0 \<le> x"
  obtains x1 s1 c1 w1 where "m s c w = Ret (x1, s1, c1, w1)" "0 \<le> x1"
    "k s1 c1 w1 = Ret (x, s2, c2, w2)"
  using assms unfolding andthen_def by (elim bind_a_Ret) (auto simp: ret_a_def split: if_splits)

lemma recv_a_Ret:
  assumes "recv_a n s c w = Ret ((r, buf), s', c', w')"
  shows "rest c = buf @ rest c'" "0 < r \<Longrightarrow> r = int (length buf)" "length buf \<le> n"
proof -
  obtain e e' evs where "recv_retry (Some hev_socks5_task_io_yielder) True False n [] e s (rxs c) =
      Ret (r, e', buf, s', evs)" "rxs c' = evs"
    using assms by (auto simp: recv_a_def hev_task_io_socket_recv_def bind_o_Ret_iff)
  from recv_retry_stream [OF this(1)] this(2)
  show "rest c = buf @ rest c'" "0 < r \<Longrightarrow> r = int (length buf)" "length buf \<le> n" by auto
qed

lemma send_a_Ret: "send_a bs s c w = Ret (r, s', c', w') \<Longrightarrow> rxs c' = rxs c"
  by (auto simp: send_a_def hev_task_io_socket_send_def bind_o_Ret_iff)

text \<open>The primitives change nothing of the object but its time-out.\<close>

definition keeps_rest :: "('a socks5_scheme \<Rightarrow> 'b) \<Rightarrow> bool" where
  "keeps_rest f \<longleftrightarrow> (\<forall>s t. f (s\<lparr>timeout := t\<rparr>) = f s)"

lemma yielder_keeps:
  "keeps_rest f \<Longrightarrow> f s = v \<Longrightarrow> f (snd (task_wait (Some hev_socks5_task_io_yielder) p s)) = v"
  by (simp add: task_wait_def hev_socks5_task_io_yielder_def woken_def keeps_rest_def Let_def)

lemma recv_a_keeps:
  assumes "keeps_rest f" "recv_a n s c w = Ret (x, s', c', w')"
  shows "f s' = f s" "w' = w"
  using assms(2) recv_retry_keeps [of "\<lambda>z. f z = f s", OF yielder_keeps [OF assms(1)]]
  by (auto simp: recv_a_def hev_task_io_socket_recv_def bind_o_Ret_iff)

lemma send_a_keeps:
  assumes "keeps_rest f" "send_a bs s c w = Ret (x, s', c', w')"
  shows "f s' = f s" "w' = w"
  using assms(2) send_retry_keeps [of "\<lambda>z. f z = f s", OF yielder_keeps [OF assms(1)]]
  by (auto simp: send_a_def hev_task_io_socket_send_def bind_o_Ret_iff)

lemma connect_keeps_rest:
  assumes "keeps_rest f"
    and "hev_task_io_socket_connect (Some hev_socks5_task_io_yielder) s evs = Ret (x, s', evs')"
  shows "f s' = f s"
  using connect_keeps [of "\<lambda>z. f z = f s", OF yielder_keeps [OF assms(1)] assms(2)] by simp

text \<open>\<open>ens m Q\<close>: if the action returns, what it returns satisfies \<open>Q\<close>.\<close>

definition ens :: "('a, 's) act \<Rightarrow> ('a \<Rightarrow> 's \<Rightarrow> chan \<Rightarrow> os \<Rightarrow> bool) \<Rightarrow> 's \<Rightarrow> chan \<Rightarrow> os \<Rightarrow> bool" where
  "ens m Q s c w \<longleftrightarrow> (\<forall>x s' c' w'. m s c w = Ret (x, s', c', w') \<longrightarrow> Q x s' c' w')"

lemma ensD: "ens m Q s c w \<Longrightarrow> m s c w = Ret (x, s', c', w') \<Longrightarrow> Q x s' c' w'"
  by (simp add: ens_def)

lemma ens_conseq: "ens m Q s c w \<Longrightarrow> (\<And>x s c w. Q x s c w \<Longrightarrow> R x s c w) \<Longrightarrow> ens m R s c w"
  by (auto simp: ens_def)

lemma ens_ret [simp]: "ens (ret_a x) P s c w = P x s c w"
  and ens_bind [simp]: "ens (bind_a m f) Q s c w = ens m (\<lambda>x. ens (f x) Q) s c w"
  and ens_get [simp]: "ens get_a R s c w = R s s c w"
  and ens_upd [simp]: "ens (upd_a g) S s c w = S () (g s) c w"
  and ens_lift: "ens (lift_a mo) T s c w = (\<forall>x. mo = Ret x \<longrightarrow> T x s c w)"
  by (auto simp: ens_def act_defs bind_o_Ret_iff)

lemma ens_andthen [simp]:
  "ens (andthen m k) Q s c w =
     ens m (\<lambda>res s c w. (res < 0 \<longrightarrow> Q (- 1) s c w) \<and> (0 \<le> res \<longrightarrow> ens k Q s c w)) s c w"
  unfolding andthen_def ens_bind by (auto simp: ens_def ret_a_def)

lemma timeout_kept: "keeps_rest (\<lambda>s. s\<lparr>timeout := 0\<rparr>)"
  by (simp add: keeps_rest_def)

lemma same_but_timeout: "s'\<lparr>timeout := 0\<rparr> = s\<lparr>timeout := 0\<rparr> \<Longrightarrow> s' = s\<lparr>timeout := timeout s'\<rparr>"
  by (metis socks5.surjective socks5.update_convs(2))

lemma ens_recv:
  assumes "\<And>r buf t c'. rest c = buf @ rest c' \<Longrightarrow> (0 < r \<Longrightarrow> r = int (length buf)) \<Longrightarrow>
    length buf \<le> n \<Longrightarrow> wire c' = wire c \<Longrightarrow> Q (r, buf) (s\<lparr>timeout := t\<rparr>) c' w"
  shows "ens (recv_a n) Q s c w"
  unfolding ens_def
proof (intro allI impI)
  fix x s' c' w' assume h: "recv_a n s c w = Ret (x, s', c', w')"
  obtain r buf where x: "x = (r, buf)" by fastforce
  have "s' = s\<lparr>timeout := timeout s'\<rparr>" "w' = w"
    using recv_a_keeps [OF timeout_kept h] same_but_timeout by auto
  moreover have "wire c' = wire c"
    using h by (auto simp: recv_a_def hev_task_io_socket_recv_def bind_o_Ret_iff)
  ultimately show "Q x s' c' w'" using assms [of buf c' r "timeout s'"] recv_a_Ret [of n s c w r buf] h x
    by (metis less_eq_nat.simps(1))
qed

lemma ens_send:
  assumes "\<And>r t c'. rxs c' = rxs c \<Longrightarrow> Q r (s\<lparr>timeout := t\<rparr>) c' w"
  shows "ens (send_a bs) Q s c w"
  unfolding ens_def
proof (intro allI impI)
  fix x s' c' w' assume h: "send_a bs s c w = Ret (x, s', c', w')"
  have "s' = s\<lparr>timeout := timeout s'\<rparr>" "w' = w"
    using send_a_keeps [OF timeout_kept h] same_but_timeout by auto
  then show "Q x s' c' w'" using assms [OF send_a_Ret [OF h], of x "timeout s'"] by simp
qed

lemma list2: "length xs = 2 \<Longrightarrow> xs = [xs ! 0, xs ! 1]"
  by (cases xs; cases "tl xs") auto

lemma list4: "length xs = 4 \<Longrightarrow> xs = [xs ! 0, xs ! 1, xs ! 2, xs ! 3]"
  by (rule nth_equalityI) (auto simp: less_Suc_eq numeral_eq_Suc)

lemma recv_a_2:
  assumes "recv_a 2 s c w = Ret ((2, buf), s', c', w')"
  shows "rest c = [buf ! 0, buf ! 1] @ rest c'"
  using recv_a_Ret [OF assms] list2 [of buf] by simp

end
