(* ===== verification/Client.thy ===== *)
theory Client
  imports Actions
begin

text \<open>
  The SOCKS5 client (\<open>hev-socks5-client.c\<close>) and its two classes
  (\<open>hev-socks5-client-tcp.c\<close>, \<open>hev-socks5-client-udp.c\<close>). The virtual methods of the class are the
  fields of \<open>client_class\<close>. The theorems give the exact bytes of both handshakes, show that the
  pipelined and the standard form talk to the same servers, and that no descriptor leaks.
\<close>

section \<open>The client\<close>

record client = socks5 +
  auth_user :: "byte list option"
  auth_pass :: "byte list option"

text \<open>The virtual methods. The address handed out is the memory the class allocated, if any.\<close>

record 's client_class =
  get_upstream_addr :: "'s \<Rightarrow> os \<Rightarrow> byte list option \<times> 's"
  set_upstream_addr :: "byte list \<Rightarrow> 's \<Rightarrow> os \<Rightarrow> (int \<times> 's \<times> os) outcome"

definition hev_socks5_client_write_auth_methods :: "(int, 'a client_scheme) act" where
  "hev_socks5_client_write_auth_methods =
     bind_a get_a (\<lambda>self.
       let m = (if auth_user self = None \<or> auth_pass self = None
                then HEV_SOCKS5_AUTH_METHOD_NONE else HEV_SOCKS5_AUTH_METHOD_USER) in
       bind_a (send_a [HEV_SOCKS5_VERSION_5, 1, m]) (\<lambda>res.
         if res \<le> 0 then ret_a (- 1) else ret_a 0))"

definition hev_socks5_client_write_auth_creds :: "(int, 'a client_scheme) act" where
  "hev_socks5_client_write_auth_creds =
     bind_a get_a (\<lambda>self.
       case (auth_user self, auth_pass self) of
         (Some user, Some pass) \<Rightarrow>
           let ulen = of_nat (length user) :: byte; plen = of_nat (length pass) :: byte in
           bind_a (sendmsg_a [[HEV_SOCKS5_AUTH_VERSION_1, ulen], take (unat ulen) user, [plen],
               take (unat plen) pass]) (\<lambda>res.
             if res \<le> 0 then ret_a (- 1) else ret_a 0)
       | _ \<Rightarrow> ret_a 0)"

definition req_cmd :: "socks5_type \<Rightarrow> byte option" where
  "req_cmd t =
     (case t of
        TYPE_TCP \<Rightarrow> Some HEV_SOCKS5_REQ_CMD_CONNECT
      | TYPE_UDP_IN_TCP \<Rightarrow> Some HEV_SOCKS5_REQ_CMD_FWD_UDP
      | TYPE_UDP_IN_UDP \<Rightarrow> Some HEV_SOCKS5_REQ_CMD_UDP_ASC
      | TYPE_NONE \<Rightarrow> None)"

text \<open>A class that returns no address is dereferenced.\<close>

definition get_upstream_a :: "'s client_class \<Rightarrow> (byte list, 's) act" where
  "get_upstream_a klass = (\<lambda>s c w.
     case get_upstream_addr klass s w of
       (None, s') \<Rightarrow> Fault | (Some addr, s') \<Rightarrow> Ret (addr, s', c, w))"

definition hev_socks5_client_write_request ::
    "'a client_scheme client_class \<Rightarrow> (int, 'a client_scheme) act" where
  "hev_socks5_client_write_request klass =
     bind_a get_a (\<lambda>self.
       case req_cmd (stype self) of
         None \<Rightarrow> ret_a (- 1)
       | Some cmd \<Rightarrow>
           bind_a (get_upstream_a klass) (\<lambda>addr.
           bind_a (lift_a (hev_socks5_addr_len addr)) (\<lambda>addrlen.
             if addrlen < 0 then ret_a (- 1)
             else bind_a (lift_a (rd_sego addr 0 (nat addrlen))) (\<lambda>abytes.
               bind_a (sendmsg_a [[HEV_SOCKS5_VERSION_5, cmd, 0], abytes]) (\<lambda>ret.
                 if ret \<le> 0 then ret_a (- 1) else ret_a 0)))))"

definition hev_socks5_client_read_auth_method :: "(int, 'a client_scheme) act" where
  "hev_socks5_client_read_auth_method =
     bind_a (recv_a 2) (\<lambda>(res, auth).
       if res \<noteq> 2 then ret_a (- 1)
       else if auth ! 0 \<noteq> HEV_SOCKS5_VERSION_5 then ret_a (- 1)
       else ret_a (uint (auth ! 1)))"

definition hev_socks5_client_read_auth_creds :: "(int, 'a client_scheme) act" where
  "hev_socks5_client_read_auth_creds =
     bind_a (recv_a 2) (\<lambda>(ret, res).
       if ret \<noteq> 2 then ret_a (- 1)
       else if res ! 0 \<noteq> HEV_SOCKS5_AUTH_VERSION_1 then ret_a (- 1)
       else if res ! 1 \<noteq> HEV_SOCKS5_RES_REP_SUCC then ret_a (- 1)
       else ret_a 0)"

definition response_addrlen :: "byte \<Rightarrow> nat option" where
  "response_addrlen atype =
     (if atype = HEV_SOCKS5_ADDR_TYPE_IPV4 then Some 6
      else if atype = HEV_SOCKS5_ADDR_TYPE_IPV6 then Some 18 else None)"

definition set_upstream_a :: "'s client_class \<Rightarrow> byte list \<Rightarrow> (int, 's) act" where
  "set_upstream_a klass addr = (\<lambda>s c w.
     bind_o (set_upstream_addr klass addr s w) (\<lambda>(r, s', w'). Ret (r, s', c, w')))"

definition hev_socks5_client_read_response ::
    "'a client_scheme client_class \<Rightarrow> (int, 'a client_scheme) act" where
  "hev_socks5_client_read_response klass =
     bind_a (recv_a 4) (\<lambda>(ret, res).
       if ret \<noteq> 4 then ret_a (- 1)
       else if res ! 0 \<noteq> HEV_SOCKS5_VERSION_5 then ret_a (- 1)
       else if res ! 1 \<noteq> HEV_SOCKS5_RES_REP_SUCC then ret_a (- 1)
       else
         case response_addrlen (res ! 3) of
           None \<Rightarrow> ret_a (- 1)
         | Some addrlen \<Rightarrow>
             bind_a (recv_a addrlen) (\<lambda>(ret, addr).
               if ret \<noteq> int addrlen then ret_a (- 1)
               else bind_a (set_upstream_a klass (res ! 3 # addr)) (\<lambda>ret.
                 if ret < 0 then ret_a (- 1) else ret_a 0)))"

section \<open>Handshakes\<close>

definition hev_socks5_client_handshake_standard ::
    "'a client_scheme client_class \<Rightarrow> (int, 'a client_scheme) act" where
  "hev_socks5_client_handshake_standard klass =
     andthen hev_socks5_client_write_auth_methods
     (bind_a hev_socks5_client_read_auth_method (\<lambda>res.
        if res < 0 then ret_a (- 1)
        else andthen
          (if res = uint HEV_SOCKS5_AUTH_METHOD_USER
           then andthen hev_socks5_client_write_auth_creds hev_socks5_client_read_auth_creds
           else if res \<noteq> uint HEV_SOCKS5_AUTH_METHOD_NONE then ret_a (- 1) else ret_a 0)
        (andthen (hev_socks5_client_write_request klass)
        (andthen (hev_socks5_client_read_response klass) (ret_a 0)))))"

definition hev_socks5_client_handshake_pipeline ::
    "'a client_scheme client_class \<Rightarrow> (int, 'a client_scheme) act" where
  "hev_socks5_client_handshake_pipeline klass =
     andthen hev_socks5_client_write_auth_methods
     (andthen hev_socks5_client_write_auth_creds
     (andthen (hev_socks5_client_write_request klass)
     (bind_a hev_socks5_client_read_auth_method (\<lambda>res.
        if res < 0 then ret_a (- 1)
        else andthen
          (if res = uint HEV_SOCKS5_AUTH_METHOD_USER then hev_socks5_client_read_auth_creds
           else if res \<noteq> uint HEV_SOCKS5_AUTH_METHOD_NONE then ret_a (- 1) else ret_a 0)
        (andthen (hev_socks5_client_read_response klass) (ret_a 0))))))"

definition hev_socks5_client_handshake :: "socks5_params \<Rightarrow> 'a client_scheme client_class \<Rightarrow> bool \<Rightarrow>
    (int, 'a client_scheme) act" where
  "hev_socks5_client_handshake g klass pipeline =
     bind_a (upd_a (\<lambda>self. hev_socks5_set_timeout self (tcp_timeout g))) (\<lambda>_.
     bind_a (if pipeline then hev_socks5_client_handshake_pipeline klass
             else hev_socks5_client_handshake_standard klass) (\<lambda>res.
     bind_a get_a (\<lambda>self.
       if stype self = TYPE_UDP_IN_TCP \<or> stype self = TYPE_UDP_IN_UDP
       then bind_a (upd_a (\<lambda>self. hev_socks5_set_timeout self (udp_timeout g))) (\<lambda>_. ret_a res)
       else ret_a res)))"

definition hev_socks5_client_set_auth :: "'a client_scheme \<Rightarrow> byte list option \<Rightarrow> byte list option \<Rightarrow>
    'a client_scheme" where
  "hev_socks5_client_set_auth self user pass = self\<lparr>auth_user := user, auth_pass := pass\<rparr>"

definition hev_socks5_client_construct :: "'a client_scheme \<Rightarrow> socks5_type \<Rightarrow> 'a client_scheme" where
  "hev_socks5_client_construct self type = hev_socks5_construct self type"

section \<open>Connecting\<close>

definition sockaddr6_zero :: sockaddr6 where
  "sockaddr6_zero = \<lparr>sin6_port = 0, sin6_addr = replicate 16 0\<rparr>"

definition hev_socks5_client_connect :: "socks5_params \<Rightarrow> resolver \<Rightarrow>
    ('a client_scheme \<Rightarrow> fd \<Rightarrow> sockaddr6 \<Rightarrow> int) \<Rightarrow> byte list \<Rightarrow> int \<Rightarrow> 'a client_scheme \<Rightarrow> os \<Rightarrow>
    (int \<times> 'a client_scheme \<times> os) outcome" where
  "hev_socks5_client_connect g rv binder addr port self w =
     (let self = hev_socks5_set_timeout self (connect_timeout g) in
      case hev_socks5_name_into_sockaddr6 rv addr port sockaddr6_zero
          (hev_socks5_get_addr_family self) of
        (res, saddr, fam) \<Rightarrow>
      if res < 0 then Ret (- 1, self, w)
      else bind_o (hev_socks5_socket w) (\<lambda>(fd, w).
        if fd < 0 then Ret (- 1, self, w)
        else if binder self fd saddr < 0 then Ret (- 1, self, close_fd fd w)
        else bind_o (hev_task_io_socket_connect (Some hev_socks5_task_io_yielder) self (conn_evs w))
          (\<lambda>(res, self, evs).
            let w = w\<lparr>conn_evs := evs\<rparr> in
            if res < 0 then Ret (- 1, self, close_fd fd w)
            else Ret (0, hev_socks5_set_addr_family (self\<lparr>sfd := fd\<rparr>) fam, w))))"

section \<open>The TCP class\<close>

record client_tcp = client +
  tcp_addr :: "byte list option"

definition hev_socks5_client_tcp_get_upstream_addr :: "'a client_tcp_scheme \<Rightarrow> os \<Rightarrow>
    byte list option \<times> 'a client_tcp_scheme" where
  "hev_socks5_client_tcp_get_upstream_addr self w = (tcp_addr self, self\<lparr>tcp_addr := None\<rparr>)"

definition hev_socks5_client_tcp_set_upstream_addr :: "byte list \<Rightarrow> 'a client_tcp_scheme \<Rightarrow> os \<Rightarrow>
    (int \<times> 'a client_tcp_scheme \<times> os) outcome" where
  "hev_socks5_client_tcp_set_upstream_addr addr self w = Ret (0, self, w)"

definition hev_socks5_client_tcp_class :: "'a client_tcp_scheme client_class" where
  "hev_socks5_client_tcp_class =
     \<lparr>get_upstream_addr = hev_socks5_client_tcp_get_upstream_addr,
      set_upstream_addr = hev_socks5_client_tcp_set_upstream_addr\<rparr>"

definition hev_socks5_client_tcp_construct :: "byte list \<Rightarrow> 'a client_tcp_scheme \<Rightarrow> os \<Rightarrow>
    (int \<times> 'a client_tcp_scheme) outcome" where
  "hev_socks5_client_tcp_construct addr self w =
     (let self = hev_socks5_client_construct self TYPE_TCP in
      bind_o (hev_socks5_addr_len addr) (\<lambda>res.
        if res < 0 \<or> \<not> mem_ok w then Ret (- 1, self\<lparr>tcp_addr := None\<rparr>)
        else bind_o (rd_sego addr 0 (nat res)) (\<lambda>a. Ret (0, self\<lparr>tcp_addr := Some a\<rparr>))))"

section \<open>The UDP class\<close>

record client_udp = client +
  udp_fd :: fd

definition hev_socks5_client_udp_get_upstream_addr :: "'a client_udp_scheme \<Rightarrow> os \<Rightarrow>
    byte list option \<times> 'a client_udp_scheme" where
  "hev_socks5_client_udp_get_upstream_addr self w =
     ((case hev_socks5_get_addr_family self of
         FAMILY_IPV4 \<Rightarrow> if mem_ok w then Some (HEV_SOCKS5_ADDR_TYPE_IPV4 # replicate 6 0) else None
       | FAMILY_IPV6 \<Rightarrow> if mem_ok w then Some (HEV_SOCKS5_ADDR_TYPE_IPV6 # replicate 18 0) else None
       | FAMILY_UNSPEC \<Rightarrow> None), self)"

definition hev_socks5_client_udp_set_upstream_addr :: "resolver \<Rightarrow>
    ('a client_udp_scheme \<Rightarrow> fd \<Rightarrow> sockaddr6 \<Rightarrow> int) \<Rightarrow> byte list \<Rightarrow> 'a client_udp_scheme \<Rightarrow> os \<Rightarrow>
    (int \<times> 'a client_udp_scheme \<times> os) outcome" where
  "hev_socks5_client_udp_set_upstream_addr rv binder addr self w =
     (if stype self \<noteq> TYPE_UDP_IN_UDP then Ret (0, self, w)
      else bind_o (hev_socks5_addr_into_sockaddr6 rv addr sockaddr6_zero
          (hev_socks5_get_addr_family self)) (\<lambda>(res, saddr, fam).
        if res < 0 then Ret (- 1, self, w)
        else bind_o (hev_socks5_socket w) (\<lambda>(fd, w).
          if fd < 0 then Ret (- 1, self, w)
          else if binder self fd saddr < 0 then Ret (- 1, self, close_fd fd w)
          else bind_o (hev_task_io_socket_connect (Some hev_socks5_task_io_yielder) self (conn_evs w))
            (\<lambda>(res, self, evs).
              let w = w\<lparr>conn_evs := evs\<rparr> in
              if res < 0 then Ret (- 1, self, close_fd fd w)
              else Ret (0, self\<lparr>udp_associated := 1, udp_fd := fd\<rparr>, w)))))"

definition hev_socks5_client_udp_class :: "resolver \<Rightarrow> ('a client_udp_scheme \<Rightarrow> fd \<Rightarrow> sockaddr6 \<Rightarrow> int) \<Rightarrow>
    'a client_udp_scheme client_class" where
  "hev_socks5_client_udp_class rv binder =
     \<lparr>get_upstream_addr = hev_socks5_client_udp_get_upstream_addr,
      set_upstream_addr = hev_socks5_client_udp_set_upstream_addr rv binder\<rparr>"

definition hev_socks5_client_udp_get_fd :: "'a client_udp_scheme \<Rightarrow> fd" where
  "hev_socks5_client_udp_get_fd self =
     (case stype self of
        TYPE_UDP_IN_TCP \<Rightarrow> sfd self | TYPE_UDP_IN_UDP \<Rightarrow> udp_fd self | _ \<Rightarrow> - 1)"

definition hev_socks5_client_udp_construct :: "socks5_type \<Rightarrow> 'a client_udp_scheme \<Rightarrow> 'a client_udp_scheme" where
  "hev_socks5_client_udp_construct type self =
     (hev_socks5_client_construct self type)\<lparr>udp_fd := - 1\<rparr>"

definition hev_socks5_client_udp_destruct :: "'a client_udp_scheme \<Rightarrow> os \<Rightarrow> os" where
  "hev_socks5_client_udp_destruct self w =
     (let w = (if udp_fd self \<ge> 0 then close_fd (udp_fd self) w else w) in
      case hev_socks5_destruct self of Some fd \<Rightarrow> close_fd fd w | None \<Rightarrow> w)"

section \<open>What a client says\<close>

definition client_methods :: "'a client_scheme \<Rightarrow> byte list" where
  "client_methods self = [5, 1, if auth_user self = None \<or> auth_pass self = None then 0 else 2]"

definition client_creds :: "'a client_scheme \<Rightarrow> byte list" where
  "client_creds self =
     (case (auth_user self, auth_pass self) of
        (Some u, Some p) \<Rightarrow> [1, of_nat (length u)] @ u @ [of_nat (length p)] @ p
      | _ \<Rightarrow> [])"

definition creds_ok :: "'a client_scheme \<Rightarrow> bool" where
  "creds_ok self \<longleftrightarrow>
     (case (auth_user self, auth_pass self) of
        (Some u, Some p) \<Rightarrow> length u \<le> 255 \<and> length p \<le> 255 | _ \<Rightarrow> True)"

lemma runs_write_auth_methods:
  assumes "chan_st i r out n c" "live s" "n = 3 + l"
    and "\<And>c'. chan_st i r (out @ client_methods s) l c' \<Longrightarrow> P 0 s c' w"
  shows "runs hev_socks5_client_write_auth_methods P s c w"
  unfolding hev_socks5_client_write_auth_methods_def Let_def runs_bind runs_get
  by (rule runs_send_a [OF assms(1,2), of _ l])
    (use assms in \<open>auto simp: client_methods_def\<close>)

lemma runs_write_auth_creds:
  assumes "chan_st i r out n c" "live s" "creds_ok s" "n = length (client_creds s) + l"
    and "\<And>c'. chan_st i r (out @ client_creds s) l c' \<Longrightarrow> P 0 s c' w"
  shows "runs hev_socks5_client_write_auth_creds P s c w"
proof (cases "auth_user s = None \<or> auth_pass s = None")
  case True
  then show ?thesis using assms
    by (auto simp: hev_socks5_client_write_auth_creds_def client_creds_def split: option.splits)
next
  case False
  then obtain u p where up: "auth_user s = Some u" "auth_pass s = Some p" by auto
  then have len: "length u \<le> 255" "length p \<le> 255" using assms(3) by (simp_all add: creds_ok_def)
  have "runs (send_a (client_creds s)) (\<lambda>res. runs (if res \<le> 0 then ret_a (- 1) else ret_a 0) P) s c w"
    by (rule runs_send_a [OF assms(1,2), of _ l])
      (use up assms(4,5) in \<open>auto simp: client_creds_def\<close>)
  then show ?thesis using up len
    by (simp add: hev_socks5_client_write_auth_creds_def Let_def sendmsg_a_eq client_creds_def
        unat_of_nat_byte)
qed

lemma runs_get_upstream:
  "get_upstream_addr klass s w = (Some addr, s') \<Longrightarrow>
   runs (get_upstream_a klass) P s c w = P addr s' c w"
  by (simp add: runs_def get_upstream_a_def)

lemma runs_write_request:
  assumes "chan_st i r out n c" "live s" "saddr_wf a"
    and "req_cmd (stype s) = Some cmd"
    and "get_upstream_addr klass s w = (Some (saddr_enc a @ tl0), s')" "live s'"
    and "n = 3 + length (saddr_enc a) + l"
    and "\<And>c'. chan_st i r (out @ [5, cmd, 0] @ saddr_enc a) l c' \<Longrightarrow> P 0 s' c' w"
  shows "runs (hev_socks5_client_write_request klass) P s c w"
proof -
  let ?b = "[5, cmd, 0] @ saddr_enc a"
  have "runs (send_a ?b) (\<lambda>res. runs (if res \<le> 0 then ret_a (- 1) else ret_a 0) P) s' c w"
    by (rule runs_send_a [OF assms(1,6), of _ l]) (use assms in auto)
  then have "runs (sendmsg_a [[5, cmd, 0], saddr_enc a])
      (\<lambda>res. runs (if res \<le> 0 then ret_a (- 1) else ret_a 0) P) s' c w"
    by (simp add: sendmsg_a_eq)
  then show ?thesis using assms(3-5)
    by (simp add: hev_socks5_client_write_request_def runs_get_upstream
      addr_len_enc)
qed

section \<open>What a client accepts\<close>

lemma runs_read_auth_method:
  assumes "chan_st i r out l c" "live s" "i = [5, m] @ b"
    and "\<And>c'. chan_st b r out l c' \<Longrightarrow> P (uint m) s c' w"
  shows "runs hev_socks5_client_read_auth_method P s c w"
  unfolding hev_socks5_client_read_auth_method_def runs_bind
  by (rule runs_recv_a [OF assms(1) [unfolded assms(3)] assms(2)]) (use assms(4) in auto)

lemma runs_read_auth_creds:
  assumes "chan_st i r out l c" "live s" "i = [1, 0] @ b"
    and "\<And>c'. chan_st b r out l c' \<Longrightarrow> P 0 s c' w"
  shows "runs hev_socks5_client_read_auth_creds P s c w"
  unfolding hev_socks5_client_read_auth_creds_def runs_bind
  by (rule runs_recv_a [OF assms(1) [unfolded assms(3)] assms(2)]) (use assms(4) in auto)

fun is_ip :: "saddr \<Rightarrow> bool" where
  "is_ip (SName n p) = False"
| "is_ip _ = True"

lemma saddr_enc_ip:
  assumes "is_ip a" "saddr_wf a"
  obtains t d where "saddr_enc a = t # d" "response_addrlen t = Some (length d)" "0 < length d"
  using assms by (cases a) (auto simp: response_addrlen_def)

lemma runs_set_upstream:
  "set_upstream_addr klass a s w = Ret (x, s', w') \<Longrightarrow>
   runs (set_upstream_a klass a) P s c w = P x s' c w'"
  by (simp add: runs_def set_upstream_a_def)

lemma runs_read_response:
  assumes "chan_st i r out l c" "live s" "is_ip a" "saddr_wf a"
    and "set_upstream_addr klass (saddr_enc a) s w = Ret (0, s', w')"
    and "i = [5, 0, rsv] @ saddr_enc a @ b"
    and "\<And>c'. chan_st b r out l c' \<Longrightarrow> P 0 s' c' w'"
  shows "runs (hev_socks5_client_read_response klass) P s c w"
proof -
  obtain t d where a: "saddr_enc a = t # d" and t: "response_addrlen t = Some (length d)"
    and d: "0 < length d" by (rule saddr_enc_ip [OF assms(3,4)])
  have c: "chan_st ([5, 0, rsv, t] @ d @ b) r out l c" using assms(1,6) a by simp
  show ?thesis
    unfolding hev_socks5_client_read_response_def runs_bind
    apply (rule runs_recv_a [OF c assms(2)])
      apply (simp_all add: t)
    apply (erule runs_recv_a [OF _ assms(2) refl d])
    apply (use assms(5,7) a in \<open>simp add: runs_set_upstream\<close>)
    done
qed

section \<open>The handshakes\<close>

definition client_method :: "'a client_scheme \<Rightarrow> byte" where
  "client_method self = (if auth_user self = None \<or> auth_pass self = None then 0 else 2)"

definition client_hello :: "'a client_scheme \<Rightarrow> byte \<Rightarrow> saddr \<Rightarrow> byte list" where
  "client_hello self cmd a = client_methods self @ client_creds self @ [5, cmd, 0] @ saddr_enc a"

text \<open>The answer of a server that accepts the method offered and grants the request.\<close>

definition server_grant :: "byte \<Rightarrow> byte \<Rightarrow> saddr \<Rightarrow> byte list" where
  "server_grant m rsv a = [5, m] @ (if m = 2 then [1, 0] else []) @ [5, 0, rsv] @ saddr_enc a"

lemma method_cases:
  obtains "client_method s = 0" "client_creds s = []" | "client_method s = 2"
  by (cases "auth_user s"; cases "auth_pass s") (auto simp: client_method_def client_creds_def)

lemma runs_handshake_standard:
  fixes s :: "'a client_scheme"
  assumes c: "chan_st (server_grant (client_method s) rsv b) r out (length (client_hello s cmd a)) c"
    and live: "live s" "live s'" and wf: "saddr_wf a" "saddr_wf b" "is_ip b" "creds_ok s"
    and cmd: "req_cmd (stype s) = Some cmd"
    and get: "get_upstream_addr klass s w = (Some (saddr_enc a @ tl0), s')"
    and set: "set_upstream_addr klass (saddr_enc b) s' w = Ret (0, s2, w2)"
    and post: "\<And>c'. chan_st [] r (out @ client_hello s cmd a) 0 c' \<Longrightarrow> P 0 s2 c' w2"
  shows "runs (hev_socks5_client_handshake_standard klass) P s c w"
proof -
  let ?req = "[5, cmd, 0] @ saddr_enc a" and ?res = "[5, 0, rsv] @ saddr_enc b"
  note frag = client_hello_def server_grant_def client_methods_def
  have request: "runs (andthen (hev_socks5_client_write_request klass)
        (andthen (hev_socks5_client_read_response klass) (ret_a 0))) P s c' w"
    if c': "chan_st ?res r (out @ client_methods s @ client_creds s) (length ?req) c'" for c'
    unfolding runs_andthen
    apply (rule runs_write_request [OF c' live(1) wf(1) cmd get live(2), of 0])
     apply simp
    apply simp
    apply (erule runs_read_response [OF _ live(2) wf(3,2) set, of _ _ _ _ _ rsv "[]"])
     apply simp
    apply (use post in \<open>simp add: client_hello_def\<close>)
    done
  have auth: "runs (if uint (client_method s) = uint HEV_SOCKS5_AUTH_METHOD_USER
        then andthen hev_socks5_client_write_auth_creds hev_socks5_client_read_auth_creds
        else if uint (client_method s) \<noteq> uint HEV_SOCKS5_AUTH_METHOD_NONE then ret_a (- 1) else ret_a 0)
      (if_ok P (andthen (hev_socks5_client_write_request klass)
        (andthen (hev_socks5_client_read_response klass) (ret_a 0)))) s c' w"
    if c': "chan_st ((if client_method s = 2 then [1, 0] else []) @ ?res) r (out @ client_methods s)
      (length (client_creds s) + length ?req) c'" for c'
  proof (cases rule: method_cases [of s])
    case 1
    then show ?thesis using request [of c'] c' by simp
  next
    case 2
    have "runs hev_socks5_client_write_auth_creds (if_ok Q hev_socks5_client_read_auth_creds) s c' w"
      if Q: "\<And>c''. chan_st ?res r (out @ client_methods s @ client_creds s) (length ?req) c'' \<Longrightarrow>
        Q 0 s c'' w" for Q :: "int \<Rightarrow> 'a client_scheme \<Rightarrow> chan \<Rightarrow> os \<Rightarrow> bool"
      apply (rule runs_write_auth_creds [OF c' live(1) wf(4) refl])
      apply simp
      apply (erule runs_read_auth_creds [OF _ live(1), of _ _ _ _ _ ?res])
       apply (use 2 Q in simp_all)
      done
    then show ?thesis using 2 request by simp
  qed
  show ?thesis
    unfolding hev_socks5_client_handshake_standard_def runs_andthen
    apply (rule runs_write_auth_methods [OF c live(1), of "length (client_creds s) + length ?req"])
     apply (simp add: frag)
    apply simp
    apply (erule runs_read_auth_method [OF _ live(1), of _ _ _ _ _ "client_method s"
          "(if client_method s = 2 then [1, 0] else []) @ ?res"])
     apply (simp add: frag)
    apply (use auth in \<open>simp\<close>)
    done
qed

lemma runs_handshake_pipeline:
  fixes s :: "'a client_scheme"
  assumes c: "chan_st (server_grant (client_method s) rsv b) r out (length (client_hello s cmd a)) c"
    and live: "live s" "live s'" and wf: "saddr_wf a" "saddr_wf b" "is_ip b" "creds_ok s"
    and cmd: "req_cmd (stype s) = Some cmd"
    and get: "get_upstream_addr klass s w = (Some (saddr_enc a @ tl0), s')"
    and set: "set_upstream_addr klass (saddr_enc b) s' w = Ret (0, s2, w2)"
    and post: "\<And>c'. chan_st [] r (out @ client_hello s cmd a) 0 c' \<Longrightarrow> P 0 s2 c' w2"
  shows "runs (hev_socks5_client_handshake_pipeline klass) P s c w"
proof -
  let ?req = "[5, cmd, 0] @ saddr_enc a" and ?res = "[5, 0, rsv] @ saddr_enc b"
  let ?out = "out @ client_hello s cmd a"
  note frag = client_hello_def server_grant_def client_methods_def
  have response: "runs (andthen (hev_socks5_client_read_response klass) (ret_a 0)) P s' c' w"
    if c': "chan_st ?res r ?out 0 c'" for c'
    unfolding runs_andthen
    by (rule runs_read_response [OF c' live(2) wf(3,2) set, of rsv "[]"]) (use post in simp_all)
  have auth: "runs (if uint (client_method s) = uint HEV_SOCKS5_AUTH_METHOD_USER
        then hev_socks5_client_read_auth_creds
        else if uint (client_method s) \<noteq> uint HEV_SOCKS5_AUTH_METHOD_NONE then ret_a (- 1) else ret_a 0)
      (if_ok P (andthen (hev_socks5_client_read_response klass) (ret_a 0))) s' c' w"
    if c': "chan_st ((if client_method s = 2 then [1, 0] else []) @ ?res) r ?out 0 c'" for c'
  proof (cases rule: method_cases [of s])
    case 1
    then show ?thesis using response [of c'] c' by simp
  next
    case 2
    have "runs hev_socks5_client_read_auth_creds
        (if_ok P (andthen (hev_socks5_client_read_response klass) (ret_a 0))) s' c' w"
      by (rule runs_read_auth_creds [OF c' live(2), of ?res]) (use 2 response in simp_all)
    then show ?thesis using 2 by simp
  qed
  show ?thesis
    unfolding hev_socks5_client_handshake_pipeline_def runs_andthen
    apply (rule runs_write_auth_methods [OF c live(1), of "length (client_creds s) + length ?req"])
     apply (simp add: frag)
    apply simp
    apply (erule runs_write_auth_creds [OF _ live(1) wf(4), of _ _ _ _ _ "length ?req"])
     apply simp
    apply simp
    apply (erule runs_write_request [OF _ live(1) wf(1) cmd get live(2), of _ _ _ _ _ 0])
     apply simp
    apply simp
    apply (erule runs_read_auth_method [OF _ live(2), of _ _ _ _ _ "client_method s"
          "(if client_method s = 2 then [1, 0] else []) @ ?res"])
     apply (simp add: server_grant_def)
    apply (use auth in \<open>simp add: client_hello_def\<close>)
    done
qed

text \<open>Both forms together, on the class the caller has.\<close>

lemma runs_handshake:
  fixes s :: "'a client_scheme" and g :: socks5_params
  defines "s1 \<equiv> hev_socks5_set_timeout s (tcp_timeout g)"
  assumes c: "chan_st (server_grant (client_method s) rsv b) r out (length (client_hello s cmd a)) c"
    and t: "tcp_timeout g \<noteq> 0" and live: "live s'"
    and wf: "saddr_wf a" "saddr_wf b" "is_ip b" "creds_ok s"
    and cmd: "req_cmd (stype s) = Some cmd"
    and get: "get_upstream_addr klass s1 w = (Some (saddr_enc a @ tl0), s')"
    and set: "set_upstream_addr klass (saddr_enc b) s' w = Ret (0, s2, w2)"
  shows "runs (hev_socks5_client_handshake g klass pipeline)
    (\<lambda>res s3 c' w3. res = 0 \<and> chan_st [] r (out @ client_hello s cmd a) 0 c' \<and> w3 = w2 \<and>
      s3 = (if stype s2 = TYPE_UDP_IN_TCP \<or> stype s2 = TYPE_UDP_IN_UDP
            then hev_socks5_set_timeout s2 (udp_timeout g) else s2)) s c w"
proof -
  have same: "client_method s1 = client_method s" "client_hello s1 = client_hello s"
    "creds_ok s1 = creds_ok s" "stype s1 = stype s"
    by (auto simp: s1_def hev_socks5_set_timeout_def client_method_def client_hello_def fun_eq_iff
        client_methods_def client_creds_def creds_ok_def)
  have l1: "live s1" using t by (simp add: s1_def hev_socks5_set_timeout_def live_def)
  note hs = runs_handshake_standard [of s1 rsv b r out cmd a c s' klass w tl0 s2 w2]
    runs_handshake_pipeline [of s1 rsv b r out cmd a c s' klass w tl0 s2 w2]
  show ?thesis
    unfolding hev_socks5_client_handshake_def
    using hs c l1 live wf cmd get set same by (cases pipeline) (simp_all flip: s1_def)
qed

section \<open>A client completes only on a grant\<close>

text \<open>Whatever the network, the time-outs and the class do.\<close>

lemma write_rest:
  "hev_socks5_client_write_auth_methods s c w = Ret (x, s', c', w') \<Longrightarrow> rxs c' = rxs c"
  "hev_socks5_client_write_auth_creds s c w = Ret (x, s', c', w') \<Longrightarrow> rxs c' = rxs c"
  "hev_socks5_client_write_request klass s c w = Ret (x, s', c', w') \<Longrightarrow> rxs c' = rxs c"
  unfolding hev_socks5_client_write_auth_methods_def hev_socks5_client_write_auth_creds_def
    hev_socks5_client_write_request_def sendmsg_a_eq
  by (auto simp: get_a_def get_upstream_a_def lift_a_def ret_a_def bind_o_Ret_iff Let_def send_a_Ret
      elim!: bind_a_Ret split: option.splits prod.splits if_splits)

lemma read_auth_method_Ret:
  assumes "hev_socks5_client_read_auth_method s c w = Ret (x, s', c', w')" "0 \<le> x"
  shows "\<exists>m. x = uint m \<and> rest c = [5, m] @ rest c'"
  using assms unfolding hev_socks5_client_read_auth_method_def
  by (elim bind_a_Ret) (auto simp: ret_a_def dest!: recv_a_2 split: if_splits)

lemma read_auth_creds_Ret:
  assumes "hev_socks5_client_read_auth_creds s c w = Ret (x, s', c', w')" "0 \<le> x"
  shows "rest c = [1, 0] @ rest c'"
  using assms unfolding hev_socks5_client_read_auth_creds_def
  by (elim bind_a_Ret) (auto simp: ret_a_def dest!: recv_a_2 split: if_splits)

lemma read_response_Ret:
  assumes "hev_socks5_client_read_response klass s c w = Ret (x, s', c', w')" "0 \<le> x"
  shows "\<exists>rsv t d. rest c = [5, 0, rsv, t] @ d @ rest c' \<and> response_addrlen t = Some (length d)"
proof -
  obtain r b s1 c1 w1 where h: "recv_a 4 s c w = Ret ((r, b), s1, c1, w1)"
    and r: "r = 4" "b ! 0 = 5" "b ! 1 = 0"
    and k: "(case response_addrlen (b ! 3) of None \<Rightarrow> ret_a (- 1)
      | Some n \<Rightarrow> bind_a (recv_a n) (\<lambda>(ret, addr). if ret \<noteq> int n then ret_a (- 1)
          else bind_a (set_upstream_a klass (b ! 3 # addr)) (\<lambda>ret. if ret < 0 then ret_a (- 1) else ret_a 0)))
      s1 c1 w1 = Ret (x, s', c', w')"
    using assms unfolding hev_socks5_client_read_response_def
    by (elim bind_a_Ret) (auto simp: ret_a_def split: if_splits)
  then obtain n where n: "response_addrlen (b ! 3) = Some n" "0 < n"
    using assms(2) by (auto simp: ret_a_def response_addrlen_def split: option.splits if_splits)
  obtain r2 d s2 c2 w2 where d: "recv_a n s1 c1 w1 = Ret ((r2, d), s2, c2, w2)" "r2 = int n"
    and k2: "bind_a (set_upstream_a klass (b ! 3 # d)) (\<lambda>ret. if ret < 0 then ret_a (- 1) else ret_a 0)
      s2 c2 w2 = Ret (x, s', c', w')"
    using k n assms(2) by (auto simp: ret_a_def elim!: bind_a_Ret split: if_splits)
  have "c' = c2"
    using k2 by (auto simp: ret_a_def set_upstream_a_def bind_o_Ret_iff elim!: bind_a_Ret split: if_splits)
  moreover have "rest c = [5, 0, b ! 2, b ! 3] @ rest c1"
    using recv_a_Ret [OF h] r list4 [of b] by simp
  moreover have "rest c1 = d @ rest c2" "length d = n"
    using recv_a_Ret [OF d(1)] d(2) n by auto
  ultimately show ?thesis using n by auto
qed

text \<open>The input a completed handshake consumed is a grant: version 5, an accepted method, a
  positive answer to the credentials when the method asks for them, and a response with reply
  code 0 and an IP address.\<close>

definition granted :: "byte list \<Rightarrow> bool" where
  "granted i \<longleftrightarrow> (\<exists>m rsv t d. (m = 0 \<or> m = 2) \<and> response_addrlen t = Some (length d) \<and>
     i = [5, m] @ (if m = 2 then [1, 0] else []) @ [5, 0, rsv, t] @ d)"

lemma uint_byte_cases: "uint (m :: byte) = 2 \<longleftrightarrow> m = 2" "uint (m :: byte) = 0 \<longleftrightarrow> m = 0"
  using word_uint_eq_iff [of m 2] word_uint_eq_iff [of m 0] by simp_all

lemma response_granted:
  assumes "andthen (hev_socks5_client_read_response klass) (ret_a 0) s c w = Ret (x, s', c', w')" "0 \<le> x"
    and "rest c0 = [5, m] @ (if m = 2 then [1, 0] else []) @ rest c" "m = 0 \<or> m = 2"
  shows "\<exists>i. rest c0 = i @ rest c' \<and> granted i"
proof -
  obtain x1 where "hev_socks5_client_read_response klass s c w = Ret (x1, s', c', w')" "0 \<le> x1"
    using assms(1,2) by (elim andthen_Ret) (auto simp: ret_a_def)
  then obtain rsv t d where "rest c = [5, 0, rsv, t] @ d @ rest c'" "response_addrlen t = Some (length d)"
    using read_response_Ret by blast
  then show ?thesis using assms(3,4) unfolding granted_def
    by (intro exI [of _ "[5, m] @ (if m = 2 then [1, 0] else []) @ [5, 0, rsv, t] @ d"]) auto
qed

lemma standard_granted:
  assumes "hev_socks5_client_handshake_standard klass s c w = Ret (x, s', c', w')" "0 \<le> x"
  shows "\<exists>i. rest c = i @ rest c' \<and> granted i"
proof -
  obtain x0 s0 c0 w0 where m0: "hev_socks5_client_write_auth_methods s c w = Ret (x0, s0, c0, w0)"
    and k0: "bind_a hev_socks5_client_read_auth_method (\<lambda>res.
        if res < 0 then ret_a (- 1)
        else andthen
          (if res = uint HEV_SOCKS5_AUTH_METHOD_USER
           then andthen hev_socks5_client_write_auth_creds hev_socks5_client_read_auth_creds
           else if res \<noteq> uint HEV_SOCKS5_AUTH_METHOD_NONE then ret_a (- 1) else ret_a 0)
        (andthen (hev_socks5_client_write_request klass)
        (andthen (hev_socks5_client_read_response klass) (ret_a 0)))) s0 c0 w0 = Ret (x, s', c', w')"
    by (rule andthen_Ret [OF assms(1) [unfolded hev_socks5_client_handshake_standard_def] assms(2)])
  obtain x1 s1 c1 w1 where m1: "hev_socks5_client_read_auth_method s0 c0 w0 = Ret (x1, s1, c1, w1)"
    and x1: "0 \<le> x1"
    and k1: "andthen
          (if x1 = uint HEV_SOCKS5_AUTH_METHOD_USER
           then andthen hev_socks5_client_write_auth_creds hev_socks5_client_read_auth_creds
           else if x1 \<noteq> uint HEV_SOCKS5_AUTH_METHOD_NONE then ret_a (- 1) else ret_a 0)
        (andthen (hev_socks5_client_write_request klass)
        (andthen (hev_socks5_client_read_response klass) (ret_a 0))) s1 c1 w1 = Ret (x, s', c', w')"
    by (rule bind_a_Ret [OF k0]) (use assms(2) in \<open>auto simp: ret_a_def split: if_splits\<close>)
  obtain m where m: "x1 = uint m" "rest c0 = [5, m] @ rest c1"
    using read_auth_method_Ret [OF m1 x1] by blast
  obtain y s2 c2 w2 where b: "(if x1 = uint HEV_SOCKS5_AUTH_METHOD_USER
        then andthen hev_socks5_client_write_auth_creds hev_socks5_client_read_auth_creds
        else if x1 \<noteq> uint HEV_SOCKS5_AUTH_METHOD_NONE then ret_a (- 1) else ret_a 0) s1 c1 w1
      = Ret (y, s2, c2, w2)" "0 \<le> y"
    and k2: "andthen (hev_socks5_client_write_request klass)
        (andthen (hev_socks5_client_read_response klass) (ret_a 0)) s2 c2 w2 = Ret (x, s', c', w')"
    by (rule andthen_Ret [OF k1 assms(2)])
  have mm: "(m = 0 \<or> m = 2) \<and> rest c1 = (if m = 2 then [1, 0] else []) @ rest c2"
    using b m(1) by (auto simp: uint_byte_cases ret_a_def write_rest dest!: read_auth_creds_Ret
        elim!: andthen_Ret split: if_splits)
  obtain x3 s3 c3 w3 where m3: "hev_socks5_client_write_request klass s2 c2 w2 = Ret (x3, s3, c3, w3)"
    and k3: "andthen (hev_socks5_client_read_response klass) (ret_a 0) s3 c3 w3 = Ret (x, s', c', w')"
    by (rule andthen_Ret [OF k2 assms(2)])
  show ?thesis
    using response_granted [OF k3 assms(2), of c m] m mm write_rest(1) [OF m0] write_rest(3) [OF m3]
    by simp
qed

lemma pipeline_granted:
  assumes "hev_socks5_client_handshake_pipeline klass s c w = Ret (x, s', c', w')" "0 \<le> x"
  shows "\<exists>i. rest c = i @ rest c' \<and> granted i"
proof -
  note h = assms(1) [unfolded hev_socks5_client_handshake_pipeline_def]
  obtain xa sa ca wa where a: "rxs ca = rxs c" and k: "bind_a hev_socks5_client_read_auth_method (\<lambda>res.
        if res < 0 then ret_a (- 1)
        else andthen
          (if res = uint HEV_SOCKS5_AUTH_METHOD_USER then hev_socks5_client_read_auth_creds
           else if res \<noteq> uint HEV_SOCKS5_AUTH_METHOD_NONE then ret_a (- 1) else ret_a 0)
        (andthen (hev_socks5_client_read_response klass) (ret_a 0))) sa ca wa = Ret (x, s', c', w')"
    using write_rest by (metis (no_types, lifting) andthen_Ret [OF _ assms(2)] h)
  obtain x1 s1 c1 w1 where m1: "hev_socks5_client_read_auth_method sa ca wa = Ret (x1, s1, c1, w1)"
    and x1: "0 \<le> x1"
    and k1: "andthen
          (if x1 = uint HEV_SOCKS5_AUTH_METHOD_USER then hev_socks5_client_read_auth_creds
           else if x1 \<noteq> uint HEV_SOCKS5_AUTH_METHOD_NONE then ret_a (- 1) else ret_a 0)
        (andthen (hev_socks5_client_read_response klass) (ret_a 0)) s1 c1 w1 = Ret (x, s', c', w')"
    by (rule bind_a_Ret [OF k]) (use assms(2) in \<open>auto simp: ret_a_def split: if_splits\<close>)
  obtain m where m: "x1 = uint m" "rest ca = [5, m] @ rest c1"
    using read_auth_method_Ret [OF m1 x1] by blast
  obtain y s2 c2 w2 where b: "(if x1 = uint HEV_SOCKS5_AUTH_METHOD_USER
        then hev_socks5_client_read_auth_creds
        else if x1 \<noteq> uint HEV_SOCKS5_AUTH_METHOD_NONE then ret_a (- 1) else ret_a 0) s1 c1 w1
      = Ret (y, s2, c2, w2)" "0 \<le> y"
    and k2: "andthen (hev_socks5_client_read_response klass) (ret_a 0) s2 c2 w2 = Ret (x, s', c', w')"
    by (rule andthen_Ret [OF k1 assms(2)])
  have "(m = 0 \<or> m = 2) \<and> rest c1 = (if m = 2 then [1, 0] else []) @ rest c2"
    using b m(1) by (auto simp: uint_byte_cases ret_a_def dest!: read_auth_creds_Ret split: if_splits)
  then show ?thesis using response_granted [OF k2 assms(2), of c m] a m by simp
qed

lemma handshake_inner:
  assumes "hev_socks5_client_handshake g klass pipeline s c w = Ret (x, s', c', w')"
  obtains s1 s2 where
    "(if pipeline then hev_socks5_client_handshake_pipeline klass
      else hev_socks5_client_handshake_standard klass) s1 c w = Ret (x, s2, c', w')"
  using assms unfolding hev_socks5_client_handshake_def
  by (elim bind_a_Ret) (auto simp: upd_a_def get_a_def ret_a_def elim!: bind_a_Ret split: if_splits)

section \<open>Properties\<close>

text \<open>A client with credentials that asks for the name \<open>a\<close>, port 80, and a network that cuts the
  server's grant into pieces.\<close>

definition demo_client :: client_tcp where
  "demo_client = \<lparr>sfd = 3, timeout = - 1, udp_associated = 0, stype = TYPE_TCP, family = FAMILY_IPV4,
     auth_user = Some [117], auth_pass = Some [112], tcp_addr = Some (saddr_enc (SName [97] 80))\<rparr>"

definition demo_chan :: chan where
  "demo_chan = \<lparr>rxs = [RxData [5], RxAgain (Nap 7 False), RxData [2, 1],
       RxData [0, 5, 0, 0, 1, 1, 2, 3, 4, 0, 80, 9]],
     txs = [TxTake 2, TxAgain (Nap 9 False), TxTake 17], wire = [], wr_shut = False,
     errno_of = E_NONE\<rparr>"

definition demo_os :: os where
  "demo_os = \<lparr>sock_res = [(5, 0)], conn_evs = [ConnBusy (Nap 3 False), ConnIsConn],
     reuse_ok = True, bind_name = (\<lambda>fd a. Some (a\<lparr>sin6_port := 4711\<rparr>)),
     sock_name = [3 \<mapsto> \<lparr>sin6_port = 1080, sin6_addr = map4 [10, 0, 0, 9]\<rparr>], mem_ok = True,
     open_fds = {3}\<rparr>"

definition demo_resolver :: resolver where
  "demo_resolver = \<lparr>pton4 = (\<lambda>n. if n = [49] then Some [10, 0, 0, 1] else None), pton6 = (\<lambda>n. None),
     gai = (\<lambda>n f. if n = [97] then Some (FAMILY_IPV4, [10, 0, 0, 7]) else None)\<rparr>"

text \<open>C2. On any network that delivers the server's grant without error or time-out, however it
  cuts the stream, the TCP client's handshake succeeds; it writes exactly the SOCKS5 hello
  (methods, credentials, request) and reads exactly the grant, in the standard and in the
  pipelined form alike.\<close>

theorem client_tcp_handshake_complete:
  fixes s :: client_tcp
  assumes "chan_st (server_grant (client_method s) rsv b) r (wire c)
      (length (client_hello s HEV_SOCKS5_REQ_CMD_CONNECT a)) c"
    and "tcp_timeout g \<noteq> 0" and "saddr_wf a" "saddr_wf b" "is_ip b" "creds_ok s"
    and "stype s = TYPE_TCP" "tcp_addr s = Some (saddr_enc a)"
  shows "\<exists>c'. hev_socks5_client_handshake g hev_socks5_client_tcp_class pipeline s c w =
      Ret (0, s\<lparr>timeout := tcp_timeout g, tcp_addr := None\<rparr>, c', w) \<and>
    wire c' = wire c @ client_hello s HEV_SOCKS5_REQ_CMD_CONNECT a \<and> rx_stream (rxs c') = r"
proof -
  let ?s1 = "hev_socks5_set_timeout s (tcp_timeout g)" and ?K = hev_socks5_client_tcp_class
  let ?s' = "s\<lparr>timeout := tcp_timeout g, tcp_addr := None\<rparr>"
  have "get_upstream_addr ?K ?s1 w = (Some (saddr_enc a @ []), ?s')"
    "set_upstream_addr ?K (saddr_enc b) ?s' w = Ret (0, ?s', w)" "live ?s'"
    "req_cmd (stype s) = Some HEV_SOCKS5_REQ_CMD_CONNECT"
    using assms by (simp_all add: hev_socks5_client_tcp_class_def req_cmd_def live_def
        hev_socks5_client_tcp_get_upstream_addr_def hev_socks5_client_tcp_set_upstream_addr_def
        hev_socks5_set_timeout_def)
  from runs_handshake [OF assms(1,2) this(3) assms(3-6) this(4) this(1,2), of pipeline]
  show ?thesis using assms(7) by (auto simp: runs_def chan_st_def)
qed

theorem client_tcp_handshake_complete_witness:
  "\<exists>c'. hev_socks5_client_handshake socks5_default_params hev_socks5_client_tcp_class True
      demo_client demo_chan demo_os =
      Ret (0, demo_client\<lparr>timeout := 300000, tcp_addr := None\<rparr>, c', demo_os) \<and>
    wire c' = client_hello demo_client HEV_SOCKS5_REQ_CMD_CONNECT (SName [97] 80) \<and>
    rx_stream (rxs c') = [9]"
  using client_tcp_handshake_complete [where s = demo_client and c = demo_chan and
      g = socks5_default_params and a = "SName [97] 80" and b = "SV4 [1, 2, 3, 4] 80"
      and rsv = 0 and r = "[9]" and pipeline = True and w = demo_os]
  by (simp add: demo_client_def demo_chan_def chan_st_def server_grant_def client_method_def
      client_hello_def client_methods_def client_creds_def creds_ok_def socks5_default_params_def
      calm_def hi8_def lo8_def)

text \<open>C3. Whatever the network, the time-outs and the server do: when a handshake reports success,
  the input it consumed is a grant (version 5, a method the client accepts, a positive answer to
  the credentials where the method asks for them, reply code 0 and an IP address), and nothing
  behind it was read.\<close>

theorem client_handshake_only_on_grant:
  assumes "hev_socks5_client_handshake g klass pipeline s c w = Ret (x, s', c', w')" "0 \<le> x"
  shows "\<exists>i. rx_stream (rxs c) = i @ rx_stream (rxs c') \<and> granted i"
proof -
  obtain s1 s2 where "(if pipeline then hev_socks5_client_handshake_pipeline klass
      else hev_socks5_client_handshake_standard klass) s1 c w = Ret (x, s2, c', w')"
    by (rule handshake_inner [OF assms(1)])
  then show ?thesis
    using standard_granted [OF _ assms(2)] pipeline_granted [OF _ assms(2)] by (cases pipeline) auto
qed

lemma demo_standard_returns:
  "case hev_socks5_client_handshake socks5_default_params hev_socks5_client_tcp_class False
      demo_client demo_chan demo_os of
     Ret (x, s, c, w) \<Rightarrow> x = 0 \<and> rx_stream (rxs c) = [9] | _ \<Rightarrow> False"
  by code_simp

theorem client_handshake_only_on_grant_witness:
  "\<exists>i. rx_stream (rxs demo_chan) = i @ [9] \<and> granted i"
proof -
  obtain s' c' w' where "hev_socks5_client_handshake socks5_default_params
      hev_socks5_client_tcp_class False demo_client demo_chan demo_os = Ret (0, s', c', w')"
    "rx_stream (rxs c') = [9]"
    using demo_standard_returns by (auto split: outcome.splits prod.splits)
  with client_handshake_only_on_grant [OF this(1)] show ?thesis by simp
qed

text \<open>C21. Connecting never leaks a descriptor: a failed connect leaves the open descriptors of
  the process as they were, a successful one adds exactly the descriptor stored in the object.
  The hypothesis is what the kernel guarantees: a descriptor it hands out is not in use.\<close>

theorem client_connect_descriptors:
  assumes "hev_socks5_client_connect g rv binder addr port self w = Ret (r, self', w')"
    and "fresh_fds w"
  shows "r = 0 \<and> 0 \<le> sfd self' \<and> sfd self' \<notin> open_fds w \<and>
      open_fds w' = insert (sfd self') (open_fds w)
    \<or> r = - 1 \<and> open_fds w' = open_fds w"
proof -
  let ?self = "hev_socks5_set_timeout self (connect_timeout g)"
  obtain res saddr fam where nm: "hev_socks5_name_into_sockaddr6 rv addr port sockaddr6_zero
      (hev_socks5_get_addr_family ?self) = (res, saddr, fam)" by (metis prod_cases3)
  show ?thesis
  proof (cases "res < 0")
    case True
    then show ?thesis using assms(1) nm by (simp add: hev_socks5_client_connect_def Let_def)
  next
    case False
    then obtain fd w1 where sk: "hev_socks5_socket w = Ret (fd, w1)"
      and k: "(if fd < 0 then Ret (- 1, ?self, w1)
        else if binder ?self fd saddr < 0 then Ret (- 1, ?self, close_fd fd w1)
        else bind_o (hev_task_io_socket_connect (Some hev_socks5_task_io_yielder) ?self (conn_evs w1))
          (\<lambda>(res, self, evs).
            let w = w1\<lparr>conn_evs := evs\<rparr> in
            if res < 0 then Ret (- 1, self, close_fd fd w)
            else Ret (0, hev_socks5_set_addr_family (self\<lparr>sfd := fd\<rparr>) fam, w))) = Ret (r, self', w')"
      using assms(1) nm by (auto simp: hev_socks5_client_connect_def Let_def bind_o_Ret_iff)
    show ?thesis using k socket_Ret(2) [OF sk assms(2)]
      by (auto simp: bind_o_Ret_iff hev_socks5_set_addr_family_def Let_def split: if_splits)
  qed
qed

lemma demo_connect_returns:
  "case hev_socks5_client_connect socks5_default_params demo_resolver (\<lambda>s f a. 0) [49] 1080
      demo_client demo_os of
     Ret (r, s, w) \<Rightarrow> r = 0 \<and> sfd s = 5 \<and> open_fds w = {3, 5} | _ \<Rightarrow> False"
  by code_simp

theorem client_connect_descriptors_witness:
  "\<exists>s' w'. hev_socks5_client_connect socks5_default_params demo_resolver (\<lambda>s f a. 0) [49] 1080
      demo_client demo_os = Ret (0, s', w') \<and> open_fds w' = insert (sfd s') {3} \<and> sfd s' \<notin> {3}"
proof -
  obtain s' w' where r: "hev_socks5_client_connect socks5_default_params demo_resolver
      (\<lambda>s f a. 0) [49] 1080 demo_client demo_os = Ret (0, s', w')"
    using demo_connect_returns by (auto split: outcome.splits prod.splits)
  show ?thesis using client_connect_descriptors [OF r] r
    by (auto simp: demo_os_def fresh_fds_def)
qed

end
