(* ===== verification/Server.thy ===== *)
theory Server
  imports Client
begin

text \<open>
  The SOCKS5 server (\<open>hev-socks5-server.c\<close>) up to the point where it starts to relay, and the
  user object (\<open>hev-socks5-user.c\<close>). The authenticator is reached through its lookup. The
  theorems give the bytes of an accepted handshake, show that a server with an authenticator
  never serves a client whose credentials it did not check, and that client and server agree.
\<close>

section \<open>Users\<close>

record user =
  user_name :: "byte list"
  user_pass :: "byte list"

definition hev_socks5_user_construct :: "byte list \<Rightarrow> byte list \<Rightarrow> user" where
  "hev_socks5_user_construct name pass = \<lparr>user_name = name, user_pass = pass\<rparr>"

definition hev_socks5_user_checker :: "user \<Rightarrow> byte list \<Rightarrow> int" where
  "hev_socks5_user_checker self pass =
     (if length (user_pass self) \<noteq> length pass then - 1
      else if user_pass self \<noteq> pass then - 1 else 0)"

section \<open>The server\<close>

text \<open>One pointer of the object is a union: the authenticator at first, the user once it has been
  checked.\<close>

datatype server_obj = NoObj | AuthObj "byte list \<Rightarrow> user option" | UserObj user

record server = socks5 +
  fds0 :: fd
  fds1 :: fd
  obj :: server_obj

definition hev_socks5_server_construct :: "fd \<Rightarrow> 'a server_scheme \<Rightarrow> 'a server_scheme" where
  "hev_socks5_server_construct fd self =
     (hev_socks5_construct self TYPE_NONE)\<lparr>sfd := fd, fds0 := - 1, fds1 := - 1\<rparr>"

definition hev_socks5_server_set_auth :: "'a server_scheme \<Rightarrow> (byte list \<Rightarrow> user option) \<Rightarrow> 'a server_scheme" where
  "hev_socks5_server_set_auth self auth = self\<lparr>obj := AuthObj auth\<rparr>"

definition hev_socks5_server_read_auth_method :: "(int, 'a server_scheme) act" where
  "hev_socks5_server_read_auth_method =
     bind_a (recv_a 2) (\<lambda>(res, auth).
       if res \<noteq> 2 then ret_a (- 1)
       else if auth ! 0 \<noteq> HEV_SOCKS5_VERSION_5 then ret_a (- 1)
       else bind_a (recv_a (unat (auth ! 1))) (\<lambda>(res, methods).
         if res \<noteq> uint (auth ! 1) then ret_a (- 1)
         else bind_a get_a (\<lambda>self.
           let method = (case obj self of NoObj \<Rightarrow> HEV_SOCKS5_AUTH_METHOD_NONE
                         | _ \<Rightarrow> HEV_SOCKS5_AUTH_METHOD_USER) in
           ret_a (if method \<in> set methods then uint method else - 1))))"

text \<open>The method is stored in a byte: -1 becomes 255, the refusal.\<close>

definition hev_socks5_server_write_auth_method :: "int \<Rightarrow> (int, 'a server_scheme) act" where
  "hev_socks5_server_write_auth_method auth_method =
     bind_a (send_a [HEV_SOCKS5_VERSION_5, word_of_int auth_method]) (\<lambda>res.
       if res \<le> 0 then ret_a (- 1) else ret_a 0)"

definition auth_lookup :: "byte list \<Rightarrow> (user option, 'a server_scheme) act" where
  "auth_lookup name = (\<lambda>s c w.
     case obj s of AuthObj get \<Rightarrow> Ret (get name, s, c, w) | _ \<Rightarrow> Fault)"

definition server_check_user :: "byte list \<Rightarrow> byte list \<Rightarrow> (int, 'a server_scheme) act" where
  "server_check_user name pass =
     bind_a (auth_lookup name) (\<lambda>u.
       case u of
         None \<Rightarrow> ret_a (- 1)
       | Some user \<Rightarrow>
           if hev_socks5_user_checker user pass < 0 then ret_a (- 1)
           else bind_a (upd_a (\<lambda>self. self\<lparr>obj := UserObj user\<rparr>)) (\<lambda>_. ret_a 0))"

definition hev_socks5_server_read_auth_user :: "(int, 'a server_scheme) act" where
  "hev_socks5_server_read_auth_user =
     bind_a (recv_a 2) (\<lambda>(res, head).
       if res \<noteq> 2 then ret_a (- 1)
       else if head ! 0 \<noteq> 1 then ret_a (- 1)
       else let nlen = head ! 1 in
         if nlen = 0 then ret_a (- 1)
         else bind_a (recv_a (unat nlen + 1)) (\<lambda>(res, name).
           if res \<noteq> uint nlen + 1 then ret_a (- 1)
           else let plen = name ! unat nlen in
             if plen = 0 then ret_a (- 1)
             else bind_a (recv_a (unat plen)) (\<lambda>(res, pass).
               if res \<noteq> uint plen then ret_a (- 1)
               else server_check_user (take (unat nlen) name) pass)))"

definition hev_socks5_server_write_auth_user :: "int \<Rightarrow> (int, 'a server_scheme) act" where
  "hev_socks5_server_write_auth_user auth_res =
     bind_a (send_a [1, word_of_int auth_res]) (\<lambda>res. if res \<le> 0 then ret_a (- 1) else ret_a 0)"

definition hev_socks5_server_auth :: "(int, 'a server_scheme) act" where
  "hev_socks5_server_auth =
     bind_a hev_socks5_server_read_auth_method (\<lambda>method.
     bind_a (hev_socks5_server_write_auth_method method) (\<lambda>res.
       if res < 0 then ret_a (- 1)
       else if method = uint HEV_SOCKS5_AUTH_METHOD_NONE then ret_a 0
       else if method = uint HEV_SOCKS5_AUTH_METHOD_USER then
         bind_a hev_socks5_server_read_auth_user (\<lambda>res.
         bind_a (hev_socks5_server_write_auth_user res) (\<lambda>res'.
           if res OR res' < 0 then ret_a (- 1) else ret_a 0))
       else ret_a (- 1)))"

text \<open>\<open>addr\<close> is the caller's stack object, unset at first; \<open>rep\<close> starts as success. The result is
  the value returned, the command if one was stored, the reply code and the address object.\<close>

type_synonym request = "int \<times> byte option \<times> byte \<times> sockaddr6"

definition request_addrlen :: "byte \<Rightarrow> byte \<Rightarrow> nat option" where
  "request_addrlen atype len =
     (if atype = HEV_SOCKS5_ADDR_TYPE_IPV4 then Some 5
      else if atype = HEV_SOCKS5_ADDR_TYPE_IPV6 then Some 17
      else if atype = HEV_SOCKS5_ADDR_TYPE_NAME then Some (2 + unat len)
      else None)"

definition hev_socks5_server_read_request :: "resolver \<Rightarrow> sockaddr6 \<Rightarrow> (request, 'a server_scheme) act" where
  "hev_socks5_server_read_request rv addr =
     bind_a (recv_a 5) (\<lambda>(res, req).
       if res \<noteq> 5 then ret_a (- 1, None, HEV_SOCKS5_RES_REP_SUCC, addr)
       else if req ! 0 \<noteq> HEV_SOCKS5_VERSION_5 then ret_a (0, None, HEV_SOCKS5_RES_REP_FAIL, addr)
       else
         case request_addrlen (req ! 3) (req ! 4) of
           None \<Rightarrow> ret_a (0, None, HEV_SOCKS5_RES_REP_ADDR, addr)
         | Some addrlen \<Rightarrow>
             bind_a (recv_a addrlen) (\<lambda>(res, d).
               if res \<noteq> int addrlen then ret_a (0, None, HEV_SOCKS5_RES_REP_ADDR, addr)
               else bind_a get_a (\<lambda>self.
                 bind_a (lift_a (hev_socks5_addr_into_sockaddr6 rv ([req ! 3, req ! 4] @ d) addr
                     (hev_socks5_get_addr_family self))) (\<lambda>(res, addr, fam).
                   if res < 0 then ret_a (0, None, HEV_SOCKS5_RES_REP_ADDR, addr)
                   else bind_a (upd_a (\<lambda>self. hev_socks5_set_addr_family self fam)) (\<lambda>_.
                     ret_a (0, Some (req ! 1), HEV_SOCKS5_RES_REP_SUCC, addr))))))"

definition hev_socks5_server_write_response :: "byte \<Rightarrow> sockaddr6 \<Rightarrow> (int, 'a server_scheme) act" where
  "hev_socks5_server_write_response rep addr =
     bind_a (lift_a (hev_socks5_addr_from_sockaddr6 (replicate 260 0) addr)) (\<lambda>(ret, a).
     bind_a (send_a ([HEV_SOCKS5_VERSION_5, rep, 0] @ take (nat ret) a)) (\<lambda>ret.
       if ret \<le> 0 then ret_a (- 1) else ret_a 0))"

section \<open>Outgoing sockets\<close>

definition os_a :: "('s \<Rightarrow> os \<Rightarrow> ('a \<times> 's \<times> os) outcome) \<Rightarrow> ('a, 's) act" where
  "os_a f = (\<lambda>s c w. bind_o (f s w) (\<lambda>(x, s', w'). Ret (x, s', c, w')))"

definition hev_socks5_server_connect :: "socks5_params \<Rightarrow> ('a server_scheme \<Rightarrow> fd \<Rightarrow> sockaddr6 \<Rightarrow> int) \<Rightarrow>
    sockaddr6 \<Rightarrow> 'a server_scheme \<Rightarrow> os \<Rightarrow> (int \<times> 'a server_scheme \<times> os) outcome" where
  "hev_socks5_server_connect g binder addr self w =
     bind_o (hev_socks5_socket w) (\<lambda>(fd, w).
       if fd < 0 then Ret (- 1, self, w)
       else if binder self fd addr < 0 then Ret (- 1, self, close_fd fd w)
       else let self = hev_socks5_set_timeout self (connect_timeout g) in
         bind_o (hev_task_io_socket_connect (Some hev_socks5_task_io_yielder) self (conn_evs w))
           (\<lambda>(res, self, evs).
             let w = w\<lparr>conn_evs := evs\<rparr> in
             if res < 0 then Ret (- 1, self, close_fd fd w)
             else Ret (0, (hev_socks5_set_timeout self (tcp_timeout g))\<lparr>fds0 := fd\<rparr>, w)))"

text \<open>The local address of the control connection with a port the kernel chooses; the object
  passed in receives the name of the bound socket.\<close>

definition hev_socks5_server_udp_bind :: "'a server_scheme \<Rightarrow> fd \<Rightarrow> sockaddr6 \<Rightarrow> os \<Rightarrow> int \<times> sockaddr6 \<times> os" where
  "hev_socks5_server_udp_bind self sock src w =
     (case sock_name w (sfd self) of
        None \<Rightarrow> (- 1, src, w)
      | Some src \<Rightarrow>
          let src = src\<lparr>sin6_port := 0\<rparr> in
          case bind_name w sock src of
            None \<Rightarrow> (- 1, src, w)
          | Some nm \<Rightarrow>
              let w = w\<lparr>sock_name := (sock_name w)(sock \<mapsto> nm)\<rparr> in
              case sock_name w sock of None \<Rightarrow> (- 1, src, w) | Some src \<Rightarrow> (0, src, w))"

definition hev_socks5_server_bind :: "sockaddr6 option \<Rightarrow> 'a server_scheme \<Rightarrow> os \<Rightarrow>
    ((int \<times> sockaddr6 option) \<times> 'a server_scheme \<times> os) outcome" where
  "hev_socks5_server_bind addr self w =
     bind_o (hev_socks5_socket w) (\<lambda>(fd, w).
       if fd < 0 then Ret ((- 1, addr), self, w)
       else let self = self\<lparr>fds0 := fd\<rparr> in
         case addr of
           None \<Rightarrow> Ret ((0, addr), self, w)
         | Some a \<Rightarrow>
             bind_o (hev_socks5_socket w) (\<lambda>(fd, w).
               if fd < 0 then Ret ((- 1, addr), self, w)
               else if \<not> reuse_ok w then Ret ((- 1, addr), self, close_fd fd w)
               else case hev_socks5_server_udp_bind self fd a w of (res, a, w) \<Rightarrow>
                 if res < 0 then Ret ((- 1, Some a), self, close_fd fd w)
                 else Ret ((0, Some a), self\<lparr>fds1 := fd\<rparr>, w)))"

definition hev_socks5_server_destruct :: "'a server_scheme \<Rightarrow> os \<Rightarrow> os" where
  "hev_socks5_server_destruct self w =
     (let w = (if fds0 self \<ge> 0 then close_fd (fds0 self) w else w);
          w = (if fds1 self \<ge> 0 then close_fd (fds1 self) w else w) in
      case hev_socks5_destruct self of Some fd \<Rightarrow> close_fd fd w | None \<Rightarrow> w)"

section \<open>The handshake\<close>

text \<open>Carrying out the command: the new reply code and the address object.\<close>

definition server_command :: "socks5_params \<Rightarrow> ('a server_scheme \<Rightarrow> fd \<Rightarrow> sockaddr6 \<Rightarrow> int) \<Rightarrow>
    byte option \<Rightarrow> sockaddr6 \<Rightarrow> (byte \<times> sockaddr6, 'a server_scheme) act" where
  "server_command g binder cmd addr =
     (if cmd = Some HEV_SOCKS5_REQ_CMD_CONNECT then
        bind_a (os_a (hev_socks5_server_connect g binder addr)) (\<lambda>res.
        bind_a (upd_a (\<lambda>self. self\<lparr>stype := TYPE_TCP\<rparr>)) (\<lambda>_.
          ret_a (if res < 0 then HEV_SOCKS5_RES_REP_HOST else HEV_SOCKS5_RES_REP_SUCC, addr)))
      else if cmd = Some HEV_SOCKS5_REQ_CMD_UDP_ASC then
        bind_a (os_a (hev_socks5_server_bind (Some addr))) (\<lambda>(res, a).
        bind_a (upd_a (\<lambda>self. self\<lparr>stype := TYPE_UDP_IN_UDP\<rparr>)) (\<lambda>_.
          ret_a (if res < 0 then HEV_SOCKS5_RES_REP_FAIL else HEV_SOCKS5_RES_REP_SUCC,
            case a of Some a \<Rightarrow> a | None \<Rightarrow> addr)))
      else if cmd = Some HEV_SOCKS5_REQ_CMD_FWD_UDP then
        bind_a (os_a (hev_socks5_server_bind None)) (\<lambda>(res, a).
        bind_a (upd_a (\<lambda>self. self\<lparr>stype := TYPE_UDP_IN_TCP\<rparr>)) (\<lambda>_.
          ret_a (if res < 0 then HEV_SOCKS5_RES_REP_FAIL else HEV_SOCKS5_RES_REP_SUCC, addr)))
      else ret_a (HEV_SOCKS5_RES_REP_IMPL, addr))"

definition hev_socks5_server_handshake :: "socks5_params \<Rightarrow> resolver \<Rightarrow>
    ('a server_scheme \<Rightarrow> fd \<Rightarrow> sockaddr6 \<Rightarrow> int) \<Rightarrow> sockaddr6 \<Rightarrow> (int, 'a server_scheme) act" where
  "hev_socks5_server_handshake g rv binder addr =
     bind_a (upd_a (\<lambda>self. hev_socks5_set_timeout self (tcp_timeout g))) (\<lambda>_.
     andthen hev_socks5_server_auth
     (bind_a (hev_socks5_server_read_request rv addr) (\<lambda>(res, cmd, rep, addr).
        if res < 0 then ret_a (- 1)
        else bind_a (if rep = HEV_SOCKS5_RES_REP_SUCC then server_command g binder cmd addr
                     else ret_a (rep, addr)) (\<lambda>(rep, addr).
          bind_a (hev_socks5_server_write_response rep addr) (\<lambda>res.
            if res < 0 \<or> rep \<noteq> HEV_SOCKS5_RES_REP_SUCC then ret_a (- 1) else ret_a 0)))))"

definition hev_socks5_server_get_fd :: "'a server_scheme \<Rightarrow> fd" where
  "hev_socks5_server_get_fd self =
     (case stype self of TYPE_UDP_IN_TCP \<Rightarrow> sfd self | TYPE_UDP_IN_UDP \<Rightarrow> fds1 self | _ \<Rightarrow> - 1)"

section \<open>An accepted handshake\<close>

definition server_method :: "'a server_scheme \<Rightarrow> byte" where
  "server_method s = (case obj s of NoObj \<Rightarrow> HEV_SOCKS5_AUTH_METHOD_NONE | _ \<Rightarrow> HEV_SOCKS5_AUTH_METHOD_USER)"

lemma runs_server_read_auth_method:
  assumes "chan_st i r out l c" "live s" "i = [5, 1, server_method s] @ b"
    and "\<And>c'. chan_st b r out l c' \<Longrightarrow> P (uint (server_method s)) s c' w"
  shows "runs hev_socks5_server_read_auth_method P s c w"
proof -
  have i: "i = [5, 1] @ [server_method s] @ b" using assms(3) by simp
  show ?thesis
    unfolding hev_socks5_server_read_auth_method_def runs_bind
    apply (rule runs_recv_a [OF assms(1) [unfolded i] assms(2)])
      apply simp_all
    apply (erule runs_recv_a [where a = "[server_method s]", simplified, OF _ assms(2)])
    using assms(4) by (simp_all add: server_method_def)
qed

lemma runs_server_write_auth_method:
  assumes "chan_st i r out n c" "live s" "n = 2 + l"
    and "\<And>c'. chan_st i r (out @ [5, m]) l c' \<Longrightarrow> P 0 s c' w"
  shows "runs (hev_socks5_server_write_auth_method (uint m)) P s c w"
  unfolding hev_socks5_server_write_auth_method_def runs_bind
  by (rule runs_send_a [OF assms(1,2), of _ l]) (use assms(3,4) in simp_all)

lemma runs_server_write_auth_user:
  assumes "chan_st i r out n c" "live s" "n = 2 + l"
    and "\<And>c'. chan_st i r (out @ [1, 0]) l c' \<Longrightarrow> P 0 s c' w"
  shows "runs (hev_socks5_server_write_auth_user 0) P s c w"
  unfolding hev_socks5_server_write_auth_user_def runs_bind
  by (rule runs_send_a [OF assms(1,2), of _ l]) (use assms(3,4) in simp_all)

lemma runs_auth_lookup:
  "obj s = AuthObj get \<Longrightarrow> runs (auth_lookup n) P s c w = P (get n) s c w"
  by (simp add: runs_def auth_lookup_def)

lemma of_nat_byte_0: "0 < n \<Longrightarrow> n \<le> 255 \<Longrightarrow> (of_nat n :: byte) \<noteq> 0"
  using unat_of_nat_byte [of n] by (metis neq0_conv unsigned_0)

text \<open>The wire form of credentials, and the user they belong to.\<close>

definition creds_enc :: "byte list \<Rightarrow> byte list \<Rightarrow> byte list" where
  "creds_enc u p = [1, of_nat (length u)] @ u @ [of_nat (length p)] @ p"

lemma runs_server_read_auth_user:
  assumes "chan_st i r out l c" "live s" "i = creds_enc u p @ b"
    and len: "0 < length u" "length u \<le> 255" "0 < length p" "length p \<le> 255"
    and "obj s = AuthObj get" "get u = Some usr" "user_pass usr = p"
    and "\<And>c'. chan_st b r out l c' \<Longrightarrow> P 0 (s\<lparr>obj := UserObj usr\<rparr>) c' w"
  shows "runs hev_socks5_server_read_auth_user P s c w"
proof -
  let ?n = "of_nat (length u) :: byte" and ?p = "of_nat (length p) :: byte"
  note nz = of_nat_byte_0 [OF len(1,2)] of_nat_byte_0 [OF len(3,4)]
  note un = unat_of_nat_byte [OF len(2)] unat_of_nat_byte [OF len(4)]
    uint_of_nat_byte [OF len(2)] uint_of_nat_byte [OF len(4)]
  have i: "i = [1, ?n] @ (u @ [?p]) @ p @ b" using assms(3) by (simp add: creds_enc_def)
  show ?thesis
    unfolding hev_socks5_server_read_auth_user_def runs_bind
    apply (rule runs_recv_a [OF assms(1) [unfolded i] assms(2)])
      apply (simp_all add: nz un Let_def)
    apply (rule runs_recv_a [where a = "u @ [?p]" and b = "p @ b" and r = r and out = out and l = l,
        OF _ assms(2)])
       apply (simp_all add: nz un)
    apply (erule runs_recv_a [OF _ assms(2) refl len(3)])
    apply (simp add: server_check_user_def runs_auth_lookup [OF assms(8)] assms(9-11) hev_socks5_user_checker_def un)
    done
qed

text \<open>The server knows the client: it has no authenticator and the client no credentials, or the
  client's credentials are those of a user of the authenticator.\<close>

definition server_knows :: "'b client_scheme \<Rightarrow> 'a server_scheme \<Rightarrow> 'a server_scheme \<Rightarrow> bool" where
  "server_knows cl s s' \<longleftrightarrow>
     (case (auth_user cl, auth_pass cl) of
        (Some u, Some p) \<Rightarrow>
          0 < length u \<and> length u \<le> 255 \<and> 0 < length p \<and> length p \<le> 255 \<and>
          (\<exists>get usr. obj s = AuthObj get \<and> get u = Some usr \<and> user_pass usr = p \<and>
             s' = s\<lparr>obj := UserObj usr\<rparr>)
      | _ \<Rightarrow> obj s = NoObj \<and> s' = s)"

lemma server_knows_same: "server_knows cl s s' \<Longrightarrow> timeout s' = timeout s \<and> family s' = family s"
  by (auto simp: server_knows_def split: option.splits)

lemma runs_server_auth:
  fixes s :: "'a server_scheme" and cl :: "'b client_scheme"
  assumes c: "chan_st i r out n c" "i = client_methods cl @ client_creds cl @ b"
    and n: "n = length (server_grant (client_method cl) 0 a) - (3 + length (saddr_enc a)) + l"
    and live: "live s"
    and ok: "server_knows cl s s'"
    and post: "\<And>c'. chan_st b r (out @ [5, client_method cl] @
        (if client_method cl = 2 then [1, 0] else [])) l c' \<Longrightarrow> P 0 s' c' w"
  shows "runs hev_socks5_server_auth P s c w"
proof (cases rule: method_cases [of cl])
  case 1
  then have none: "auth_user cl = None \<or> auth_pass cl = None"
    by (auto simp: client_method_def split: if_splits)
  then have s: "obj s = NoObj" "s' = s" using ok by (auto simp: server_knows_def split: option.splits)
  then have m: "server_method s = client_method cl" using 1 by (simp add: server_method_def)
  have i: "i = [5, 1, server_method s] @ b"
    using c(2) 1 m none by (simp add: client_methods_def)
  show ?thesis
    unfolding hev_socks5_server_auth_def runs_bind
    apply (rule runs_server_read_auth_method [OF c(1) live i])
    apply (erule runs_server_write_auth_method [OF _ live, of _ _ _ _ _ l])
     apply (use n 1 m s post in \<open>auto simp: server_grant_def\<close>)
    done
next
  case 2
  then obtain u p where up: "auth_user cl = Some u" "auth_pass cl = Some p"
    by (auto simp: client_method_def split: if_splits)
  then obtain get usr where s: "0 < length u" "length u \<le> 255" "0 < length p" "length p \<le> 255"
    "obj s = AuthObj get" "get u = Some usr" "user_pass usr = p" "s' = s\<lparr>obj := UserObj usr\<rparr>"
    using ok by (auto simp: server_knows_def)
  then have m: "server_method s = 2" by (simp add: server_method_def)
  have i: "i = [5, 1, server_method s] @ creds_enc u p @ b"
    using c(2) up m by (simp add: client_methods_def client_creds_def creds_enc_def)
  have live': "live s'" using live s by (simp add: live_def)
  show ?thesis
    unfolding hev_socks5_server_auth_def runs_bind
    apply (rule runs_server_read_auth_method [OF c(1) live i])
    apply (erule runs_server_write_auth_method [OF _ live, of _ _ _ _ _ "2 + l"])
     apply (use n 2 in \<open>simp add: server_grant_def\<close>)
    apply (simp add: m)
    apply (erule runs_server_read_auth_user [OF _ live refl s(1-7)])
    apply simp
    apply (erule runs_server_write_auth_user [of _ _ _ _ _ _ l])
    using live' s 2 post by simp_all
qed

lemma saddr_enc_request:
  assumes "saddr_wf a"
  obtains t k d where "saddr_enc a = t # k # d" "request_addrlen t k = Some (length d)" "0 < length d"
proof (cases a)
  case (SV4 x p)
  then show ?thesis using assms that by (cases x) (auto simp: request_addrlen_def)
next
  case (SV6 x p)
  then show ?thesis using assms that by (cases x) (auto simp: request_addrlen_def)
next
  case (SName x p)
  then show ?thesis using assms that [of 3 "of_nat (length x)" "x @ [hi8 p, lo8 p]"]
    by (simp add: request_addrlen_def unat_of_nat_byte)
qed

lemma runs_server_read_request:
  assumes "chan_st i r out l c" "live s" "saddr_wf a" "i = [5, cmd, x] @ saddr_enc a @ b"
    and "hev_socks5_addr_into_sockaddr6 rv (saddr_enc a) sa0 (family s) = Ret (0, sa, fam)"
    and "\<And>c'. chan_st b r out l c' \<Longrightarrow> P (0, Some cmd, HEV_SOCKS5_RES_REP_SUCC, sa) (s\<lparr>family := fam\<rparr>) c' w"
  shows "runs (hev_socks5_server_read_request rv sa0) P s c w"
proof -
  obtain t k d where a: "saddr_enc a = t # k # d" and t: "request_addrlen t k = Some (length d)"
    and d: "0 < length d" by (rule saddr_enc_request [OF assms(3)])
  have i: "i = [5, cmd, x, t, k] @ d @ b" using assms(4) a by simp
  show ?thesis
    unfolding hev_socks5_server_read_request_def runs_bind
    apply (rule runs_recv_a [OF assms(1) [unfolded i] assms(2)])
      apply (simp_all add: t)
    apply (erule runs_recv_a [OF _ assms(2) refl d])
    using assms(5,6) a
    by (simp add: hev_socks5_get_addr_family_def hev_socks5_set_addr_family_def)
qed

lemma runs_server_write_response:
  assumes "chan_st i r out n c" "live s" "length (sin6_addr sa) = 16"
    and "n = 3 + length (saddr_enc (saddr_of sa)) + l"
    and "\<And>c'. chan_st i r (out @ [5, rep, 0] @ saddr_enc (saddr_of sa)) l c' \<Longrightarrow> P 0 s c' w"
  shows "runs (hev_socks5_server_write_response rep sa) P s c w"
proof -
  have e: "hev_socks5_addr_from_sockaddr6 (replicate 260 0) sa =
      Ret (int (length (saddr_enc (saddr_of sa))), saddr_enc (saddr_of sa) @
        drop (length (saddr_enc (saddr_of sa))) (replicate 260 0))"
    by (rule addr_from_sockaddr6_enc) (use assms(3) in simp_all)
  show ?thesis
    unfolding hev_socks5_server_write_response_def runs_bind e
    apply (simp del: drop_replicate)
    apply (rule runs_send_a [OF assms(1,2), of _ l])
    using assms(4,5) by simp_all
qed

text \<open>Connecting to the address asked for.\<close>

lemma runs_os_a: "f s w = Ret (x, s', w') \<Longrightarrow> runs (os_a f) P s c w = P x s' c w'"
  by (simp add: runs_def os_a_def)

lemma runs_server_handshake_connect:
  fixes s :: "'a server_scheme" and cl :: "'b client_scheme" and g :: socks5_params
  defines "s1 \<equiv> s\<lparr>timeout := tcp_timeout g\<rparr>"
  assumes c: "chan_st (client_hello cl HEV_SOCKS5_REQ_CMD_CONNECT a) r out
      (length (server_grant (client_method cl) 0 (saddr_of sa))) c"
    and t: "tcp_timeout g \<noteq> 0" and wf: "saddr_wf a" "length (sin6_addr sa) = 16"
    and auth: "server_knows cl s1 s2"
    and res: "hev_socks5_addr_into_sockaddr6 rv (saddr_enc a) sa0 (family s) = Ret (0, sa, fam)"
    and con: "hev_socks5_server_connect g binder sa (s2\<lparr>family := fam\<rparr>) w = Ret (0, s3, w3)" "live s3"
    and post: "\<And>c'. chan_st [] r (out @ server_grant (client_method cl) 0 (saddr_of sa)) 0 c' \<Longrightarrow>
      P 0 (s3\<lparr>stype := TYPE_TCP\<rparr>) c' w3"
  shows "runs (hev_socks5_server_handshake g rv binder sa0) P s c w"
proof -
  have s1: "live s1" using t by (simp add: s1_def live_def)
  have s2: "live s2" "family s2 = family s"
    using server_knows_same [OF auth] t by (simp_all add: s1_def live_def)
  have s3: "live (s3\<lparr>stype := TYPE_TCP\<rparr>)" using con(2) by (simp add: live_def)
  let ?n = "length (server_grant (client_method cl) 0 (saddr_of sa))"
  let ?l = "3 + length (saddr_enc (saddr_of sa))"
  have hello: "client_hello cl 1 a = client_methods cl @ client_creds cl @ ([5, 1, 0] @ saddr_enc a @ [])"
    by (simp add: client_hello_def)
  have n: "?n = ?n - ?l + ?l" by (simp add: server_grant_def)
  show ?thesis
    unfolding hev_socks5_server_handshake_def runs_bind runs_upd hev_socks5_set_timeout_def
      s1_def [symmetric] runs_andthen
    apply (rule runs_server_auth [OF c hello n s1 auth])
    apply simp
    apply (erule runs_server_read_request [OF _ s2(1) wf(1), where cmd = 1 and x = 0 and b = "[]" and sa = sa
        and fam = fam])
      apply (use res s2 in simp_all)
    apply (simp add: server_command_def runs_os_a [where f = "hev_socks5_server_connect g binder sa", OF con(1)])
    apply (erule runs_server_write_response [OF _ s3 wf(2), of _ _ _ _ _ 0])
    using post by (simp_all add: server_grant_def)
qed

section \<open>Nobody is served unchecked\<close>

lemma server_method_cong: "obj s = obj t \<Longrightarrow> server_method s = server_method t"
  by (simp add: server_method_def)

lemma byte_count:
  fixes n :: byte
  assumes "0 < r \<Longrightarrow> r = int (length ms)" "length ms \<le> unat n" "r = uint n"
  shows "length ms = unat n" "of_nat (length ms) = n"
proof -
  show len: "length ms = unat n"
  proof (cases "0 < r")
    case True
    then show ?thesis using assms(1,3) by (simp add: unat_eq_nat_uint)
  next
    case False
    then have "uint n = 0" using assms(3) unsigned_greater_eq [of n, where 'a = int] by linarith
    then show ?thesis using assms(2) by (simp add: unat_eq_nat_uint)
  qed
  show "of_nat (length ms) = n" unfolding len by simp
qed

lemma ens_server_read_auth_method:
  assumes "\<And>x t c' ms. 0 \<le> x \<Longrightarrow> x = uint (server_method s) \<Longrightarrow>
      rest c = [5, of_nat (length ms)] @ ms @ rest c' \<Longrightarrow> server_method s \<in> set ms \<Longrightarrow>
      Q x (s\<lparr>timeout := t\<rparr>) c' w"
    and "\<And>x t c'. x < 0 \<Longrightarrow> Q x (s\<lparr>timeout := t\<rparr>) c' w"
  shows "ens hev_socks5_server_read_auth_method Q s c w"
  unfolding hev_socks5_server_read_auth_method_def ens_bind
proof (rule ens_recv, goal_cases)
  case (1 r b t c1)
  show ?case
  proof (cases "r = 2 \<and> b ! 0 = 5")
    case True
    then have b: "b = [5, b ! 1]" using 1 list2 [of b] by simp
    have "ens (recv_a (unat (b ! 1))) (\<lambda>x. ens (case x of (res, methods) \<Rightarrow>
         if res \<noteq> uint (b ! 1) then ret_a (- 1)
         else bind_a get_a (\<lambda>self.
           let method = (case obj self of NoObj \<Rightarrow> HEV_SOCKS5_AUTH_METHOD_NONE
                         | _ \<Rightarrow> HEV_SOCKS5_AUTH_METHOD_USER) in
           ret_a (if method \<in> set methods then uint method else - 1))) Q) (s\<lparr>timeout := t\<rparr>) c1 w"
    proof (rule ens_recv, goal_cases)
      case (1 r2 ms t2 c2)
      have len: "r2 = uint (b ! 1) \<Longrightarrow> of_nat (length ms) = b ! 1"
        by (rule byte_count(2) [OF 1(2,3)])
      have st: "r2 = uint (b ! 1) \<Longrightarrow> rest c = [5, of_nat (length ms)] @ ms @ rest c2"
        using b 1(1) \<open>rest c = b @ rest c1\<close> len by (metis append.assoc)
      show ?case
        using assms(1) [of "uint (server_method s)" ms c2 t2] assms(2) [of "- 1" t2 c2] st
        by (auto simp: Let_def server_method_def)
    qed
    then show ?thesis using True by simp
  next
    case False
    then show ?thesis using assms(2) by (auto split: if_splits)
  qed
qed

lemma ens_server_check_user:
  assumes "obj s = AuthObj get"
    and "\<And>usr. get u = Some usr \<Longrightarrow> user_pass usr = p \<Longrightarrow> Q 0 (s\<lparr>obj := UserObj usr\<rparr>) c w"
    and "Q (- 1) s c w"
  shows "ens (server_check_user u p) Q s c w"
proof -
  have "ens (auth_lookup u) R s c w" if "R (get u) s c w" for R
    using that assms(1) by (simp add: ens_def auth_lookup_def)
  then show ?thesis
    using assms(2,3)
    by (auto simp: server_check_user_def hev_socks5_user_checker_def split: option.splits)
qed

lemma ens_server_read_auth_user:
  assumes "obj s = AuthObj get"
    and ok: "\<And>t c' u usr. get u = Some usr \<Longrightarrow> rest c = creds_enc u (user_pass usr) @ rest c' \<Longrightarrow>
      Q 0 (s\<lparr>timeout := t, obj := UserObj usr\<rparr>) c' w"
    and bad: "\<And>t c'. Q (- 1) (s\<lparr>timeout := t\<rparr>) c' w"
  shows "ens hev_socks5_server_read_auth_user Q s c w"
  unfolding hev_socks5_server_read_auth_user_def ens_bind
proof (rule ens_recv, goal_cases)
  case (1 r b t c1)
  note c1 = 1(1)
  show ?case
  proof (cases "r = 2 \<and> b ! 0 = 1 \<and> b ! 1 \<noteq> 0")
    case True
    then obtain N where b: "b = [1, N]" using 1 list2 [of b] by auto
    let ?n = "unat N"
    have "ens (recv_a (?n + 1)) (\<lambda>x. ens (case x of (res, name) \<Rightarrow>
        if res \<noteq> uint N + 1 then ret_a (- 1)
        else let plen = name ! ?n in
          if plen = 0 then ret_a (- 1)
          else bind_a (recv_a (unat plen)) (\<lambda>(res, pass).
            if res \<noteq> uint plen then ret_a (- 1) else server_check_user (take ?n name) pass)) Q)
        (s\<lparr>timeout := t\<rparr>) c1 w"
    proof (rule ens_recv, goal_cases)
      case (1 r2 nm t2 c2)
      note c2 = 1(1)
      show ?case
      proof (cases "r2 = uint N + 1 \<and> nm ! ?n \<noteq> 0")
        case True
        have "0 < r2" using True unsigned_greater_eq [of N, where 'a = int] by linarith
        then have "int (length nm) = uint N + 1" using 1(2) True by linarith
        then have len: "length nm = ?n + 1" using uint_nat [of N] by linarith
        have nm: "nm = take ?n nm @ [nm ! ?n]"
          using len take_Suc_conv_app_nth [of ?n nm] by simp
        have "rest c1 = (take ?n nm @ [nm ! ?n]) @ rest c2"
          using c2 by (simp only: nm [symmetric])
        then have rc: "rest c = [1, of_nat (length (take ?n nm))] @ take ?n nm @ [nm ! ?n] @ rest c2"
          using c1 b len by simp
        have "ens (recv_a (unat (nm ! ?n))) (\<lambda>x. ens (case x of (res, pass) \<Rightarrow>
            if res \<noteq> uint (nm ! ?n) then ret_a (- 1) else server_check_user (take ?n nm) pass) Q)
            (s\<lparr>timeout := t2\<rparr>) c2 w"
        proof (rule ens_recv, goal_cases)
          case (1 r3 p t3 c3)
          have "ens (server_check_user (take ?n nm) p) Q (s\<lparr>timeout := t3\<rparr>) c3 w"
            if "r3 = uint (nm ! ?n)"
          proof (rule ens_server_check_user)
            fix usr assume u: "get (take ?n nm) = Some usr" "user_pass usr = p"
            have "rest c = creds_enc (take ?n nm) (user_pass usr) @ rest c3"
              using rc 1(1) u(2) byte_count(2) [OF 1(2,3) that] by (simp add: creds_enc_def)
            from ok [OF u(1) this, of t3]
            show "Q 0 (s\<lparr>timeout := t3, obj := UserObj usr\<rparr>) c3 w" .
          qed (use assms(1) bad in simp_all)
          then show ?case using bad by simp
        qed
        then show ?thesis using True by (simp add: Let_def)
      next
        case False
        then show ?thesis using bad by (auto simp: Let_def)
      qed
    qed
    then show ?thesis using True b by (simp add: Let_def)
  next
    case False
    then show ?thesis using bad by (auto simp: Let_def)
  qed
qed

text \<open>The input starts with a method list and the credentials of the user \<open>usr\<close>.\<close>

definition checked :: "(byte list \<Rightarrow> user option) \<Rightarrow> user \<Rightarrow> byte list \<Rightarrow> bool" where
  "checked get usr i \<longleftrightarrow> (\<exists>ms u z. get u = Some usr \<and>
     i = [5, of_nat (length ms)] @ ms @ creds_enc u (user_pass usr) @ z)"

lemma ens_server_auth:
  assumes "obj s = AuthObj get"
  shows "ens hev_socks5_server_auth (\<lambda>x s' c' w'. 0 \<le> x \<longrightarrow>
    (\<exists>usr. obj s' = UserObj usr \<and> checked get usr (rest c))) s c w"
  unfolding hev_socks5_server_auth_def ens_bind
proof (rule ens_server_read_auth_method, goal_cases)
  case (1 x t c1 ms)
  have x: "x = 2" using 1(2) assms by (simp add: server_method_def)
  have "ens hev_socks5_server_read_auth_user (\<lambda>res. ens (bind_a (hev_socks5_server_write_auth_user res)
      (\<lambda>res'. if res OR res' < 0 then ret_a (- 1) else ret_a 0))
      (\<lambda>x s' c' w'. 0 \<le> (x :: int) \<longrightarrow> (\<exists>usr. obj s' = UserObj usr \<and> checked get usr (rest c)))) s2 c2 w"
    if s2: "obj s2 = AuthObj get" and c2: "rest c2 = rest c1" for s2 :: "'a server_scheme" and c2
  proof (rule ens_server_read_auth_user [OF s2], goal_cases)
    case (1 t c' u usr)
    then have "checked get usr (rest c)"
      using c2 \<open>rest c = [5, of_nat (length ms)] @ ms @ rest c1\<close> unfolding checked_def
      by (metis append.assoc)
    then show ?case
      by (auto simp: hev_socks5_server_write_auth_user_def intro!: ens_send)
  next
    case (2 t c')
    then show ?case
      by (auto simp: hev_socks5_server_write_auth_user_def intro!: ens_send)
  qed
  then show ?case using x assms
    by (auto simp: hev_socks5_server_write_auth_method_def intro!: ens_send)
next
  case (2 x t c')
  then show ?case by (auto simp: hev_socks5_server_write_auth_method_def intro!: ens_send)
qed

lemma server_connect_obj:
  assumes "hev_socks5_server_connect g binder sa s w = Ret (x, s', w')"
  shows "obj s' = obj s"
proof -
  have "obj s1 = obj (hev_socks5_set_timeout s (connect_timeout g))"
    if "hev_task_io_socket_connect (Some hev_socks5_task_io_yielder)
      (hev_socks5_set_timeout s (connect_timeout g)) evs = Ret (y, s1, evs')" for y s1 evs evs'
    by (rule connect_keeps_rest [OF _ that]) (simp add: keeps_rest_def)
  then show ?thesis using assms
    by (auto simp: hev_socks5_server_connect_def bind_o_Ret_iff Let_def hev_socks5_set_timeout_def
        split: if_splits)
qed

lemma server_bind_obj:
  "hev_socks5_server_bind a s w = Ret (x, s', w') \<Longrightarrow> obj s' = obj s"
  by (auto simp: hev_socks5_server_bind_def bind_o_Ret_iff Let_def split: if_splits option.splits prod.splits)

lemma ens_os_a:
  "(\<And>x s' w'. f s w = Ret (x, s', w') \<Longrightarrow> Q x s' c w') \<Longrightarrow> ens (os_a f) Q s c w"
  by (auto simp: ens_def os_a_def bind_o_Ret_iff)

lemma ens_server_command: "ens (server_command g binder cmd sa) (\<lambda>x s' c' w'. obj s' = obj s) s c w"
  unfolding server_command_def
  by (auto intro!: ens_os_a dest: server_connect_obj server_bind_obj)

lemma ens_server_read_request:
  "ens (hev_socks5_server_read_request rv sa) (\<lambda>x s' c' w'. obj s' = obj s) s c w"
  unfolding hev_socks5_server_read_request_def
  by (auto intro!: ens_recv simp: ens_lift hev_socks5_set_addr_family_def split: option.splits)

lemma ens_server_write_response:
  "ens (hev_socks5_server_write_response rep sa) (\<lambda>x s' c' w'. obj s' = obj s) s c w"
  unfolding hev_socks5_server_write_response_def
  by (auto intro!: ens_send simp: ens_lift)

section \<open>Descriptors of a server\<close>

definition server_fds :: "'a server_scheme \<Rightarrow> fd \<times> fd \<times> fd" where
  "server_fds s = (sfd s, fds0 s, fds1 s)"

lemma server_fds_simps [simp]:
  "server_fds (s\<lparr>timeout := t\<rparr>) = server_fds s"
  "server_fds (s\<lparr>obj := x\<rparr>) = server_fds s"
  "server_fds (s\<lparr>family := f\<rparr>) = server_fds s"
  "server_fds (s\<lparr>stype := y\<rparr>) = server_fds s"
  by (simp_all add: server_fds_def)

lemma ens_auth_lookup:
  "(\<And>u. Q u s c w) \<Longrightarrow> ens (auth_lookup n) Q s c w"
  by (auto simp: ens_def auth_lookup_def split: server_obj.splits)

lemma server_auth_fds:
  "ens hev_socks5_server_auth (\<lambda>x s' c' w'. server_fds s' = server_fds s \<and> w' = w) s c w"
proof -
  have u: "ens hev_socks5_server_read_auth_user (\<lambda>x s' c' w'. server_fds s' = server_fds s \<and> w' = w) s c w"
    for s :: "'a server_scheme" and c
    unfolding hev_socks5_server_read_auth_user_def
    by (auto intro!: ens_recv ens_auth_lookup simp: server_check_user_def Let_def split: option.splits)
  have m: "ens hev_socks5_server_read_auth_method (\<lambda>x s' c' w'. server_fds s' = server_fds s \<and> w' = w) s c w"
    unfolding hev_socks5_server_read_auth_method_def
    by (auto intro!: ens_recv simp: Let_def)
  show ?thesis
    unfolding hev_socks5_server_auth_def ens_bind
    by (rule ens_conseq [OF m])
      (auto intro!: ens_send ens_conseq [OF u] simp: hev_socks5_server_write_auth_method_def
        hev_socks5_server_write_auth_user_def)
qed

lemma server_read_request_fds:
  "ens (hev_socks5_server_read_request rv sa) (\<lambda>x s' c' w'. server_fds s' = server_fds s \<and> w' = w) s c w"
  unfolding hev_socks5_server_read_request_def
  by (auto intro!: ens_recv simp: ens_lift hev_socks5_set_addr_family_def split: option.splits)

lemma server_write_response_fds:
  "ens (hev_socks5_server_write_response rep sa) (\<lambda>x s' c' w'. server_fds s' = server_fds s \<and> w' = w) s c w"
  unfolding hev_socks5_server_write_response_def
  by (auto intro!: ens_send simp: ens_lift)

text \<open>What the object owns beyond the descriptors \<open>A\<close> that were open before.\<close>

definition owns :: "fd set \<Rightarrow> fd \<Rightarrow> fd \<times> fd \<times> fd \<Rightarrow> fd set \<Rightarrow> bool" where
  "owns A f0 fs B \<longleftrightarrow> (case fs of (f, a, b) \<Rightarrow> f = f0 \<and>
     B = A \<union> (if 0 \<le> a then {a} else {}) \<union> (if 0 \<le> b then {b} else {}) \<and> (0 \<le> a \<longrightarrow> a \<notin> A) \<and> (0 \<le> b \<longrightarrow> b \<notin> A))"

lemma server_connect_owns:
  assumes "hev_socks5_server_connect g binder sa s w = Ret (x, s', w')" "fresh_fds w"
    and "fds0 s = - 1" "fds1 s = - 1"
  shows "owns (open_fds w) (sfd s) (server_fds s') (open_fds w')"
proof -
  obtain fd w1 where sk: "hev_socks5_socket w = Ret (fd, w1)"
    using assms(1) by (auto simp: hev_socks5_server_connect_def bind_o_Ret_iff)
  have "server_fds s1 = server_fds (hev_socks5_set_timeout s (connect_timeout g))"
    if "hev_task_io_socket_connect (Some hev_socks5_task_io_yielder)
      (hev_socks5_set_timeout s (connect_timeout g)) evs = Ret (y, s1, evs')" for y s1 evs evs'
    by (rule connect_keeps_rest [OF _ that]) (simp add: keeps_rest_def)
  note con = this and s1 = socket_Ret(2) [OF sk assms(2)]
  have own: "owns (open_fds w) (sfd s) (server_fds s) (open_fds w)"
    using assms(3,4) by (simp add: owns_def server_fds_def)
  show ?thesis
  proof (cases "fd < 0 \<or> binder s fd sa < 0")
    case True
    then have "s' = s" "open_fds w' = open_fds w"
      using assms(1) sk s1 by (auto simp: hev_socks5_server_connect_def split: if_splits)
    then show ?thesis using own by simp
  next
    case False
    then obtain y s2 evs where c: "hev_task_io_socket_connect (Some hev_socks5_task_io_yielder)
        (hev_socks5_set_timeout s (connect_timeout g)) (conn_evs w1) = Ret (y, s2, evs)"
      and r: "(if y < 0 then Ret (- 1, s2, close_fd fd (w1\<lparr>conn_evs := evs\<rparr>))
        else Ret (0, (hev_socks5_set_timeout s2 (tcp_timeout g))\<lparr>fds0 := fd\<rparr>, w1\<lparr>conn_evs := evs\<rparr>))
        = Ret (x, s', w')"
      using assms(1) sk by (auto simp: hev_socks5_server_connect_def bind_o_Ret_iff Let_def)
    have "server_fds s2 = server_fds s" using con [OF c] by (simp add: hev_socks5_set_timeout_def)
    then show ?thesis using r own s1 False
      by (cases "y < 0") (auto simp: owns_def server_fds_def hev_socks5_set_timeout_def)
  qed
qed

lemma udp_bind_os: "hev_socks5_server_udp_bind s fd a w = (x, a', w') \<Longrightarrow> open_fds w' = open_fds w"
  by (auto simp: hev_socks5_server_udp_bind_def Let_def split: option.splits)

lemma server_bind_owns:
  assumes "hev_socks5_server_bind a s w = Ret (x, s', w')" "fresh_fds w" "fds0 s = - 1" "fds1 s = - 1"
  shows "owns (open_fds w) (sfd s) (server_fds s') (open_fds w')"
proof -
  obtain fd w1 where sk: "hev_socks5_socket w = Ret (fd, w1)"
    using assms(1) by (auto simp: hev_socks5_server_bind_def bind_o_Ret_iff)
  note s1 = socket_Ret [OF sk assms(2)]
  consider "fd < 0" | "0 \<le> fd" "a = None" | aa where "0 \<le> fd" "a = Some aa" by fastforce
  then show ?thesis
  proof cases
    case 1
    then have "s' = s" "open_fds w' = open_fds w"
      using assms(1) sk s1 by (auto simp: hev_socks5_server_bind_def)
    then show ?thesis using assms(3,4) by (simp add: owns_def server_fds_def)
  next
    case 2
    then have "s' = s\<lparr>fds0 := fd\<rparr>" "w' = w1"
      using assms(1) sk by (auto simp: hev_socks5_server_bind_def Let_def)
    then show ?thesis using assms(3,4) s1 2 by (auto simp: owns_def server_fds_def)
  next
    case 3
    then obtain fd2 w2 where sk2: "hev_socks5_socket w1 = Ret (fd2, w2)"
      and k: "(if fd2 < 0 then Ret ((- 1, a), s\<lparr>fds0 := fd\<rparr>, w2)
        else if \<not> reuse_ok w2 then Ret ((- 1, a), s\<lparr>fds0 := fd\<rparr>, close_fd fd2 w2)
        else case hev_socks5_server_udp_bind (s\<lparr>fds0 := fd\<rparr>) fd2 aa w2 of (res, aa, w) \<Rightarrow>
          if res < 0 then Ret ((- 1, Some aa), s\<lparr>fds0 := fd\<rparr>, close_fd fd2 w)
          else Ret ((0, Some aa), s\<lparr>fds0 := fd, fds1 := fd2\<rparr>, w)) = Ret (x, s', w')"
      using assms(1) sk by (auto simp: hev_socks5_server_bind_def bind_o_Ret_iff Let_def)
    note s2 = socket_Ret(2) [OF sk2 s1(1)]
    obtain q qa qw where ub: "hev_socks5_server_udp_bind (s\<lparr>fds0 := fd\<rparr>) fd2 aa w2 = (q, qa, qw)"
      by (metis prod_cases3)
    note uo = udp_bind_os [OF ub]
    consider "s' = s\<lparr>fds0 := fd\<rparr>" "open_fds w' = open_fds w1"
      | "s' = s\<lparr>fds0 := fd, fds1 := fd2\<rparr>" "open_fds w' = open_fds w2" "0 \<le> fd2"
      using k s2 ub uo by (auto split: if_splits)
    then show ?thesis using 3 s1(2) s2 assms(3,4)
      by cases (auto simp: owns_def server_fds_def)
  qed
qed

lemma owns_start:
  "fds0 s = - 1 \<Longrightarrow> fds1 s = - 1 \<Longrightarrow> owns A (sfd s) (server_fds s) A"
  by (simp add: owns_def server_fds_def)

lemma server_command_owns:
  assumes "fresh_fds w" "fds0 s = - 1" "fds1 s = - 1"
  shows "ens (server_command g binder cmd sa)
    (\<lambda>x s' c' w'. owns (open_fds w) (sfd s) (server_fds s') (open_fds w')) s c w"
  unfolding server_command_def using assms
  by (auto intro!: ens_os_a dest: server_connect_owns server_bind_owns simp: owns_start)

section \<open>Properties\<close>

text \<open>A server with one user, and the hello of a client cut in two.\<close>

definition demo_server :: server where
  "demo_server = \<lparr>sfd = 3, timeout = - 1, udp_associated = 0, stype = TYPE_NONE, family = FAMILY_UNSPEC,
     fds0 = - 1, fds1 = - 1,
     obj = AuthObj (\<lambda>u. if u = [117] then Some \<lparr>user_name = [117], user_pass = [112]\<rparr> else None)\<rparr>"

definition demo_server_chan :: chan where
  "demo_server_chan = \<lparr>rxs = [RxData [5, 1, 2, 1], RxAgain (Nap 5 False),
       RxData [1, 117, 1, 112, 5, 1, 0, 3, 1, 97, 0, 80]],
     txs = [TxTake 100], wire = [], wr_shut = False, errno_of = E_NONE\<rparr>"

lemma demo_server_returns:
  "case hev_socks5_server_handshake socks5_default_params demo_resolver (\<lambda>s f a. 0) sockaddr6_zero
      demo_server demo_server_chan demo_os of
     Ret (x, s, c, w) \<Rightarrow> x = 0 \<and> fds0 s = 5 \<and> wire c = [5, 2, 1, 0, 5, 0, 0, 1, 10, 0, 0, 7, 0, 80]
   | _ \<Rightarrow> False"
  by code_simp

lemma server_handshake_checked:
  assumes "hev_socks5_server_handshake g rv binder sa0 s c w = Ret (x, s', c', w')" "0 \<le> x"
    and "obj s = AuthObj get"
  shows "\<exists>usr. obj s' = UserObj usr \<and> checked get usr (rx_stream (rxs c))"
proof -
  let ?Q = "\<lambda>s'. \<exists>usr. obj s' = UserObj usr \<and> checked get usr (rx_stream (rxs c))"
  have tail: "ens (bind_a (hev_socks5_server_read_request rv sa0) (\<lambda>(res, cmd, rep, addr).
        if res < 0 then ret_a (- 1)
        else bind_a (if rep = HEV_SOCKS5_RES_REP_SUCC then server_command g binder cmd addr
                     else ret_a (rep, addr)) (\<lambda>(rep, addr).
          bind_a (hev_socks5_server_write_response rep addr) (\<lambda>res.
            if res < 0 \<or> rep \<noteq> HEV_SOCKS5_RES_REP_SUCC then ret_a (- 1) else ret_a 0))))
      (\<lambda>x s' c' w'. 0 \<le> (x :: int) \<longrightarrow> ?Q s') s1 c1 w1" if "?Q s1" for s1 :: "'a server_scheme" and c1 w1
    unfolding ens_bind
    by (rule ens_conseq [OF ens_server_read_request])
      (auto simp: that split: prod.splits intro!: ens_conseq [OF ens_server_command]
        ens_conseq [OF ens_server_write_response])
  have "ens (hev_socks5_server_handshake g rv binder sa0) (\<lambda>x s' c' w'. 0 \<le> x \<longrightarrow> ?Q s') s c w"
    unfolding hev_socks5_server_handshake_def ens_bind ens_upd ens_andthen
    by (rule ens_conseq [OF ens_server_auth [of _ get]])
      (use assms(3) tail [unfolded ens_bind] in \<open>auto simp: hev_socks5_set_timeout_def\<close>)
  from ensD [OF this assms(1)] assms(2) show ?thesis by simp
qed

text \<open>C4. A server with an authenticator completes a handshake only for a client that presented,
  in its input, the name and the password of a user the authenticator knows; the server object
  then holds that user. This is so whatever the network, the resolver and the kernel do.\<close>

theorem server_never_serves_unchecked:
  assumes "hev_socks5_server_handshake g rv binder sa0 s c w = Ret (x, s', c', w')" "0 \<le> x"
    and "obj s = AuthObj get"
  shows "\<exists>usr. obj s' = UserObj usr \<and> checked get usr (rx_stream (rxs c))"
  by (rule server_handshake_checked [OF assms])

theorem server_never_serves_unchecked_witness:
  "\<exists>usr s' c' w' get. hev_socks5_server_handshake socks5_default_params demo_resolver (\<lambda>s f a. 0)
      sockaddr6_zero demo_server demo_server_chan demo_os = Ret (0, s', c', w') \<and>
    obj demo_server = AuthObj get \<and> obj s' = UserObj usr \<and>
    checked get usr (rx_stream (rxs demo_server_chan))"
proof -
  obtain s' c' w' where r: "hev_socks5_server_handshake socks5_default_params demo_resolver
      (\<lambda>s f a. 0) sockaddr6_zero demo_server demo_server_chan demo_os = Ret (0, s', c', w')"
    using demo_server_returns by (auto split: outcome.splits prod.splits)
  obtain get where "obj demo_server = AuthObj get" by (simp add: demo_server_def)
  with server_never_serves_unchecked [OF r _ this] r show ?thesis by auto
qed

text \<open>C23. However a handshake ends, destroying the server object closes exactly the descriptors it
  opened, and its client connection: no descriptor leaks and no foreign one is closed.\<close>

theorem server_descriptors:
  assumes "hev_socks5_server_handshake g rv binder sa0 s c w = Ret (x, s', c', w')"
    and "fresh_fds w" "fds0 s = - 1" "fds1 s = - 1" "0 \<le> sfd s"
  shows "open_fds (hev_socks5_server_destruct s' w') = open_fds w - {sfd s}"
proof -
  let ?Q = "\<lambda>s' w'. owns (open_fds w) (sfd s) (server_fds s') (open_fds w')"
  have start: "server_fds s1 = server_fds s \<Longrightarrow> ?Q s1 w \<and> fds0 s1 = - 1 \<and> fds1 s1 = - 1 \<and> sfd s1 = sfd s"
    for s1 :: "'a server_scheme"
    using assms owns_start [of s "open_fds w"] by (auto simp: server_fds_def)
  have "ens (hev_socks5_server_handshake g rv binder sa0) (\<lambda>x s' c' w'. ?Q s' w') s c w"
    unfolding hev_socks5_server_handshake_def ens_bind ens_upd ens_andthen
  proof (rule ens_conseq [OF server_auth_fds], goal_cases)
    case (1 x1 s1 c1 w1)
    then have s1: "server_fds s1 = server_fds s" "w1 = w" by (simp_all add: hev_socks5_set_timeout_def)
    have "ens (hev_socks5_server_read_request rv sa0) (\<lambda>y. ens (case y of (res, cmd, rep, addr) \<Rightarrow>
        if res < 0 then ret_a (- 1)
        else bind_a (if rep = HEV_SOCKS5_RES_REP_SUCC then server_command g binder cmd addr
                     else ret_a (rep, addr)) (\<lambda>(rep, addr).
          bind_a (hev_socks5_server_write_response rep addr) (\<lambda>res.
            if res < 0 \<or> rep \<noteq> HEV_SOCKS5_RES_REP_SUCC then ret_a (- 1) else ret_a 0)))
        (\<lambda>(x :: int) s' c' w'. ?Q s' w')) s1 c1 w"
    proof (rule ens_conseq [OF server_read_request_fds], goal_cases)
      case (1 y s2 c2 w2)
      then have "server_fds s2 = server_fds s" "w2 = w" using s1(1) by auto
      then have s2: "?Q s2 w" "fds0 s2 = - 1" "fds1 s2 = - 1" "sfd s2 = sfd s" "w2 = w"
        using start [of s2] by blast+
      obtain res cmd rep addr where y: "y = (res, cmd, rep, addr)" by (metis prod_cases4)
      have respond: "ens (hev_socks5_server_write_response rp ad) (\<lambda>res. ens
          (if res < 0 \<or> rp \<noteq> HEV_SOCKS5_RES_REP_SUCC then ret_a (- 1) else ret_a 0)
          (\<lambda>(x :: int) s' c' w'. ?Q s' w')) s3 c3 w3" if "?Q s3 w3"
        for s3 :: "'a server_scheme" and c3 w3 rp ad
        by (rule ens_conseq [OF server_write_response_fds]) (use that in auto)
      have "ens (server_command g binder cmd addr) (\<lambda>x. ens (case x of (rep, addr) \<Rightarrow>
          bind_a (hev_socks5_server_write_response rep addr) (\<lambda>res.
            if res < 0 \<or> rep \<noteq> HEV_SOCKS5_RES_REP_SUCC then ret_a (- 1) else ret_a 0))
          (\<lambda>(x :: int) s' c' w'. ?Q s' w')) s2 c2 w"
        by (rule ens_conseq [OF server_command_owns [OF assms(2) s2(2,3)]])
          (use respond s2(4) in \<open>auto split: prod.splits\<close>)
      then show ?case using y s2(1,5) respond [OF s2(1), of rep addr c2]
        by (cases "res < 0"; cases "rep = 0") simp_all
    qed
    then show ?case using s1 start [OF s1(1)] by simp
  qed
  from ensD [OF this assms(1)] have "?Q s' w'" .
  then show ?thesis using assms(5)
    by (auto simp: owns_def server_fds_def hev_socks5_server_destruct_def hev_socks5_destruct_def Let_def)
qed

theorem server_descriptors_witness:
  "\<exists>s' c' w'. hev_socks5_server_handshake socks5_default_params demo_resolver (\<lambda>s f a. 0)
      sockaddr6_zero demo_server demo_server_chan demo_os = Ret (0, s', c', w') \<and>
    open_fds (hev_socks5_server_destruct s' w') = {}"
proof -
  obtain s' c' w' where r: "hev_socks5_server_handshake socks5_default_params demo_resolver
      (\<lambda>s f a. 0) sockaddr6_zero demo_server demo_server_chan demo_os = Ret (0, s', c', w')"
    using demo_server_returns by (auto split: outcome.splits prod.splits)
  show ?thesis using server_descriptors [OF r] r
    by (simp add: demo_os_def demo_server_def fresh_fds_def)
qed

end
