(* ===== verification/Splice.thy ===== *)
theory Splice
  imports SockIO
begin

text \<open>
  The socket-to-socket splice of \<open>lib/io/basic/hev-task-io.c\<close> (the variant without the
  \<open>splice\<close> system call) and its use by \<open>src/core/src/hev-socks5-tcp.c\<close>. The two directions
  have a circular buffer each. A call that would block is visible as \<open>EAGAIN\<close>; the loop
  sleeps once per round, so it is a recursion on the sleeps.
\<close>

section \<open>Non-blocking vector calls\<close>

text \<open>Nothing arrived and no room both read as \<open>EAGAIN\<close>.\<close>

definition readv_nb :: "nat \<Rightarrow> chan \<Rightarrow> byte list sysr \<times> chan" where
  "readv_nb n c =
     (case sys_recv n (rxs c) of
        None \<Rightarrow> (SAgain (Nap 0 False), c)
      | Some (r, evs) \<Rightarrow> (r, c\<lparr>rxs := evs\<rparr>))"

definition writev_nb :: "byte list \<Rightarrow> chan \<Rightarrow> byte list sysr \<times> chan" where
  "writev_nb bs c =
     (case sys_send bs (txs c) of
        None \<Rightarrow> (SAgain (Nap 0 False), c)
      | Some (r, evs) \<Rightarrow>
          (r, c\<lparr>txs := evs, wire := wire c @ (case r of SOk d \<Rightarrow> d | _ \<Rightarrow> [])\<rparr>))"

section \<open>One direction\<close>

definition task_io_splicer_init :: "size_t \<Rightarrow> byte list option \<Rightarrow> int \<times> circ option" where
  "task_io_splicer_init buf_size mem =
     (case hev_circular_buffer_new buf_size mem of None \<Rightarrow> (- 1, None) | Some b \<Rightarrow> (0, Some b))"

definition task_io_splicer_fini :: "circ option \<Rightarrow> circ option" where
  "task_io_splicer_fini buf =
     (case buf of None \<Rightarrow> None | Some b \<Rightarrow> hev_circular_buffer_unref b)"

definition splice_in :: "circ \<Rightarrow> chan \<Rightarrow> int \<times> circ \<times> chan" where
  "splice_in buf cin =
     (case hev_circular_buffer_writing buf of
        [] \<Rightarrow> (1, buf, cin)
      | iov \<Rightarrow>
          (case readv_nb (iov_space iov) cin of
             (SAgain p, cin') \<Rightarrow> (0, buf, cin')
           | (SErr, cin') \<Rightarrow> (- 1, buf, cin')
           | (SOk d, cin') \<Rightarrow>
               if d = [] then (- 1, buf, cin')
               else (1, hev_circular_buffer_write_finish (of_nat (length d))
                      (buf\<lparr>cdata := iov_scatter iov d (cdata buf)\<rparr>), cin')))"

definition splice_out :: "int \<Rightarrow> circ \<Rightarrow> chan \<Rightarrow> int \<times> circ \<times> chan" where
  "splice_out res buf cout =
     (case hev_circular_buffer_reading buf of
        [] \<Rightarrow> if res < 0 then (res, buf, cout\<lparr>wr_shut := True\<rparr>) else (res, buf, cout)
      | iov \<Rightarrow>
          (case writev_nb (iov_gather iov (cdata buf)) cout of
             (SAgain p, cout') \<Rightarrow> (0, buf, cout')
           | (SErr, cout') \<Rightarrow> (- 1, buf, cout')
           | (SOk d, cout') \<Rightarrow>
               if d = [] then (- 1, buf, cout')
               else (1, hev_circular_buffer_read_finish (of_nat (length d)) buf, cout')))"

definition task_io_splice :: "circ \<Rightarrow> chan \<Rightarrow> chan \<Rightarrow> int \<times> circ \<times> chan \<times> chan" where
  "task_io_splice self fd_in fd_out =
     (case splice_in self fd_in of (res, buf, cin) \<Rightarrow>
      case splice_out res buf fd_out of (res', buf', cout) \<Rightarrow> (res', buf', cin, cout))"

section \<open>Both directions\<close>

text \<open>\<open>fd_a\<close> and \<open>fd_b\<close> are used in both directions, as the TCP splicer does. A direction that
  has ended is not tried again.\<close>

definition splice_round :: "int \<Rightarrow> circ \<Rightarrow> chan \<Rightarrow> chan \<Rightarrow> int \<times> circ \<times> chan \<times> chan" where
  "splice_round res buf cin cout =
     (if res \<ge> 0 then task_io_splice buf cin cout else (res, buf, cin, cout))"

fun splice_loop :: "'s yielder option \<Rightarrow> nap list \<Rightarrow> int \<Rightarrow> int \<Rightarrow> circ \<Rightarrow> circ \<Rightarrow> 's \<Rightarrow> chan \<Rightarrow> chan \<Rightarrow>
    (circ \<times> circ \<times> 's \<times> chan \<times> chan) outcome" where
  "splice_loop y naps res_f res_b f b s ca cb =
     (case splice_round res_f f ca cb of (rf, f', ca1, cb1) \<Rightarrow>
      case splice_round res_b b cb1 ca1 of (rb, b', cb2, ca2) \<Rightarrow>
      case (if rf > 0 \<or> rb > 0 then Some HEV_TASK_YIELD
            else if rf AND rb = 0 then Some HEV_TASK_WAITIO else None) of
        None \<Rightarrow> Ret (f', b', s, ca2, cb2)
      | Some type \<Rightarrow>
          (case naps of
             [] \<Rightarrow> Wait
           | p # ps \<Rightarrow>
               (case (case y of None \<Rightarrow> (0, s) | Some g \<Rightarrow> g type p s) of (r, s') \<Rightarrow>
                  if r \<noteq> 0 then Ret (f', b', s', ca2, cb2)
                  else splice_loop y ps rf rb f' b' s' ca2 cb2)))"

declare splice_loop.simps [simp del]

definition hev_task_io_splice :: "size_t \<Rightarrow> byte list option \<Rightarrow> byte list option \<Rightarrow>
    's yielder option \<Rightarrow> nap list \<Rightarrow> 's \<Rightarrow> chan \<Rightarrow> chan \<Rightarrow> ('s \<times> chan \<times> chan) outcome" where
  "hev_task_io_splice buf_size mem_f mem_b y naps s ca cb =
     (case task_io_splicer_init buf_size mem_f of
        (_, None) \<Rightarrow> Ret (s, ca, cb)
      | (_, Some f) \<Rightarrow>
          (case task_io_splicer_init buf_size mem_b of
             (_, None) \<Rightarrow> Ret (s, ca, cb)
           | (_, Some b) \<Rightarrow>
               bind_o (splice_loop y naps 1 1 f b s ca cb)
                 (\<lambda>(f', b', s', ca', cb'). Ret (s', ca', cb'))))"

section \<open>What one direction does to the streams\<close>

text \<open>\<open>moved f ci co f' ci' co'\<close>: bytes went from the channel \<open>ci\<close> through the buffer to the
  channel \<open>co\<close> in order, those still in the buffer excepted.\<close>

definition moved :: "circ \<Rightarrow> chan \<Rightarrow> chan \<Rightarrow> circ \<Rightarrow> chan \<Rightarrow> chan \<Rightarrow> bool" where
  "moved f ci co f' ci' co' \<longleftrightarrow>
     circ_inv f' \<and> cmax_size f' = cmax_size f \<and>
     (\<exists>i. rx_stream (rxs ci) = i @ rx_stream (rxs ci') \<and>
        (\<exists>x. wire co' = wire co @ x \<and> circ_used f @ i = x @ circ_used f'))"

text \<open>The write side is shut down only by a direction that has ended with an empty buffer.\<close>

definition shut_ok :: "bool \<Rightarrow> int \<Rightarrow> circ \<Rightarrow> chan \<Rightarrow> bool" where
  "shut_ok was r f co \<longleftrightarrow> (wr_shut co \<longrightarrow> was \<or> r < 0 \<and> circ_used f = [])"

lemma moved_refl: "circ_inv f \<Longrightarrow> moved f ci co f ci co"
  by (simp add: moved_def)

lemma readv_nb_stream:
  assumes "readv_nb n c = (r, c')"
  shows "rx_stream (rxs c) = (case r of SOk d \<Rightarrow> d | _ \<Rightarrow> []) @ rx_stream (rxs c')"
    "r = SOk d \<Longrightarrow> length d \<le> n" "c' = c\<lparr>rxs := rxs c'\<rparr>"
  using assms sys_recv_stream [of n "rxs c"]
  by (auto simp: readv_nb_def split: option.splits)

lemma writev_nb_wire:
  assumes "writev_nb bs c = (r, c')"
  shows "wire c' = wire c @ (case r of SOk d \<Rightarrow> d | _ \<Rightarrow> [])"
    "r = SOk d \<Longrightarrow> \<exists>z. bs = d @ z" "rxs c' = rxs c" "wr_shut c' = wr_shut c"
  using assms sys_send_prefix [of bs "txs c"]
  by (auto simp: writev_nb_def split: option.splits)

lemma splice_in_stream:
  assumes "circ_inv f" "splice_in f ci = (r, f', ci')"
  shows "circ_inv f'" "cmax_size f' = cmax_size f" "ci' = ci\<lparr>rxs := rxs ci'\<rparr>"
    "\<exists>i. rx_stream (rxs ci) = i @ rx_stream (rxs ci') \<and> circ_used f' = circ_used f @ i"
proof -
  have "circ_inv f' \<and> cmax_size f' = cmax_size f \<and> ci' = ci\<lparr>rxs := rxs ci'\<rparr> \<and>
    (\<exists>i. rx_stream (rxs ci) = i @ rx_stream (rxs ci') \<and> circ_used f' = circ_used f @ i)"
  proof (cases "hev_circular_buffer_writing f")
    case Nil
    then show ?thesis using assms by (simp add: splice_in_def)
  next
    case (Cons v vs)
    obtain x c1 where rd: "readv_nb (iov_space (hev_circular_buffer_writing f)) ci = (x, c1)"
      by fastforce
    note st = readv_nb_stream [OF rd]
    show ?thesis
    proof (cases x)
      case (SOk d)
      have le: "length d \<le> circ_room f"
        using st(2) [OF SOk] circ_room_writing(1) [OF assms(1)] by simp
      have fill: "circ_fill d f = hev_circular_buffer_write_finish (of_nat (length d))
          (f\<lparr>cdata := iov_scatter (v # vs) d (cdata f)\<rparr>)" using Cons by (simp add: circ_fill_def)
      have "cmax_size (circ_fill d f) = cmax_size f"
        by (simp add: circ_fill_def hev_circular_buffer_write_finish_def)
      then show ?thesis
        using assms Cons rd SOk st cb.push_inv [OF assms(1) le] cb.push_peek [OF assms(1) le]
        by (auto simp: splice_in_def fill split: if_splits)
    qed (use assms Cons rd st in \<open>auto simp: splice_in_def\<close>)
  qed
  then show "circ_inv f'" "cmax_size f' = cmax_size f" "ci' = ci\<lparr>rxs := rxs ci'\<rparr>"
    "\<exists>i. rx_stream (rxs ci) = i @ rx_stream (rxs ci') \<and> circ_used f' = circ_used f @ i"
    by blast+
qed

lemma splice_out_wire:
  assumes "circ_inv f" "splice_out r f co = (r', f', co')"
  shows "circ_inv f'" "cmax_size f' = cmax_size f" "rxs co' = rxs co"
    "\<exists>x. wire co' = wire co @ x \<and> circ_used f = x @ circ_used f'"
    "wr_shut co' \<Longrightarrow> wr_shut co \<or> r' < 0 \<and> circ_used f' = []"
proof -
  note g = circ_reading_gather [OF assms(1)]
  have "circ_inv f' \<and> cmax_size f' = cmax_size f \<and> rxs co' = rxs co \<and>
    (\<exists>x. wire co' = wire co @ x \<and> circ_used f = x @ circ_used f') \<and>
    (wr_shut co' \<longrightarrow> wr_shut co \<or> r' < 0 \<and> circ_used f' = [])"
  proof (cases "hev_circular_buffer_reading f")
    case Nil
    then show ?thesis using assms g by (auto simp: splice_out_def split: if_splits)
  next
    case (Cons v vs)
    obtain x c1 where wr: "writev_nb (circ_used f) co = (x, c1)" by fastforce
    note st = writev_nb_wire [OF wr]
    show ?thesis
    proof (cases x)
      case (SOk d)
      obtain z where z: "circ_used f = d @ z" using st(2) [OF SOk] by blast
      then have le: "length d \<le> length (circ_used f)" by simp
      have "cmax_size (hev_circular_buffer_read_finish (of_nat (length d)) f) = cmax_size f"
        by (simp add: hev_circular_buffer_read_finish_def)
      then show ?thesis
        using assms Cons wr SOk st z g cb.pop_inv [OF assms(1) le] cb.pop_peek [OF assms(1) le]
        by (auto simp: splice_out_def split: if_splits)
    qed (use assms Cons wr st g in \<open>auto simp: splice_out_def\<close>)
  qed
  then show "circ_inv f'" "cmax_size f' = cmax_size f" "rxs co' = rxs co"
    "\<exists>x. wire co' = wire co @ x \<and> circ_used f = x @ circ_used f'"
    "wr_shut co' \<Longrightarrow> wr_shut co \<or> r' < 0 \<and> circ_used f' = []"
    by blast+
qed

lemma splice_round_moved:
  assumes "circ_inv f" "splice_round r f ci co = (r', f', ci', co')"
  shows "moved f ci co f' ci' co'" "wire ci' = wire ci" "wr_shut ci' = wr_shut ci"
    "rxs co' = rxs co" "shut_ok was r f co \<Longrightarrow> shut_ok was r' f' co'"
proof -
  have "moved f ci co f' ci' co' \<and> ci' = ci\<lparr>rxs := rxs ci'\<rparr> \<and> rxs co' = rxs co \<and>
    (shut_ok was r f co \<longrightarrow> shut_ok was r' f' co')"
  proof (cases "r \<ge> 0")
    case True
    obtain r1 f1 c1 where i: "splice_in f ci = (r1, f1, c1)" by (metis prod_cases3)
    obtain r2 f2 c2 where o: "splice_out r1 f1 co = (r2, f2, c2)" by (metis prod_cases3)
    have eq: "f' = f2" "ci' = c1" "co' = c2" "r' = r2"
      using assms(2) True i o by (simp_all add: splice_round_def task_io_splice_def)
    note si = splice_in_stream [OF assms(1) i]
    note so = splice_out_wire [OF si(1) o]
    from si(4) so(4) obtain a x where
      "rx_stream (rxs ci) = a @ rx_stream (rxs c1)" "circ_used f1 = circ_used f @ a"
      "wire c2 = wire co @ x" "circ_used f1 = x @ circ_used f2" by blast
    then show ?thesis using eq si so True unfolding moved_def shut_ok_def by auto
  qed (use assms in \<open>auto simp: splice_round_def moved_refl\<close>)
  then have "moved f ci co f' ci' co'" and c: "ci' = ci\<lparr>rxs := rxs ci'\<rparr>" and "rxs co' = rxs co"
    and "shut_ok was r f co \<Longrightarrow> shut_ok was r' f' co'"
    by blast+
  then show "moved f ci co f' ci' co'" "rxs co' = rxs co"
    "shut_ok was r f co \<Longrightarrow> shut_ok was r' f' co'" by blast+
  show "wire ci' = wire ci" "wr_shut ci' = wr_shut ci" by (subst c, simp)+
qed

lemma moved_cong:
  "moved f ci co f' ci' co' \<Longrightarrow> rxs di = rxs ci \<Longrightarrow> rxs di' = rxs ci' \<Longrightarrow>
   wire dout = wire co \<Longrightarrow> wire dout' = wire co' \<Longrightarrow> moved f di dout f' di' dout'"
  by (simp add: moved_def)

lemma shut_ok_cong: "shut_ok was r f co \<Longrightarrow> wr_shut co' = wr_shut co \<Longrightarrow> shut_ok was r f co'"
  by (simp add: shut_ok_def)

lemma moved_trans:
  assumes "moved f ci co f1 ci1 co1" "moved f1 ci1 co1 f2 ci2 co2"
  shows "moved f ci co f2 ci2 co2"
proof -
  obtain i x where 1: "rx_stream (rxs ci) = i @ rx_stream (rxs ci1)" "wire co1 = wire co @ x"
    "circ_used f @ i = x @ circ_used f1" using assms(1) by (auto simp: moved_def)
  obtain j z where 2: "rx_stream (rxs ci1) = j @ rx_stream (rxs ci2)" "wire co2 = wire co1 @ z"
    "circ_used f1 @ j = z @ circ_used f2" using assms(2) by (auto simp: moved_def)
  have u: "circ_used f @ i @ j = (x @ z) @ circ_used f2"
    using 1(3) 2(3) by (metis append.assoc)
  show ?thesis unfolding moved_def
    using 1 2 u assms by (intro conjI exI [of _ "i @ j"] exI [of _ "x @ z"]) (simp_all add: moved_def)
qed

lemma moved_inv: "moved f ci co f' ci' co' \<Longrightarrow> circ_inv f'"
  by (simp add: moved_def)

text \<open>Both directions of a round, then the whole loop.\<close>

lemma both_rounds_moved:
  assumes "circ_inv f" "circ_inv b"
    and F: "splice_round rf f ca cb = (rf', f', ca1, cb1)"
    and B: "splice_round rb b cb1 ca1 = (rb', b', cb2, ca2)"
    and "shut_ok wb rf f cb" "shut_ok wa rb b ca"
  shows "moved f ca cb f' ca2 cb2" "moved b cb ca b' cb2 ca2"
    "shut_ok wb rf' f' cb2" "shut_ok wa rb' b' ca2"
proof -
  note f = splice_round_moved [OF assms(1) F] and b = splice_round_moved [OF assms(2) B]
  show "moved f ca cb f' ca2 cb2" by (rule moved_cong [OF f(1)]) (simp_all add: b)
  show "moved b cb ca b' cb2 ca2" by (rule moved_cong [OF b(1)]) (simp_all add: f)
  show "shut_ok wb rf' f' cb2" by (rule shut_ok_cong [OF f(5) [OF assms(5)]]) (simp add: b)
  show "shut_ok wa rb' b' ca2"
    by (rule b(5)) (rule shut_ok_cong [OF assms(6)], simp add: f)
qed

lemma splice_loop_moved:
  assumes "splice_loop y naps rf rb f b s ca cb = Ret (f', b', s', ca', cb')"
    and "circ_inv f" "circ_inv b" "shut_ok wb rf f cb" "shut_ok wa rb b ca"
  shows "moved f ca cb f' ca' cb' \<and> moved b cb ca b' cb' ca' \<and>
    (wr_shut cb' \<longrightarrow> wb \<or> circ_used f' = []) \<and> (wr_shut ca' \<longrightarrow> wa \<or> circ_used b' = [])"
  using assms
proof (induction naps arbitrary: rf rb f b s ca cb)
  case Nil
  obtain rf1 f1 ca1 cb1 where F: "splice_round rf f ca cb = (rf1, f1, ca1, cb1)"
    by (metis prod_cases4)
  obtain rb1 b1 cb2 ca2 where B: "splice_round rb b cb1 ca1 = (rb1, b1, cb2, ca2)"
    by (metis prod_cases4)
  note m = both_rounds_moved [OF Nil.prems(2,3) F B Nil.prems(4,5)]
  show ?case using Nil.prems(1) m F B
    by (subst (asm) splice_loop.simps) (auto simp: shut_ok_def split: option.splits if_splits)
next
  case (Cons p ps)
  obtain rf1 f1 ca1 cb1 where F: "splice_round rf f ca cb = (rf1, f1, ca1, cb1)"
    by (metis prod_cases4)
  obtain rb1 b1 cb2 ca2 where B: "splice_round rb b cb1 ca1 = (rb1, b1, cb2, ca2)"
    by (metis prod_cases4)
  note m = both_rounds_moved [OF Cons.prems(2,3) F B Cons.prems(4,5)]
  consider s1 where "splice_loop y ps rf1 rb1 f1 b1 s1 ca2 cb2 = Ret (f', b', s', ca', cb')"
    | "f' = f1" "b' = b1" "ca' = ca2" "cb' = cb2"
    using Cons.prems(1) F B
    by (subst (asm) splice_loop.simps) (auto split: option.splits if_splits prod.splits)
  then show ?case
  proof cases
    case 1
    from Cons.IH [OF this moved_inv [OF m(1)] moved_inv [OF m(2)] m(3,4)] m(1,2)
    show ?thesis using moved_trans by blast
  next
    case 2
    then show ?thesis using m by (auto simp: shut_ok_def)
  qed
qed

section \<open>Theorems\<close>

text \<open>What a relay that has stopped owes: the bytes that left on \<open>cout\<close>, a part \<open>p\<close> that was in
  the buffer of \<open>n\<close> bytes, and the bytes still to be read are what was there at the start; the
  write side is shut down only when nothing was left behind.\<close>

definition relayed :: "nat \<Rightarrow> chan \<Rightarrow> chan \<Rightarrow> chan \<Rightarrow> chan \<Rightarrow> bool" where
  "relayed n cin cout cin' cout' \<longleftrightarrow> (\<exists>p. length p \<le> n \<and>
     wire cout' @ p @ rx_stream (rxs cin') = wire cout @ rx_stream (rxs cin) \<and>
     (wr_shut cout' \<longrightarrow> wr_shut cout \<or> p = []))"

lemma moved_relayed:
  assumes "moved f ci co f' ci' co'" "circ_used f = []" "unat (cmax_size f) = n"
    and "wr_shut co' \<longrightarrow> wr_shut co \<or> circ_used f' = []"
  shows "relayed n ci co ci' co'"
proof -
  have "length (circ_used f') \<le> n"
    using assms(1,3) circ_inv_nat [of f'] by (auto simp: moved_def circ_used_def)
  moreover have "wire co' @ circ_used f' @ rx_stream (rxs ci') = wire co @ rx_stream (rxs ci)"
    using assms(1,2) by (auto simp: moved_def)
  ultimately show ?thesis using assms(4) unfolding relayed_def by blast
qed

lemma splice_relayed:
  assumes "hev_task_io_splice (of_nat n) (Some mf) (Some mb) y naps s ca cb = Ret (s', ca', cb')"
    and "0 < n" "n < 2 ^ 63" "length mf = n" "length mb = n"
  shows "relayed n ca cb ca' cb'" "relayed n cb ca cb' ca'"
proof -
  obtain f b where f: "hev_circular_buffer_new (of_nat n) (Some mf) = Some f"
    and b: "hev_circular_buffer_new (of_nat n) (Some mb) = Some b"
    by (simp add: hev_circular_buffer_new_def)
  note nf = circ_new_inv [OF assms(2,3,4) f] and nb = circ_new_inv [OF assms(2,3,5) b]
  have sz: "unat (cmax_size f) = n" "unat (cmax_size b) = n"
    using f b unat_small [of n] assms(3) by (auto simp: hev_circular_buffer_new_def)
  obtain f' b' where l: "splice_loop y naps 1 1 f b s ca cb = Ret (f', b', s', ca', cb')"
    using assms(1) f b by (auto simp: hev_task_io_splice_def task_io_splicer_init_def bind_o_Ret_iff)
  have "shut_ok (wr_shut cb) 1 f cb" "shut_ok (wr_shut ca) 1 b ca" by (simp_all add: shut_ok_def)
  note m = splice_loop_moved [OF l nf(1) nb(1) this]
  show "relayed n ca cb ca' cb'" by (rule moved_relayed [of f _ _ f']) (use m nf sz in auto)
  show "relayed n cb ca cb' ca'" by (rule moved_relayed [of b _ _ b']) (use m nb sz in auto)
qed

text \<open>C6. The socket-to-socket splice forwards both streams: whenever it returns, for either
  direction the bytes sent, then at most one buffer of bytes, then the bytes not yet read are the
  bytes that were to be forwarded, in order; a write side was shut down only after every byte that
  had been read was sent.\<close>

theorem splice_integrity:
  assumes "hev_task_io_splice (of_nat n) (Some mf) (Some mb) y naps s ca cb = Ret (s', ca', cb')"
    and "0 < n" "n < 2 ^ 63" "length mf = n" "length mb = n"
  shows "relayed n ca cb ca' cb' \<and> relayed n cb ca cb' ca'"
  using splice_relayed [OF assms] by blast

definition demo_ca :: chan where
  "demo_ca = \<lparr>rxs = [RxData [1, 2, 3], RxAgain (Nap 1 False), RxData [4], RxEof], txs = [TxTake 9], wire = [],
     wr_shut = False, errno_of = E_NONE\<rparr>"

definition demo_cb :: chan where
  "demo_cb = \<lparr>rxs = [RxData [7], RxEof], txs = [TxTake 1, TxAgain (Nap 1 False), TxTake 9], wire = [],
     wr_shut = False, errno_of = E_NONE\<rparr>"

lemma demo_splice_returns:
  "case hev_task_io_splice (of_nat 2) (Some [0, 0]) (Some [0, 0]) (None :: unit yielder option)
      (replicate 8 (Nap 1 False)) () demo_ca demo_cb of
     Ret (s', ca', cb') \<Rightarrow> wire cb' = [1, 2, 3, 4] \<and> wire ca' = [7] \<and> wr_shut ca' \<and> wr_shut cb' | _ \<Rightarrow> False"
  by code_simp

theorem splice_integrity_witness:
  "\<exists>s' ca' cb'. hev_task_io_splice (of_nat 2) (Some [0, 0]) (Some [0, 0]) (None :: unit yielder option)
      (replicate 8 (Nap 1 False)) () demo_ca demo_cb = Ret (s', ca', cb') \<and> wire cb' = [1, 2, 3, 4] \<and>
    relayed 2 demo_ca demo_cb ca' cb' \<and> relayed 2 demo_cb demo_ca cb' ca'"
proof -
  obtain s' ca' cb' where r: "hev_task_io_splice (of_nat 2) (Some [0, 0]) (Some [0, 0])
      (None :: unit yielder option) (replicate 8 (Nap 1 False)) () demo_ca demo_cb = Ret (s', ca', cb')"
    and w: "wire cb' = [1, 2, 3, 4]"
    using demo_splice_returns by (auto split: outcome.splits prod.splits)
  show ?thesis using splice_integrity [OF r] r w by simp
qed

end
