(* ===== verification/UdpRelay.thy ===== *)
theory UdpRelay
  imports Actions
begin

text \<open>
  Datagrams over SOCKS5 (\<open>hev-socks5-udp.c\<close>, with \<open>recvmmsg\<close> and \<open>sendmmsg\<close> of
  \<open>hev-task-io-socket.c\<close>). In the UDP-in-TCP form a datagram is a frame of the TCP stream: its
  length, the length of its header, its address and its bytes; in the UDP-in-UDP form it is a
  datagram with three reserved bytes and its address in front. The theorems show that the frames
  of a stream come out as the datagrams that went in, however the stream is cut, and where this
  fails.
\<close>

section \<open>Datagram sockets\<close>

datatype dg_event = DgData sockaddr6 "byte list" | DgErr | DgAgain nap

record dchan =
  drx :: "dg_event list"
  dtx :: "tx_event list"
  dout :: "(sockaddr6 option \<times> byte list) list"
  dpeer :: "sockaddr6 option"
  derrno :: errno

text \<open>\<open>recvmmsg\<close> returns the messages that have arrived, at most \<open>n\<close>, each cut to its buffer.\<close>

fun dg_take :: "nat \<Rightarrow> dg_event list \<Rightarrow> (sockaddr6 \<times> byte list) list \<times> dg_event list" where
  "dg_take 0 es = ([], es)"
| "dg_take (Suc n) (DgData a d # es) = (case dg_take n es of (ms, es') \<Rightarrow> ((a, d) # ms, es'))"
| "dg_take (Suc n) es = ([], es)"

fun sys_recvmmsg :: "nat \<Rightarrow> dg_event list \<Rightarrow> ((sockaddr6 \<times> byte list) list sysr \<times> dg_event list) option" where
  "sys_recvmmsg n [] = None"
| "sys_recvmmsg n (DgErr # es) = Some (SErr, es)"
| "sys_recvmmsg n (DgAgain p # es) = Some (SAgain p, es)"
| "sys_recvmmsg n es = (case dg_take n es of (ms, es') \<Rightarrow> Some (SOk ms, es'))"

text \<open>The calls of the program wait for no message; a queue without events reads as
  \<open>EAGAIN\<close>.\<close>

definition hev_task_io_socket_recvmmsg :: "nat \<Rightarrow> dchan \<Rightarrow>
    int \<times> (sockaddr6 \<times> byte list) list \<times> dchan" where
  "hev_task_io_socket_recvmmsg n c =
     (case sys_recvmmsg n (drx c) of
        None \<Rightarrow> (- 1, [], c\<lparr>derrno := EAGAIN\<rparr>)
      | Some (SAgain p, es) \<Rightarrow> (- 1, [], c\<lparr>drx := es, derrno := EAGAIN\<rparr>)
      | Some (SErr, es) \<Rightarrow> (- 1, [], c\<lparr>drx := es, derrno := E_OTHER\<rparr>)
      | Some (SOk ms, es) \<Rightarrow> (int (length ms), ms, c\<lparr>drx := es\<rparr>))"

fun sys_sendmmsg :: "nat \<Rightarrow> tx_event list \<Rightarrow> (nat sysr \<times> tx_event list) option" where
  "sys_sendmmsg n [] = None"
| "sys_sendmmsg n (TxTake k # es) =
     Some (SOk (min k n), if k \<le> n then es else TxTake (k - n) # es)"
| "sys_sendmmsg n (TxErr # es) = Some (SErr, es)"
| "sys_sendmmsg n (TxAgain p # es) = Some (SAgain p, es)"

lemma sys_sendmmsg_weight:
  assumes "sys_sendmmsg n es = Some (r, es')" "r \<noteq> SOk 0"
  shows "tx_weight es' < tx_weight es"
  using assms by (cases "(n, es)" rule: sys_sendmmsg.cases) (auto split: if_splits)

text \<open>With \<open>MSG_WAITALL\<close>, as the program calls it: \<open>c\<close> messages are out.\<close>

function sendmmsg_retry :: "'s yielder option \<Rightarrow> nat \<Rightarrow> nat \<Rightarrow> errno \<Rightarrow> 's \<Rightarrow> tx_event list \<Rightarrow>
    (int \<times> nat \<times> errno \<times> 's \<times> tx_event list) outcome" where
  "sendmmsg_retry y n c e s evs =
     (case sys_sendmmsg (n - c) evs of
        None \<Rightarrow> Wait
      | Some (SAgain p, evs') \<Rightarrow>
          (case task_wait y p s of (r, s') \<Rightarrow>
             if r \<noteq> 0 then Ret (if c \<noteq> 0 then int c else - 2, c, EAGAIN, s', evs')
             else sendmmsg_retry y n c EAGAIN s' evs')
      | Some (SErr, evs') \<Rightarrow> Ret (if c \<noteq> 0 then int c else - 1, c, E_OTHER, s, evs')
      | Some (SOk k, evs') \<Rightarrow>
          if k = 0 then Ret (if c \<noteq> 0 then int c else 0, c, e, s, evs')
          else if c + k < n then sendmmsg_retry y n (c + k) e s evs'
          else Ret (int (c + k), c + k, e, s, evs'))"
  by pat_completeness auto
termination
  by (relation "measure (\<lambda>(y, n, c, e, s, evs). tx_weight evs)")
    (auto intro: sys_sendmmsg_weight simp: in_measure)

declare sendmmsg_retry.simps [simp del]

definition hev_task_io_socket_sendmmsg :: "'s yielder option \<Rightarrow> (sockaddr6 option \<times> byte list) list \<Rightarrow> 's \<Rightarrow>
    dchan \<Rightarrow> (int \<times> 's \<times> dchan) outcome" where
  "hev_task_io_socket_sendmmsg y msgs s d =
     bind_o (sendmmsg_retry y (length msgs) 0 (derrno d) s (dtx d))
       (\<lambda>(r, k, e, s', evs). Ret (r, s', d\<lparr>dtx := evs, dout := dout d @ take k msgs, derrno := e\<rparr>))"

section \<open>The yielder\<close>

text \<open>In the UDP-in-UDP form the control connection is polled before every sleep: its end ends the
  association. The state is the object and the events of the control connection.\<close>

definition udp_task_io_yielder :: "('a socks5_scheme \<times> rx_event list) yielder" where
  "udp_task_io_yielder type p st =
     (case st of (self, ctl) \<Rightarrow>
        case (if stype self = TYPE_UDP_IN_UDP then
                (case sys_recv 1 ctl of
                   None \<Rightarrow> (True, ctl)
                 | Some (SOk d, ctl') \<Rightarrow> (d \<noteq> [], ctl')
                 | Some (SErr, ctl') \<Rightarrow> (False, ctl')
                 | Some (SAgain _, ctl') \<Rightarrow> (True, ctl'))
              else (True, ctl)) of (ok, ctl') \<Rightarrow>
          if \<not> ok then (- 1, hev_socks5_set_timeout self 0, ctl')
          else (case hev_socks5_task_io_yielder type p self of (r, self') \<Rightarrow> (r, self', ctl')))"

definition udp_live :: "('a socks5_scheme \<times> rx_event list) \<Rightarrow> bool" where
  "udp_live st \<longleftrightarrow> live (fst st) \<and> (stype (fst st) = TYPE_UDP_IN_UDP \<longrightarrow> snd st = [])"

interpretation udp_io: io_task udp_task_io_yielder udp_live
  by unfold_locales
    (auto simp: udp_task_io_yielder_def udp_live_def socks5_io.calm_wait split: prod.splits)

section \<open>Sending\<close>

text \<open>A message to send: the memory its address pointer points to, and its bytes.\<close>

type_synonym smsg = "byte list \<times> byte list"

definition udp_tcp_hdr :: "int \<Rightarrow> byte list \<Rightarrow> byte list" where
  "udp_tcp_hdr addrlen d = store16 (htons (of_nat (length d))) @ [word_of_int (3 + addrlen)]"

fun udp_tcp_iov :: "smsg list \<Rightarrow> byte list list option outcome" where
  "udp_tcp_iov [] = Ret (Some [])"
| "udp_tcp_iov ((addr, d) # ms) =
     bind_o (hev_socks5_addr_len addr) (\<lambda>addrlen.
       if addrlen \<le> 0 then Ret None
       else bind_o (rd_sego addr 0 (nat addrlen)) (\<lambda>a.
         bind_o (udp_tcp_iov ms) (\<lambda>v. Ret (case v of
             None \<Rightarrow> None | Some v \<Rightarrow> Some (udp_tcp_hdr addrlen d # a # d # v)))))"

definition hev_socks5_udp_sendmmsg_tcp :: "smsg list \<Rightarrow> 'a socks5_scheme \<Rightarrow> chan \<Rightarrow>
    (int \<times> 'a socks5_scheme \<times> chan) outcome" where
  "hev_socks5_udp_sendmmsg_tcp msgv self c =
     bind_o (udp_tcp_iov msgv) (\<lambda>v.
       case v of
         None \<Rightarrow> Ret (- 1, self, c)
       | Some iov \<Rightarrow>
           bind_o (hev_task_io_socket_sendmsg (Some udp_task_io_yielder) True False iov (self, []) c)
             (\<lambda>(res, (self', _), c').
               if res \<le> 0 then Ret (- 1, self', c') else Ret (int (length msgv), self', c')))"

fun udp_udp_msgs :: "smsg list \<Rightarrow> (sockaddr6 option \<times> byte list) list option outcome" where
  "udp_udp_msgs [] = Ret (Some [])"
| "udp_udp_msgs ((addr, d) # ms) =
     bind_o (hev_socks5_addr_len addr) (\<lambda>addrlen.
       if addrlen \<le> 0 then Ret None
       else bind_o (rd_sego addr 0 (nat addrlen)) (\<lambda>a.
         bind_o (udp_udp_msgs ms) (\<lambda>v. Ret (case v of
             None \<Rightarrow> None | Some v \<Rightarrow> Some ((None, [0, 0, 0] @ a @ d) # v)))))"

definition hev_socks5_udp_sendmmsg_udp :: "smsg list \<Rightarrow> 'a socks5_scheme \<Rightarrow> rx_event list \<Rightarrow> dchan \<Rightarrow>
    (int \<times> 'a socks5_scheme \<times> rx_event list \<times> dchan) outcome" where
  "hev_socks5_udp_sendmmsg_udp msgv self ctl d =
     bind_o (udp_udp_msgs msgv) (\<lambda>v.
       case v of
         None \<Rightarrow> Ret (- 1, self, ctl, d)
       | Some ms \<Rightarrow>
           bind_o (hev_task_io_socket_sendmmsg (Some udp_task_io_yielder) ms (self, ctl) d)
             (\<lambda>(res, (self', ctl'), d'). Ret (res, self', ctl', d')))"

section \<open>Receiving\<close>

text \<open>A received message: its buffer, the offset of its address (none for a datagram too short to
  have one), the offset of its bytes and their number.\<close>

record umsg =
  mem :: "byte list"
  maddr :: "nat option"
  mbuf :: nat
  mlen :: nat

definition umsg_addr :: "umsg \<Rightarrow> byte list option" where
  "umsg_addr m = (case maddr m of None \<Rightarrow> None | Some off \<Rightarrow> Some (drop off (mem m)))"

definition umsg_data :: "umsg \<Rightarrow> byte list" where
  "umsg_data m = seg (mbuf m) (mlen m) (mem m)"

definition recv_udp_head :: "bool \<Rightarrow> 'a socks5_scheme \<Rightarrow> chan \<Rightarrow> (int \<times> byte list \<times> 'a socks5_scheme \<times> chan) outcome" where
  "recv_udp_head nonblock self c =
     bind_o (hev_task_io_socket_recv (Some udp_task_io_yielder) False nonblock 5 (self, []) c)
       (\<lambda>(res, h, (self, _), c).
         if 0 < res \<and> res < 5 then
           bind_o (hev_task_io_socket_recv (Some udp_task_io_yielder) True False (nat (5 - res)) (self, []) c)
             (\<lambda>(r2, h2, (self, _), c). Ret (res + r2, h @ h2, self, c))
         else Ret (res, h, self, c))"

fun hev_socks5_udp_recvmmsg_tcp :: "bool \<Rightarrow> byte list list \<Rightarrow> umsg list \<Rightarrow> 'a socks5_scheme \<Rightarrow> chan \<Rightarrow>
    (int \<times> umsg list \<times> 'a socks5_scheme \<times> chan) outcome" where
  "hev_socks5_udp_recvmmsg_tcp nonblock [] got self c = Ret (int (length got), got, self, c)"
| "hev_socks5_udp_recvmmsg_tcp nonblock (buf # bufs) got self c =
     bind_o (recv_udp_head nonblock self c) (\<lambda>(res, h, self, c).
       if res \<noteq> 5 then
         (if got \<noteq> [] then Ret (int (length got), got, self, c) else Ret (res, got, self, c))
       else
         let hdrlen = unat (h ! 2) in
         if hdrlen < 5 then Ret (- 1, got, self, c)
         else
           let addrlen = hdrlen - 3; datlen = unat (ntohs (load16 h)) in
           if (of_nat datlen :: size_t) > of_nat (length buf) - of_nat addrlen then Ret (- 1, got, self, c)
           else
             bind_o (hev_task_io_socket_recvmsg (Some udp_task_io_yielder) True False
                 [(2, addrlen - 2), (addrlen, datlen)] buf (self, []) c)
               (\<lambda>(res, buf, (self, _), c).
                 if res \<noteq> int (addrlen - 2 + datlen) then Ret (res, got, self, c)
                 else hev_socks5_udp_recvmmsg_tcp nonblock bufs
                   (got @ [\<lparr>mem = put 0 [h ! 3, h ! 4] buf, maddr = Some 0, mbuf = addrlen,
                       mlen = datlen\<rparr>]) self c))"

text \<open>The datagram form. The buffer keeps its old bytes behind a short message.\<close>

fun udp_parse :: "(byte list \<times> byte list) list \<Rightarrow> umsg list option outcome" where
  "udp_parse [] = Ret (Some [])"
| "udp_parse ((buf, d) # ms) =
     (let buf = put 0 (take (length buf) d) buf; len = length (take (length buf) d) in
      bind_o (hev_socks5_addr_len (drop 3 buf)) (\<lambda>addrlen.
        if len < 4 then
          bind_o (udp_parse ms) (\<lambda>v. Ret (case v of None \<Rightarrow> None
            | Some v \<Rightarrow> Some (\<lparr>mem = buf, maddr = None, mbuf = 0, mlen = 0\<rparr> # v)))
        else if addrlen \<le> 0 then Ret None
        else if 3 + addrlen > int len then Ret None
        else
          bind_o (udp_parse ms) (\<lambda>v. Ret (case v of None \<Rightarrow> None
            | Some v \<Rightarrow> Some (\<lparr>mem = buf, maddr = Some 3, mbuf = nat (3 + addrlen),
                mlen = len - nat (3 + addrlen)\<rparr> # v)))))"

text \<open>The first datagram fixes the peer of the socket; \<open>connect_ok\<close> is the answer of
  \<open>connect\<close>.\<close>

definition hev_socks5_udp_recvmmsg_udp :: "bool \<Rightarrow> byte list list \<Rightarrow> 'a socks5_scheme \<Rightarrow> dchan \<Rightarrow>
    (int \<times> umsg list \<times> 'a socks5_scheme \<times> dchan) outcome" where
  "hev_socks5_udp_recvmmsg_udp connect_ok bufs self d =
     (case hev_task_io_socket_recvmmsg (length bufs) d of (res, ms, d) \<Rightarrow>
        if res \<le> 0 then Ret (res, [], self, d)
        else if udp_associated self = 0 \<and> \<not> connect_ok then Ret (- 1, [], self, d\<lparr>derrno := E_OTHER\<rparr>)
        else
          let (self, d) = (if udp_associated self = 0
                           then (self\<lparr>udp_associated := 1\<rparr>, d\<lparr>dpeer := Some (fst (hd ms))\<rparr>)
                           else (self, d)) in
          bind_o (udp_parse (zip bufs (map snd ms))) (\<lambda>v.
            case v of None \<Rightarrow> Ret (- 1, [], self, d) | Some v \<Rightarrow> Ret (res, v, self, d)))"

section \<open>The relay\<close>

text \<open>The object, its TCP connection, its own datagram socket, the outgoing datagram socket, whether
  the outgoing socket was bound, and \<open>errno\<close>, which outlives the call that set it.\<close>

record 'a relay =
  robj :: 'a
  rctl :: chan
  rdg :: dchan
  rout :: dchan
  rbind :: bool
  rerrno :: errno

abbreviation UDP_BUF_SIZE :: nat where "UDP_BUF_SIZE \<equiv> 1500"

definition hev_socks5_udp_sendmmsg :: "smsg list \<Rightarrow> 'a socks5_scheme relay \<Rightarrow> (int \<times> 'a socks5_scheme relay) outcome" where
  "hev_socks5_udp_sendmmsg msgv r =
     (case stype (robj r) of
        TYPE_UDP_IN_TCP \<Rightarrow>
          bind_o (hev_socks5_udp_sendmmsg_tcp msgv (robj r) ((rctl r)\<lparr>errno_of := rerrno r\<rparr>))
            (\<lambda>(res, self, c). Ret (res, r\<lparr>robj := self, rctl := c, rerrno := errno_of c\<rparr>))
      | TYPE_UDP_IN_UDP \<Rightarrow>
          bind_o (hev_socks5_udp_sendmmsg_udp msgv (robj r) (rxs (rctl r)) ((rdg r)\<lparr>derrno := rerrno r\<rparr>))
            (\<lambda>(res, self, ctl, d).
              Ret (res, r\<lparr>robj := self, rctl := (rctl r)\<lparr>rxs := ctl\<rparr>, rdg := d, rerrno := derrno d\<rparr>))
      | _ \<Rightarrow> Ret (- 1, r))"

definition hev_socks5_udp_recvmmsg :: "bool \<Rightarrow> byte list list \<Rightarrow> 'a socks5_scheme relay \<Rightarrow>
    (int \<times> umsg list \<times> 'a socks5_scheme relay) outcome" where
  "hev_socks5_udp_recvmmsg connect_ok bufs r =
     (case stype (robj r) of
        TYPE_UDP_IN_TCP \<Rightarrow>
          bind_o (hev_socks5_udp_recvmmsg_tcp True bufs [] (robj r) ((rctl r)\<lparr>errno_of := rerrno r\<rparr>))
            (\<lambda>(res, ms, self, c). Ret (res, ms, r\<lparr>robj := self, rctl := c, rerrno := errno_of c\<rparr>))
      | TYPE_UDP_IN_UDP \<Rightarrow>
          bind_o (hev_socks5_udp_recvmmsg_udp connect_ok bufs (robj r) ((rdg r)\<lparr>derrno := rerrno r\<rparr>))
            (\<lambda>(res, ms, self, d). Ret (res, ms, r\<lparr>robj := self, rdg := d, rerrno := derrno d\<rparr>))
      | _ \<Rightarrow> Ret (- 1, [], r))"

text \<open>The destinations of the received messages; \<open>None\<close> when one is invalid.\<close>

fun fwd_f_dest :: "resolver \<Rightarrow> addr_family \<Rightarrow> umsg list \<Rightarrow> (sockaddr6 option \<times> byte list) list option outcome" where
  "fwd_f_dest rv fam [] = Ret (Some [])"
| "fwd_f_dest rv fam (m # ms) =
     (case umsg_addr m of
        None \<Rightarrow> Ret None
      | Some a \<Rightarrow>
          if mlen m = 0 then Ret None
          else bind_o (hev_socks5_addr_into_sockaddr6 rv a \<lparr>sin6_port = 0, sin6_addr = replicate 16 0\<rparr> fam)
            (\<lambda>(ret, sa, _).
              if ret < 0 then Ret None
              else bind_o (fwd_f_dest rv fam ms) (\<lambda>v. Ret (case v of
                  None \<Rightarrow> None | Some v \<Rightarrow> Some ((Some sa, umsg_data m) # v)))))"

definition fwd_result :: "int \<Rightarrow> errno \<Rightarrow> int" where
  "fwd_result res e = (if res \<le> 0 then (if res = - 1 \<and> e = EAGAIN then 0 else - 1) else 1)"

definition hev_socks5_udp_fwd_f :: "resolver \<Rightarrow> ('a socks5_scheme \<Rightarrow> sockaddr6 \<Rightarrow> int) \<Rightarrow> bool \<Rightarrow>
    byte list list \<Rightarrow> 'a socks5_scheme relay \<Rightarrow> (int \<times> 'a socks5_scheme relay) outcome" where
  "hev_socks5_udp_fwd_f rv binder connect_ok bufs r =
     bind_o (hev_socks5_udp_recvmmsg connect_ok bufs r) (\<lambda>(res, ms, r).
       if res > 0 then
         bind_o (fwd_f_dest rv (hev_socks5_get_addr_family (robj r)) ms) (\<lambda>v.
           case v of
             None \<Rightarrow> Ret (- 1, r)
           | Some dvec \<Rightarrow>
               if \<not> rbind r \<and> binder (robj r) (the (fst (hd dvec))) < 0 then Ret (- 1, r)
               else let r = r\<lparr>rbind := True\<rparr> in
                 bind_o (hev_task_io_socket_sendmmsg (Some udp_task_io_yielder) dvec
                     (robj r, rxs (rctl r)) ((rout r)\<lparr>derrno := rerrno r\<rparr>))
                   (\<lambda>(res, (self, ctl), d).
                     let r = r\<lparr>robj := self, rctl := (rctl r)\<lparr>rxs := ctl\<rparr>, rout := d, rerrno := derrno d\<rparr> in
                     Ret (fwd_result res (rerrno r), r)))
       else Ret (fwd_result res (rerrno r), r))"

fun fwd_b_msgs :: "(sockaddr6 \<times> byte list) list \<Rightarrow> smsg list outcome" where
  "fwd_b_msgs [] = Ret []"
| "fwd_b_msgs ((sa, d) # ms) =
     bind_o (hev_socks5_addr_from_sockaddr6 (replicate 19 0) sa) (\<lambda>(_, a).
     bind_o (fwd_b_msgs ms) (\<lambda>v. Ret ((a, take UDP_BUF_SIZE d) # v)))"

definition hev_socks5_udp_fwd_b :: "nat \<Rightarrow> 'a socks5_scheme relay \<Rightarrow> (int \<times> 'a socks5_scheme relay) outcome" where
  "hev_socks5_udp_fwd_b num r =
     (case hev_task_io_socket_recvmmsg num ((rout r)\<lparr>derrno := rerrno r\<rparr>) of (res, ms, d) \<Rightarrow>
        let r = r\<lparr>rout := d, rerrno := derrno d\<rparr> in
        if res > 0 then
          bind_o (fwd_b_msgs ms) (\<lambda>dvec.
          bind_o (hev_socks5_udp_sendmmsg dvec r) (\<lambda>(res, r). Ret (fwd_result res (rerrno r), r)))
        else Ret (fwd_result res (rerrno r), r))"

text \<open>One call of the yielder from the splice loop. Polling the control connection leaves its
  error number behind.\<close>

definition relay_yield :: "yield_type \<Rightarrow> nap \<Rightarrow> 'a socks5_scheme relay \<Rightarrow> int \<times> 'a socks5_scheme relay" where
  "relay_yield type p r =
     (case udp_task_io_yielder type p (robj r, rxs (rctl r)) of (k, self, ctl) \<Rightarrow>
        (k, r\<lparr>robj := self, rctl := (rctl r)\<lparr>rxs := ctl\<rparr>,
           rerrno := (if stype (robj r) = TYPE_UDP_IN_UDP
                      then (case sys_recv 1 (rxs (rctl r)) of
                              Some (SOk _, _) \<Rightarrow> rerrno r | Some (SErr, _) \<Rightarrow> E_OTHER | _ \<Rightarrow> EAGAIN)
                      else rerrno r)\<rparr>))"

text \<open>\<open>bufs\<close> are the receive buffers with the bytes earlier rounds left in them; a round finds them
  as the environment says.\<close>

fun udp_splice_loop :: "resolver \<Rightarrow> ('a socks5_scheme \<Rightarrow> sockaddr6 \<Rightarrow> int) \<Rightarrow> bool \<Rightarrow> byte list list \<Rightarrow>
    (nap \<times> byte list list) list \<Rightarrow> int \<Rightarrow> int \<Rightarrow> 'a socks5_scheme relay \<Rightarrow> 'a socks5_scheme relay outcome" where
  "udp_splice_loop rv binder connect_ok bufs naps res_f res_b r =
     bind_o (if res_f \<ge> 0 then hev_socks5_udp_fwd_f rv binder connect_ok bufs r else Ret (res_f, r))
       (\<lambda>(rf, r).
     bind_o (if res_b \<ge> 0 then hev_socks5_udp_fwd_b (length bufs) r else Ret (res_b, r))
       (\<lambda>(rb, r).
       case (if rf > 0 \<or> rb > 0 then Some HEV_TASK_YIELD
             else if rf AND rb = 0 then Some HEV_TASK_WAITIO else None) of
         None \<Rightarrow> Ret r
       | Some type \<Rightarrow>
           (case naps of
              [] \<Rightarrow> Wait
            | (p, bufs') # ps \<Rightarrow>
                (case relay_yield type p r of (k, r) \<Rightarrow>
                   if k \<noteq> 0 then Ret r
                   else udp_splice_loop rv binder connect_ok bufs' ps rf rb r))))"

declare udp_splice_loop.simps [simp del]

definition hev_socks5_udp_splicer :: "resolver \<Rightarrow> ('a socks5_scheme \<Rightarrow> sockaddr6 \<Rightarrow> int) \<Rightarrow> bool \<Rightarrow>
    byte list list option \<Rightarrow> (nap \<times> byte list list) list \<Rightarrow> 'a socks5_scheme relay \<Rightarrow> (int \<times> 'a socks5_scheme relay) outcome" where
  "hev_socks5_udp_splicer rv binder connect_ok bufs naps r =
     (case bufs of
        None \<Rightarrow> Ret (- 1, r)
      | Some bufs \<Rightarrow>
          bind_o (udp_splice_loop rv binder connect_ok bufs naps 1 1 (r\<lparr>rbind := False\<rparr>))
            (\<lambda>r. Ret (0, r)))"

section \<open>Frames\<close>

definition udp_frame :: "saddr \<times> byte list \<Rightarrow> byte list" where
  "udp_frame m = (case m of (a, d) \<Rightarrow>
     udp_tcp_hdr (int (length (saddr_enc a))) d @ saddr_enc a @ d)"

text \<open>What fits a frame: the header length is a byte, so the address has at most 252 bytes (a name
  at most 248), and address and data fit the receiver's buffer.\<close>

definition frame_ok :: "nat \<Rightarrow> saddr \<times> byte list \<Rightarrow> bool" where
  "frame_ok cap m \<longleftrightarrow> (case m of (a, d) \<Rightarrow>
     saddr_wf a \<and> length (saddr_enc a) \<le> 252 \<and> length (saddr_enc a) + length d \<le> cap)"

text \<open>The memory of a message holds the encoding of its address.\<close>

definition smsg_is :: "smsg \<Rightarrow> saddr \<times> byte list \<Rightarrow> bool" where
  "smsg_is s m \<longleftrightarrow> (\<exists>z. fst s = saddr_enc (fst m) @ z) \<and> snd s = snd m \<and> saddr_wf (fst m)"

lemma smsg_is_map:
  "\<forall>(a, d) \<in> set ms. saddr_wf a \<Longrightarrow> list_all2 smsg_is (map (\<lambda>(a, d). (saddr_enc a @ z a, d)) ms) ms"
  by (induction ms) (auto simp: smsg_is_def)

lemma udp_tcp_iov_enc:
  "list_all2 smsg_is sm ms \<Longrightarrow> \<exists>v. udp_tcp_iov sm = Ret (Some v) \<and> concat v = concat (map udp_frame ms)"
proof (induction sm ms rule: list_all2_induct)
  case (Cons s sm m ms)
  obtain a d z where m: "m = (a, d)" "s = (saddr_enc a @ z, d)" "saddr_wf a"
    using Cons.hyps(1) by (cases s, cases m) (auto simp: smsg_is_def)
  have "saddr_enc a \<noteq> []" by (cases a) auto
  then show ?case using Cons m addr_len_enc [OF m(3), of z] by (auto simp: udp_frame_def)
qed simp

lemma udp_live_self: "live self \<Longrightarrow> stype self \<noteq> TYPE_UDP_IN_UDP \<Longrightarrow> udp_live (self, ctl)"
  by (simp add: udp_live_def)

lemma recv_pauses:
  "hev_task_io_socket_recv y wa dw n s c = Ret (r, d, s', c') \<Longrightarrow> rx_pauses (rxs c') \<le> rx_pauses (rxs c)"
  by (auto simp: hev_task_io_socket_recv_def bind_o_Ret_iff dest: recv_retry_pauses)

text \<open>What a vectored receive does, given areas inside the buffer: it cannot fault, and it changes
  nothing beside the areas.\<close>

lemma recvmsg_effect:
  assumes "iov_in iov (length buf)"
  shows "hev_task_io_socket_recvmsg y True dw iov buf s c \<noteq> Fault"
    "hev_task_io_socket_recvmsg y True dw iov buf s c = Ret (r, buf', s', c') \<Longrightarrow>
      (\<exists>d. buf' = scatter iov d buf) \<and> rx_pauses (rxs c') \<le> rx_pauses (rxs c)"
  using assms recvmsg_retry_eq [OF assms, of "\<Sum>(b, l)\<leftarrow>iov. l" "[]" y dw "errno_of c" s "rxs c"]
  by (auto simp: hev_task_io_socket_recvmsg_def bind_o_Ret_iff bind_o_Fault_iff recv_retry_no_fault dest: recv_retry_pauses)

lemma udp_head:
  assumes "udp_live (self, [])" "rx_ready (5 + m) (rxs c)"
  obtains p c' where "recv_udp_head True self c = Ret (- 1, [], self, c')" "errno_of c' = EAGAIN"
      "rx_stream (rxs c') = rx_stream (rxs c)" "rx_ready (5 + m) (rxs c')" "rxs c = RxAgain p # rxs c'"
  | c' where "recv_udp_head True self c = Ret (5, take 5 (rx_stream (rxs c)), self, c')"
      "rx_stream (rxs c') = drop 5 (rx_stream (rxs c))" "rx_ready m (rxs c')" "rx_pauses (rxs c') \<le> rx_pauses (rxs c)"
proof -
  note rdy = sys_recv_ready [OF assms(2), of 5]
  obtain x evs1 where sys: "sys_recv 5 (rxs c) = Some (x, evs1)"
    using rdy by (auto split: option.splits)
  note eq = recv_retry.simps [of "Some udp_task_io_yielder" False True 5 "[]" "errno_of c" "(self, [])" "rxs c"]
  show thesis
  proof (cases x)
    case (SAgain p)
    have "rxs c = RxAgain p # evs1"
      using sys SAgain by (cases "(5 :: nat, rxs c)" rule: sys_recv.cases) (auto split: if_splits)
    then show thesis
      by (intro that(1) [of "c\<lparr>rxs := evs1, errno_of := EAGAIN\<rparr>" p])
        (use rdy sys SAgain eq in \<open>simp_all add: recv_udp_head_def hev_task_io_socket_recv_def\<close>)
  next
    case SErr
    then show thesis using rdy sys by simp
  next
    case (SOk d)
    then have d: "d \<noteq> []" "length d \<le> 5" "rx_ready (5 + m - length d) evs1"
      "rx_stream (rxs c) = d @ rx_stream evs1" using rdy sys by simp_all
    let ?c1 = "c\<lparr>rxs := evs1\<rparr>"
    have r1: "hev_task_io_socket_recv (Some udp_task_io_yielder) False True 5 (self, []) c =
        Ret (int (length d), d, (self, []), ?c1)"
      using sys SOk eq by (simp add: hev_task_io_socket_recv_def)
    show thesis
    proof (cases "length d = 5")
      case True
      show thesis
        by (rule that(2) [of ?c1]) (use True r1 d sys_recv_pauses [OF sys] in \<open>simp_all add: recv_udp_head_def\<close>)
    next
      case False
      then have k: "0 < 5 - length d" "rx_ready (5 - length d + m) (rxs ?c1)"
        using d by (simp_all add: add.commute)
      obtain c2 where c2: "hev_task_io_socket_recv (Some udp_task_io_yielder) True False (5 - length d)
          (self, []) ?c1 = Ret (int (5 - length d), take (5 - length d) (rx_stream evs1), (self, []), c2)"
        "rx_stream (rxs c2) = drop (5 - length d) (rx_stream evs1)" "rx_ready m (rxs c2)"
        by (rule udp_io.recv_all [OF assms(1) k]) simp
      have n: "nat (5 - int (length d)) = 5 - length d" using False d by simp
      show thesis
        by (rule that(2) [of c2])
          (use r1 c2 d False n sys_recv_pauses [OF sys] recv_pauses [OF c2(1)] in \<open>auto simp: recv_udp_head_def\<close>)
    qed
  qed
qed


lemma saddr_enc_two: "\<exists>e0 e1 es. saddr_wf a \<longrightarrow> saddr_enc a = e0 # e1 # es \<and> 2 \<le> length es"
proof (cases a)
  case (SV4 b p)
  then show ?thesis by (cases b) auto
next
  case (SV6 b p)
  then show ?thesis by (cases b) auto
qed auto

text \<open>A received message is the datagram \<open>d\<close> from \<open>a\<close>.\<close>

definition umsg_is :: "umsg \<Rightarrow> saddr \<times> byte list \<Rightarrow> bool" where
  "umsg_is m ad \<longleftrightarrow> (case umsg_addr m of
     None \<Rightarrow> False
   | Some b \<Rightarrow> take (length (saddr_enc (fst ad))) b = saddr_enc (fst ad) \<and> umsg_data m = snd ad)"

lemma scatter_frame:
  assumes "2 \<le> length enc" "length enc + length d \<le> length buf"
  shows "put 0 (take 2 enc) (scatter [(2, length enc - 2), (length enc, length d)] (drop 2 enc @ d) buf) =
    enc @ d @ drop (length enc + length d) buf"
proof -
  obtain e0 e1 es where enc: "enc = e0 # e1 # es"
    using assms(1) by (cases enc; cases "tl enc") auto
  obtain b0 b1 bs where buf: "buf = b0 # b1 # bs"
    using assms enc by (cases buf; cases "tl buf") auto
  show ?thesis using assms enc buf by (simp add: put_def numeral_2_eq_2 add.commute)
qed

lemma unat_datlen: "n \<le> 65535 \<Longrightarrow> unat (of_nat n :: u16) = n"
  by (simp add: unat_of_nat)

lemma hdr_fields:
  assumes "length (saddr_enc a) \<le> 252" "length d \<le> 65535"
  shows "udp_tcp_hdr (int (length (saddr_enc a))) d =
      [hi8 (of_nat (length d)), lo8 (of_nat (length d)), of_nat (3 + length (saddr_enc a))]"
    "unat (of_nat (3 + length (saddr_enc a)) :: byte) = 3 + length (saddr_enc a)"
proof -
  show "unat (of_nat (3 + length (saddr_enc a)) :: byte) = 3 + length (saddr_enc a)"
    using assms(1) by (intro unat_of_nat_byte) simp
qed (simp add: udp_tcp_hdr_def)

lemma room_ok:
  assumes "n + d \<le> b" "b \<le> 65535"
  shows "\<not> (of_nat d :: size_t) > of_nat b - of_nat n"
proof -
  have eq: "(of_nat b :: size_t) - of_nat n = of_nat (b - n)" using assms by (simp add: of_nat_diff)
  have "unat (of_nat d :: size_t) = d" "unat (of_nat (b - n) :: size_t) = b - n"
    using assms by (simp_all only: unat_of_nat) simp_all
  then show ?thesis unfolding eq word_less_nat_alt using assms(1) by simp
qed

lemma recvmmsg_tcp_step:
  assumes live: "udp_live (self, [])" and ok: "frame_ok (length buf) (a, d)" and cap: "length buf \<le> 65535"
    and rdy: "rx_ready (length (udp_frame (a, d)) + m) (rxs c)"
    and str: "rx_stream (rxs c) = udp_frame (a, d) @ z"
  obtains p c' where "hev_socks5_udp_recvmmsg_tcp True (buf # bufs) got self c =
        Ret (if got = [] then - 1 else int (length got), got, self, c')" "errno_of c' = EAGAIN"
      "rx_stream (rxs c') = rx_stream (rxs c)" "rx_ready (length (udp_frame (a, d)) + m) (rxs c')" "rxs c = RxAgain p # rxs c'"
  | u c' where "hev_socks5_udp_recvmmsg_tcp True (buf # bufs) got self c =
        hev_socks5_udp_recvmmsg_tcp True bufs (got @ [u]) self c'" "umsg_is u (a, d)"
      "rx_stream (rxs c') = z" "rx_ready m (rxs c')" "rx_pauses (rxs c') \<le> rx_pauses (rxs c)"
proof -
  have wf: "saddr_wf a" and le: "length (saddr_enc a) \<le> 252" "length (saddr_enc a) + length d \<le> length buf"
    using ok by (simp_all add: frame_ok_def)
  obtain e0 e1 es where enc: "saddr_enc a = e0 # e1 # es" and es: "2 \<le> length es"
    using saddr_enc_two wf by blast
  define n where "n = length (saddr_enc a)"
  have hdr: "udp_tcp_hdr (int n) d = [hi8 (of_nat (length d)), lo8 (of_nat (length d)), of_nat (3 + n)]"
    and un: "unat (of_nat (3 + n) :: byte) = 3 + n"
    unfolding n_def by (rule hdr_fields [OF le(1)], use le cap in simp)+
  have fr: "udp_frame (a, d) = [hi8 (of_nat (length d)), lo8 (of_nat (length d)), of_nat (3 + n), e0, e1]
      @ es @ d"
    using hdr enc by (simp add: udp_frame_def n_def)
  have n: "n = length es + 2" using enc by (simp add: n_def)
  have len: "length (udp_frame (a, d)) + m = 5 + (length es + length d + m)" by (simp add: fr)
  have r5: "rx_ready (5 + (length es + length d + m)) (rxs c)"
    using rdy by (simp only: len)
  show thesis
  proof (cases rule: udp_head [OF live r5])
    case (1 p c')
    have "hev_socks5_udp_recvmmsg_tcp True (buf # bufs) got self c =
        Ret (if got = [] then - 1 else int (length got), got, self, c')" using 1(1) by simp
    then show thesis by (rule that(1)) (simp_all only: 1(2-4) len, rule 1(5))
  next
    case (2 c1)
    have st1: "rx_stream (rxs c1) = es @ d @ z" using 2(2) str by (simp add: fr)
    have h: "take 5 (rx_stream (rxs c)) =
        [hi8 (of_nat (length d)), lo8 (of_nat (length d)), of_nat (3 + n), e0, e1]"
      using str by (simp add: fr)
    let ?iov = "[(2, n - 2), (n, length d)]"
    have iov: "length es + length d = (\<Sum>(b, l)\<leftarrow>?iov. l)" "0 < length es + length d"
      "iov_in ?iov (length buf)"
      using es n le by (auto simp: iov_in_def n_def)
    obtain c' where c': "hev_task_io_socket_recvmsg (Some udp_task_io_yielder) True False ?iov buf (self, []) c1 =
        Ret (int (length es + length d), scatter ?iov (take (length es + length d) (rx_stream (rxs c1))) buf,
          (self, []), c')"
      "rx_stream (rxs c') = drop (length es + length d) (rx_stream (rxs c1))" "rx_ready m (rxs c')"
      by (rule udp_io.recvmsg_all [OF live iov 2(3)])
    have sc: "put 0 [e0, e1] (scatter ?iov (take (length es + length d) (rx_stream (rxs c1))) buf) =
        saddr_enc a @ d @ drop (n + length d) buf"
      using scatter_frame [of "saddr_enc a" d buf] le st1 n enc by (simp add: n_def)
    let ?u = "\<lparr>mem = saddr_enc a @ d @ drop (n + length d) buf, maddr = Some 0, mbuf = n, mlen = length d\<rparr>"
    have dl: "unat (of_nat (length d) :: u16) = length d" using le cap by (simp add: unat_datlen)
    have room: "\<not> (of_nat (length d) :: size_t) > of_nat (length buf) - of_nat n"
      using room_ok [of n "length d" "length buf"] le cap by (simp add: n_def)
    show thesis
    proof (rule that(2) [of ?u c'])
      show "hev_socks5_udp_recvmmsg_tcp True (buf # bufs) got self c =
          hev_socks5_udp_recvmmsg_tcp True bufs (got @ [?u]) self c'"
        using 2(1) c'(1) sc un dl room n h by (simp add: Let_def)
      show "umsg_is ?u (a, d)" by (simp add: umsg_is_def umsg_addr_def umsg_data_def seg_def n_def)
      show "rx_stream (rxs c') = z" using c'(2) st1 by simp
      show "rx_ready m (rxs c')" by (rule c'(3))
      show "rx_pauses (rxs c') \<le> rx_pauses (rxs c)" using recvmsg_effect(2) [OF iov(3) c'(1)] 2(4) by simp
    qed
  qed
qed

text \<open>The bytes of a list of frames.\<close>

abbreviation udp_frames :: "(saddr \<times> byte list) list \<Rightarrow> byte list" where
  "udp_frames ms \<equiv> concat (map udp_frame ms)"

lemma recvmmsg_tcp_frames:
  assumes "udp_live (self, [])" "\<forall>m \<in> set ms. frame_ok cap m" "cap \<le> 65535" "\<forall>b \<in> set bufs. length b = cap"
    "length bufs \<le> length ms" "rx_ready (length (udp_frames ms)) (rxs c)"
    "rx_stream (rxs c) = udp_frames ms @ z"
  shows "\<exists>k us c'. hev_socks5_udp_recvmmsg_tcp True bufs got self c =
      Ret (if got = [] \<and> k = 0 \<and> bufs \<noteq> [] then - 1 else int (length got + k), got @ us, self, c') \<and>
    k \<le> length bufs \<and> list_all2 umsg_is us (take k ms) \<and>
    rx_stream (rxs c') = udp_frames (drop k ms) @ z \<and>
    rx_ready (length (udp_frames (drop k ms))) (rxs c') \<and> rx_pauses (rxs c') \<le> rx_pauses (rxs c) \<and>
    (k < length bufs \<longrightarrow> errno_of c' = EAGAIN \<and> rx_pauses (rxs c') < rx_pauses (rxs c)) \<and>
    (k = 0 \<and> bufs \<noteq> [] \<longrightarrow> (\<exists>p. rxs c = RxAgain p # rxs c'))"
  using assms
proof (induction bufs arbitrary: ms got c)
  case Nil
  then show ?case by (intro exI [of _ 0] exI [of _ "[]"] exI [of _ c]) simp
next
  case (Cons buf bufs)
  obtain a d ms' where ms: "ms = (a, d) # ms'" using Cons.prems(5) by (cases ms) auto
  have ok: "frame_ok (length buf) (a, d)" "length buf \<le> 65535" using Cons.prems ms by auto
  have rdy: "rx_ready (length (udp_frame (a, d)) + length (udp_frames ms')) (rxs c)"
    and str: "rx_stream (rxs c) = udp_frame (a, d) @ udp_frames ms' @ z"
    using Cons.prems(6,7) ms by simp_all
  show ?case
  proof (cases rule: recvmmsg_tcp_step [OF Cons.prems(1) ok rdy str, of bufs got])
    case (1 p c')
    have "rx_pauses (rxs c') < rx_pauses (rxs c)" by (subst 1(5)) simp
    then show ?thesis using 1(1-4) Cons.prems(6,7) ms 1(5)
      by (intro exI [of _ 0] exI [of _ "[]"] exI [of _ c']) (auto simp del: hev_socks5_udp_recvmmsg_tcp.simps)
  next
    case (2 u c1)
    obtain k us c' where ih: "hev_socks5_udp_recvmmsg_tcp True bufs (got @ [u]) self c1 =
        Ret (int (length (got @ [u]) + k), (got @ [u]) @ us, self, c')"
      "k \<le> length bufs" "list_all2 umsg_is us (take k ms')"
      "rx_stream (rxs c') = udp_frames (drop k ms') @ z"
      "rx_ready (length (udp_frames (drop k ms'))) (rxs c')" "rx_pauses (rxs c') \<le> rx_pauses (rxs c1)"
      "k < length bufs \<longrightarrow> errno_of c' = EAGAIN \<and> rx_pauses (rxs c') < rx_pauses (rxs c1)"
      using Cons.IH [of ms' c1 "got @ [u]"] Cons.prems ms 2 by auto
    moreover have "k < length bufs \<longrightarrow> rx_pauses (rxs c') < rx_pauses (rxs c)" using ih(7) 2(5) by auto
    ultimately show ?thesis using 2(1,2,5) ms
      by (intro exI [of _ "Suc k"] exI [of _ "u # us"] exI [of _ c']) (simp del: hev_socks5_udp_recvmmsg_tcp.simps)
  qed
qed


lemma sendmmsg_tcp_msgs:
  assumes "udp_live (self, [])" "list_all2 smsg_is sm ms" "ms \<noteq> []"
    "tx_ready (length (udp_frames ms)) (txs c)"
  obtains c' where "hev_socks5_udp_sendmmsg_tcp sm self c = Ret (int (length ms), self, c')"
    "wire c' = wire c @ udp_frames ms" "rxs c' = rxs c"
proof -
  obtain v where v: "udp_tcp_iov sm = Ret (Some v)"
    "concat v = udp_frames ms" using udp_tcp_iov_enc [OF assms(2)] by blast
  have ne: "udp_frames ms \<noteq> []"
    using assms(3) by (cases ms) (auto simp: udp_frame_def udp_tcp_hdr_def)
  have rdy: "tx_ready (length (udp_frames ms) + 0) (txs c)" using assms(4) by simp
  obtain c' where c': "hev_task_io_socket_send (Some udp_task_io_yielder) True False (udp_frames ms) (self, []) c =
      Ret (int (length (udp_frames ms)), (self, []), c')" "wire c' = wire c @ udp_frames ms" "rxs c' = rxs c"
    by (rule udp_io.send_all [OF assms(1) ne rdy])
  then show thesis using that [of c'] v ne list_all2_lengthD [OF assms(2)]
    by (auto simp: hev_socks5_udp_sendmmsg_tcp_def sendmsg_eq_send)
qed

lemmas sendmmsg_tcp_frames = sendmmsg_tcp_msgs [OF _ smsg_is_map]

section \<open>Bounds\<close>

definition umsg_in :: "umsg \<Rightarrow> bool" where
  "umsg_in m \<longleftrightarrow> mbuf m + mlen m \<le> length (mem m) \<and> (maddr m = None \<longrightarrow> mlen m = 0)"







lemma addr_len_total: "2 \<le> length a \<Longrightarrow> \<exists>n. hev_socks5_addr_len a = Ret n"
  by (cases a; cases "tl a") (simp_all add: hev_socks5_addr_len_def)

lemma udp_parse_in:
  assumes "\<forall>(b, d) \<in> set xs. 5 \<le> length b"
  shows "udp_parse xs \<noteq> Fault \<and>
    (\<forall>us. udp_parse xs = Ret (Some us) \<longrightarrow> length us = length xs \<and> (\<forall>u \<in> set us. umsg_in u))"
  using assms
proof (induction xs)
  case (Cons x xs)
  obtain buf d where x: "x = (buf, d)" by fastforce
  let ?b = "put 0 (take (length buf) d) buf"
  have len: "length ?b = length buf" "5 \<le> length buf" using Cons.prems x by simp_all
  then have "2 \<le> length (drop 3 ?b)" unfolding length_drop by linarith
  then obtain n where n: "hev_socks5_addr_len (drop 3 ?b) = Ret n" using addr_len_total by blast
  have ih: "udp_parse xs \<noteq> Fault"
    "\<And>us. udp_parse xs = Ret (Some us) \<Longrightarrow> length us = length xs \<and> (\<forall>u \<in> set us. umsg_in u)"
    using Cons.IH Cons.prems x by simp_all
  show ?case using len n ih
    by (cases "udp_parse xs") (auto simp: x Let_def umsg_in_def split: option.splits if_splits)
qed simp

section \<open>Forwarding\<close>

lemma fwd_b_msgs_enc:
  "\<forall>(sa, d) \<in> set ms. length (sin6_addr sa) = 16 \<Longrightarrow>
   fwd_b_msgs ms = Ret (map (\<lambda>(a, d). (saddr_enc a @ drop (length (saddr_enc a)) (replicate 19 0), d))
     (map (\<lambda>(sa, d). (saddr_of sa, take UDP_BUF_SIZE d)) ms))"
proof (induction ms)
  case (Cons m ms)
  then show ?case
    using addr_from_sockaddr6_enc [of "fst m" "replicate 19 0"] by (cases m) auto
qed simp

lemma sys_recvmmsg_some:
  "dg_take n es = (ms, es') \<Longrightarrow> ms \<noteq> [] \<Longrightarrow> sys_recvmmsg n es = Some (SOk ms, es')"
  by (cases "(n, es)" rule: dg_take.cases) (auto split: prod.splits)

section \<open>Datagram form\<close>

definition udp_packet :: "saddr \<times> byte list \<Rightarrow> byte list" where
  "udp_packet m = (case m of (a, d) \<Rightarrow> [0, 0, 0] @ saddr_enc a @ d)"

lemma udp_udp_msgs_enc:
  assumes "\<forall>(a, d) \<in> set ms. saddr_wf a"
  shows "udp_udp_msgs (map (\<lambda>(a, d). (saddr_enc a @ z, d)) ms) =
    Ret (Some (map (\<lambda>m. (None, udp_packet m)) ms))"
  using assms
proof (induction ms)
  case (Cons m ms)
  obtain a d where m: "m = (a, d)" by fastforce
  have wf: "saddr_wf a" using Cons.prems m by simp
  have "saddr_enc a \<noteq> []" by (cases a) auto
  then show ?case using Cons m addr_len_enc [OF wf, of z] by (auto simp: udp_packet_def)
qed simp

lemma udp_parse_packet:
  assumes "saddr_wf a" "length (udp_packet (a, d)) \<le> length buf"
  shows "\<exists>u. udp_parse ((buf, udp_packet (a, d)) # xs) =
      bind_o (udp_parse xs) (\<lambda>v. Ret (case v of None \<Rightarrow> None | Some v \<Rightarrow> Some (u # v))) \<and>
    umsg_is u (a, d)"
proof -
  let ?e = "saddr_enc a"
  have p: "udp_packet (a, d) = [0, 0, 0] @ ?e @ d" by (simp add: udp_packet_def)
  have e: "2 \<le> length ?e" "?e \<noteq> []" using saddr_enc_two [of a] assms(1) by auto
  let ?b = "[0, 0, 0] @ ?e @ d @ drop (3 + length ?e + length d) buf"
  have b: "put 0 (take (length buf) (udp_packet (a, d))) buf = ?b"
    using assms(2) by (simp add: p put_0 numeral_3_eq_3)
  have "hev_socks5_addr_len (drop 3 ?b) = Ret (int (length ?e))"
    using addr_len_enc [OF assms(1), of "d @ drop (3 + length ?e + length d) buf"] by simp
  moreover have l: "length (take (length ?b) (udp_packet (a, d))) = 3 + length ?e + length d"
    by (simp add: p)
  moreover have n: "nat (3 + int (length ?e)) = 3 + length ?e" by simp
  ultimately have "udp_parse ((buf, udp_packet (a, d)) # xs) =
      bind_o (udp_parse xs) (\<lambda>v. Ret (case v of None \<Rightarrow> None | Some v \<Rightarrow>
        Some (\<lparr>mem = ?b, maddr = Some 3, mbuf = 3 + length ?e, mlen = length d\<rparr> # v)))"
    using e unfolding udp_parse.simps Let_def b l by (simp add: n cong: option.case_cong)
  moreover have "umsg_is \<lparr>mem = ?b, maddr = Some 3, mbuf = 3 + length ?e, mlen = length d\<rparr> (a, d)"
    by (simp add: umsg_is_def umsg_addr_def umsg_data_def seg_def numeral_3_eq_3)
  ultimately show ?thesis by blast
qed

lemma udp_parse_packets:
  assumes "length bufs = length ms"
    "\<forall>(b, m) \<in> set (zip bufs ms). saddr_wf (fst m) \<and> length (udp_packet m) \<le> length b"
  shows "\<exists>us. udp_parse (zip bufs (map udp_packet ms)) = Ret (Some us) \<and> list_all2 umsg_is us ms"
  using assms
proof (induction bufs ms rule: list_induct2)
  case (Cons b bs m ms)
  obtain a d where m: "m = (a, d)" by fastforce
  obtain us where us: "udp_parse (zip bs (map udp_packet ms)) = Ret (Some us)" "list_all2 umsg_is us ms"
    using Cons by auto
  obtain u where "udp_parse ((b, udp_packet (a, d)) # zip bs (map udp_packet ms)) =
      bind_o (udp_parse (zip bs (map udp_packet ms)))
        (\<lambda>v. Ret (case v of None \<Rightarrow> None | Some v \<Rightarrow> Some (u # v)))" "umsg_is u (a, d)"
    using udp_parse_packet [of a d b] Cons.prems m by fastforce
  then have "udp_parse (zip (b # bs) (map udp_packet (m # ms))) = Ret (Some (u # us)) \<and>
      list_all2 umsg_is (u # us) (m # ms)"
    using us m unfolding list.map zip_Cons_Cons by (simp del: udp_parse.simps)
  then show ?case by blast
qed simp

section \<open>What any send does\<close>

text \<open>Whatever the network and the yielder do: \<open>k\<close> messages are out when the call returns, and the value
  says so.\<close>

lemma sendmmsg_retry_result:
  assumes "\<And>p s. I s \<Longrightarrow> I (snd (task_wait y p s))"
    and "sendmmsg_retry y n c e s evs = Ret (r, k, e', s', evs')" "I s" "c \<le> n"
  shows "I s' \<and> k \<le> n \<and> (if k = 0 then r \<le> 0 else r = int k)"
  using assms(2-)
proof (induction "tx_weight evs" arbitrary: c e s evs rule: less_induct)
  case less
  note eq = sendmmsg_retry.simps [of y n c e s evs]
  obtain x evs1 where sys: "sys_sendmmsg (n - c) evs = Some (x, evs1)"
    using less.prems(1) unfolding eq by (cases "sys_sendmmsg (n - c) evs") auto
  note wt = sys_sendmmsg_weight [OF sys]
  show ?case
  proof (cases x)
    case (SAgain p)
    obtain j s1 where v: "task_wait y p s = (j, s1)" by fastforce
    have s1: "I s1" using assms(1) [OF less.prems(2), of p] v by simp
    show ?thesis using less.prems sys SAgain v s1 less.hyps [of evs1 c EAGAIN s1] wt unfolding eq by (auto split: if_splits)
  next
    case (SOk j)
    have "j \<le> n - c" using sys SOk by (cases "(n - c, evs)" rule: sys_sendmmsg.cases) (auto split: if_splits)
    then show ?thesis using less.prems sys SOk less.hyps [of evs1 "c + j" e s] wt unfolding eq by (auto split: if_splits)
  qed (use less.prems sys in \<open>auto simp: eq split: if_splits\<close>)
qed

lemma sendmmsg_retry_no_fault: "sendmmsg_retry y n c e s evs \<noteq> Fault"
proof (induction "tx_weight evs" arbitrary: c e s evs rule: less_induct)
  case less
  note eq = sendmmsg_retry.simps [of y n c e s evs]
  show ?case
  proof (cases "sys_sendmmsg (n - c) evs")
    case None
    then show ?thesis using eq by simp
  next
    case (Some xe)
    obtain x evs1 where sys: "sys_sendmmsg (n - c) evs = Some (x, evs1)" using Some by (cases xe) simp
    have "sendmmsg_retry y n b e1 s1 evs1 \<noteq> Fault" if "x \<noteq> SOk 0" for b e1 s1
      using less.hyps [OF sys_sendmmsg_weight [OF sys that]] .
    then show ?thesis unfolding eq sys by (cases x) (auto split: prod.split)
  qed
qed

lemma udp_yielder_keeps:
  "keeps_rest f \<Longrightarrow> f (fst s) = v \<Longrightarrow> f (fst (snd (task_wait (Some udp_task_io_yielder) p s))) = v"
  by (auto simp: task_wait_def udp_task_io_yielder_def hev_socks5_task_io_yielder_def hev_socks5_set_timeout_def
      woken_def keeps_rest_def Let_def split: prod.splits)

lemma udp_udp_msgs_is:
  "list_all2 smsg_is sm ms \<Longrightarrow> udp_udp_msgs sm = Ret (Some (map (\<lambda>m. (None, udp_packet m)) ms))"
proof (induction sm ms rule: list_all2_induct)
  case (Cons s sm m ms)
  obtain a d z where m: "m = (a, d)" "s = (saddr_enc a @ z, d)" "saddr_wf a"
    using Cons.hyps(1) by (cases s, cases m) (auto simp: smsg_is_def)
  have "saddr_enc a \<noteq> []" by (cases a) auto
  then show ?case using Cons m addr_len_enc [OF m(3), of z] by (auto simp: udp_packet_def)
qed simp

lemma sendmmsg_effect:
  assumes "list_all2 smsg_is sm ms"
  shows "hev_socks5_udp_sendmmsg sm r \<noteq> Fault"
    "hev_socks5_udp_sendmmsg sm r = Ret (res, r') \<Longrightarrow> keeps_rest f \<Longrightarrow> f (robj r') = f (robj r)"
    "hev_socks5_udp_sendmmsg sm r = Ret (res, r') \<Longrightarrow>
      \<exists>k \<le> length ms. (if k = 0 then res \<le> 0 else res = int k) \<and> (stype (robj r) = TYPE_UDP_IN_UDP \<longrightarrow>
        dout (rdg r') = dout (rdg r) @ take k (map (\<lambda>m. (None, udp_packet m)) ms))"
proof -
  obtain v where v: "udp_tcp_iov sm = Ret (Some v)" using udp_tcp_iov_enc [OF assms] by blast
  note u = udp_udp_msgs_is [OF assms] and l = list_all2_lengthD [OF assms]
  note defs = hev_socks5_udp_sendmmsg_def hev_socks5_udp_sendmmsg_tcp_def hev_socks5_udp_sendmmsg_udp_def
    hev_task_io_socket_sendmmsg_def sendmsg_eq_send hev_task_io_socket_send_def
  show "hev_socks5_udp_sendmmsg sm r \<noteq> Fault"
    using v u by (auto simp: defs bind_o_Fault_iff send_retry_no_fault sendmmsg_retry_no_fault split: socks5_type.splits if_splits)
  assume r: "hev_socks5_udp_sendmmsg sm r = Ret (res, r')"
  show "f (robj r') = f (robj r)" if k: "keeps_rest f"
  proof -
    note y = udp_yielder_keeps [OF k]
    consider bs x e w evs e' w' s' evs' where "send_retry (Some udp_task_io_yielder) True False bs 0 e w (robj r, []) evs =
          Ret (x, e', w', s', evs')" "robj r' = fst s'"
      | n e evs x j e' s' evs' where "sendmmsg_retry (Some udp_task_io_yielder) n 0 e (robj r, rxs (rctl r)) evs =
          Ret (x, j, e', s', evs')" "robj r' = fst s'"
      | "robj r' = robj r"
      using r v u by (auto simp: defs bind_o_Ret_iff split: socks5_type.splits if_splits)
    then show ?thesis
    proof cases
      case 1
      then show ?thesis using send_retry_keeps [of "\<lambda>z. f (fst z) = f (robj r)", OF y 1(1)] by simp
    next
      case 2
      then show ?thesis using sendmmsg_retry_result [of "\<lambda>z. f (fst z) = f (robj r)", OF y 2(1)] by simp
    qed simp
  qed
  show "\<exists>k \<le> length ms. (if k = 0 then res \<le> 0 else res = int k) \<and> (stype (robj r) = TYPE_UDP_IN_UDP \<longrightarrow>
        dout (rdg r') = dout (rdg r) @ take k (map (\<lambda>m. (None, udp_packet m)) ms))"
  proof (cases "stype (robj r) = TYPE_UDP_IN_UDP")
    case True
    obtain k e s evs where k: "sendmmsg_retry (Some udp_task_io_yielder) (length ms) 0 (rerrno r) (robj r, rxs (rctl r)) (dtx (rdg r)) =
        Ret (res, k, e, s, evs)" "dout (rdg r') = dout (rdg r) @ take k (map (\<lambda>m. (None, udp_packet m)) ms)"
      using r True u l by (auto simp: defs bind_o_Ret_iff)
    show ?thesis using sendmmsg_retry_result [of "\<lambda>_. True", OF _ k(1)] k(2)
      by (intro exI [of _ k]) (simp del: take_map)
  next
    case False
    have "res \<le> 0 \<or> res = int (length ms)" using r v l False
      by (auto simp: defs bind_o_Ret_iff split: socks5_type.splits if_splits)
    then show ?thesis
    proof (cases "res \<le> 0")
      case True
      then show ?thesis using False by (intro exI [of _ 0]) simp
    next
      case F: False
      then show ?thesis using \<open>res \<le> 0 \<or> res = int (length ms)\<close> False by (intro exI [of _ "length ms"]) auto
    qed
  qed
qed

section \<open>Theorems\<close>

definition demo_udp :: socks5 where
  "demo_udp = \<lparr>sfd = 4, timeout = 60000, udp_associated = 0, stype = TYPE_UDP_IN_TCP, family = FAMILY_UNSPEC\<rparr>"

definition demo_frames :: "(saddr \<times> byte list) list" where
  "demo_frames = [(SV4 [10, 0, 0, 1] 53, [1, 2, 3]), (SName [97, 98] 443, [])]"

definition demo_tx :: chan where
  "demo_tx = \<lparr>rxs = [], txs = [TxTake 4, TxAgain (Nap 9 False), TxTake 60], wire = [7], wr_shut = False,
     errno_of = E_NONE\<rparr>"

definition demo_rx :: chan where
  "demo_rx = \<lparr>rxs = [RxData (take 3 (udp_frames demo_frames)), RxAgain (Nap 2 False),
      RxData (drop 3 (udp_frames demo_frames))], txs = [], wire = [], wr_shut = False, errno_of = E_NONE\<rparr>"

text \<open>A name of 249 to 253 bytes: the header length of its frame is one byte and wraps below 5, so the
  receiver answers the frame with an error.\<close>

lemma recvmmsg_tcp_long_name:
  assumes "udp_live (self, [])" "252 < length (saddr_enc a)" "length (saddr_enc a) \<le> 257"
    and "rx_ready (length (udp_frame (a, d)) + m) (rxs c)" "rx_stream (rxs c) = udp_frame (a, d) @ z"
  shows "\<exists>c'. hev_socks5_udp_recvmmsg_tcp True (buf # bufs) [] self c = Ret (- 1, [], self, c')"
proof -
  define n where "n = length (saddr_enc a)"
  let ?h = "word_of_int (3 + int n) :: byte"
  have fr: "udp_frame (a, d) = [hi8 (of_nat (length d)), lo8 (of_nat (length d)), ?h] @ saddr_enc a @ d"
    by (simp add: udp_frame_def udp_tcp_hdr_def n_def)
  have "unat ?h = (3 + n) mod 256" using unat_of_nat [of "3 + n", where 'a = 8] by simp
  also have "(3 + n) mod 256 = (3 + n) - 256" using assms(2,3) by (simp add: n_def mod_if)
  finally have h: "unat ?h < 5" using assms(2,3) by (simp add: n_def)
  have "length (udp_frame (a, d)) + m = 5 + (n - 2 + length d + m)" using assms(2) by (simp add: fr n_def)
  then have "rx_ready (5 + (n - 2 + length d + m)) (rxs c)" using assms(4) by (simp only:)
  then show ?thesis
  proof (cases rule: udp_head [OF assms(1), of "n - 2 + length d + m" c])
    case (3 c')
    have "take 5 (rx_stream (rxs c)) ! 2 = ?h" using assms(5) by (simp add: fr)
    then show ?thesis using 3(1) h by (simp add: Let_def)
  qed auto
qed

text \<open>C12. UDP in TCP, end to end. All messages whose address and data fit the receiver's buffers are sent,
  as frames. If their addresses take at most 252 bytes (IPv4, IPv6 and names of at most 248 bytes), a
  peer that reads these bytes, cut and delayed in any way, gets the first \<open>k\<close> messages back, in order and
  whole, with the stream left at the beginning of the next frame. It gets all its buffers filled unless
  it meets a pause between two frames, which it reports as \<open>EAGAIN\<close> and uses up, so that a caller that
  tries again gets everything; it gets nothing only when the bytes begin with a pause. A longer name is
  not delivered: when the first message has one of 249 to 253 bytes, the receiver returns an error.\<close>

theorem udp_frames_roundtrip:
  assumes "udp_live (s1, [])" "udp_live (s2, [])" "ms \<noteq> []" "cap \<le> 65535"
    and "\<forall>(a, d) \<in> set ms. saddr_wf a \<and> length (saddr_enc a) + length d \<le> cap"
    and "tx_ready (length (udp_frames ms)) (txs c1)"
    and "hev_socks5_udp_sendmmsg_tcp (map (\<lambda>(a, d). (saddr_enc a @ x a, d)) ms) s1 c1 = Ret (res, s1', c1')"
    and "rx_stream (rxs c2) = drop (length (wire c1)) (wire c1') @ z"
    and "rx_ready (length (udp_frames ms)) (rxs c2)"
    and "\<forall>b \<in> set bufs. length b = cap" "bufs \<noteq> []" "length bufs \<le> length ms"
  shows "res = int (length ms) \<and>
    ((\<forall>(a, d) \<in> set ms. length (saddr_enc a) \<le> 252) \<longrightarrow> (\<exists>k us c2'.
       hev_socks5_udp_recvmmsg_tcp True bufs [] s2 c2 = Ret (if k = 0 then - 1 else int k, us, s2, c2') \<and>
       k \<le> length bufs \<and> list_all2 umsg_is us (take k ms) \<and>
       rx_stream (rxs c2') = udp_frames (drop k ms) @ z \<and>
       (k < length bufs \<longrightarrow> errno_of c2' = EAGAIN \<and> rx_pauses (rxs c2') < rx_pauses (rxs c2)) \<and>
       (k = 0 \<longrightarrow> (\<exists>p. rxs c2 = RxAgain p # rxs c2')))) \<and>
    (252 < length (saddr_enc (fst (hd ms))) \<and> length (saddr_enc (fst (hd ms))) \<le> 257 \<longrightarrow>
       (\<exists>c2'. hev_socks5_udp_recvmmsg_tcp True bufs [] s2 c2 = Ret (- 1, [], s2, c2')))"
proof -
  have wf: "\<forall>(a, d) \<in> set ms. saddr_wf a" using assms(5) by auto
  obtain c where c: "hev_socks5_udp_sendmmsg_tcp (map (\<lambda>(a, d). (saddr_enc a @ x a, d)) ms) s1 c1 =
      Ret (int (length ms), s1, c)" "wire c = wire c1 @ udp_frames ms"
    using sendmmsg_tcp_frames [OF assms(1) wf assms(3,6)] .
  have r: "res = int (length ms)" and str: "rx_stream (rxs c2) = udp_frames ms @ z"
    using c assms(7,8) by simp_all
  have ok: "\<forall>m \<in> set ms. frame_ok cap m" if "\<forall>(a, d) \<in> set ms. length (saddr_enc a) \<le> 252"
    using assms(5) that by (auto simp: frame_ok_def)
  obtain a d ms' where ms: "ms = (a, d) # ms'" using assms(3) by (cases ms) auto
  obtain b bs where bufs: "bufs = b # bs" using assms(11) by (cases bufs) auto
  have rdy: "rx_ready (length (udp_frame (a, d)) + length (udp_frames ms')) (rxs c2)"
    and st: "rx_stream (rxs c2) = udp_frame (a, d) @ udp_frames ms' @ z" using assms(9) str ms by simp_all
  have got: "\<exists>k us c2'.
       hev_socks5_udp_recvmmsg_tcp True bufs [] s2 c2 = Ret (if k = 0 then - 1 else int k, us, s2, c2') \<and>
       k \<le> length bufs \<and> list_all2 umsg_is us (take k ms) \<and>
       rx_stream (rxs c2') = udp_frames (drop k ms) @ z \<and>
       (k < length bufs \<longrightarrow> errno_of c2' = EAGAIN \<and> rx_pauses (rxs c2') < rx_pauses (rxs c2)) \<and>
       (k = 0 \<longrightarrow> (\<exists>p. rxs c2 = RxAgain p # rxs c2'))" if "\<forall>(a, d) \<in> set ms. length (saddr_enc a) \<le> 252"
  proof -
    note fo = ok [OF that]
    obtain k us c2' where "hev_socks5_udp_recvmmsg_tcp True bufs [] s2 c2 =
        Ret (if [] = ([] :: umsg list) \<and> k = 0 \<and> bufs \<noteq> [] then - 1 else int (length ([] :: umsg list) + k), [] @ us, s2, c2')"
      "k \<le> length bufs" "list_all2 umsg_is us (take k ms)" "rx_stream (rxs c2') = udp_frames (drop k ms) @ z"
      "k < length bufs \<longrightarrow> errno_of c2' = EAGAIN \<and> rx_pauses (rxs c2') < rx_pauses (rxs c2)"
      "k = 0 \<and> bufs \<noteq> [] \<longrightarrow> (\<exists>p. rxs c2 = RxAgain p # rxs c2')"
      using recvmmsg_tcp_frames [OF assms(2) fo assms(4,10,12,9) str, of "[]"] by blast
    then show ?thesis using assms(11)
      by (intro exI [of _ k] exI [of _ us] exI [of _ c2']) (simp del: hev_socks5_udp_recvmmsg_tcp.simps)
  qed
  note long = recvmmsg_tcp_long_name [OF assms(2) _ _ rdy st, of b bs]
  have "\<exists>c2'. hev_socks5_udp_recvmmsg_tcp True bufs [] s2 c2 = Ret (- 1, [], s2, c2')"
    if "252 < length (saddr_enc (fst (hd ms))) \<and> length (saddr_enc (fst (hd ms))) \<le> 257"
    using long that bufs ms by (simp del: hev_socks5_udp_recvmmsg_tcp.simps)
  then show ?thesis using r got by blast
qed

text \<open>All bytes are there when the peer reads: both messages arrive.\<close>

definition demo_full :: chan where
  "demo_full = demo_rx\<lparr>rxs := [RxData (take 3 (udp_frames demo_frames)), RxData (drop 3 (udp_frames demo_frames))]\<rparr>"

lemma demo_frames_cut:
  "length (udp_frames demo_frames) = 22" "rx_stream (rxs demo_full) = udp_frames demo_frames"
  "rx_ready (length (udp_frames demo_frames)) (rxs demo_full)" "rx_pauses (rxs demo_full) = 0"
proof -
  show len: "length (udp_frames demo_frames) = 22"
    by (simp add: demo_frames_def udp_frame_def udp_tcp_hdr_def)
  have "length (take 3 (udp_frames demo_frames)) = 3" "length (drop 3 (udp_frames demo_frames)) = 19"
    unfolding length_take length_drop len by simp_all
  then have "take 3 (udp_frames demo_frames) \<noteq> []" "drop 3 (udp_frames demo_frames) \<noteq> []"
    by fastforce+
  then show "rx_ready (length (udp_frames demo_frames)) (rxs demo_full)" using len by (simp add: demo_full_def)
qed (simp_all add: demo_full_def)

theorem udp_frames_roundtrip_witness:
  "\<exists>us c2'. hev_socks5_udp_recvmmsg_tcp True [replicate 20 0, replicate 20 0] [] demo_udp demo_full =
      Ret (2, us, demo_udp, c2') \<and> list_all2 umsg_is us demo_frames \<and> rx_stream (rxs c2') = []"
proof -
  have live: "udp_live (demo_udp, [])" by (simp add: udp_live_def live_def demo_udp_def)
  have ok: "\<forall>(a, d) \<in> set demo_frames. saddr_wf a \<and> length (saddr_enc a) + length d \<le> 20"
    and short: "\<forall>(a, d) \<in> set demo_frames. length (saddr_enc a) \<le> 252" by (simp_all add: demo_frames_def)
  have tx: "tx_ready (length (udp_frames demo_frames)) (txs demo_tx)"
    by (simp add: demo_frames_cut(1) demo_tx_def calm_def)
  have wf: "\<forall>(a, d) \<in> set demo_frames. saddr_wf a" by (simp add: demo_frames_def)
  have ne: "demo_frames \<noteq> []" and n2: "length demo_frames = 2" by (simp_all add: demo_frames_def)
  obtain c where c: "hev_socks5_udp_sendmmsg_tcp (map (\<lambda>(a, d). (saddr_enc a @ (\<lambda>_. []) a, d)) demo_frames) demo_udp
      demo_tx = Ret (int (length demo_frames), demo_udp, c)" "wire c = wire demo_tx @ udp_frames demo_frames"
    using sendmmsg_tcp_frames [OF live wf ne tx] .
  have st: "rx_stream (rxs demo_full) = drop (length (wire demo_tx)) (wire c) @ []"
    using c(2) demo_frames_cut(2) by simp
  have cap: "20 \<le> (65535 :: nat)" and bufs: "\<forall>b \<in> set [replicate 20 0, replicate 20 0]. length b = 20"
    "[replicate 20 0, replicate 20 0] \<noteq> []" "length [replicate 20 0, replicate 20 0] \<le> length demo_frames"
    using n2 by simp_all
  note rt = udp_frames_roundtrip [OF live live ne cap ok tx c(1) st demo_frames_cut(3) bufs]
  obtain k us c2' where k: "hev_socks5_udp_recvmmsg_tcp True [replicate 20 0, replicate 20 0] [] demo_udp demo_full =
      Ret (if k = 0 then - 1 else int k, us, demo_udp, c2')" "k \<le> length [replicate 20 (0 :: byte), replicate 20 0]"
    "list_all2 umsg_is us (take k demo_frames)" "rx_stream (rxs c2') = udp_frames (drop k demo_frames) @ []"
    "k < length [replicate 20 (0 :: byte), replicate 20 0] \<longrightarrow>
       errno_of c2' = EAGAIN \<and> rx_pauses (rxs c2') < rx_pauses (rxs demo_full)"
    using rt short by blast
  then have "k = 2" using demo_frames_cut(4) by (cases "k < 2") auto
  then show ?thesis using k n2 by (simp del: hev_socks5_udp_recvmmsg_tcp.simps)
qed

text \<open>C26. UDP in UDP, end to end: the packets built for a list of messages parse, in buffers they fit
  into, to exactly these messages.\<close>

theorem udp_packets_roundtrip:
  assumes "udp_udp_msgs (map (\<lambda>(a, d). (saddr_enc a @ x, d)) ms) = Ret (Some pkts)"
    and "\<forall>m \<in> set ms. saddr_wf (fst m) \<and> length (udp_packet m) \<le> cap"
    and "length bufs = length ms" "\<forall>b \<in> set bufs. cap \<le> length b"
  shows "\<exists>us. udp_parse (zip bufs (map snd pkts)) = Ret (Some us) \<and> list_all2 umsg_is us ms"
proof -
  have "\<forall>(a, d) \<in> set ms. saddr_wf a" using assms(2) by auto
  then have "map snd pkts = map udp_packet ms" using assms(1) udp_udp_msgs_enc [of ms x] by (auto simp: o_def)
  moreover have "\<forall>(b, m) \<in> set (zip bufs ms). saddr_wf (fst m) \<and> length (udp_packet m) \<le> length b"
    using assms(2,4) order_trans by (metis (mono_tags, lifting) case_prodI2 set_zip_leftD set_zip_rightD)
  ultimately show ?thesis using udp_parse_packets [OF assms(3)] by simp
qed

theorem udp_packets_roundtrip_witness:
  "\<exists>pkts us. udp_udp_msgs (map (\<lambda>(a, d). (saddr_enc a @ [], d)) demo_frames) = Ret (Some pkts) \<and>
    udp_parse (zip [replicate 20 0, replicate 20 0] (map snd pkts)) = Ret (Some us) \<and>
    list_all2 umsg_is us demo_frames"
proof -
  have wf: "\<forall>(a, d) \<in> set demo_frames. saddr_wf a" by (simp add: demo_frames_def)
  show ?thesis
    using udp_udp_msgs_enc [OF wf, of "[]"] udp_packets_roundtrip [OF udp_udp_msgs_enc [OF wf, of "[]"],
        of 20 "[replicate 20 0, replicate 20 0]"]
    by (simp add: demo_frames_def udp_packet_def)
qed



text \<open>The header length of a frame is one byte: for a valid address whose name has 249 to 253
  bytes it wraps below 5, and the receiver answers the well-formed message with an error, after
  it has consumed five bytes of the frame.\<close>

lemma udp_long_name_rejected:
  assumes "udp_live (self, [])" "249 \<le> length nm" "length nm \<le> 253"
    and "rxs c = [RxData (udp_frame (SName nm p, d))]"
  shows "\<exists>c'. hev_socks5_udp_recvmmsg_tcp True (buf # bufs) [] self c = Ret (- 1, [], self, c') \<and>
    rx_stream (rxs c') = drop 5 (udp_frame (SName nm p, d)) \<and> saddr_wf (SName nm p)"
proof -
  let ?f = "udp_frame (SName nm p, d)"
  let ?h = "word_of_int (7 + int (length nm)) :: byte"
  have f: "?f = [hi8 (of_nat (length d)), lo8 (of_nat (length d)), ?h, 3, of_nat (length nm)] @
      nm @ [hi8 p, lo8 p] @ d"
    by (simp add: udp_frame_def udp_tcp_hdr_def)
  have "unat ?h = (7 + length nm) mod 256"
    using unat_of_nat [of "7 + length nm", where 'a = 8] by simp
  also have "(7 + length nm) mod 256 = (7 + length nm) - 256"
    using assms(2,3) by (simp add: mod_if)
  finally have h: "unat ?h < 5" using assms(2,3) by linarith
  have "recv_udp_head True self c = Ret (5, take 5 ?f, self, c\<lparr>rxs := [RxData (drop 5 ?f)]\<rparr>)"
    using assms(2,4) by (simp add: f recv_udp_head_def hev_task_io_socket_recv_def recv_retry.simps)
  then show ?thesis using h f assms(3) by (simp add: Let_def)
qed

lemma udp_long_name_rejected_example:
  "\<exists>c'. hev_socks5_udp_recvmmsg_tcp True [replicate UDP_BUF_SIZE 0] [] demo_udp
      (demo_rx\<lparr>rxs := [RxData (udp_frame (SName (replicate 249 97) 53, [1]))]\<rparr>) = Ret (- 1, [], demo_udp, c') \<and>
    rx_stream (rxs c') = drop 5 (udp_frame (SName (replicate 249 97) 53, [1]))"
proof -
  have live: "udp_live (demo_udp, [])" by (simp add: udp_live_def live_def demo_udp_def)
  show ?thesis
    using udp_long_name_rejected [OF live, of "replicate 249 97"
        "demo_rx\<lparr>rxs := [RxData (udp_frame (SName (replicate 249 97) 53, [1]))]\<rparr>" 53 "[1]"
        "replicate UDP_BUF_SIZE 0" "[]"]
    by (simp del: hev_socks5_udp_recvmmsg_tcp.simps)
qed

text \<open>C25. The backward half of the relay: the datagrams that wait at the outgoing socket, at most as
  many as there are buffers, leave on the TCP connection as frames that name their senders, in
  order, each cut to 1500 bytes, and the round reports progress.\<close>

theorem udp_fwd_b_forwards:
  assumes "stype (robj r) = TYPE_UDP_IN_TCP" "live (robj r)"
    and "dg_take num (drx (rout r)) = (ms, es)" "ms \<noteq> []"
    and "\<forall>(sa, d) \<in> set ms. length (sin6_addr sa) = 16"
    and "fs = map (\<lambda>(sa, d). (saddr_of sa, take UDP_BUF_SIZE d)) ms"
    and "tx_ready (length (udp_frames fs)) (txs (rctl r))"
  shows "\<exists>r'. hev_socks5_udp_fwd_b num r = Ret (1, r') \<and> wire (rctl r') = wire (rctl r) @ udp_frames fs \<and>
    drx (rout r') = es \<and> rxs (rctl r') = rxs (rctl r)"
proof -
  have wf: "\<forall>(a, d) \<in> set fs. saddr_wf a"
    using assms(5) by (auto simp: assms(6) saddr_wf_of)
  have live: "udp_live (robj r, [])" using assms(1,2) by (simp add: udp_live_def)
  have rcv: "hev_task_io_socket_recvmmsg num ((rout r)\<lparr>derrno := rerrno r\<rparr>) =
      (int (length ms), ms, (rout r)\<lparr>derrno := rerrno r, drx := es\<rparr>)"
    using sys_recvmmsg_some [OF assms(3,4)] by (simp add: hev_task_io_socket_recvmmsg_def)
  have fs: "fs \<noteq> []" using assms(4,6) by simp
  let ?c = "(rctl r)\<lparr>errno_of := rerrno r\<rparr>"
  have tx: "tx_ready (length (udp_frames fs)) (txs ?c)" using assms(7) by simp
  obtain c' where "hev_socks5_udp_sendmmsg_tcp
      (map (\<lambda>(a, d). (saddr_enc a @ drop (length (saddr_enc a)) (replicate 19 0), d)) fs) (robj r) ?c =
      Ret (int (length fs), robj r, c')" "wire c' = wire ?c @ udp_frames fs" "rxs c' = rxs ?c"
    using sendmmsg_tcp_frames [OF live wf fs tx] .
  then show ?thesis
    using rcv fwd_b_msgs_enc [OF assms(5)] assms(1,4)
    by (simp add: hev_socks5_udp_fwd_b_def hev_socks5_udp_sendmmsg_def fwd_result_def assms(6) Let_def)
qed

definition demo_relay :: "socks5 relay" where
  "demo_relay = \<lparr>robj = demo_udp, rctl = demo_tx, rdg = \<lparr>drx = [], dtx = [], dout = [], dpeer = None, derrno = E_NONE\<rparr>,
     rout = \<lparr>drx = [DgData \<lparr>sin6_port = htons 53, sin6_addr = map4 [10, 0, 0, 1]\<rparr> [1, 2], DgErr], dtx = [], dout = [],
       dpeer = None, derrno = E_NONE\<rparr>, rbind = True, rerrno = E_NONE\<rparr>"

theorem udp_fwd_b_forwards_witness:
  "\<exists>r'. hev_socks5_udp_fwd_b 4 demo_relay = Ret (1, r') \<and>
    wire (rctl r') = [7] @ udp_frame (saddr_of \<lparr>sin6_port = htons 53, sin6_addr = map4 [10, 0, 0, 1]\<rparr>, [1, 2])"
proof -
  let ?sa = "\<lparr>sin6_port = htons 53, sin6_addr = map4 [10, 0, 0, 1]\<rparr>"
  have len: "length (udp_frame (saddr_of ?sa, [1, 2])) = 12"
    by (simp add: udp_frame_def udp_tcp_hdr_def saddr_of_def) (simp add: map4_def)
  have "tx_ready (length (udp_frames [(saddr_of ?sa, [1, 2])])) (txs (rctl demo_relay))"
    by (simp add: len demo_relay_def demo_tx_def calm_def)
  then show ?thesis
    using udp_fwd_b_forwards [of demo_relay 4 "[(?sa, [1, 2])]" "[DgErr]" "[(saddr_of ?sa, [1, 2])]"]
    by (auto simp: demo_relay_def demo_udp_def live_def map4_def demo_tx_def eval_nat_numeral)
qed

end
