(* ===== verification/Service.thy ===== *)
theory Service
  imports Server Splice UdpRelay
begin

text \<open>
  The life of a server connection (\<open>hev_socks5_server_service\<close> and \<open>hev_socks5_server_run\<close> of
  \<open>hev-socks5-server.c\<close>) and the TCP splicer of \<open>hev-socks5-tcp.c\<close>. The connection is the
  channel of the object; \<open>up\<close> is the connection it opened, \<open>d\<close> and \<open>out\<close> its datagram
  sockets.
\<close>

text \<open>\<open>mf\<close> and \<open>mb\<close> are the results of the allocations of the two buffers.\<close>

definition hev_socks5_tcp_splicer :: "byte list option \<Rightarrow> byte list option \<Rightarrow> nap list \<Rightarrow>
    'a socks5_scheme \<Rightarrow> chan \<Rightarrow> chan \<Rightarrow> (int \<times> 'a socks5_scheme \<times> chan \<times> chan) outcome" where
  "hev_socks5_tcp_splicer mf mb naps self c up =
     (if sfd self < 0 then Ret (- 1, self, c, up)
      else bind_o (hev_task_io_splice 8192 mf mb (Some hev_socks5_task_io_yielder) naps self c up)
        (\<lambda>(self, c, up). Ret (0, self, c, up)))"

record peers =
  up :: chan
  own_dg :: dchan
  out_dg :: dchan

text \<open>What the environment decides during the service: allocations, \<open>connect\<close> on the datagram
  socket, the sleeps, and what the receive buffers hold before a round.\<close>

record service_env =
  mem_f :: "byte list option"
  mem_b :: "byte list option"
  udp_bufs :: "byte list list option"
  connect_ok :: bool
  naps :: "nap list"
  rounds :: "(nap \<times> byte list list) list"

definition hev_socks5_server_service :: "socks5_params \<Rightarrow> resolver \<Rightarrow>
    ('a server_scheme \<Rightarrow> fd \<Rightarrow> sockaddr6 \<Rightarrow> int) \<Rightarrow> service_env \<Rightarrow> 'a server_scheme \<Rightarrow> chan \<Rightarrow> peers \<Rightarrow>
    (int \<times> 'a server_scheme \<times> chan \<times> peers) outcome" where
  "hev_socks5_server_service g rv binder env self c p =
     (if stype self = TYPE_TCP then
        bind_o (hev_socks5_tcp_splicer (mem_f env) (mem_b env) (naps env) self c (up p))
          (\<lambda>(_, self, c, u). Ret (0, self, c, p\<lparr>up := u\<rparr>))
      else if stype self = TYPE_UDP_IN_UDP \<or> stype self = TYPE_UDP_IN_TCP then
        bind_o (hev_socks5_udp_splicer rv (\<lambda>s. binder s (fds0 s)) (connect_ok env) (udp_bufs env) (rounds env)
            \<lparr>robj = hev_socks5_set_timeout self (udp_timeout g), rctl = c, rdg = own_dg p,
             rout = out_dg p, rbind = False, rerrno = errno_of c\<rparr>)
          (\<lambda>(_, r). Ret (0, robj r, rctl r, p\<lparr>own_dg := rdg r, out_dg := rout r\<rparr>))
      else Ret (- 1, self, c, p))"

definition hev_socks5_server_run :: "socks5_params \<Rightarrow> resolver \<Rightarrow>
    ('a server_scheme \<Rightarrow> fd \<Rightarrow> sockaddr6 \<Rightarrow> int) \<Rightarrow> sockaddr6 \<Rightarrow> service_env \<Rightarrow> peers \<Rightarrow>
    'a server_scheme \<Rightarrow> chan \<Rightarrow> os \<Rightarrow> (int \<times> 'a server_scheme \<times> chan \<times> os \<times> peers) outcome" where
  "hev_socks5_server_run g rv binder addr env p self c w =
     bind_o (hev_socks5_server_handshake g rv binder addr self c w) (\<lambda>(res, self, c, w).
       if res < 0 then Ret (- 1, self, c, w, p)
       else bind_o (hev_socks5_server_service g rv binder env self c p) (\<lambda>(res, self, c, p).
         if res < 0 then Ret (- 1, self, c, w, p) else Ret (0, self, c, w, p)))"

text \<open>C22. A server connection for TCP relays faithfully and only after its handshake: when the run
  of the connection returns, either it failed and no byte reached the upstream, or the handshake
  succeeded and from that point on the client's and the upstream's streams were forwarded in order,
  up to one 8192-byte buffer in each direction.\<close>

theorem server_run_relays:
  assumes "hev_socks5_server_run g rv binder sa0 env p s c w = Ret (x, s', c', w', p')"
    and "mem_f env = Some mf" "mem_b env = Some mb" "length mf = 8192" "length mb = 8192"
  shows "\<exists>r s1 c1 w1. hev_socks5_server_handshake g rv binder sa0 s c w = Ret (r, s1, c1, w1) \<and>
    (if r < 0 then x = - 1 \<and> p' = p \<and> c' = c1
     else if stype s1 = TYPE_TCP \<and> 0 \<le> sfd s1 then
       x = 0 \<and> relayed 8192 c1 (up p) c' (up p') \<and> relayed 8192 (up p) c1 (up p') c'
     else stype s1 = TYPE_TCP \<or> stype s1 = TYPE_NONE \<longrightarrow> p' = p \<and> c' = c1)"
proof -
  obtain r s1 c1 w1 where h: "hev_socks5_server_handshake g rv binder sa0 s c w = Ret (r, s1, c1, w1)"
    using assms(1) by (auto simp: hev_socks5_server_run_def bind_o_Ret_iff)
  have "relayed 8192 c1 (up p) c2 u \<and> relayed 8192 (up p) c1 u c2"
    if "hev_task_io_splice 8192 (Some mf) (Some mb) (Some hev_socks5_task_io_yielder) (naps env) s1 c1 (up p) =
      Ret (s2, c2, u)" for s2 c2 u
    using splice_relayed [of 8192 mf mb "Some hev_socks5_task_io_yielder" "naps env" s1 c1 "up p" s2 c2 u]
      that assms(4,5) by simp
  then show ?thesis using assms(1-3) h
    by (auto simp: hev_socks5_server_run_def hev_socks5_server_service_def hev_socks5_tcp_splicer_def
        bind_o_Ret_iff split: if_splits)
qed

definition demo_peers :: peers where
  "demo_peers = \<lparr>up = \<lparr>rxs = [], txs = [], wire = [], wr_shut = False, errno_of = E_NONE\<rparr>,
     own_dg = \<lparr>drx = [], dtx = [], dout = [], dpeer = None, derrno = E_NONE\<rparr>,
     out_dg = \<lparr>drx = [], dtx = [], dout = [], dpeer = None, derrno = E_NONE\<rparr>\<rparr>"

definition demo_env :: service_env where
  "demo_env = \<lparr>mem_f = Some (replicate 8192 0), mem_b = Some (replicate 8192 0), udp_bufs = None,
     connect_ok = True, naps = [Nap 0 False], rounds = []\<rparr>"

lemma demo_handshake_state:
  "case hev_socks5_server_handshake socks5_default_params demo_resolver (\<lambda>s f a. 0) sockaddr6_zero
      demo_server demo_server_chan demo_os of
     Ret (x, s, c, w) \<Rightarrow> x = 0 \<and> stype s = TYPE_TCP \<and> sfd s = 3 \<and> timeout s = 300000 \<and> rxs c = []
   | _ \<Rightarrow> False"
  by code_simp

theorem server_run_relays_witness:
  "\<exists>s1 c1 w1 s' c' w' p'. hev_socks5_server_run socks5_default_params demo_resolver (\<lambda>s f a. 0) sockaddr6_zero
      demo_env demo_peers demo_server demo_server_chan demo_os = Ret (0, s', c', w', p') \<and>
    hev_socks5_server_handshake socks5_default_params demo_resolver (\<lambda>s f a. 0) sockaddr6_zero
      demo_server demo_server_chan demo_os = Ret (0, s1, c1, w1) \<and> relayed 8192 c1 (up demo_peers) c' (up p')"
proof -
  obtain s1 c1 w1 where h: "hev_socks5_server_handshake socks5_default_params demo_resolver (\<lambda>s f a. 0)
      sockaddr6_zero demo_server demo_server_chan demo_os = Ret (0, s1, c1, w1)"
    and s1: "stype s1 = TYPE_TCP" "sfd s1 = 3" "timeout s1 = 300000" "rxs c1 = []"
    using demo_handshake_state by (auto split: outcome.splits prod.splits)
  have "is_ret (hev_task_io_splice 8192 (mem_f demo_env) (mem_b demo_env) (Some hev_socks5_task_io_yielder)
      (naps demo_env) s1 c1 (up demo_peers))"
    by (simp add: hev_task_io_splice_def task_io_splicer_init_def hev_circular_buffer_new_def demo_env_def
        splice_loop.simps splice_round_def task_io_splice_def splice_in_def splice_out_def
        hev_circular_buffer_writing_def hev_circular_buffer_reading_def readv_nb_def s1 demo_peers_def
        hev_socks5_task_io_yielder_def hev_task_sleep_def)
  then obtain s' c' p' where run: "hev_socks5_server_run socks5_default_params demo_resolver (\<lambda>s f a. 0)
      sockaddr6_zero demo_env demo_peers demo_server demo_server_chan demo_os = Ret (0, s', c', w1, p')"
    using h s1 by (auto simp: is_ret_def hev_socks5_server_run_def hev_socks5_server_service_def
        hev_socks5_tcp_splicer_def)
  from server_run_relays [OF run, of "replicate 8192 0" "replicate 8192 0"]
  have "relayed 8192 c1 (up demo_peers) c' (up p')"
    using h s1 by (simp add: demo_env_def)
  then show ?thesis using run h by blast
qed

end
