(* ===== verification/Authenticator.thy ===== *)
theory Authenticator
  imports RBTree Service
begin

text \<open>
  The user table of the server (\<open>hev-socks5-authenticator.c\<close>): a red-black tree of users, ordered by
  the length of their names and then by \<open>memcmp\<close>. The theorems show that it is a finite map from
  names to users, and what that means for a server that uses it.
\<close>

section \<open>Comparing names\<close>

text \<open>\<open>memcmp\<close> on two areas of the same length: the sign of the first difference.\<close>

fun memcmp :: "byte list \<Rightarrow> byte list \<Rightarrow> int" where
  "memcmp (a # as) (b # bs) = (if a < b then - 1 else if b < a then 1 else memcmp as bs)"
| "memcmp _ _ = 0"

definition name_cmp :: "byte list \<Rightarrow> byte list \<Rightarrow> int" where
  "name_cmp this name =
     (if length this < length name then - 1
      else if length this > length name then 1
      else memcmp this name)"

lemma memcmp_zero: "length a = length b \<Longrightarrow> memcmp a b = 0 \<longleftrightarrow> a = b"
  by (induction a b rule: list_induct2) auto

lemma memcmp_anti: "memcmp a b < 0 \<longleftrightarrow> memcmp b a > 0"
  by (induction a b rule: memcmp.induct) auto

lemma memcmp_trans:
  "length a = length b \<Longrightarrow> length b = length c \<Longrightarrow> memcmp a b > 0 \<Longrightarrow> memcmp b c > 0 \<Longrightarrow> memcmp a c > 0"
  by (induction a b c rule: list_induct3) (auto split: if_splits)

interpretation names: search_order user_name name_cmp
proof unfold_locales
  show "name_cmp a b = 0 \<longleftrightarrow> a = b" for a b
    using memcmp_zero [of a b] by (auto simp: name_cmp_def)
  show "name_cmp a b < 0 \<longleftrightarrow> name_cmp b a > 0" for a b
    using memcmp_anti [of a b] by (auto simp: name_cmp_def)
  show "name_cmp a c > 0" if "name_cmp a b > 0" "name_cmp b c > 0" for a b c
    using that memcmp_trans [of a b c] by (auto simp: name_cmp_def split: if_splits)
qed

section \<open>Operations\<close>

type_synonym authenticator = "user rbt"

definition hev_socks5_authenticator_construct :: authenticator where
  "hev_socks5_authenticator_construct = Nil"

definition hev_socks5_authenticator_add :: "user \<Rightarrow> authenticator \<Rightarrow> (int \<times> authenticator) outcome" where
  "hev_socks5_authenticator_add user self =
     (case descend (\<lambda>this. name_cmp (user_name this) (user_name user)) self [] of
        (Nd l c x r, _) \<Rightarrow> Ret (- 1, self)
      | (Nil, new) \<Rightarrow>
          bind_o (hev_rbtree_insert_color (hev_rbtree_node_link user) new) (\<lambda>tree. Ret (0, tree)))"

definition hev_socks5_authenticator_del :: "byte list \<Rightarrow> authenticator \<Rightarrow> (int \<times> authenticator) outcome" where
  "hev_socks5_authenticator_del name self =
     (case descend (\<lambda>this. name_cmp (user_name this) name) self [] of
        (Nil, _) \<Rightarrow> Ret (- 1, self)
      | (node, path) \<Rightarrow> bind_o (hev_rbtree_erase node path) (\<lambda>tree. Ret (0, tree)))"

definition hev_socks5_authenticator_get :: "authenticator \<Rightarrow> byte list \<Rightarrow> user option" where
  "hev_socks5_authenticator_get self name =
     (case fst (descend (\<lambda>this. name_cmp (user_name this) name) self []) of
        Nil \<Rightarrow> None | Nd l c x r \<Rightarrow> Some x)"

text \<open>The loop of \<open>hev_socks5_authenticator_clear\<close>; \<open>n\<close> bounds its rounds.\<close>

fun clear_loop :: "nat \<Rightarrow> authenticator \<Rightarrow> authenticator outcome" where
  "clear_loop n self =
     (case hev_rbtree_first self of
        None \<Rightarrow> Ret self
      | Some (node, path) \<Rightarrow>
          (case n of 0 \<Rightarrow> Wait | Suc m \<Rightarrow> bind_o (hev_rbtree_erase node path) (clear_loop m)))"

declare clear_loop.simps [simp del]

definition hev_socks5_authenticator_clear :: "authenticator \<Rightarrow> authenticator outcome" where
  "hev_socks5_authenticator_clear self = clear_loop (length (inorder self)) self"

section \<open>The map it is\<close>

lemma get_eq_elem: "hev_socks5_authenticator_get self name = names.elem name self"
  by (simp add: hev_socks5_authenticator_get_def names.elem_def)

lemma get_iff:
  "names.tree_ok self \<Longrightarrow>
   hev_socks5_authenticator_get self name = Some u \<longleftrightarrow> u \<in> set (inorder self) \<and> user_name u = name"
  by (simp add: get_eq_elem names.elem_iff)

text \<open>Two trees with users related by insertion and removal have the maps one expects.\<close>

lemma get_insert:
  assumes "names.tree_ok t" "names.tree_ok t'" "set (inorder t') = insert u (set (inorder t))"
    and "hev_socks5_authenticator_get t (user_name u) = None"
  shows "hev_socks5_authenticator_get t' = (hev_socks5_authenticator_get t)(user_name u \<mapsto> u)"
proof
  fix name
  have no: "v \<in> set (inorder t) \<Longrightarrow> user_name v \<noteq> user_name u" for v
    using get_iff [OF assms(1), of "user_name u" v] assms(4) by auto
  show "hev_socks5_authenticator_get t' name = ((hev_socks5_authenticator_get t)(user_name u \<mapsto> u)) name"
  proof (cases "name = user_name u")
    case True
    then show ?thesis using assms(2,3) get_iff [of t'] by simp
  next
    case False
    then have "hev_socks5_authenticator_get t' name = Some v \<longleftrightarrow> hev_socks5_authenticator_get t name = Some v" for v
      using get_iff [OF assms(1)] get_iff [OF assms(2)] assms(3) by auto
    then show ?thesis using False by (cases "hev_socks5_authenticator_get t name";
        cases "hev_socks5_authenticator_get t' name") auto
  qed
qed

lemma get_remove:
  assumes "names.tree_ok t" "names.tree_ok t'" "set (inorder t') = set (inorder t) - {u}"
    and "hev_socks5_authenticator_get t name = Some u"
  shows "hev_socks5_authenticator_get t' = (hev_socks5_authenticator_get t)(name := None)"
proof
  fix n
  have u: "user_name u = name" "u \<in> set (inorder t)" using assms(1,4) get_iff by blast+
  have "hev_socks5_authenticator_get t' n = Some v \<longleftrightarrow>
      n \<noteq> name \<and> hev_socks5_authenticator_get t n = Some v" for v
    using get_iff [OF assms(1)] get_iff [OF assms(2)] assms(3) u names.keys_differ [OF assms(1)] by auto
  then show "hev_socks5_authenticator_get t' n = ((hev_socks5_authenticator_get t)(name := None)) n"
    by (cases "hev_socks5_authenticator_get t n"; cases "hev_socks5_authenticator_get t' n") auto
qed

lemma add_ok:
  assumes "names.tree_ok self"
  shows "\<exists>r t. hev_socks5_authenticator_add user self = Ret (r, t) \<and> names.tree_ok t \<and>
    (case hev_socks5_authenticator_get self (user_name user) of
       Some v \<Rightarrow> r = - 1 \<and> t = self
     | None \<Rightarrow> r = 0 \<and> hev_socks5_authenticator_get t =
         (hev_socks5_authenticator_get self)(user_name user \<mapsto> user))"
proof -
  obtain u fs where d: "descend (\<lambda>this. name_cmp (user_name this) (user_name user)) self [] = (u, fs)"
    by fastforce
  show ?thesis
  proof (cases u)
    case Nil
    obtain t where t: "hev_rbtree_insert_color (hev_rbtree_node_link user) fs = Ret t" "names.tree_ok t"
      "set (inorder t) = insert user (set (inorder self))"
      using names.insert_elem [OF assms d [unfolded Nil]] by blast
    have "hev_socks5_authenticator_get self (user_name user) = None"
      using d Nil by (simp add: hev_socks5_authenticator_get_def)
    then show ?thesis
      using d Nil t get_insert [OF assms t(2,3)] by (simp add: hev_socks5_authenticator_add_def)
  next
    case (Nd l c x r)
    then show ?thesis using d assms
      by (simp add: hev_socks5_authenticator_add_def hev_socks5_authenticator_get_def)
  qed
qed

lemma del_ok:
  assumes "names.tree_ok self"
  shows "\<exists>r t. hev_socks5_authenticator_del name self = Ret (r, t) \<and> names.tree_ok t \<and>
    r = (if hev_socks5_authenticator_get self name = None then - 1 else 0) \<and>
    hev_socks5_authenticator_get t = (hev_socks5_authenticator_get self)(name := None)"
proof -
  obtain u fs where d: "descend (\<lambda>this. name_cmp (user_name this) name) self [] = (u, fs)" by fastforce
  show ?thesis
  proof (cases u)
    case Nil
    then show ?thesis using d assms
      by (auto simp: hev_socks5_authenticator_del_def hev_socks5_authenticator_get_def)
  next
    case (Nd l c x r)
    have z: "zip_up (Nd l c x r) fs = self" using zip_descend [OF d] Nd by simp
    obtain t where t: "hev_rbtree_erase (Nd l c x r) fs = Ret t" "names.tree_ok t"
      "set (inorder t) = set (inorder self) - {x}"
      using names.erase_elem [of l c x r fs] assms z by auto
    have g: "hev_socks5_authenticator_get self name = Some x"
      using d Nd by (simp add: hev_socks5_authenticator_get_def)
    then show ?thesis using d Nd t get_remove [OF assms t(2,3) g]
      by (simp add: hev_socks5_authenticator_del_def)
  qed
qed

lemma clear_loop_ok: "names.tree_ok self \<Longrightarrow> length (inorder self) \<le> n \<Longrightarrow> clear_loop n self = Ret Nil"
proof (induction n arbitrary: self)
  case 0
  then show ?case by (cases self) (simp_all add: clear_loop.simps [of 0] hev_rbtree_first_def)
next
  case (Suc n)
  show ?case
  proof (cases self)
    case Nil
    then show ?thesis by (simp add: clear_loop.simps hev_rbtree_first_def)
  next
    case (Nd l c x r)
    obtain u gs where lm: "leftmost (Nd l c x r) [] = (u, gs)" by fastforce
    obtain c' y r' where u: "u = Nd Nil c' y r'" using leftmost_Nd [OF lm] by blast
    have z: "zip_up (Nd Nil c' y r') gs = self" using zip_leftmost [OF lm] Nd u by simp
    obtain t where t: "hev_rbtree_erase (Nd Nil c' y r') gs = Ret t" "names.tree_ok t"
      "Suc (length (inorder t)) = length (inorder self)"
      using names.erase_elem [of Nil c' y r' gs] Suc.prems(1) z by auto
    have "clear_loop n t = Ret Nil" by (rule Suc.IH) (use t Suc.prems(2) in simp_all)
    then show ?thesis using Nd lm u t by (simp add: clear_loop.simps [of "Suc n"] hev_rbtree_first_def)
  qed
qed

section \<open>Theorems\<close>

text \<open>A history of changes to the table, and the specification: a map from names to users in which
  a user is never replaced.\<close>

datatype auth_op = AuthAdd user | AuthDel "byte list" | AuthClear

fun auth_run :: "auth_op list \<Rightarrow> authenticator \<Rightarrow> authenticator outcome" where
  "auth_run [] self = Ret self"
| "auth_run (AuthAdd u # ops) self = bind_o (hev_socks5_authenticator_add u self) (\<lambda>(_, t). auth_run ops t)"
| "auth_run (AuthDel n # ops) self = bind_o (hev_socks5_authenticator_del n self) (\<lambda>(_, t). auth_run ops t)"
| "auth_run (AuthClear # ops) self = bind_o (hev_socks5_authenticator_clear self) (auth_run ops)"

fun auth_spec :: "auth_op list \<Rightarrow> (byte list \<rightharpoonup> user) \<Rightarrow> (byte list \<rightharpoonup> user)" where
  "auth_spec [] m = m"
| "auth_spec (AuthAdd u # ops) m =
     auth_spec ops (if m (user_name u) = None then m(user_name u \<mapsto> u) else m)"
| "auth_spec (AuthDel n # ops) m = auth_spec ops (m(n := None))"
| "auth_spec (AuthClear # ops) m = auth_spec ops Map.empty"

lemma get_Nil: "hev_socks5_authenticator_get Nil = Map.empty"
  by (simp add: hev_socks5_authenticator_get_def fun_eq_iff)

lemma auth_run_spec:
  "names.tree_ok self \<Longrightarrow> \<exists>t. auth_run ops self = Ret t \<and> names.tree_ok t \<and>
     hev_socks5_authenticator_get t = auth_spec ops (hev_socks5_authenticator_get self)"
proof (induction ops arbitrary: self)
  case (Cons op ops)
  show ?case
  proof (cases op)
    case (AuthAdd u)
    obtain r t where t: "hev_socks5_authenticator_add u self = Ret (r, t)" "names.tree_ok t"
      "hev_socks5_authenticator_get t = (if hev_socks5_authenticator_get self (user_name u) = None
        then (hev_socks5_authenticator_get self)(user_name u \<mapsto> u) else hev_socks5_authenticator_get self)"
      using add_ok [OF Cons.prems, of u] by (auto split: option.splits)
    then show ?thesis using Cons.IH [OF t(2)] AuthAdd by simp
  next
    case (AuthDel n)
    then show ?thesis using del_ok [OF Cons.prems, of n] Cons.IH by fastforce
  next
    case AuthClear
    then show ?thesis
      using Cons.IH [OF names.tree_ok_Nil] clear_loop_ok [OF Cons.prems]
      by (simp add: hev_socks5_authenticator_clear_def get_Nil)
  qed
qed simp

text \<open>C27. The authenticator refines a finite map: over every history of additions, deletions and
  clearings it dereferences no null pointer, stays a valid search tree, and its lookups are those
  of the map.\<close>

theorem authenticator_refines_map:
  "\<exists>t. auth_run ops hev_socks5_authenticator_construct = Ret t \<and> names.tree_ok t \<and>
     hev_socks5_authenticator_get t = auth_spec ops Map.empty"
  using auth_run_spec [OF names.tree_ok_Nil, of ops]
  by (simp add: hev_socks5_authenticator_construct_def get_Nil)

text \<open>C28. A server that asks an authenticator built by any history of changes completes a
  handshake only for a user that the history left in the table, and only when the client's input
  held this user's name and password.\<close>

theorem server_serves_listed_users:
  assumes "auth_run ops hev_socks5_authenticator_construct = Ret t"
    and "hev_socks5_server_handshake g rv binder sa0 s c w = Ret (0, s', c', w')"
    and "obj s = AuthObj (hev_socks5_authenticator_get t)"
  shows "\<exists>u. obj s' = UserObj u \<and> auth_spec ops Map.empty (user_name u) = Some u \<and>
    checked (hev_socks5_authenticator_get t) u (rx_stream (rxs c))"
proof -
  obtain t' where t: "auth_run ops hev_socks5_authenticator_construct = Ret t'" "names.tree_ok t'"
    "hev_socks5_authenticator_get t' = auth_spec ops Map.empty"
    using auth_run_spec [OF names.tree_ok_Nil, of ops]
    by (auto simp: hev_socks5_authenticator_construct_def get_Nil)
  then have "t' = t" using assms(1) by simp
  obtain u where u: "obj s' = UserObj u" "checked (hev_socks5_authenticator_get t) u (rx_stream (rxs c))"
    using server_handshake_checked [OF assms(2) _ assms(3)] by auto
  then obtain name where "hev_socks5_authenticator_get t name = Some u" by (auto simp: checked_def)
  then have "auth_spec ops Map.empty (user_name u) = Some u"
    using t \<open>t' = t\<close> get_iff [of t name u] by auto
  then show ?thesis using u by blast
qed

definition demo_auth_ops :: "auth_op list" where
  "demo_auth_ops = [AuthAdd \<lparr>user_name = [120, 121], user_pass = [1]\<rparr>, AuthAdd \<lparr>user_name = [117], user_pass = [112]\<rparr>,
     AuthDel [120, 121]]"

lemma demo_auth_returns:
  "case auth_run demo_auth_ops hev_socks5_authenticator_construct of
     Ret t \<Rightarrow> (case hev_socks5_server_handshake socks5_default_params demo_resolver (\<lambda>s f a. 0) sockaddr6_zero
         (demo_server\<lparr>obj := AuthObj (hev_socks5_authenticator_get t)\<rparr>) demo_server_chan demo_os of
       Ret (x, s, c, w) \<Rightarrow> x = 0 | _ \<Rightarrow> False)
   | _ \<Rightarrow> False"
  by code_simp

theorem server_serves_listed_users_witness:
  "\<exists>t s' c' w' u. hev_socks5_server_handshake socks5_default_params demo_resolver (\<lambda>s f a. 0) sockaddr6_zero
      (demo_server\<lparr>obj := AuthObj (hev_socks5_authenticator_get t)\<rparr>) demo_server_chan demo_os =
      Ret (0, s', c', w') \<and> obj s' = UserObj u \<and> auth_spec demo_auth_ops Map.empty (user_name u) = Some u"
proof -
  obtain t s' c' w' where t: "auth_run demo_auth_ops hev_socks5_authenticator_construct = Ret t"
    and h: "hev_socks5_server_handshake socks5_default_params demo_resolver (\<lambda>s f a. 0) sockaddr6_zero
      (demo_server\<lparr>obj := AuthObj (hev_socks5_authenticator_get t)\<rparr>) demo_server_chan demo_os =
      Ret (0, s', c', w')"
    using demo_auth_returns by (auto split: outcome.splits prod.splits)
  show ?thesis using server_serves_listed_users [OF t h] h by auto
qed

end
