(* ===== verification/Pbuf.thy ===== *)
theory Pbuf
  imports Prelude "HOL-Library.Finite_Map"
begin

text \<open>
  The packet buffers of lwIP (\<open>third-part/lwip/src/core/pbuf.c\<close>) that carry every packet between
  the tunnel device and the sessions. A buffer is an object of a finite heap; it has a reference
  count, its own length and the length of the chain that starts at it, all at the width of the C
  fields. A failed \<open>LWIP_ASSERT\<close> stops the process and is a \<open>Fault\<close>, as is the use of a freed
  buffer. Custom buffers (made by IP fragmentation and by the Windows device only) are outside the
  model: freeing one is a \<open>Fault\<close>. A walk along a chain visits at most as many buffers as the heap
  has; a longer walk goes round in a cycle, so running out of that bound is the outcome of a loop
  that does not end (\<open>Wait\<close>).
\<close>

section \<open>Buffers and their heap\<close>

text \<open>\<open>payload\<close> is an offset into \<open>area\<close>: the memory behind the structure for a buffer that owns
  its data, the referenced memory otherwise.\<close>

record pbuf =
  pnext :: "nat option"
  area :: "byte list"
  payload :: int
  tot_len :: u16
  plen :: u16
  type_internal :: byte
  flags :: byte
  ref :: byte
  if_idx :: byte

text \<open>The live buffers, and what the allocator answers to the next requests: an address and the
  bytes found there, or nothing.\<close>

record pmem =
  objs :: "(nat, pbuf) fmap"
  spare :: "(nat \<times> (nat \<Rightarrow> byte)) option list"

definition deref :: "nat \<Rightarrow> pmem \<Rightarrow> pbuf outcome" where
  "deref a m = of_option (fmlookup (objs m) a)"

definition upd :: "nat \<Rightarrow> pbuf \<Rightarrow> pmem \<Rightarrow> pmem" where
  "upd a b m = m\<lparr>objs := fmupd a b (objs m)\<rparr>"

definition free_obj :: "nat \<Rightarrow> pmem \<Rightarrow> pmem" where
  "free_obj a m = m\<lparr>objs := fmdrop a (objs m)\<rparr>"

definition alloc :: "pmem \<Rightarrow> (nat \<times> (nat \<Rightarrow> byte)) option \<times> pmem" where
  "alloc m = (case spare m of [] \<Rightarrow> (None, m) | x # xs \<Rightarrow> (x, m\<lparr>spare := xs\<rparr>))"

abbreviation (input) PBUF_RAM :: byte where "PBUF_RAM \<equiv> 0x80"
abbreviation (input) PBUF_ROM :: byte where "PBUF_ROM \<equiv> 0x01"
abbreviation (input) PBUF_REF :: byte where "PBUF_REF \<equiv> 0x41"
abbreviation (input) PBUF_POOL :: byte where "PBUF_POOL \<equiv> 0x82"
abbreviation (input) PBUF_FLAG_IS_CUSTOM :: byte where "PBUF_FLAG_IS_CUSTOM \<equiv> 0x02"
abbreviation (input) PBUF_TYPE_FLAG_STRUCT_DATA_CONTIGUOUS :: byte where
  "PBUF_TYPE_FLAG_STRUCT_DATA_CONTIGUOUS \<equiv> 0x80"
abbreviation (input) PBUF_TYPE_ALLOC_SRC_MASK :: byte where "PBUF_TYPE_ALLOC_SRC_MASK \<equiv> 0x0F"
abbreviation (input) PBUF_RAW :: u16 where "PBUF_RAW \<equiv> 0"
abbreviation (input) PBUF_TRANSPORT :: u16 where "PBUF_TRANSPORT \<equiv> 76"
abbreviation (input) PBUF_POOL_BUFSIZE :: nat where "PBUF_POOL_BUFSIZE \<equiv> 8248"

section \<open>Allocation\<close>

definition pbuf_init_alloced_pbuf :: "byte list \<Rightarrow> int \<Rightarrow> u16 \<Rightarrow> u16 \<Rightarrow> byte \<Rightarrow> byte \<Rightarrow> pbuf" where
  "pbuf_init_alloced_pbuf mem pay tot l type fl =
     \<lparr>pnext = None, area = mem, payload = pay, tot_len = tot, plen = l, type_internal = type,
      flags = fl, ref = 1, if_idx = 0\<rparr>"

definition mem_align_size :: "nat \<Rightarrow> nat" where
  "mem_align_size n = (n + 3) div 4 * 4"

definition pbuf_alloc_reference :: "byte list \<Rightarrow> u16 \<Rightarrow> byte \<Rightarrow> pmem \<Rightarrow> (nat option \<times> pmem) outcome" where
  "pbuf_alloc_reference mem len type m =
     (if type \<noteq> PBUF_REF \<and> type \<noteq> PBUF_ROM then Fault
      else case alloc m of
        (None, m) \<Rightarrow> Ret (None, m)
      | (Some (a, junk), m) \<Rightarrow>
          Ret (Some a, upd a (pbuf_init_alloced_pbuf mem 0 len len type 0) m))"

text \<open>\<open>pbuf_free\<close> follows the chain as long as the buffers it meets are no longer referenced. Each
  turn removes a buffer from the heap.\<close>

function pbuf_free_loop :: "nat option \<Rightarrow> byte \<Rightarrow> pmem \<Rightarrow> (byte \<times> pmem) outcome" where
  "pbuf_free_loop p count m =
     (case p of
        None \<Rightarrow> Ret (count, m)
      | Some a \<Rightarrow>
          (case fmlookup (objs m) a of
             None \<Rightarrow> Fault
           | Some b \<Rightarrow>
               if ref b = 0 then Fault
               else if ref b - 1 = 0 then
                 if flags b AND PBUF_FLAG_IS_CUSTOM \<noteq> 0 \<or>
                    type_internal b AND PBUF_TYPE_ALLOC_SRC_MASK \<notin> {0, 1, 2} then Fault
                 else pbuf_free_loop (pnext b) (count + 1) (free_obj a m)
               else Ret (count, upd a (b\<lparr>ref := ref b - 1\<rparr>) m)))"
  by pat_completeness auto
termination
proof (relation "measure (\<lambda>(p, c, m). fcard (fmdom (objs m)))", goal_cases)
  case (2 p count m a b)
  then have "a |\<in>| fmdom (objs m)" by (simp add: fmlookup_dom_iff)
  then show ?case using fcard_fminus1_less [of a "fmdom (objs m)"] by (simp add: free_obj_def)
qed simp

declare pbuf_free_loop.simps [simp del]

definition pbuf_free :: "nat option \<Rightarrow> pmem \<Rightarrow> (byte \<times> pmem) outcome" where
  "pbuf_free p m = (if p = None then Fault else pbuf_free_loop p 0 m)"

text \<open>A chain of pool buffers, each as long as the pool allows; when the pool runs dry what was
  allocated so far is freed. \<open>head\<close> and \<open>prev\<close> are the variables \<open>p\<close> and \<open>last\<close>.\<close>

function pool_loop :: "u16 \<Rightarrow> u16 \<Rightarrow> nat option \<Rightarrow> nat option \<Rightarrow> pmem \<Rightarrow> (nat option \<times> pmem) outcome" where
  "pool_loop off rem_len head prev m =
     (case alloc m of
        (None, m) \<Rightarrow>
          if head = None then Ret (None, m)
          else bind_o (pbuf_free head m) (\<lambda>(n, m). Ret (None, m))
      | (Some (a, junk), m) \<Rightarrow>
          let space = of_nat PBUF_POOL_BUFSIZE - of_nat (mem_align_size (unat off)) :: u16;
              qlen = min rem_len space;
              b = pbuf_init_alloced_pbuf (map junk [0..<PBUF_POOL_BUFSIZE]) (int (mem_align_size (unat off)))
                    rem_len qlen PBUF_POOL 0
          in
          if space = 0 then Fault
          else bind_o (case prev of
                         None \<Rightarrow> Ret m
                       | Some l \<Rightarrow> bind_o (deref l m) (\<lambda>lb. Ret (upd l (lb\<lparr>pnext := Some a\<rparr>) m))) (\<lambda>m.
            let m = upd a b m; head = (if head = None then Some a else head) in
            if rem_len - qlen = 0 then Ret (head, m)
            else pool_loop 0 (rem_len - qlen) head (Some a) m))"
  by pat_completeness auto
termination
proof (relation "measure (\<lambda>(off, l, h, p, m). unat l)", goal_cases)
  case (2 off rem_len head prev m z m1 y a junk space qlen b m2 m3 h)
  then have "qlen \<noteq> 0" "qlen \<le> rem_len" by (auto simp: min_def)
  then have "0 < unat qlen" "unat qlen \<le> unat rem_len" by (simp_all add: unat_gt_0 word_le_nat_alt)
  then have "rem_len - qlen < rem_len" by (simp add: word_less_nat_alt unat_sub word_le_nat_alt)
  then show ?case by (simp add: word_less_nat_alt)
qed simp

declare pool_loop.simps [simp del]

text \<open>The overflow test of the \<open>PBUF_RAM\<close> case cannot fire: lengths are 16 bits wide and sizes 64.\<close>

definition pbuf_alloc :: "u16 \<Rightarrow> u16 \<Rightarrow> byte \<Rightarrow> pmem \<Rightarrow> (nat option \<times> pmem) outcome" where
  "pbuf_alloc layer len type m =
     (if type = PBUF_REF \<or> type = PBUF_ROM then pbuf_alloc_reference [] len type m
      else if type = PBUF_POOL then pool_loop layer len None None m
      else if type = PBUF_RAM then
        let payload_len = mem_align_size (unat layer) + mem_align_size (unat len) in
        (case alloc m of
           (None, m) \<Rightarrow> Ret (None, m)
         | (Some (a, junk), m) \<Rightarrow>
             Ret (Some a, upd a (pbuf_init_alloced_pbuf (map junk [0..<payload_len])
               (int (mem_align_size (unat layer))) len len type 0) m))
      else Fault)"

section \<open>Headers\<close>

definition pbuf_add_header_impl :: "nat \<Rightarrow> size_t \<Rightarrow> bool \<Rightarrow> pmem \<Rightarrow> (byte \<times> pmem) outcome" where
  "pbuf_add_header_impl p incr force m =
     (if incr > 0xFFFF then Ret (1, m)
      else if incr = 0 then Ret (0, m)
      else bind_o (deref p m) (\<lambda>b.
        let mag = ucast incr :: u16; pay = payload b - uint incr in
        if mag + tot_len b < mag then Ret (1, m)
        else if type_internal b AND PBUF_TYPE_FLAG_STRUCT_DATA_CONTIGUOUS \<noteq> 0 \<and> pay < 0 then Ret (1, m)
        else if type_internal b AND PBUF_TYPE_FLAG_STRUCT_DATA_CONTIGUOUS = 0 \<and> \<not> force then Ret (1, m)
        else Ret (0, upd p (b\<lparr>payload := pay, plen := plen b + mag, tot_len := tot_len b + mag\<rparr>) m)))"

definition pbuf_add_header :: "nat \<Rightarrow> size_t \<Rightarrow> pmem \<Rightarrow> (byte \<times> pmem) outcome" where
  "pbuf_add_header p incr m = pbuf_add_header_impl p incr False m"

definition pbuf_add_header_force :: "nat \<Rightarrow> size_t \<Rightarrow> pmem \<Rightarrow> (byte \<times> pmem) outcome" where
  "pbuf_add_header_force p incr m = pbuf_add_header_impl p incr True m"

definition pbuf_remove_header :: "nat \<Rightarrow> size_t \<Rightarrow> pmem \<Rightarrow> (byte \<times> pmem) outcome" where
  "pbuf_remove_header p decr m =
     (if decr > 0xFFFF then Ret (1, m)
      else if decr = 0 then Ret (0, m)
      else bind_o (deref p m) (\<lambda>b.
        let mag = ucast decr :: u16 in
        if \<not> mag \<le> plen b then Ret (1, m)
        else Ret (0, upd p (b\<lparr>payload := payload b + uint decr, plen := plen b - mag,
               tot_len := tot_len b - mag\<rparr>) m)))"

definition pbuf_header_impl :: "nat \<Rightarrow> 16 word \<Rightarrow> bool \<Rightarrow> pmem \<Rightarrow> (byte \<times> pmem) outcome" where
  "pbuf_header_impl p incr force m =
     (if sint incr < 0 then pbuf_remove_header p (word_of_int (- sint incr)) m
      else pbuf_add_header_impl p (word_of_int (sint incr)) force m)"

definition pbuf_header :: "nat \<Rightarrow> 16 word \<Rightarrow> pmem \<Rightarrow> (byte \<times> pmem) outcome" where
  "pbuf_header p incr m = pbuf_header_impl p incr False m"

definition pbuf_header_force :: "nat \<Rightarrow> 16 word \<Rightarrow> pmem \<Rightarrow> (byte \<times> pmem) outcome" where
  "pbuf_header_force p incr m = pbuf_header_impl p incr True m"

text \<open>Drops \<open>size\<close> bytes from the front of a chain; buffers that become empty are freed.\<close>

fun free_header_loop :: "nat \<Rightarrow> nat option \<Rightarrow> u16 \<Rightarrow> pmem \<Rightarrow> (nat option \<times> pmem) outcome" where
  "free_header_loop 0 p free_left m = Wait"
| "free_header_loop (Suc k) p free_left m =
     (case p of
        None \<Rightarrow> Ret (None, m)
      | Some a \<Rightarrow>
          if free_left = 0 then Ret (Some a, m)
          else bind_o (deref a m) (\<lambda>b.
            if plen b \<le> free_left then
              bind_o (pbuf_free (Some a) (upd a (b\<lparr>pnext := None\<rparr>) m)) (\<lambda>(n, m).
                free_header_loop k (pnext b) (free_left - plen b) m)
            else bind_o (pbuf_remove_header a (ucast free_left) m) (\<lambda>(r, m). Ret (Some a, m))))"

definition heap_bound :: "pmem \<Rightarrow> nat" where
  "heap_bound m = Suc (fcard (fmdom (objs m)))"

definition pbuf_free_header :: "nat option \<Rightarrow> u16 \<Rightarrow> pmem \<Rightarrow> (nat option \<times> pmem) outcome" where
  "pbuf_free_header q sz m = free_header_loop (heap_bound m) q sz m"

section \<open>Chains\<close>

fun clen_loop :: "nat \<Rightarrow> nat option \<Rightarrow> u16 \<Rightarrow> pmem \<Rightarrow> u16 outcome" where
  "clen_loop 0 p len m = Wait"
| "clen_loop (Suc k) p len m =
     (case p of None \<Rightarrow> Ret len | Some a \<Rightarrow> bind_o (deref a m) (\<lambda>b. clen_loop k (pnext b) (len + 1) m))"

definition pbuf_clen :: "nat option \<Rightarrow> pmem \<Rightarrow> u16 outcome" where
  "pbuf_clen p m = clen_loop (heap_bound m) p 0 m"

definition pbuf_ref :: "nat option \<Rightarrow> pmem \<Rightarrow> pmem outcome" where
  "pbuf_ref p m =
     (case p of
        None \<Rightarrow> Ret m
      | Some a \<Rightarrow> bind_o (deref a m) (\<lambda>b.
          if ref b + 1 = 0 then Fault else Ret (upd a (b\<lparr>ref := ref b + 1\<rparr>) m)))"

text \<open>The last buffer of the first chain, after the totals before it were raised.\<close>

fun cat_loop :: "nat \<Rightarrow> nat \<Rightarrow> nat \<Rightarrow> pmem \<Rightarrow> (nat \<times> pmem) outcome" where
  "cat_loop 0 p t m = Wait"
| "cat_loop (Suc k) p t m =
     bind_o (deref p m) (\<lambda>b.
       case pnext b of
         None \<Rightarrow> Ret (p, m)
       | Some q \<Rightarrow> bind_o (deref t m) (\<lambda>tb.
           cat_loop k q t (upd p (b\<lparr>tot_len := tot_len b + tot_len tb\<rparr>) m)))"

definition pbuf_cat :: "nat option \<Rightarrow> nat option \<Rightarrow> pmem \<Rightarrow> pmem outcome" where
  "pbuf_cat h t m =
     (case (h, t) of
        (Some h, Some t) \<Rightarrow>
          if h = t then Fault
          else bind_o (cat_loop (heap_bound m) h t m) (\<lambda>(p, m).
            bind_o (deref p m) (\<lambda>b. bind_o (deref t m) (\<lambda>tb.
              if tot_len b \<noteq> plen b then Fault
              else Ret (upd p (b\<lparr>tot_len := tot_len b + tot_len tb, pnext := Some t\<rparr>) m))))
      | _ \<Rightarrow> Ret m)"

definition pbuf_chain :: "nat option \<Rightarrow> nat option \<Rightarrow> pmem \<Rightarrow> pmem outcome" where
  "pbuf_chain h t m = bind_o (pbuf_cat h t m) (pbuf_ref t)"

definition pbuf_dechain :: "nat \<Rightarrow> pmem \<Rightarrow> (nat option \<times> pmem) outcome" where
  "pbuf_dechain p m =
     bind_o (deref p m) (\<lambda>b.
       case pnext b of
         None \<Rightarrow> if tot_len b \<noteq> plen b then Fault else Ret (None, m)
       | Some q \<Rightarrow>
           bind_o (deref q m) (\<lambda>qb.
             if uint (tot_len qb) \<noteq> uint (tot_len b) - uint (plen b) then Fault
             else let m = upd q (qb\<lparr>tot_len := tot_len b - plen b\<rparr>) m;
                      m = upd p (b\<lparr>pnext := None, tot_len := plen b\<rparr>) m in
               bind_o (pbuf_free (Some q) m) (\<lambda>(tail_gone, m).
                 Ret (if tail_gone > 0 then None else Some q, m))))"

text \<open>Shrinks a chain to \<open>new_len\<close> bytes. Trimming the memory of the last buffer kept has no effect
  with the allocator used here (\<open>mem_trim\<close> returns its argument).\<close>

fun realloc_loop :: "nat \<Rightarrow> nat \<Rightarrow> u16 \<Rightarrow> u16 \<Rightarrow> pmem \<Rightarrow> (nat \<times> u16 \<times> pmem) outcome" where
  "realloc_loop 0 q rem_len shrink m = Wait"
| "realloc_loop (Suc k) q rem_len shrink m =
     bind_o (deref q m) (\<lambda>b.
       if rem_len > plen b then
         (case pnext b of
            None \<Rightarrow> Fault
          | Some q' \<Rightarrow> realloc_loop k q' (rem_len - plen b) shrink (upd q (b\<lparr>tot_len := tot_len b - shrink\<rparr>) m))
       else Ret (q, rem_len, m))"

definition pbuf_realloc :: "nat \<Rightarrow> u16 \<Rightarrow> pmem \<Rightarrow> pmem outcome" where
  "pbuf_realloc p new_len m =
     bind_o (deref p m) (\<lambda>b.
       if new_len \<ge> tot_len b then Ret m
       else bind_o (realloc_loop (heap_bound m) p new_len (tot_len b - new_len) m) (\<lambda>(q, rem_len, m).
         bind_o (deref q m) (\<lambda>qb.
           let m = upd q (qb\<lparr>plen := rem_len, tot_len := rem_len\<rparr>) m in
           bind_o (if pnext qb = None then Ret m
                   else bind_o (pbuf_free (pnext qb) m) (\<lambda>(n, m). Ret m)) (\<lambda>m.
             bind_o (deref q m) (\<lambda>qb. Ret (upd q (qb\<lparr>pnext := None\<rparr>) m))))))"

section \<open>What a chain holds\<close>

definition pbytes :: "pbuf \<Rightarrow> byte list" where
  "pbytes b = seg (nat (payload b)) (unat (plen b)) (area b)"

text \<open>A buffer in the hands of one owner: its payload lies in its memory and the only reference is
  the owner's or the one of its predecessor in the chain.\<close>

definition buf_ok :: "pbuf \<Rightarrow> bool" where
  "buf_ok b \<longleftrightarrow> 0 \<le> payload b \<and> nat (payload b) + unat (plen b) \<le> length (area b) \<and> ref b = 1 \<and>
     flags b AND PBUF_FLAG_IS_CUSTOM = 0 \<and> type_internal b AND PBUF_TYPE_ALLOC_SRC_MASK \<in> {0, 1, 2}"

fun chain_bytes :: "pmem \<Rightarrow> nat list \<Rightarrow> byte list" where
  "chain_bytes m [] = []"
| "chain_bytes m (a # as) =
     (case fmlookup (objs m) a of None \<Rightarrow> [] | Some b \<Rightarrow> pbytes b) @ chain_bytes m as"

text \<open>The chain that starts at \<open>p\<close> has the buffers \<open>as\<close>, and each \<open>tot_len\<close> is exact.\<close>

fun chain :: "pmem \<Rightarrow> nat option \<Rightarrow> nat list \<Rightarrow> bool" where
  "chain m p [] \<longleftrightarrow> p = None"
| "chain m p (a # as) \<longleftrightarrow> p = Some a \<and> a \<notin> set as \<and>
     (case fmlookup (objs m) a of
        None \<Rightarrow> False
      | Some b \<Rightarrow> buf_ok b \<and> unat (tot_len b) = length (chain_bytes m (a # as)) \<and> chain m (pnext b) as)"

definition same_at :: "nat set \<Rightarrow> pmem \<Rightarrow> pmem \<Rightarrow> bool" where
  "same_at A m m' \<longleftrightarrow> (\<forall>a\<in>A. fmlookup (objs m') a = fmlookup (objs m) a)"

lemma lookup_upd [simp]:
  "fmlookup (objs (upd a b m)) x = (if a = x then Some b else fmlookup (objs m) x)"
  by (simp add: upd_def)

lemma lookup_free_obj [simp]:
  "fmlookup (objs (free_obj a m)) x = (if a = x then None else fmlookup (objs m) x)"
  by (simp add: free_obj_def)

lemma spare_upd [simp]: "spare (upd a b m) = spare m" "spare (free_obj a m) = spare m"
  by (simp_all add: upd_def free_obj_def)

lemma deref_simps [simp]: "fmlookup (objs m) a = Some b \<Longrightarrow> deref a m = Ret b"
  by (simp add: deref_def)

lemma chain_bytes_cong: "same_at (set as) m m' \<Longrightarrow> chain_bytes m' as = chain_bytes m as"
  by (induction as) (simp_all add: same_at_def)

lemma chain_cong: "same_at (set as) m m' \<Longrightarrow> chain m' p as = chain m p as"
proof (induction as arbitrary: p)
  case (Cons a as)
  then have "same_at (set as) m m'" "fmlookup (objs m') a = fmlookup (objs m) a"
    by (simp_all add: same_at_def)
  then show ?case using Cons.IH chain_bytes_cong [of as m m'] by (auto split: option.splits)
qed simp

lemma chain_bytes_append: "chain_bytes m (as @ bs) = chain_bytes m as @ chain_bytes m bs"
  by (induction as) simp_all

lemma chain_distinct: "chain m p as \<Longrightarrow> distinct as"
  by (induction as arbitrary: p) (auto split: option.splits)

lemma chain_live: "chain m p as \<Longrightarrow> set as \<subseteq> fset (fmdom (objs m))"
  by (induction as arbitrary: p) (auto simp: fmlookup_dom_iff split: option.splits)

lemma chain_bound: "chain m p as \<Longrightarrow> length as < heap_bound m"
  using chain_live [of m p as] chain_distinct [of m p as]
    card_mono [of "fset (fmdom (objs m))" "set as"]
  by (simp add: heap_bound_def fcard.rep_eq distinct_card)

lemma chain_None: "chain m None as \<longleftrightarrow> as = []"
  by (cases as) simp_all

lemma chain_Some: "chain m (Some a) as \<longleftrightarrow> (\<exists>as'. as = a # as' \<and> chain m (Some a) (a # as'))"
  by (cases as) auto

lemma chain_Cons_cases:
  assumes "chain m p (a # as)"
  obtains b where "p = Some a" "a \<notin> set as" "fmlookup (objs m) a = Some b" "buf_ok b"
    "unat (tot_len b) = unat (plen b) + length (chain_bytes m as)" "chain m (pnext b) as"
    "length (pbytes b) = unat (plen b)"
  using assms that by (auto simp: buf_ok_def pbytes_def split: option.splits)

lemma unat_u16: "unat (w :: u16) < 65536"
  using unsigned_less [of w, where 'a = nat] by simp

lemma length_chain: "chain m p as \<Longrightarrow> length (chain_bytes m as) < 65536"
proof (cases as)
  case (Cons a as')
  assume "chain m p as"
  then have "\<exists>b :: pbuf. unat (tot_len b) = length (chain_bytes m as)"
    using Cons by (auto split: option.splits)
  then obtain b :: pbuf where "unat (tot_len b) = length (chain_bytes m as)" ..
  then show ?thesis using unat_u16 [of "tot_len b"] by simp
qed simp

lemma byte_ref_cases: "(1 :: byte) - 1 = 0" "(1 :: byte) \<noteq> 0"
  by simp_all

section \<open>The operations on a chain\<close>

text \<open>An unshared chain is freed to its last buffer, and nothing else is touched.\<close>

lemma free_chain:
  assumes "chain m p as"
  shows "pbuf_free_loop p n m =
    Ret (n + of_nat (length as), m\<lparr>objs := fmfilter (\<lambda>a. a \<notin> set as) (objs m)\<rparr>)"
  using assms
proof (induction as arbitrary: p n m)
  case Nil
  have "fmfilter (\<lambda>a. a \<notin> set []) (objs m) = objs m" by (rule fmap_ext) simp
  then show ?case using Nil by (simp add: pbuf_free_loop.simps [of None])
next
  case (Cons a as)
  from Cons.prems obtain b where b: "p = Some a" "a \<notin> set as" "fmlookup (objs m) a = Some b" "buf_ok b"
    "chain m (pnext b) as" by (rule chain_Cons_cases)
  have "same_at (set as) m (free_obj a m)" using b(2) by (auto simp: same_at_def)
  then have "chain (free_obj a m) (pnext b) as" using b(5) by (simp add: chain_cong)
  note ih = Cons.IH [OF this, of "n + 1"]
  have "fmfilter (\<lambda>x. x \<notin> set as) (objs (free_obj a m)) = fmfilter (\<lambda>x. x \<notin> set (a # as)) (objs m)"
    by (rule fmap_ext) (auto simp: b(2))
  then show ?case using b ih
    by (simp add: pbuf_free_loop.simps [of "Some a"] buf_ok_def free_obj_def add.assoc)
qed

lemma free_single:
  assumes "fmlookup (objs m) a = Some b" "buf_ok b" "pnext b = None"
  shows "pbuf_free (Some a) m = Ret (1, free_obj a m)"
  using assms by (simp add: pbuf_free_def pbuf_free_loop.simps buf_ok_def)

lemma remove_header_ok:
  assumes "fmlookup (objs m) a = Some b" "n < plen b" "n \<noteq> 0"
  shows "pbuf_remove_header a (ucast (n :: u16)) m =
    Ret (0, upd a (b\<lparr>payload := payload b + uint n, plen := plen b - n, tot_len := tot_len b - n\<rparr>) m)"
proof -
  have "unat (ucast n :: size_t) = unat n"
    using unat_u16 [of n] by (simp add: unsigned_ucast_eq take_bit_nat_eq_self)
  moreover from this have "uint (ucast n :: size_t) = uint n" by (metis of_nat_unat)
  ultimately have "\<not> (ucast n :: size_t) > 0xFFFF" "(ucast n :: size_t) \<noteq> 0" "uint (ucast n :: size_t) = uint n"
    using unat_u16 [of n] assms(3) by (auto simp: word_less_nat_alt simp flip: unat_eq_zero)
  moreover have "ucast (ucast n :: size_t) = n"
    by (rule bit_word_eqI) (auto simp: bit_simps dest: bit_imp_le_length)
  ultimately show ?thesis using assms(1,2) by (simp add: pbuf_remove_header_def Let_def)
qed

lemma seg_drop: "k \<le> n \<Longrightarrow> seg (off + k) (n - k) bs = drop k (seg off n bs)"
  by (simp add: seg_def drop_take add.commute)

lemma buf_shrunk:
  fixes t :: u16
  assumes "buf_ok b" "n \<le> plen b"
  defines "b' \<equiv> b\<lparr>payload := payload b + uint n, plen := plen b - n, tot_len := t\<rparr>"
  shows "buf_ok b'" "pbytes b' = drop (unat n) (pbytes b)"
proof -
  have n: "nat (payload b + uint n) = nat (payload b) + unat n" "unat (plen b - n) = unat (plen b) - unat n"
    "unat n \<le> unat (plen b)"
    using assms(1,2) by (simp_all add: buf_ok_def nat_add_distrib unat_sub word_le_nat_alt)
  show "buf_ok b'" using assms(1) n by (simp add: buf_ok_def b'_def)
  show "pbytes b' = drop (unat n) (pbytes b)"
    using n by (simp add: pbytes_def b'_def seg_drop del: unat_sub)
qed

text \<open>The buffers \<open>xs\<close> at the front of a chain are those that dropping \<open>n\<close> bytes empties: all their bytes
  are among the \<open>n\<close>, none of them comes after the last byte dropped, and the first buffer kept still
  has a byte left unless the \<open>n\<close> bytes ended before it.\<close>

definition emptied :: "pmem \<Rightarrow> nat \<Rightarrow> nat list \<Rightarrow> nat list \<Rightarrow> bool" where
  "emptied m n xs cs \<longleftrightarrow> length (chain_bytes m xs) \<le> n \<and>
     (xs \<noteq> [] \<longrightarrow> length (chain_bytes m (butlast xs)) < n) \<and>
     (cs \<noteq> [] \<longrightarrow> length (chain_bytes m xs) = n \<or> n < length (chain_bytes m (xs @ [hd cs])))"

text \<open>Dropping \<open>n\<close> bytes from the front: the emptied buffers are freed, the rest of the chain
  holds the rest of the bytes.\<close>

definition dropped :: "nat \<Rightarrow> nat list \<Rightarrow> pmem \<Rightarrow> nat option \<Rightarrow> pmem \<Rightarrow> bool" where
  "dropped n as m p' m' \<longleftrightarrow> (\<exists>xs as'. as = xs @ as' \<and> chain m' p' as' \<and>
     chain_bytes m' as' = drop n (chain_bytes m as) \<and>
     fset (fmdom (objs m')) = fset (fmdom (objs m)) - set xs \<and>
     same_at (- set as) m m' \<and> spare m' = spare m \<and> emptied m n xs as')"

lemma emptied_Cons:
  assumes "emptied m (n - length (chain_bytes m [a])) xs cs" "length (chain_bytes m [a]) \<le> n" "0 < n"
  shows "emptied m n (a # xs) cs"
  using assms by (auto simp: emptied_def)

lemma emptied_cong:
  assumes "same_at (set (xs @ cs)) m m'"
  shows "emptied m' n xs cs = emptied m n xs cs"
proof -
  have "same_at (set xs) m m'" "same_at (set (butlast xs)) m m'" "cs \<noteq> [] \<Longrightarrow> same_at (set (xs @ [hd cs])) m m'"
    using assms by (auto simp: same_at_def dest: in_set_butlastD)
  then have "chain_bytes m' xs = chain_bytes m xs" "chain_bytes m' (butlast xs) = chain_bytes m (butlast xs)"
    "cs \<noteq> [] \<Longrightarrow> chain_bytes m' (xs @ [hd cs]) = chain_bytes m (xs @ [hd cs])" by (blast intro: chain_bytes_cong)+
  then show ?thesis unfolding emptied_def by metis
qed

lemma free_header_chain:
  assumes "chain m p as" "unat n \<le> length (chain_bytes m as)" "length as < k"
  obtains p' m' where "free_header_loop k p n m = Ret (p', m')" "dropped (unat n) as m p' m'"
  using assms
proof (induction as arbitrary: p n m k thesis)
  case Nil
  then obtain j where "k = Suc j" by (cases k) auto
  with Nil show ?case by (fastforce simp: dropped_def same_at_def emptied_def)
next
  case (Cons a as)
  from Cons.prems obtain j where k: "k = Suc j" "length as < j" by (cases k) auto
  from Cons.prems(2) obtain b where b: "p = Some a" "a \<notin> set as" "fmlookup (objs m) a = Some b" "buf_ok b"
    "unat (tot_len b) = unat (plen b) + length (chain_bytes m as)" "chain m (pnext b) as"
    "length (pbytes b) = unat (plen b)" by (rule chain_Cons_cases)
  consider "n = 0" | "n \<noteq> 0" "plen b \<le> n" | "n \<noteq> 0" "n < plen b" by force
  then show ?case
  proof cases
    case 1
    have "dropped 0 (a # as) m p m" unfolding dropped_def
      by (rule exI [of _ "[]"], rule exI [of _ "a # as"]) (use Cons.prems(2) in \<open>simp add: same_at_def emptied_def del: chain.simps\<close>)
    then show ?thesis using Cons.prems(1) 1 b k by simp
  next
    case 2
    let ?m = "free_obj a (upd a (b\<lparr>pnext := None\<rparr>) m)"
    have "buf_ok (b\<lparr>pnext := None\<rparr>)" using b(4) by (simp add: buf_ok_def)
    then have f: "pbuf_free (Some a) (upd a (b\<lparr>pnext := None\<rparr>) m) = Ret (1, ?m)"
      using free_single [of "upd a (b\<lparr>pnext := None\<rparr>) m" a "b\<lparr>pnext := None\<rparr>"] by simp
    have sm: "same_at (set as) m ?m" using b(2) by (auto simp: same_at_def)
    have u: "unat (n - plen b) = unat n - unat (plen b)" "unat (plen b) \<le> unat n"
      using 2 by (simp_all add: unat_sub word_le_nat_alt)
    have c: "chain ?m (pnext b) as" "unat (n - plen b) \<le> length (chain_bytes ?m as)"
      using b Cons.prems(3) u by (simp_all add: chain_cong [OF sm] chain_bytes_cong [OF sm])
    obtain p' m' where r: "free_header_loop j (pnext b) (n - plen b) ?m = Ret (p', m')"
      and d: "dropped (unat (n - plen b)) as ?m p' m'" using Cons.IH [OF _ c k(2)] by blast
    from d obtain xs as' where x: "as = xs @ as'" "chain m' p' as'"
      "chain_bytes m' as' = drop (unat (n - plen b)) (chain_bytes ?m as)"
      "fset (fmdom (objs m')) = fset (fmdom (objs ?m)) - set xs" "same_at (- set as) ?m m'" "spare m' = spare ?m"
      "emptied ?m (unat (n - plen b)) xs as'"
      by (auto simp: dropped_def)
    have em: "emptied m (unat n) (a # xs) as'"
      by (rule emptied_Cons) (use x(1,7) sm b u 2 emptied_cong [of xs as' m ?m] in \<open>simp_all add: unat_gt_0\<close>)
    have "dropped (unat n) (a # as) m p' m'" unfolding dropped_def
    proof (intro exI conjI)
      show "a # as = (a # xs) @ as'" using x(1) by simp
      show "chain_bytes m' as' = drop (unat n) (chain_bytes m (a # as))"
        using x(3) b u by (simp add: chain_bytes_cong [OF sm])
      show "fset (fmdom (objs m')) = fset (fmdom (objs m)) - set (a # xs)"
        using x(4) by (auto simp: free_obj_def upd_def)
      show "same_at (- set (a # as)) m m'" using x(5) by (auto simp: same_at_def)
    qed (use x em in simp_all)
    then show ?thesis using Cons.prems(1) 2 b k f r by simp
  next
    case 3
    let ?b = "b\<lparr>payload := payload b + uint n, plen := plen b - n, tot_len := tot_len b - n\<rparr>"
    note s = buf_shrunk [OF b(4) less_imp_le [OF 3(2)], where t = "tot_len b - n"]
    have le: "unat n \<le> unat (plen b)" "n \<le> tot_len b" using 3 b(5) by (simp_all add: word_less_nat_alt word_le_nat_alt)
    have sm: "same_at (set as) m (upd a ?b m)" using b(2) by (auto simp: same_at_def)
    have "chain (upd a ?b m) (Some a) (a # as)"
      using b s le by (simp add: chain_cong [OF sm] chain_bytes_cong [OF sm] unat_sub)
    moreover have "fset (fmdom (objs (upd a ?b m))) = fset (fmdom (objs m))"
      using b(3) by (auto simp: upd_def fmlookup_dom_iff)
    moreover have "emptied m (unat n) [] (a # as)" using b 3 by (simp add: emptied_def word_less_nat_alt)
    ultimately have "dropped (unat n) (a # as) m (Some a) (upd a ?b m)" unfolding dropped_def
      using b s le by (intro exI [of _ "[]"] exI [of _ "a # as"])
        (auto simp: chain_bytes_cong [OF sm] same_at_def simp del: chain.simps)
    moreover have "\<not> plen b \<le> n" using 3 by simp
    ultimately show ?thesis using Cons.prems(1) 3 b k remove_header_ok [OF b(3) 3(2,1)] by simp
  qed
qed

text \<open>Joining two chains: the totals of the first are raised, its last buffer links to the second.\<close>

definition cat_end :: "nat \<Rightarrow> nat \<times> pmem \<Rightarrow> pmem outcome" where
  "cat_end t x = (case x of (p, m) \<Rightarrow>
     bind_o (deref p m) (\<lambda>b. bind_o (deref t m) (\<lambda>tb.
       if tot_len b \<noteq> plen b then Fault
       else Ret (upd p (b\<lparr>tot_len := tot_len b + tot_len tb, pnext := Some t\<rparr>) m))))"

lemma cat_chain:
  assumes "chain m (Some h) as" "chain m (Some t) bs" "set as \<inter> set bs = {}"
    "length (chain_bytes m as) + length (chain_bytes m bs) < 65536" "length as \<le> k"
  obtains m' where "bind_o (cat_loop k h t m) (cat_end t) = Ret m'" "chain m' (Some h) (as @ bs)"
    "chain_bytes m' (as @ bs) = chain_bytes m as @ chain_bytes m bs"
    "same_at (- set as) m m'" "fset (fmdom (objs m')) = fset (fmdom (objs m))" "spare m' = spare m"
  using assms
proof (induction as arbitrary: h m k thesis)
  case (Cons a as)
  from Cons.prems obtain j where k: "k = Suc j" "length as \<le> j" by (cases k) auto
  from Cons.prems(2) obtain b where b: "Some h = Some a" "a \<notin> set as" "fmlookup (objs m) a = Some b" "buf_ok b"
    "unat (tot_len b) = unat (plen b) + length (chain_bytes m as)" "chain m (pnext b) as"
    "length (pbytes b) = unat (plen b)" by (rule chain_Cons_cases)
  from Cons.prems(3) obtain bs' where bs': "bs = t # bs'" by (cases bs) auto
  from Cons.prems(3) [unfolded bs'] obtain tb where t: "fmlookup (objs m) t = Some tb"
    "unat (tot_len tb) = length (chain_bytes m bs)"
    by (rule chain_Cons_cases) (auto simp: bs')
  have tot: "unat (tot_len b + tot_len tb) = unat (tot_len b) + unat (tot_len tb)"
    using Cons.prems(5) b t by (intro unat_add_lem [THEN iffD1]) simp
  have ta: "t \<noteq> a" "a \<notin> set bs" using Cons.prems(4) bs' by auto
  show ?case
  proof (cases as)
    case Nil
    let ?b = "b\<lparr>tot_len := tot_len b + tot_len tb, pnext := Some t\<rparr>" and
      ?m = "upd a (b\<lparr>tot_len := tot_len b + tot_len tb, pnext := Some t\<rparr>) m"
    have sm: "same_at (set bs) m ?m" using ta by (auto simp: same_at_def)
    have n: "pnext b = None" "tot_len b = plen b" using b Nil by (simp_all add: word_unat_eq_iff)
    have "bind_o (cat_loop k h t m) (cat_end t) = Ret ?m"
      using k b t n ta by (simp add: cat_end_def)
    moreover have "chain ?m (Some h) (a # bs)" "chain_bytes ?m (a # bs) = pbytes b @ chain_bytes m bs"
      using b t tot Nil ta Cons.prems(3)
      by (simp_all add: chain_cong [OF sm] chain_bytes_cong [OF sm] buf_ok_def pbytes_def)
    moreover have "same_at (- set (a # as)) m ?m" "fset (fmdom (objs ?m)) = fset (fmdom (objs m))"
      using b(3) by (auto simp: same_at_def upd_def fmlookup_dom_iff)
    ultimately show ?thesis using Cons.prems(1) [of ?m] Nil b(3) by (simp del: chain.simps)
  next
    case (Cons a' as')
    let ?b = "b\<lparr>tot_len := tot_len b + tot_len tb\<rparr>" and ?m = "upd a (b\<lparr>tot_len := tot_len b + tot_len tb\<rparr>) m"
    have nx: "pnext b = Some a'" using b(6) Cons by simp
    have sm: "same_at (set as) m ?m" "same_at (set bs) m ?m" using b(2) ta by (auto simp: same_at_def)
    have "chain ?m (Some a') as" "chain ?m (Some t) bs" "set as \<inter> set bs = {}"
      "length (chain_bytes ?m as) + length (chain_bytes ?m bs) < 65536"
      using Cons.prems b nx by (auto simp: chain_cong [OF sm(1)] chain_cong [OF sm(2)]
          chain_bytes_cong [OF sm(1)] chain_bytes_cong [OF sm(2)] simp del: chain.simps)
    then obtain m' where m': "bind_o (cat_loop j a' t ?m) (cat_end t) = Ret m'" "chain m' (Some a') (as @ bs)"
      "chain_bytes m' (as @ bs) = chain_bytes m as @ chain_bytes m bs"
      "same_at (- set as) ?m m'" "fset (fmdom (objs m')) = fset (fmdom (objs ?m))" "spare m' = spare ?m"
      using Cons.IH [OF _ _ _ _ _ k(2)]
      by (metis chain_bytes_cong [OF sm(1)] chain_bytes_cong [OF sm(2)])
    have a: "fmlookup (objs m') a = Some ?b" using m'(4) b(2) by (auto simp: same_at_def)
    have "bind_o (cat_loop k h t m) (cat_end t) = Ret m'" using k b t nx ta m'(1) by simp
    moreover have "chain m' (Some h) ((a # as) @ bs)"
      using b a m'(2,3) tot t nx ta by (simp add: buf_ok_def pbytes_def)
    moreover have "chain_bytes m' ((a # as) @ bs) = chain_bytes m (a # as) @ chain_bytes m bs"
      using a b m'(3) by (simp add: pbytes_def)
    moreover have "same_at (- set (a # as)) m m'" using m'(4) by (auto simp: same_at_def)
    moreover have "fset (fmdom (objs m')) = fset (fmdom (objs m))" "spare m' = spare m"
      using m'(5,6) b(3) by (auto simp: upd_def fmlookup_dom_iff)
    ultimately show ?thesis by (rule Cons.prems(1))
  qed
qed simp

lemma pbuf_cat_end:
  "h \<noteq> t \<Longrightarrow> pbuf_cat (Some h) (Some t) m = bind_o (cat_loop (heap_bound m) h t m) (cat_end t)"
  unfolding cat_end_def [abs_def] by (simp add: pbuf_cat_def)

section \<open>The contract of a packet queue\<close>

text \<open>What the sessions need of packet buffers: a chain can be extended at its end, shortened at its
  front and freed; \<open>ok m p as\<close> says that \<open>p\<close> is a chain of the buffers \<open>as\<close>. A queue is fed with
  whole packets and drained by byte counts.\<close>

locale packet_queue =
  fixes ok :: "'m \<Rightarrow> nat option \<Rightarrow> nat list \<Rightarrow> bool"
    and bytes :: "'m \<Rightarrow> nat list \<Rightarrow> byte list"
    and keeps :: "nat set \<Rightarrow> 'm \<Rightarrow> 'm \<Rightarrow> bool"
    and cat :: "nat option \<Rightarrow> nat option \<Rightarrow> 'm \<Rightarrow> 'm outcome"
    and consume :: "nat option \<Rightarrow> u16 \<Rightarrow> 'm \<Rightarrow> (nat option \<times> 'm) outcome"
  assumes empty: "ok m None [] \<and> bytes m [] = []"
    and frame: "keeps (set as) m m' \<Longrightarrow> ok m p as \<Longrightarrow> ok m' p as \<and> bytes m' as = bytes m as"
    and cat_ok: "ok m (Some h) as \<Longrightarrow> ok m (Some t) bs \<Longrightarrow> set as \<inter> set bs = {} \<Longrightarrow>
      length (bytes m as) + length (bytes m bs) < 65536 \<Longrightarrow>
      \<exists>m'. cat (Some h) (Some t) m = Ret m' \<and> ok m' (Some h) (as @ bs) \<and>
        bytes m' (as @ bs) = bytes m as @ bytes m bs \<and> keeps (- set as) m m'"
    and consume_ok: "ok m p as \<Longrightarrow> unat n \<le> length (bytes m as) \<Longrightarrow>
      \<exists>p' m' as'. consume p n m = Ret (p', m') \<and> ok m' p' as' \<and> set as' \<subseteq> set as \<and>
        bytes m' as' = drop (unat n) (bytes m as) \<and> keeps (- set as) m m'"
begin

text \<open>What a session does with a packet that arrives: the first one is the queue, a later one is
  joined to it.\<close>

definition enq :: "nat option \<Rightarrow> nat \<Rightarrow> 'm \<Rightarrow> (nat option \<times> 'm) outcome" where
  "enq q t m = (case q of None \<Rightarrow> Ret (Some t, m) | Some h \<Rightarrow> bind_o (cat q (Some t) m) (\<lambda>m. Ret (q, m)))"

lemma enq_ok:
  assumes "ok m q as" "ok m (Some t) bs" "set as \<inter> set bs = {}"
    "length (bytes m as) + length (bytes m bs) < 65536" "q = None \<longrightarrow> as = []"
  shows "\<exists>q' m'. enq q t m = Ret (q', m') \<and> ok m' q' (as @ bs) \<and>
    bytes m' (as @ bs) = bytes m as @ bytes m bs"
proof (cases q)
  case None
  then show ?thesis using assms empty [of m] by (simp add: enq_def)
next
  case (Some h)
  then show ?thesis using cat_ok [of m h as t bs] assms by (auto simp: enq_def)
qed

text \<open>A packet put into the queue is still there, behind what was queued before, when the front has
  been consumed: nothing is lost, repeated or reordered.\<close>

lemma enq_consume:
  assumes "ok m q as" "ok m (Some t) bs" "set as \<inter> set bs = {}"
    "length (bytes m as) + length (bytes m bs) < 65536" "q = None \<longrightarrow> as = []"
    "unat n = length (bytes m as)"
  shows "\<exists>q1 m1 q2 m2 cs. enq q t m = Ret (q1, m1) \<and> consume q1 n m1 = Ret (q2, m2) \<and>
    ok m2 q2 cs \<and> bytes m2 cs = bytes m bs"
proof -
  obtain q1 m1 where e: "enq q t m = Ret (q1, m1)" "ok m1 q1 (as @ bs)"
    "bytes m1 (as @ bs) = bytes m as @ bytes m bs" using enq_ok [OF assms(1-5)] by blast
  then obtain q2 m2 cs where "consume q1 n m1 = Ret (q2, m2)" "ok m2 q2 cs"
    "bytes m2 cs = drop (unat n) (bytes m1 (as @ bs))"
    using consume_ok [of m1 q1 "as @ bs" n] assms(6) by auto
  then show ?thesis using e assms(6) by auto
qed

end

interpretation pq: packet_queue chain chain_bytes same_at pbuf_cat pbuf_free_header
proof
  fix m h as t bs
  assume a: "chain m (Some h) as" "chain m (Some t) bs" "set as \<inter> set bs = {}"
    "length (chain_bytes m as) + length (chain_bytes m bs) < 65536"
  have "h \<noteq> t" using a(1-3) chain_Some [of m h as] chain_Some [of m t bs] by auto
  with cat_chain [OF a less_imp_le [OF chain_bound [OF a(1)]]]
  show "\<exists>m'. pbuf_cat (Some h) (Some t) m = Ret m' \<and> chain m' (Some h) (as @ bs) \<and>
    chain_bytes m' (as @ bs) = chain_bytes m as @ chain_bytes m bs \<and> same_at (- set as) m m'"
    by (metis pbuf_cat_end)
next
  fix m p as and n :: u16
  assume "chain m p as" "unat n \<le> length (chain_bytes m as)"
  then show "\<exists>p' m' as'. pbuf_free_header p n m = Ret (p', m') \<and> chain m' p' as' \<and> set as' \<subseteq> set as \<and>
    chain_bytes m' as' = drop (unat n) (chain_bytes m as) \<and> same_at (- set as) m m'"
    using free_header_chain [OF _ _ chain_bound] unfolding pbuf_free_header_def dropped_def
    by (metis set_append Un_upper2)
qed (auto simp: chain_cong chain_bytes_cong)

section \<open>Shrinking, counting and splitting\<close>

lemma clen_chain:
  "chain m p as \<Longrightarrow> length as < k \<Longrightarrow> clen_loop k p n m = Ret (n + of_nat (length as))"
proof (induction as arbitrary: p n k)
  case Nil
  then show ?case by (cases k) simp_all
next
  case (Cons a as)
  then obtain j where "k = Suc j" "length as < j" by (cases k) auto
  moreover obtain b where "p = Some a" "fmlookup (objs m) a = Some b" "chain m (pnext b) as"
    using Cons.prems(1) by (rule chain_Cons_cases)
  ultimately show ?case using Cons.IH by (simp add: add.assoc)
qed

text \<open>Shrinking keeps the first \<open>n\<close> bytes and frees the buffers behind them.\<close>

definition realloc_end :: "nat \<times> u16 \<times> pmem \<Rightarrow> pmem outcome" where
  "realloc_end x = (case x of (q, rem_len, m) \<Rightarrow>
     bind_o (deref q m) (\<lambda>qb.
       let m = upd q (qb\<lparr>plen := rem_len, tot_len := rem_len\<rparr>) m in
       bind_o (if pnext qb = None then Ret m
               else bind_o (pbuf_free (pnext qb) m) (\<lambda>(n, m). Ret m)) (\<lambda>m.
         bind_o (deref q m) (\<lambda>qb. Ret (upd q (qb\<lparr>pnext := None\<rparr>) m)))))"

lemma buf_cut:
  assumes "buf_ok b" "n \<le> plen b"
  defines "b' \<equiv> b\<lparr>plen := n, tot_len := n, pnext := None\<rparr>"
  shows "buf_ok b'" "pbytes b' = take (unat n) (pbytes b)"
  using assms(1,2) by (auto simp: buf_ok_def b'_def pbytes_def seg_def min_def word_le_nat_alt)

lemma realloc_last:
  assumes c: "chain m (Some a) (a # as)" and b: "fmlookup (objs m) a = Some b" and n: "n \<le> plen b"
  defines "b' \<equiv> b\<lparr>plen := n, tot_len := n, pnext := None\<rparr>"
  shows "\<exists>m'. realloc_end (a, n, m) = Ret m' \<and> chain m' (Some a) [a] \<and>
    chain_bytes m' [a] = take (unat n) (chain_bytes m (a # as)) \<and> same_at (- set (a # as)) m m' \<and>
    fset (fmdom (objs m')) = fset (fmdom (objs m)) - set as"
proof -
  let ?b = "b\<lparr>plen := n, tot_len := n\<rparr>"
  from c b have x: "a \<notin> set as" "buf_ok b" "chain m (pnext b) as" by simp_all
  note s = buf_cut [OF x(2) n]
  have sm: "same_at (set as) m (upd a ?b m)" using x(1) by (auto simp: same_at_def)
  let ?m1 = "upd a ?b m" let ?m2 = "?m1\<lparr>objs := fmfilter (\<lambda>x. x \<notin> set as) (objs ?m1)\<rparr>"
  have nil: "pnext b = None \<Longrightarrow> as = []" using x(3) by (cases as) auto
  have "fmfilter (\<lambda>x. True) (objs ?m1) = objs ?m1" by (rule fmap_ext) simp
  then have "(if pnext b = None then Ret ?m1 else bind_o (pbuf_free (pnext b) ?m1) (\<lambda>(n, m). Ret m)) = Ret ?m2"
    using free_chain [of ?m1 "pnext b" as] x(3) nil by (auto simp: chain_cong [OF sm] pbuf_free_def)
  then have e: "realloc_end (a, n, m) = Ret (upd a b' ?m2)"
    using b x(1) by (simp add: realloc_end_def Let_def b'_def)
  have l: "length (pbytes b) = unat (plen b)" using x(2) by (simp add: buf_ok_def pbytes_def)
  then have "chain (upd a b' ?m2) (Some a) [a] \<and> chain_bytes (upd a b' ?m2) [a] = take (unat n) (chain_bytes m (a # as))"
    using s b n by (simp add: b'_def word_le_nat_alt)
  moreover have "same_at (- set (a # as)) m (upd a b' ?m2)" by (auto simp: same_at_def)
  moreover have "fset (fmdom (objs (upd a b' ?m2))) = fset (fmdom (objs m)) - set as"
    using b x(1) by (auto simp: upd_def fmlookup_dom_iff)
  ultimately show ?thesis using e by blast
qed

lemma realloc_chain:
  assumes "chain m (Some a) as" "unat n \<le> length (chain_bytes m as)" "length as \<le> k"
    "unat sh = length (chain_bytes m as) - unat n"
  shows "\<exists>m' xs ys. bind_o (realloc_loop k a n sh m) realloc_end = Ret m' \<and> as = xs @ ys \<and>
    chain m' (Some a) xs \<and> chain_bytes m' xs = take (unat n) (chain_bytes m as) \<and>
    same_at (- set as) m m' \<and> fset (fmdom (objs m')) = fset (fmdom (objs m)) - set ys"
  using assms
proof (induction as arbitrary: a n m k)
  case (Cons x as)
  from Cons.prems obtain j where k: "k = Suc j" "length as \<le> j" by (cases k) auto
  from Cons.prems(1) obtain b where b: "Some a = Some x" "x \<notin> set as" "fmlookup (objs m) x = Some b" "buf_ok b"
    "unat (tot_len b) = unat (plen b) + length (chain_bytes m as)" "chain m (pnext b) as"
    "length (pbytes b) = unat (plen b)" by (rule chain_Cons_cases)
  show ?case
  proof (cases "n \<le> plen b")
    case True
    then have "\<not> plen b < n" by simp
    then have "realloc_loop k a n sh m = Ret (a, n, m)" using k b by simp
    moreover obtain m' where "realloc_end (a, n, m) = Ret m'" "chain m' (Some a) [a]"
      "chain_bytes m' [a] = take (unat n) (chain_bytes m (a # as))" "same_at (- set (a # as)) m m'"
      "fset (fmdom (objs m')) = fset (fmdom (objs m)) - set as"
      using realloc_last [of m a as b n] True Cons.prems(1) b(1,3) by (auto simp del: chain.simps chain_bytes.simps)
    ultimately show ?thesis using b(1)
      by (intro exI [of _ m'] exI [of _ "[a]"] exI [of _ as]) (simp del: chain.simps chain_bytes.simps)
  next
    case False
    then have lt: "unat (plen b) < unat n" by (simp add: word_le_nat_alt)
    then obtain x' as' where as: "as = x' # as'" using Cons.prems(2) b by (cases as) auto
    have nx: "pnext b = Some x'" using b(6) as by simp
    let ?b = "b\<lparr>tot_len := tot_len b - sh\<rparr>" and ?m = "upd x (b\<lparr>tot_len := tot_len b - sh\<rparr>) m"
    have sm: "same_at (set as) m ?m" using b(2) by (auto simp: same_at_def)
    have u: "unat (n - plen b) = unat n - unat (plen b)" using lt by (simp add: unat_sub word_le_nat_alt)
    have tl: "unat (tot_len b - sh) = unat n"
      using Cons.prems(2,4) b by (subst unat_sub) (simp_all add: word_le_nat_alt)
    have "\<exists>m' xs ys. bind_o (realloc_loop j x' (n - plen b) sh ?m) realloc_end = Ret m' \<and> as = xs @ ys \<and>
      chain m' (Some x') xs \<and> chain_bytes m' xs = take (unat (n - plen b)) (chain_bytes ?m as) \<and>
      same_at (- set as) ?m m' \<and> fset (fmdom (objs m')) = fset (fmdom (objs ?m)) - set ys"
      using Cons.prems b nx u lt k
      by (intro Cons.IH) (simp_all add: chain_cong [OF sm] chain_bytes_cong [OF sm])
    then obtain m' xs ys where r: "bind_o (realloc_loop j x' (n - plen b) sh ?m) realloc_end = Ret m'"
      "as = xs @ ys" "chain m' (Some x') xs" "chain_bytes m' xs = take (unat (n - plen b)) (chain_bytes m as)"
      "same_at (- set as) ?m m'" "fset (fmdom (objs m')) = fset (fmdom (objs ?m)) - set ys"
      by (auto simp: chain_bytes_cong [OF sm])
    have l: "fmlookup (objs m') x = Some ?b" using r(5) b(2) by (auto simp: same_at_def)
    have "pbytes ?b = pbytes b" "buf_ok ?b" using b(4) by (simp_all add: pbytes_def buf_ok_def)
    then have "chain m' (Some a) (x # xs)" "chain_bytes m' (x # xs) = take (unat n) (chain_bytes m (x # as))"
      using b r(2-4) l nx tl u lt Cons.prems(2) by (auto simp: min_def)
    moreover have "bind_o (realloc_loop k a n sh m) realloc_end = Ret m'"
      using k b nx False r(1) by (simp add: linorder_not_le)
    moreover have "same_at (- set (x # as)) m m'" using r(5) by (auto simp: same_at_def)
    moreover have "fset (fmdom (objs m')) = fset (fmdom (objs m)) - set ys"
      using r(6) b(3) by (auto simp: upd_def fmlookup_dom_iff)
    moreover have "x # as = (x # xs) @ ys" using r(2) by simp
    ultimately show ?thesis by blast
  qed
qed simp

lemma pbuf_realloc_end:
  assumes "chain m (Some a) as" "unat n < length (chain_bytes m as)"
  shows "pbuf_realloc a n m =
    bind_o (realloc_loop (heap_bound m) a n (of_nat (length (chain_bytes m as)) - n) m) realloc_end"
proof -
  obtain as' where as: "as = a # as'" using assms(1) by (cases as) auto
  then obtain b where b: "fmlookup (objs m) a = Some b" "unat (tot_len b) = length (chain_bytes m as)"
    using assms(1) by (auto split: option.splits)
  then have "tot_len b = of_nat (length (chain_bytes m as))" by (metis of_nat_unat ucast_id)
  moreover have "\<not> tot_len b \<le> n" using b assms(2) by (simp add: word_le_nat_alt)
  ultimately show ?thesis unfolding realloc_end_def [abs_def] using b(1) by (simp add: pbuf_realloc_def)
qed

lemma pbuf_realloc_chain:
  assumes c: "chain m (Some a) as" and n: "unat n < length (chain_bytes m as)"
  shows "\<exists>m' xs ys. pbuf_realloc a n m = Ret m' \<and> as = xs @ ys \<and> chain m' (Some a) xs \<and>
    chain_bytes m' xs = take (unat n) (chain_bytes m as) \<and> same_at (- set as) m m' \<and>
    fset (fmdom (objs m')) = fset (fmdom (objs m)) - set ys"
proof -
  let ?t = "of_nat (length (chain_bytes m as)) :: u16"
  have "unat ?t = length (chain_bytes m as)"
    using length_chain [OF c] by (simp add: unsigned_of_nat take_bit_nat_eq_self)
  then have "unat (?t - n) = length (chain_bytes m as) - unat n"
    using n by (subst unat_sub) (simp_all add: word_le_nat_alt)
  with realloc_chain [OF c less_imp_le [OF n] less_imp_le [OF chain_bound [OF c]]]
  show ?thesis using pbuf_realloc_end [OF c n] by metis
qed

section \<open>Properties\<close>

definition demo_buf :: "nat option \<Rightarrow> byte list \<Rightarrow> u16 \<Rightarrow> pbuf" where
  "demo_buf nx bs tot = \<lparr>pnext = nx, area = 0 # bs, payload = 1, tot_len = tot,
     plen = of_nat (length bs), type_internal = PBUF_RAM, flags = 0, ref = 1, if_idx = 0\<rparr>"

definition demo_pmem :: pmem where
  "demo_pmem = \<lparr>objs = fmupd 1 (demo_buf (Some 2) [10, 11] 3) (fmupd 2 (demo_buf None [12] 1)
     (fmupd 3 (demo_buf None [13, 14] 2) (fmupd 4 (demo_buf None [15] 1) fmempty))), spare = []\<rparr>"

lemma demo_chains: "chain demo_pmem (Some 1) [1, 2]" "chain demo_pmem (Some 3) [3]"
  "chain_bytes demo_pmem [1, 2] = [10, 11, 12]" "chain_bytes demo_pmem [3] = [13, 14]"
  by (simp_all add: demo_pmem_def demo_buf_def buf_ok_def pbytes_def)

text \<open>C31. A chain of packet buffers is a byte queue: joining a second chain appends its bytes and its
  buffers, and dropping \<open>n\<close> bytes from the front leaves exactly the bytes behind them. Freed are exactly
  the buffers that this empties: those whose bytes are all dropped, up to the one with the last byte
  dropped, so no emptied buffer stays at the head. Every other buffer of the heap stays, those outside
  the chain are untouched, and the lengths stay exact, as long as the joined chain is shorter than 64
  KiB (the width of \<open>tot_len\<close>).\<close>

theorem pbuf_queue_refines:
  assumes a: "chain m (Some h) as" "chain m (Some t) bs" "set as \<inter> set bs = {}"
    "length (chain_bytes m as) + length (chain_bytes m bs) < 65536"
    and n: "unat n \<le> length (chain_bytes m as) + length (chain_bytes m bs)"
  shows "\<exists>m1 p m2 xs cs. pbuf_cat (Some h) (Some t) m = Ret m1 \<and> chain m1 (Some h) (as @ bs) \<and>
    chain_bytes m1 (as @ bs) = chain_bytes m as @ chain_bytes m bs \<and>
    pbuf_free_header (Some h) n m1 = Ret (p, m2) \<and> as @ bs = xs @ cs \<and> chain m2 p cs \<and>
    chain_bytes m2 cs = drop (unat n) (chain_bytes m as @ chain_bytes m bs) \<and>
    length (chain_bytes m1 xs) \<le> unat n \<and>
    (xs \<noteq> [] \<longrightarrow> length (chain_bytes m1 (butlast xs)) < unat n) \<and>
    (cs \<noteq> [] \<longrightarrow> length (chain_bytes m1 xs) = unat n \<or> unat n < length (chain_bytes m1 (xs @ [hd cs]))) \<and>
    fset (fmdom (objs m2)) = fset (fmdom (objs m)) - set xs \<and> same_at (- set (as @ bs)) m m2"
proof -
  have ht: "h \<noteq> t" using a(1-3) chain_Some [of m h as] chain_Some [of m t bs] by auto
  obtain m1 where c: "pbuf_cat (Some h) (Some t) m = Ret m1" "chain m1 (Some h) (as @ bs)"
    "chain_bytes m1 (as @ bs) = chain_bytes m as @ chain_bytes m bs" "same_at (- set as) m m1"
    "fset (fmdom (objs m1)) = fset (fmdom (objs m))"
    using cat_chain [OF a less_imp_le [OF chain_bound [OF a(1)]]] ht by (metis pbuf_cat_end)
  have "unat n \<le> length (chain_bytes m1 (as @ bs))" using n c(3) by simp
  from free_header_chain [OF c(2) this chain_bound [OF c(2)]]
  obtain p m2 where f: "pbuf_free_header (Some h) n m1 = Ret (p, m2)" "dropped (unat n) (as @ bs) m1 p m2"
    unfolding pbuf_free_header_def by blast
  from f(2) obtain xs cs where x: "as @ bs = xs @ cs" "chain m2 p cs"
    "chain_bytes m2 cs = drop (unat n) (chain_bytes m1 (as @ bs))"
    "fset (fmdom (objs m2)) = fset (fmdom (objs m1)) - set xs" "same_at (- set (as @ bs)) m1 m2"
    "emptied m1 (unat n) xs cs" unfolding dropped_def by blast
  from x(5) c(4) have s: "same_at (- set (as @ bs)) m m2" by (simp add: same_at_def)
  have e: "chain_bytes m2 cs = drop (unat n) (chain_bytes m as @ chain_bytes m bs)"
    "fset (fmdom (objs m2)) = fset (fmdom (objs m)) - set xs" using x(3,4) c(3,5) by simp_all
  show ?thesis using c(1-3) f(1) x(1,2) x(6) [unfolded emptied_def] s e by blast
qed

theorem pbuf_queue_refines_witness:
  "\<exists>m1 p m2 xs cs. pbuf_cat (Some 1) (Some 3) demo_pmem = Ret m1 \<and> pbuf_free_header (Some 1) 3 m1 = Ret (p, m2) \<and>
    [1, 2, 3] = xs @ cs \<and> chain m2 p cs \<and> chain_bytes m2 cs = [13, 14] \<and>
    length (chain_bytes m1 xs) \<le> 3 \<and> (cs \<noteq> [] \<longrightarrow> length (chain_bytes m1 xs) = 3 \<or> 3 < length (chain_bytes m1 (xs @ [hd cs])))"
proof -
  have "set [1, 2] \<inter> set [3 :: nat] = {}" "length [10, 11, 12 :: byte] + length [13, 14 :: byte] < 65536"
    "unat (3 :: u16) \<le> length [10, 11, 12 :: byte] + length [13, 14 :: byte]" by simp_all
  from pbuf_queue_refines [OF demo_chains(1,2), of 3, unfolded demo_chains(3,4), OF this]
  obtain m1 p m2 xs cs where "pbuf_cat (Some 1) (Some 3) demo_pmem = Ret m1" "pbuf_free_header (Some 1) 3 m1 = Ret (p, m2)"
    "[1, 2] @ [3] = xs @ cs" "chain m2 p cs" "chain_bytes m2 cs = drop (unat (3 :: u16)) ([10, 11, 12] @ [13, 14])"
    "length (chain_bytes m1 xs) \<le> unat (3 :: u16)"
    "cs \<noteq> [] \<longrightarrow> length (chain_bytes m1 xs) = unat (3 :: u16) \<or> unat (3 :: u16) < length (chain_bytes m1 (xs @ [hd cs]))"
    by (elim exE conjE) blast
  then show ?thesis by (intro exI [of _ m1] exI [of _ p] exI [of _ m2] exI [of _ xs] exI [of _ cs]) simp
qed

text \<open>Shrinking a chain to \<open>n\<close> bytes keeps exactly its first \<open>n\<close> bytes, and freeing the result
  returns the remaining buffers: together the two calls release every buffer of the chain, once,
  and nothing else.\<close>

lemma pbuf_realloc_free:
  assumes c: "chain m (Some a) as" and n: "unat n < length (chain_bytes m as)"
  shows "\<exists>m1 xs m2. pbuf_realloc a n m = Ret m1 \<and> chain m1 (Some a) xs \<and>
    chain_bytes m1 xs = take (unat n) (chain_bytes m as) \<and>
    pbuf_free (Some a) m1 = Ret (of_nat (length xs), m2) \<and>
    fset (fmdom (objs m2)) = fset (fmdom (objs m)) - set as \<and> same_at (- set as) m m2"
proof -
  obtain m1 xs ys where r: "pbuf_realloc a n m = Ret m1" "as = xs @ ys" "chain m1 (Some a) xs"
    "chain_bytes m1 xs = take (unat n) (chain_bytes m as)" "same_at (- set as) m m1"
    "fset (fmdom (objs m1)) = fset (fmdom (objs m)) - set ys"
    using pbuf_realloc_chain [OF c n] by blast
  let ?m2 = "m1\<lparr>objs := fmfilter (\<lambda>a. a \<notin> set xs) (objs m1)\<rparr>"
  have "pbuf_free (Some a) m1 = Ret (of_nat (length xs), ?m2)"
    using free_chain [OF r(3), of 0] by (simp add: pbuf_free_def)
  moreover have "fset (fmdom (objs ?m2)) = fset (fmdom (objs m)) - set as" using r(2,6) by auto
  moreover have "same_at (- set as) m ?m2" using r(2,5) by (auto simp: same_at_def)
  ultimately show ?thesis using r by blast
qed

lemma pbuf_realloc_free_example:
  "\<exists>m1 m2 xs. pbuf_realloc 1 1 demo_pmem = Ret m1 \<and> chain_bytes m1 xs = [10] \<and>
    pbuf_free (Some 1) m1 = Ret (of_nat (length xs), m2) \<and> fset (fmdom (objs m2)) = {3, 4}"
proof -
  have "fset (fmdom (objs demo_pmem)) - set [1, 2] = {3, 4}" by (auto simp: demo_pmem_def)
  with pbuf_realloc_free [OF demo_chains(1), of 1, unfolded demo_chains(3)] show ?thesis by auto
qed

end
