(* ===== verification/HevList.thy ===== *)
theory HevList
  imports Prelude
begin

text \<open>
  The intrusive doubly linked list of \<open>src/misc/hev-list.c\<close>. A node is a number; the links of all
  nodes are a map, the part of the heap the list lives in. \<open>list_rep\<close> says that the list's
  pointers describe a given sequence of nodes. The locale \<open>node_list\<close> is the contract the
  clients rely on: the least-recently-used order of the DNS map, the session queue of the tunnel
  and the frame queue of a UDP session.
\<close>

record links =
  nxt :: "nat option"
  prv :: "nat option"

record hlist =
  head :: "nat option"
  tail :: "nat option"
  lnk :: "nat \<Rightarrow> links"

definition hev_list_new :: hlist where
  "hev_list_new = \<lparr>head = None, tail = None, lnk = (\<lambda>_. \<lparr>nxt = None, prv = None\<rparr>)\<rparr>"

definition hev_list_first :: "hlist \<Rightarrow> nat option" where
  "hev_list_first self = head self"

definition hev_list_last :: "hlist \<Rightarrow> nat option" where
  "hev_list_last self = tail self"

definition hev_list_node_next :: "hlist \<Rightarrow> nat \<Rightarrow> nat option" where
  "hev_list_node_next self node = nxt (lnk self node)"

definition hev_list_node_prev :: "hlist \<Rightarrow> nat \<Rightarrow> nat option" where
  "hev_list_node_prev self node = prv (lnk self node)"

definition set_nxt :: "nat \<Rightarrow> nat option \<Rightarrow> hlist \<Rightarrow> hlist" where
  "set_nxt n v l = l\<lparr>lnk := (lnk l)(n := (lnk l n)\<lparr>nxt := v\<rparr>)\<rparr>"

definition set_prv :: "nat \<Rightarrow> nat option \<Rightarrow> hlist \<Rightarrow> hlist" where
  "set_prv n v l = l\<lparr>lnk := (lnk l)(n := (lnk l n)\<lparr>prv := v\<rparr>)\<rparr>"

definition hev_list_add_tail :: "nat \<Rightarrow> hlist \<Rightarrow> hlist" where
  "hev_list_add_tail new self =
     (let self = set_nxt new None (set_prv new (tail self) self);
          self = (case tail self of
                    Some t \<Rightarrow> set_nxt t (Some new) self
                  | None \<Rightarrow> self\<lparr>head := Some new\<rparr>)
      in self\<lparr>tail := Some new\<rparr>)"

definition hev_list_del :: "nat \<Rightarrow> hlist \<Rightarrow> hlist" where
  "hev_list_del node self =
     (let self = (case prv (lnk self node) of
                    Some p \<Rightarrow> set_nxt p (nxt (lnk self node)) self
                  | None \<Rightarrow> self\<lparr>head := nxt (lnk self node)\<rparr>)
      in case nxt (lnk self node) of
           Some n \<Rightarrow> set_prv n (prv (lnk self node)) self
         | None \<Rightarrow> self\<lparr>tail := prv (lnk self node)\<rparr>)"

section \<open>Representation\<close>

fun hd_opt :: "nat list \<Rightarrow> nat option \<Rightarrow> nat option" where
  "hd_opt [] q = q"
| "hd_opt (x # xs) q = Some x"

fun last_opt :: "nat list \<Rightarrow> nat option \<Rightarrow> nat option" where
  "last_opt [] p = p"
| "last_opt (x # xs) p = last_opt xs (Some x)"

text \<open>\<open>dseg h p xs q\<close>: the nodes \<open>xs\<close> are linked in both directions, between \<open>p\<close> and \<open>q\<close>.\<close>

fun dseg :: "(nat \<Rightarrow> links) \<Rightarrow> nat option \<Rightarrow> nat list \<Rightarrow> nat option \<Rightarrow> bool" where
  "dseg h p [] q = True"
| "dseg h p (x # xs) q \<longleftrightarrow> prv (h x) = p \<and> nxt (h x) = hd_opt xs q \<and> dseg h (Some x) xs q"

definition list_rep :: "hlist \<Rightarrow> nat list \<Rightarrow> bool" where
  "list_rep l xs \<longleftrightarrow> distinct xs \<and> head l = hd_opt xs None \<and> tail l = last_opt xs None \<and>
     dseg (lnk l) None xs None"

lemma hd_opt_append [simp]: "hd_opt (xs @ ys) q = hd_opt xs (hd_opt ys q)"
  by (cases xs) simp_all

lemma last_opt_append [simp]: "last_opt (xs @ ys) p = last_opt ys (last_opt xs p)"
  by (induction xs arbitrary: p) simp_all

lemma dseg_append [simp]: "dseg h p (xs @ ys) q \<longleftrightarrow> dseg h p xs (hd_opt ys q) \<and> dseg h (last_opt xs p) ys q"
  by (induction xs arbitrary: p) auto

lemma dseg_other [simp]: "x \<notin> set xs \<Longrightarrow> dseg (h(x := v)) p xs q = dseg h p xs q"
  by (induction xs arbitrary: p) auto

lemma last_opt_snoc: "xs \<noteq> [] \<Longrightarrow> last_opt xs p = Some (last xs)"
  by (induction xs arbitrary: p) auto

lemma last_opt_split: "last_opt xs None = Some y \<Longrightarrow> \<exists>ys. xs = ys @ [y]"
  by (cases xs rule: rev_cases) simp_all

text \<open>Changing the outgoing link at one end of a segment.\<close>

lemma dseg_set_last:
  "dseg h p (xs @ [y]) q \<Longrightarrow> y \<notin> set xs \<Longrightarrow> dseg (h(y := (h y)\<lparr>nxt := r\<rparr>)) p (xs @ [y]) r"
  by simp

lemma dseg_set_first:
  "dseg h p (y # xs) q \<Longrightarrow> y \<notin> set xs \<Longrightarrow> dseg (h(y := (h y)\<lparr>prv := r\<rparr>)) r (y # xs) q"
  by simp

lemma list_rep_add_tail:
  assumes "list_rep l xs" "x \<notin> set xs"
  shows "list_rep (hev_list_add_tail x l) (xs @ [x])"
proof (cases xs rule: rev_cases)
  case Nil
  then show ?thesis using assms
    by (simp add: list_rep_def hev_list_add_tail_def set_nxt_def set_prv_def)
next
  case (snoc ys y)
  then have t: "tail l = Some y" using assms by (simp add: list_rep_def)
  show ?thesis using assms t snoc
    by (auto simp: list_rep_def hev_list_add_tail_def set_nxt_def set_prv_def)
qed

lemma list_rep_del:
  assumes "list_rep l (xs @ x # ys)"
  shows "list_rep (hev_list_del x l) (xs @ ys)"
proof -
  have d: "distinct (xs @ x # ys)" and h: "head l = hd_opt xs (Some x)"
    and t: "tail l = last_opt ys (Some x)" and sx: "dseg (lnk l) None xs (Some x)"
    and px: "prv (lnk l x) = last_opt xs None" and nx: "nxt (lnk l x) = hd_opt ys None"
    and sy: "dseg (lnk l) (Some x) ys None"
    using assms by (simp_all add: list_rep_def)
  show ?thesis
  proof (cases xs rule: rev_cases)
    case Nil
    then show ?thesis using d h t px nx sy
      by (cases ys) (auto simp: list_rep_def hev_list_del_def set_prv_def Let_def)
  next
    case (snoc xs' p)
    then show ?thesis using d h t px nx sx sy
      by (cases ys) (auto simp: list_rep_def hev_list_del_def set_prv_def set_nxt_def Let_def)
  qed
qed

section \<open>The contract\<close>

text \<open>Iterating from the first node with \<open>next\<close>, at most \<open>n\<close> steps.\<close>

fun walk_list :: "('l \<Rightarrow> nat \<Rightarrow> nat option) \<Rightarrow> 'l \<Rightarrow> nat \<Rightarrow> nat option \<Rightarrow> nat list" where
  "walk_list next_of l 0 p = []"
| "walk_list next_of l (Suc n) None = []"
| "walk_list next_of l (Suc n) (Some x) = x # walk_list next_of l n (next_of l x)"

locale node_list =
  fixes rep :: "'l \<Rightarrow> nat list \<Rightarrow> bool"
    and empty :: 'l
    and first :: "'l \<Rightarrow> nat option"
    and next_of :: "'l \<Rightarrow> nat \<Rightarrow> nat option"
    and add_tail :: "nat \<Rightarrow> 'l \<Rightarrow> 'l"
    and del :: "nat \<Rightarrow> 'l \<Rightarrow> 'l"
  assumes rep_distinct: "rep l xs \<Longrightarrow> distinct xs"
    and rep_empty: "rep empty []"
    and rep_first: "rep l xs \<Longrightarrow> first l = (case xs of [] \<Rightarrow> None | x # _ \<Rightarrow> Some x)"
    and rep_next: "rep l (xs @ x # ys) \<Longrightarrow> next_of l x = (case ys of [] \<Rightarrow> None | y # _ \<Rightarrow> Some y)"
    and rep_add_tail: "rep l xs \<Longrightarrow> x \<notin> set xs \<Longrightarrow> rep (add_tail x l) (xs @ [x])"
    and rep_del: "rep l (xs @ x # ys) \<Longrightarrow> rep (del x l) (xs @ ys)"
begin

lemma rep_remove: "rep l xs \<Longrightarrow> x \<in> set xs \<Longrightarrow> rep (del x l) (remove1 x xs)"
proof -
  assume l: "rep l xs" and x: "x \<in> set xs"
  obtain ys zs where xs: "xs = ys @ x # zs" "x \<notin> set ys" using split_list_first [OF x] by blast
  then show ?thesis using rep_del [of l ys x zs] l by (simp add: remove1_append)
qed

text \<open>Deleting and adding again moves a node to the back: the order of last use.\<close>

lemma rep_touch: "rep l xs \<Longrightarrow> x \<in> set xs \<Longrightarrow> rep (add_tail x (del x l)) (remove1 x xs @ [x])"
  using rep_add_tail [OF rep_remove] rep_distinct by (simp add: set_remove1_eq)

lemma rep_pop: "rep l (x # xs) \<Longrightarrow> rep (del x l) xs"
  using rep_del [of l "[]"] by simp

lemma walk_suffix:
  "rep l (xs @ ys) \<Longrightarrow> length ys \<le> n \<Longrightarrow>
   walk_list next_of l n (case ys of [] \<Rightarrow> None | y # _ \<Rightarrow> Some y) = ys"
proof (induction ys arbitrary: xs n)
  case Nil
  then show ?case by (cases n) simp_all
next
  case (Cons y ys)
  then obtain m where n: "n = Suc m" by (cases n) auto
  have l: "rep l ((xs @ [y]) @ ys)" using Cons.prems(1) by simp
  have "walk_list next_of l m (case ys of [] \<Rightarrow> None | y # _ \<Rightarrow> Some y) = ys"
    by (rule Cons.IH [OF l]) (use Cons.prems(2) n in simp)
  then show ?case using rep_next [OF Cons.prems(1)] n by simp
qed

lemma walk_all: "rep l xs \<Longrightarrow> length xs \<le> n \<Longrightarrow> walk_list next_of l n (first l) = xs"
  using walk_suffix [of l "[]" xs n] rep_first by simp

end

interpretation hl: node_list list_rep hev_list_new hev_list_first hev_list_node_next hev_list_add_tail
  hev_list_del
proof unfold_locales
  show "list_rep l xs \<Longrightarrow> distinct xs" for l xs by (simp add: list_rep_def)
  show "list_rep hev_list_new []" by (simp add: list_rep_def hev_list_new_def)
  show "list_rep l xs \<Longrightarrow> hev_list_first l = (case xs of [] \<Rightarrow> None | x # _ \<Rightarrow> Some x)" for l xs
    by (cases xs) (simp_all add: list_rep_def hev_list_first_def)
  show "list_rep l (xs @ x # ys) \<Longrightarrow> hev_list_node_next l x = (case ys of [] \<Rightarrow> None | y # _ \<Rightarrow> Some y)"
    for l xs x ys by (cases ys) (simp_all add: list_rep_def hev_list_node_next_def)
qed (simp_all add: list_rep_add_tail list_rep_del)

section \<open>Theorems\<close>

datatype list_op = AddTail nat | Del nat

fun list_run :: "list_op list \<Rightarrow> hlist \<Rightarrow> hlist" where
  "list_run [] l = l"
| "list_run (AddTail x # ops) l = list_run ops (hev_list_add_tail x l)"
| "list_run (Del x # ops) l = list_run ops (hev_list_del x l)"

text \<open>The specification: a node is added only when it is not in the list, and deleted only when it
  is.\<close>

fun list_spec :: "list_op list \<Rightarrow> nat list \<Rightarrow> nat list option" where
  "list_spec [] xs = Some xs"
| "list_spec (AddTail x # ops) xs = (if x \<in> set xs then None else list_spec ops (xs @ [x]))"
| "list_spec (Del x # ops) xs = (if x \<in> set xs then list_spec ops (remove1 x xs) else None)"

lemma list_run_rep: "list_rep l xs \<Longrightarrow> list_spec ops xs = Some ys \<Longrightarrow> list_rep (list_run ops l) ys"
  by (induction ops xs arbitrary: l rule: list_spec.induct)
    (auto simp: hl.rep_add_tail hl.rep_remove split: if_splits)

text \<open>The linked list refines a sequence: after any history of additions at the tail and
  deletions of present nodes, walking from the first node follows exactly the remaining nodes in
  the order they were added, and the links of every node name its neighbours.\<close>

lemma hev_list_refines:
  assumes "list_spec ops [] = Some xs"
  shows "list_rep (list_run ops hev_list_new) xs \<and>
    walk_list hev_list_node_next (list_run ops hev_list_new) (length xs)
      (hev_list_first (list_run ops hev_list_new)) = xs"
  using list_run_rep [OF hl.rep_empty assms] hl.walk_all by simp

lemma hev_list_refines_example:
  "walk_list hev_list_node_next (list_run [AddTail 3, AddTail 5, AddTail 8, Del 5, AddTail 5, Del 3] hev_list_new) 2
     (hev_list_first (list_run [AddTail 3, AddTail 5, AddTail 8, Del 5, AddTail 5, Del 3] hev_list_new)) = [8, 5]"
  using hev_list_refines [of "[AddTail 3, AddTail 5, AddTail 8, Del 5, AddTail 5, Del 3]" "[8, 5]"]
  by (simp add: numeral_2_eq_2)

end
