(* ===== verification/MappedDNS.thy ===== *)
theory MappedDNS
  imports RBTree HevList Socks5
begin

unbundle bit_operations_syntax

text \<open>
  The fake DNS server (\<open>src/hev-mapped-dns.c\<close>): every name asked for is given an address of a
  private network, and a connection to such an address is a connection to the name. At most
  \<open>max\<close> names are kept; the one least recently used gives its address up. The state has the
  list and the tree of the nodes, the array of records, and the nodes on the heap; a freed node is
  not in the heap any more and touching it is \<open>Fault\<close>.

  The theorems show that the structure refines a list of names in order of use with their
  addresses, that names and addresses are in one-to-one correspondence at every moment, and that
  the handler answers a query with the address under which the name is found again.
\<close>

section \<open>Names\<close>

text \<open>\<open>strcmp\<close> on strings without their terminators.\<close>

fun strcmp :: "byte list \<Rightarrow> byte list \<Rightarrow> int" where
  "strcmp [] [] = 0"
| "strcmp [] (b # bs) = - 1"
| "strcmp (a # as) [] = 1"
| "strcmp (a # as) (b # bs) = (if a < b then - 1 else if b < a then 1 else strcmp as bs)"

lemma strcmp_zero: "strcmp a b = 0 \<longleftrightarrow> a = b"
  by (induction a b rule: strcmp.induct) auto

lemma strcmp_anti: "strcmp a b < 0 \<longleftrightarrow> strcmp b a > 0"
  by (induction a b rule: strcmp.induct) auto

lemma strcmp_trans: "strcmp a b > 0 \<Longrightarrow> strcmp b c > 0 \<Longrightarrow> strcmp a c > 0"
proof (induction a b arbitrary: c rule: strcmp.induct)
  case (4 a as b bs)
  then show ?case by (cases c) (auto split: if_splits)
next
  case (3 a as)
  then show ?case by (cases c) auto
qed auto

interpretation strs: search_order snd strcmp
  by unfold_locales (auto simp: strcmp_zero strcmp_anti intro: strcmp_trans)

section \<open>State and operations\<close>

record dns_node =
  nname :: "byte list"
  nidx :: int

record mapped_dns =
  use :: int
  dmax :: int
  net :: int
  mask :: int
  dlist :: hlist
  dtree :: "(nat \<times> byte list) rbt"
  records :: "nat \<Rightarrow> nat option"
  nodes :: "nat \<rightharpoonup> dns_node"
  fresh :: nat

definition hev_mapped_dns_construct :: "int \<Rightarrow> int \<Rightarrow> int \<Rightarrow> mapped_dns option" where
  "hev_mapped_dns_construct net' mask' max' =
     (if max' > NOT mask' then None
      else Some \<lparr>use = 0, dmax = max', net = net', mask = mask', dlist = hev_list_new, dtree = Nil,
        records = (\<lambda>_. None), nodes = Map.empty, fresh = 0\<rparr>)"

definition hev_mapped_dns_new :: "bool \<Rightarrow> int \<Rightarrow> int \<Rightarrow> int \<Rightarrow> mapped_dns option" where
  "hev_mapped_dns_new alloc net' mask' max' =
     (if alloc then hev_mapped_dns_construct net' mask' max' else None)"

text \<open>\<open>fresh\<close> is the address the allocator returns next. That \<open>hev_malloc0\<close> has no memory for a node is the
  argument \<open>alloc\<close> of \<open>hev_mapped_dns_find\<close>. The code does not look at the result of \<open>strdup\<close>; here the copy
  of the name is taken to succeed, and a node without a name is not modelled.\<close>

definition hev_mapped_dns_node_alloc :: "byte list \<Rightarrow> mapped_dns \<Rightarrow> nat \<times> mapped_dns" where
  "hev_mapped_dns_node_alloc name self =
     (fresh self, self\<lparr>fresh := Suc (fresh self),
        nodes := (nodes self)(fresh self \<mapsto> \<lparr>nname = name, nidx = 0\<rparr>)\<rparr>)"

definition hev_mapped_dns_node_free :: "nat \<Rightarrow> mapped_dns \<Rightarrow> mapped_dns" where
  "hev_mapped_dns_node_free nd self = self\<lparr>nodes := (nodes self)(nd := None)\<rparr>"

definition dns_touch :: "nat \<Rightarrow> mapped_dns \<Rightarrow> mapped_dns" where
  "dns_touch nd self = self\<lparr>dlist := hev_list_add_tail nd (hev_list_del nd (dlist self))\<rparr>"

text \<open>The node at the head of the list gives up its index.\<close>

definition dns_evict :: "mapped_dns \<Rightarrow> (int \<times> mapped_dns) outcome" where
  "dns_evict self =
     bind_o (of_option (hev_list_first (dlist self))) (\<lambda>nf.
     bind_o (of_option (nodes self nf)) (\<lambda>n.
     bind_o (of_option (place (\<lambda>x. fst x = nf) (dtree self) [])) (\<lambda>(node, path).
     bind_o (hev_rbtree_erase node path) (\<lambda>tree.
       Ret (nidx n, hev_mapped_dns_node_free nf
         (self\<lparr>dtree := tree, dlist := hev_list_del nf (dlist self)\<rparr>))))))"

text \<open>\<open>records\<close> has \<open>max\<close> entries.\<close>

definition dns_set_record :: "int \<Rightarrow> nat \<Rightarrow> mapped_dns \<Rightarrow> (int \<times> mapped_dns) outcome" where
  "dns_set_record idx nd self =
     (if idx < 0 \<or> idx \<ge> dmax self then Fault
      else bind_o (of_option (nodes self nd)) (\<lambda>n.
        Ret (idx, self\<lparr>records := (records self)(nat idx := Some nd),
          nodes := (nodes self)(nd \<mapsto> n\<lparr>nidx := idx\<rparr>)\<rparr>)))"

definition hev_mapped_dns_find :: "bool \<Rightarrow> byte list \<Rightarrow> mapped_dns \<Rightarrow> (int \<times> mapped_dns) outcome" where
  "hev_mapped_dns_find alloc name self =
     (case descend (\<lambda>x. strcmp (snd x) name) (dtree self) [] of
        (Nd l c x r, _) \<Rightarrow>
          bind_o (of_option (nodes self (fst x))) (\<lambda>n. Ret (nidx n, dns_touch (fst x) self))
      | (Nil, link) \<Rightarrow>
          if \<not> alloc then Ret (- 1, self)
          else (case hev_mapped_dns_node_alloc name self of (nd, self) \<Rightarrow>
            bind_o (hev_rbtree_insert_color (hev_rbtree_node_link (nd, name)) link) (\<lambda>tree.
            let self = self\<lparr>dtree := tree, dlist := hev_list_add_tail nd (dlist self)\<rparr> in
            bind_o (if use self < dmax self then Ret (use self, self\<lparr>use := use self + 1\<rparr>)
                    else dns_evict self) (\<lambda>(idx, self).
            dns_set_record idx nd self))))"

definition hev_mapped_dns_lookup :: "int \<Rightarrow> mapped_dns \<Rightarrow> (byte list option \<times> mapped_dns) outcome" where
  "hev_mapped_dns_lookup ip self =
     (let idx = ip AND NOT (mask self) in
      if idx \<ge> dmax self then Ret (None, self)
      else if idx < 0 then Fault
      else case records self (nat idx) of
          None \<Rightarrow> Ret (None, self)
        | Some nd \<Rightarrow>
            bind_o (of_option (nodes self nd)) (\<lambda>n. Ret (Some (nname n), dns_touch nd self)))"

text \<open>The destructor frees every node of the list, reading its link first.\<close>

fun dns_free_loop :: "nat \<Rightarrow> nat option \<Rightarrow> mapped_dns \<Rightarrow> mapped_dns outcome" where
  "dns_free_loop n None self = Ret self"
| "dns_free_loop 0 (Some t) self = Wait"
| "dns_free_loop (Suc n) (Some t) self =
     bind_o (of_option (nodes self t)) (\<lambda>_.
       dns_free_loop n (hev_list_node_next (dlist self) t) (hev_mapped_dns_node_free t self))"

definition hev_mapped_dns_destruct :: "mapped_dns \<Rightarrow> mapped_dns outcome" where
  "hev_mapped_dns_destruct self =
     dns_free_loop (nat (use self)) (hev_list_first (dlist self)) self"

section \<open>The specification\<close>

text \<open>Names with their indices, the least recently used first.\<close>

type_synonym lru = "(byte list \<times> int) list"

definition lru_touch :: "byte list \<Rightarrow> lru \<Rightarrow> lru" where
  "lru_touch name xs = filter (\<lambda>x. fst x \<noteq> name) xs @ filter (\<lambda>x. fst x = name) xs"

definition lru_find :: "int \<Rightarrow> byte list \<Rightarrow> lru \<Rightarrow> int \<times> lru" where
  "lru_find mx name xs =
     (case map_of xs name of
        Some i \<Rightarrow> (i, lru_touch name xs)
      | None \<Rightarrow>
          if int (length xs) < mx then (int (length xs), xs @ [(name, int (length xs))])
          else (snd (hd xs), tl xs @ [(name, snd (hd xs))]))"

text \<open>The invariant, relative to the order \<open>ids\<close> of the nodes in the list.\<close>

definition dns_inv :: "mapped_dns \<Rightarrow> nat list \<Rightarrow> bool" where
  "dns_inv self ids \<longleftrightarrow>
     list_rep (dlist self) ids \<and> dom (nodes self) = set ids \<and> (\<forall>i \<in> set ids. i < fresh self) \<and>
     strs.tree_ok (dtree self) \<and>
     (\<forall>i nm. (i, nm) \<in> set (inorder (dtree self)) \<longleftrightarrow> (\<exists>n. nodes self i = Some n \<and> nname n = nm)) \<and>
     use self = int (length ids) \<and> use self \<le> dmax self \<and>
     (\<forall>i n. nodes self i = Some n \<longrightarrow> 0 \<le> nidx n \<and> nidx n < use self) \<and>
     (\<forall>k i. records self k = Some i \<longleftrightarrow> (\<exists>n. nodes self i = Some n \<and> nidx n = int k))"

definition dns_view :: "mapped_dns \<Rightarrow> nat list \<Rightarrow> lru" where
  "dns_view self ids = map (\<lambda>i. (nname (the (nodes self i)), nidx (the (nodes self i)))) ids"

lemma new_inv: "hev_mapped_dns_construct nt mk mx = Some self \<Longrightarrow> 0 \<le> mx \<Longrightarrow>
    dns_inv self [] \<and> dns_view self [] = [] \<and> dmax self = mx"
  by (auto simp: hev_mapped_dns_construct_def dns_inv_def dns_view_def hl.rep_empty strs.tree_ok_Nil
      split: if_splits)

lemma inv_nodes:
  assumes "dns_inv self ids" "nodes self i = Some n"
  shows "i \<in> set ids" "(i, nname n) \<in> set (inorder (dtree self))" "0 \<le> nidx n" "nidx n < use self"
    "records self (nat (nidx n)) = Some i"
  using assms by (auto simp: dns_inv_def)

lemma inv_ids: "dns_inv self ids \<Longrightarrow> i \<in> set ids \<Longrightarrow> \<exists>n. nodes self i = Some n"
  by (auto simp: dns_inv_def)

lemma inv_names:
  assumes "dns_inv self ids" "nodes self i = Some m" "nodes self j = Some n" "nname m = nname n"
  shows "i = j"
proof -
  have "(i, nname m) = (j, nname n)"
    using strs.keys_differ [of "dtree self" "(i, nname m)" "(j, nname n)"] assms by (auto simp: dns_inv_def)
  then show ?thesis by simp
qed

lemma inv_indices:
  assumes "dns_inv self ids" "nodes self i = Some m" "nodes self j = Some n" "nidx m = nidx n"
  shows "i = j"
  using inv_nodes(5) [OF assms(1,2)] inv_nodes(5) [OF assms(1,3)] assms(4) by simp

lemma inv_hit:
  assumes "dns_inv self ids" "descend (\<lambda>x. strcmp (snd x) name) (dtree self) [] = (Nd l c x r, fs)"
  shows "\<exists>n. nodes self (fst x) = Some n \<and> nname n = name"
proof -
  have "snd x = name" using descend_found [OF assms(2)] by (simp add: strcmp_zero)
  moreover have "x \<in> set (inorder (dtree self))"
    using zip_descend [OF assms(2)] inorder_zip [of "Nd l c x r" fs] by simp
  ultimately show ?thesis using assms(1) by (cases x) (auto simp: dns_inv_def)
qed

lemma inv_miss:
  assumes "dns_inv self ids" "descend (\<lambda>x. strcmp (snd x) name) (dtree self) [] = (Nil, fs)"
    and "nodes self i = Some n"
  shows "nname n \<noteq> name"
proof -
  have ok: "strs.tree_ok (dtree self)" using assms(1) by (simp add: dns_inv_def)
  have "strs.elem name (dtree self) = None" using assms(2) by (simp add: strs.elem_def)
  then show ?thesis
    using strs.elem_iff [OF ok, of name "(i, nname n)"] inv_nodes(2) [OF assms(1,3)] by auto
qed

text \<open>Lookups of the view.\<close>

lemma distinct_view: "dns_inv self ids \<Longrightarrow> distinct (map fst (dns_view self ids))"
proof -
  assume inv: "dns_inv self ids"
  have "inj_on (\<lambda>i. nname (the (nodes self i))) (set ids)"
  proof (rule inj_onI)
    fix i j assume "i \<in> set ids" "j \<in> set ids" and eq: "nname (the (nodes self i)) = nname (the (nodes self j))"
    then obtain m n where "nodes self i = Some m" "nodes self j = Some n" using inv_ids [OF inv] by metis
    then show "i = j" using inv_names [OF inv] eq by simp
  qed
  moreover have "distinct ids" using inv hl.rep_distinct by (auto simp: dns_inv_def)
  ultimately show ?thesis by (simp add: dns_view_def distinct_map o_def)
qed

lemma view_hit:
  assumes "dns_inv self ids" "nodes self i = Some n"
  shows "map_of (dns_view self ids) (nname n) = Some (nidx n)"
proof -
  have "(nname n, nidx n) \<in> set (dns_view self ids)"
    using inv_nodes(1) [OF assms] assms(2) by (force simp: dns_view_def)
  then show ?thesis using distinct_view [OF assms(1)] by simp
qed

lemma view_miss:
  assumes "dns_inv self ids" "\<forall>i n. nodes self i = Some n \<longrightarrow> nname n \<noteq> name"
  shows "map_of (dns_view self ids) name = None"
proof -
  have "nname (the (nodes self i)) \<noteq> name" if "i \<in> set ids" for i
    using inv_ids [OF assms(1) that] assms(2) by auto
  then have "name \<notin> fst ` set (dns_view self ids)" unfolding dns_view_def by force
  then show ?thesis unfolding map_of_eq_None_iff .
qed

lemma filter_one: "distinct xs \<Longrightarrow> x \<in> set xs \<Longrightarrow> filter (\<lambda>y. y = x) xs = [x]"
  by (induction xs) (auto simp: filter_empty_conv)

lemma touch_view:
  assumes "dns_inv self ids" "nodes self i = Some n"
  shows "dns_inv (dns_touch i self) (remove1 i ids @ [i])"
    "dns_view (dns_touch i self) (remove1 i ids @ [i]) = lru_touch (nname n) (dns_view self ids)"
proof -
  have i: "i \<in> set ids" by (rule inv_nodes(1) [OF assms])
  have d: "distinct ids" using assms(1) hl.rep_distinct by (auto simp: dns_inv_def)
  have len: "length (remove1 i ids @ [i]) = length ids" using i by (simp add: length_remove1) 
      (metis One_nat_def Suc_pred length_pos_if_in_set)
  have set: "set (remove1 i ids @ [i]) = set ids" using i d by (auto simp: set_remove1_eq)
  have rep: "list_rep (dlist self) ids" using assms(1) by (simp add: dns_inv_def)
  show "dns_inv (dns_touch i self) (remove1 i ids @ [i])"
    using assms(1) hl.rep_touch [OF rep i] unfolding dns_inv_def len set by (auto simp: dns_touch_def)
  have eq: "nname (the (nodes self j)) = nname n \<longleftrightarrow> j = i" if j: "j \<in> set ids" for j
  proof -
    obtain m where m: "nodes self j = Some m" using inv_ids [OF assms(1) j] by blast
    have "nname m = nname n \<Longrightarrow> j = i" by (rule inv_names [OF assms(1) m assms(2)])
    then show ?thesis using m assms(2) by auto
  qed
  have "filter (\<lambda>j. nname (the (nodes self j)) = nname n) ids = filter (\<lambda>j. j = i) ids"
    by (rule filter_cong) (simp_all add: eq)
  moreover have "filter (\<lambda>j. nname (the (nodes self j)) \<noteq> nname n) ids = remove1 i ids"
    unfolding distinct_remove1_removeAll [OF d] removeAll_filter_not_eq
    by (rule filter_cong) (auto simp: eq)
  ultimately show "dns_view (dns_touch i self) (remove1 i ids @ [i]) = lru_touch (nname n) (dns_view self ids)"
    using filter_one [OF d i]
    by (simp add: dns_view_def dns_touch_def lru_touch_def filter_map o_def)
qed

text \<open>A new node, with room to spare.\<close>

definition dns_added :: "byte list \<Rightarrow> (nat \<times> byte list) rbt \<Rightarrow> mapped_dns \<Rightarrow> mapped_dns" where
  "dns_added name tree self =
     self\<lparr>fresh := Suc (fresh self), nodes := (nodes self)(fresh self \<mapsto> \<lparr>nname = name, nidx = 0\<rparr>),
       dtree := tree, dlist := hev_list_add_tail (fresh self) (dlist self)\<rparr>"

lemma inv_fresh: "dns_inv self ids \<Longrightarrow> fresh self \<notin> set ids \<and> nodes self (fresh self) = None"
  unfolding dns_inv_def by (metis domIff less_irrefl)

lemma find_miss:
  assumes "dns_inv self ids" "descend (\<lambda>x. strcmp (snd x) name) (dtree self) [] = (Nil, fs)"
  shows "\<exists>tree. strs.tree_ok tree \<and>
      set (inorder tree) = insert (fresh self, name) (set (inorder (dtree self))) \<and>
      hev_mapped_dns_find True name self =
        bind_o (if use self < dmax self
                then Ret (use self, (dns_added name tree self)\<lparr>use := use self + 1\<rparr>)
                else dns_evict (dns_added name tree self)) (\<lambda>(idx, self').
          dns_set_record idx (fresh self) self')"
proof -
  have ok: "strs.tree_ok (dtree self)" using assms(1) by (simp add: dns_inv_def)
  obtain tree where "hev_rbtree_insert_color (hev_rbtree_node_link (fresh self, name)) fs = Ret tree"
    "strs.tree_ok tree" "set (inorder tree) = insert (fresh self, name) (set (inorder (dtree self)))"
    using strs.insert_elem [OF ok, of "(fresh self, name)" fs] assms(2) by auto
  then show ?thesis using assms(2)
    by (intro exI [of _ tree])
      (simp add: hev_mapped_dns_find_def hev_mapped_dns_node_alloc_def dns_added_def Let_def)
qed

lemma find_room:
  assumes inv: "dns_inv self ids" and room: "use self < dmax self"
    and d: "descend (\<lambda>x. strcmp (snd x) name) (dtree self) [] = (Nil, fs)"
  shows "\<exists>self'. hev_mapped_dns_find True name self = Ret (use self, self') \<and>
    dns_inv self' (ids @ [fresh self]) \<and>
    dns_view self' (ids @ [fresh self]) = dns_view self ids @ [(name, use self)] \<and>
    dmax self' = dmax self \<and> mask self' = mask self \<and> net self' = net self"
proof -
  obtain tree where t: "strs.tree_ok tree"
    "set (inorder tree) = insert (fresh self, name) (set (inorder (dtree self)))"
    "hev_mapped_dns_find True name self =
        bind_o (Ret (use self, (dns_added name tree self)\<lparr>use := use self + 1\<rparr>)) (\<lambda>(idx, self').
          dns_set_record idx (fresh self) self')"
    using find_miss [OF inv d] room by auto
  note fr = inv_fresh [OF inv]
  let ?n = "\<lparr>nname = name, nidx = use self\<rparr>"
  let ?s = "(dns_added name tree self)\<lparr>use := use self + 1, records := (records self)(nat (use self) \<mapsto> fresh self),
    nodes := (nodes self)(fresh self \<mapsto> ?n)\<rparr>"
  have u: "use self = int (length ids)" using inv by (simp add: dns_inv_def)
  have "hev_mapped_dns_find True name self = Ret (use self, ?s)"
    using t(3) room u by (simp add: dns_set_record_def dns_added_def)
  moreover have "dns_inv ?s (ids @ [fresh self])"
  proof -
    have "list_rep (dlist ?s) (ids @ [fresh self])"
      using inv fr hl.rep_add_tail by (simp add: dns_inv_def dns_added_def)
    moreover have "(i, nm) \<in> set (inorder tree) \<longleftrightarrow>
        (\<exists>n. ((nodes self)(fresh self \<mapsto> ?n)) i = Some n \<and> nname n = nm)" for i nm
      using inv fr t(2) by (auto simp: dns_inv_def)
    moreover have "((records self)(nat (use self) \<mapsto> fresh self)) k = Some i \<longleftrightarrow>
        (\<exists>n. ((nodes self)(fresh self \<mapsto> ?n)) i = Some n \<and> nidx n = int k)" for k i
    proof (cases "i = fresh self")
      case True
      then show ?thesis using inv fr u by (auto simp: dns_inv_def)
    next
      case False
      have "records self (nat (use self)) \<noteq> Some i"
      proof
        assume "records self (nat (use self)) = Some i"
        then obtain n where "nodes self i = Some n" "nidx n = use self"
          using inv u unfolding dns_inv_def by auto
        then show False using inv_nodes(4) [OF inv, of i n] by simp
      qed
      then show ?thesis using inv False u by (auto simp: dns_inv_def)
    qed
    moreover have "((nodes self)(fresh self \<mapsto> ?n)) i = Some n \<Longrightarrow> 0 \<le> nidx n \<and> nidx n < use self + 1" for i n
      using inv_nodes(3,4) [OF inv, of i n] u by (cases "i = fresh self") auto
    ultimately show ?thesis using inv t(1) u room
      by (auto simp: dns_inv_def dns_added_def split: if_splits)
  qed
  moreover have "dns_view ?s (ids @ [fresh self]) = dns_view self ids @ [(name, use self)]"
    using fr by (auto simp: dns_view_def dns_added_def)
  ultimately show ?thesis by (intro exI [of _ ?s]) (simp add: dns_added_def)
qed

text \<open>A new node in a full table: the first node \<open>nf\<close> of the list gives up its index.\<close>

lemma evict_added:
  assumes inv: "dns_inv self (nf # ids)" and ok: "strs.tree_ok tree"
    and t: "set (inorder tree) = insert (fresh self, name) (set (inorder (dtree self)))"
    and n: "nodes self nf = Some n"
  shows "\<exists>tree'. strs.tree_ok tree' \<and> set (inorder tree') = set (inorder tree) - {(nf, nname n)} \<and>
    dns_evict (dns_added name tree self) = Ret (nidx n, (dns_added name tree self)\<lparr>dtree := tree',
      dlist := hev_list_del nf (hev_list_add_tail (fresh self) (dlist self)),
      nodes := (nodes self)(fresh self \<mapsto> \<lparr>nname = name, nidx = 0\<rparr>, nf := None)\<rparr>)"
proof -
  note fr = inv_fresh [OF inv]
  have rep: "list_rep (hev_list_add_tail (fresh self) (dlist self)) ((nf # ids) @ [fresh self])"
    by (rule hl.rep_add_tail) (use inv fr in \<open>simp_all add: dns_inv_def\<close>)
  have first: "hev_list_first (hev_list_add_tail (fresh self) (dlist self)) = Some nf"
    using hl.rep_first [OF rep] by simp
  have elem: "(nf, nname n) \<in> set (inorder tree)" using t inv_nodes(2) [OF inv n] by simp
  then obtain u path where pl: "place (\<lambda>x. fst x = nf) tree [] = Some (u, path)"
    using place_None [of "\<lambda>x. fst x = nf" tree "[]" "(nf, nname n)"] by (cases "place (\<lambda>x. fst x = nf) tree []") auto
  obtain l c x r where u: "u = Nd l c x r" "fst x = nf" "zip_up (Nd l c x r) path = tree"
    using place_Some [OF pl] by auto
  have "x \<in> set (inorder tree)" using u(3) inorder_zip [of "Nd l c x r" path] by auto
  then have "(nf, snd x) \<in> set (inorder (dtree self))"
    unfolding t using u(2) fr by (metis insertE fst_conv list.set_intros(1) prod.collapse)
  then have "nname n = snd x" using inv n unfolding dns_inv_def by auto
  then have x: "x = (nf, nname n)" using u(2) by (metis prod.collapse)
  obtain tree' where "hev_rbtree_erase (Nd l c x r) path = Ret tree'" "strs.tree_ok tree'"
    "set (inorder tree') = set (inorder tree) - {x}"
    using strs.erase_elem [of l c x r path] ok u(3) by auto
  moreover have "nf \<noteq> fresh self" using fr by auto
  ultimately show ?thesis using first pl u(1) x n
    by (intro exI [of _ tree'])
      (simp add: dns_evict_def dns_added_def hev_mapped_dns_node_free_def)
qed

lemma find_full:
  assumes inv: "dns_inv self (nf # ids)" and full: "use self = dmax self" and n: "nodes self nf = Some n"
    and d: "descend (\<lambda>x. strcmp (snd x) name) (dtree self) [] = (Nil, fs)"
  shows "\<exists>self'. hev_mapped_dns_find True name self = Ret (nidx n, self') \<and>
    dns_inv self' (ids @ [fresh self]) \<and>
    dns_view self' (ids @ [fresh self]) = dns_view self ids @ [(name, nidx n)] \<and>
    dmax self' = dmax self \<and> mask self' = mask self \<and> net self' = net self"
proof -
  note fr = inv_fresh [OF inv]
  obtain tree where t: "strs.tree_ok tree"
    "set (inorder tree) = insert (fresh self, name) (set (inorder (dtree self)))"
    "hev_mapped_dns_find True name self =
        bind_o (dns_evict (dns_added name tree self)) (\<lambda>(idx, self'). dns_set_record idx (fresh self) self')"
    using find_miss [OF inv d] full by auto
  obtain tree' where t': "strs.tree_ok tree'" "set (inorder tree') = set (inorder tree) - {(nf, nname n)}"
    "dns_evict (dns_added name tree self) = Ret (nidx n, (dns_added name tree self)\<lparr>dtree := tree',
      dlist := hev_list_del nf (hev_list_add_tail (fresh self) (dlist self)),
      nodes := (nodes self)(fresh self \<mapsto> \<lparr>nname = name, nidx = 0\<rparr>, nf := None)\<rparr>)"
    using evict_added [OF inv t(1,2) n] by blast
  let ?n = "\<lparr>nname = name, nidx = nidx n\<rparr>"
  let ?N = "(nodes self)(fresh self \<mapsto> ?n, nf := None)"
  let ?s = "(dns_added name tree self)\<lparr>dtree := tree',
      dlist := hev_list_del nf (hev_list_add_tail (fresh self) (dlist self)),
      nodes := ?N, records := (records self)(nat (nidx n) \<mapsto> fresh self)\<rparr>"
  have ne: "nf \<noteq> fresh self" using fr by auto
  have idx: "0 \<le> nidx n" "nidx n < use self" "records self (nat (nidx n)) = Some nf"
    using inv_nodes(3-5) [OF inv n] .
  have find: "hev_mapped_dns_find True name self = Ret (nidx n, ?s)"
    using t(3) t'(3) idx full ne by (simp add: dns_set_record_def dns_added_def fun_upd_twist)
  have dist: "distinct (nf # ids)" using inv hl.rep_distinct unfolding dns_inv_def by blast
  have "list_rep (hev_list_add_tail (fresh self) (dlist self)) ((nf # ids) @ [fresh self])"
    by (rule hl.rep_add_tail) (use inv fr in \<open>simp_all add: dns_inv_def\<close>)
  then have rep: "list_rep (dlist ?s) (ids @ [fresh self])"
    using hl.rep_pop [of _ nf "ids @ [fresh self]"] by simp
  have tr: "(i, nm) \<in> set (inorder tree') \<longleftrightarrow> (\<exists>m. ?N i = Some m \<and> nname m = nm)" for i nm
    using inv ne n fr t'(2) t(2) by (cases "i = nf"; cases "i = fresh self") (auto simp: dns_inv_def)
  have rc: "((records self)(nat (nidx n) \<mapsto> fresh self)) k = Some i \<longleftrightarrow> (\<exists>m. ?N i = Some m \<and> nidx m = int k)" for k i
  proof (cases "i = nf \<or> i = fresh self")
    case True
    then show ?thesis using inv ne n fr idx by (auto simp: dns_inv_def)
  next
    case False
    have "nodes self i = Some m \<Longrightarrow> nidx m \<noteq> nidx n" for m using inv_indices [OF inv _ n] False by blast
    then show ?thesis using inv False idx(1) by (cases "k = nat (nidx n)") (auto simp: dns_inv_def)
  qed
  have bd: "?N i = Some m \<Longrightarrow> 0 \<le> nidx m \<and> nidx m < use self" for i m
    using inv_nodes(3,4) [OF inv, of i m] idx by (cases "i = fresh self"; cases "i = nf") auto
  have "dns_inv ?s (ids @ [fresh self])"
    unfolding dns_inv_def using rep tr rc bd t'(1) inv ne dist fr
    by (auto simp: dns_inv_def dns_added_def)
  moreover have "dns_view ?s (ids @ [fresh self]) = dns_view self ids @ [(name, nidx n)]"
    using fr ne dist by (auto simp: dns_view_def dns_added_def)
  ultimately show ?thesis using find by (intro exI [of _ ?s]) (simp add: dns_added_def)
qed

section \<open>Refinement\<close>

lemma find_refines:
  assumes inv: "dns_inv self ids" and pos: "0 < dmax self"
  shows "\<exists>ids' self'. hev_mapped_dns_find True name self =
      Ret (fst (lru_find (dmax self) name (dns_view self ids)), self') \<and> dns_inv self' ids' \<and>
    dns_view self' ids' = snd (lru_find (dmax self) name (dns_view self ids)) \<and>
    dmax self' = dmax self \<and> mask self' = mask self \<and> net self' = net self"
proof -
  obtain u fs where d: "descend (\<lambda>x. strcmp (snd x) name) (dtree self) [] = (u, fs)" by fastforce
  have u: "use self = int (length ids)" "use self \<le> dmax self" using inv by (simp_all add: dns_inv_def)
  have len: "length (dns_view self ids) = length ids" by (simp add: dns_view_def)
  show ?thesis
  proof (cases u)
    case (Nd l c x r)
    obtain n where n: "nodes self (fst x) = Some n" "nname n = name" using inv_hit [OF inv] d Nd by blast
    have "lru_find (dmax self) name (dns_view self ids) = (nidx n, lru_touch name (dns_view self ids))"
      using view_hit [OF inv n(1)] n(2) by (simp add: lru_find_def)
    moreover have "hev_mapped_dns_find True name self = Ret (nidx n, dns_touch (fst x) self)"
      using d Nd n by (simp add: hev_mapped_dns_find_def)
    ultimately show ?thesis using touch_view [OF inv n(1)] n(2)
      by (intro exI [of _ "remove1 (fst x) ids @ [fst x]"] exI [of _ "dns_touch (fst x) self"])
        (simp add: dns_touch_def)
  next
    case Nil
    note d = d [unfolded Nil]
    have miss: "map_of (dns_view self ids) name = None"
      by (rule view_miss [OF inv]) (use inv_miss [OF inv d] in blast)
    show ?thesis
    proof (cases "use self < dmax self")
      case True
      then have "lru_find (dmax self) name (dns_view self ids) =
          (use self, dns_view self ids @ [(name, use self)])"
        using miss u len by (simp add: lru_find_def)
      then show ?thesis using find_room [OF inv True d] by auto
    next
      case False
      then have full: "use self = dmax self" using u by simp
      then obtain nf ids' where ids: "ids = nf # ids'" using u pos by (cases ids) auto
      obtain n where n: "nodes self nf = Some n" using inv_ids [OF inv] ids by auto
      have "lru_find (dmax self) name (dns_view self ids) = (nidx n, dns_view self ids' @ [(name, nidx n)])"
        using miss full u len n ids by (simp add: lru_find_def dns_view_def)
      then show ?thesis using find_full [OF inv [unfolded ids] full n d] by auto
    qed
  qed
qed

definition lru_lookup :: "int \<Rightarrow> lru \<Rightarrow> byte list option" where
  "lru_lookup idx xs = map_of (map prod.swap xs) idx"

lemma distinct_indices: "dns_inv self ids \<Longrightarrow> distinct (map snd (dns_view self ids))"
proof -
  assume inv: "dns_inv self ids"
  have "inj_on (\<lambda>i. nidx (the (nodes self i))) (set ids)"
  proof (rule inj_onI)
    fix i j assume "i \<in> set ids" "j \<in> set ids" and eq: "nidx (the (nodes self i)) = nidx (the (nodes self j))"
    then obtain m n where "nodes self i = Some m" "nodes self j = Some n" using inv_ids [OF inv] by metis
    then show "i = j" using inv_indices [OF inv] eq by simp
  qed
  moreover have "distinct ids" using inv hl.rep_distinct unfolding dns_inv_def by blast
  ultimately show ?thesis by (simp add: dns_view_def distinct_map o_def)
qed

lemma lru_lookup_iff:
  "distinct (map snd xs) \<Longrightarrow> lru_lookup i xs = Some nm \<longleftrightarrow> (nm, i) \<in> set xs"
  by (simp add: lru_lookup_def map_of_eq_Some_iff comp_def)

lemma view_elem:
  assumes "dns_inv self ids"
  shows "(nm, k) \<in> set (dns_view self ids) \<longleftrightarrow> (\<exists>i n. nodes self i = Some n \<and> nname n = nm \<and> nidx n = k)"
proof
  assume "(nm, k) \<in> set (dns_view self ids)"
  then obtain i where i: "i \<in> set ids" "nm = nname (the (nodes self i))" "k = nidx (the (nodes self i))"
    by (auto simp: dns_view_def)
  obtain n where "nodes self i = Some n" using inv_ids [OF assms i(1)] by blast
  then show "\<exists>i n. nodes self i = Some n \<and> nname n = nm \<and> nidx n = k" using i by auto
next
  assume "\<exists>i n. nodes self i = Some n \<and> nname n = nm \<and> nidx n = k"
  then obtain i n where "nodes self i = Some n" "nname n = nm" "nidx n = k" by blast
  then show "(nm, k) \<in> set (dns_view self ids)"
    using inv_nodes(1) [OF assms] by (force simp: dns_view_def)
qed

lemma lookup_refines:
  assumes inv: "dns_inv self ids" and idx: "idx = ip AND NOT (mask self)" "0 \<le> idx"
  shows "\<exists>ids' self'. hev_mapped_dns_lookup ip self = Ret (lru_lookup idx (dns_view self ids), self') \<and>
    dns_inv self' ids' \<and>
    dns_view self' ids' = (case lru_lookup idx (dns_view self ids) of
        None \<Rightarrow> dns_view self ids | Some nm \<Rightarrow> lru_touch nm (dns_view self ids)) \<and>
    dmax self' = dmax self \<and> mask self' = mask self \<and> net self' = net self"
proof (cases "lru_lookup idx (dns_view self ids)")
  case None
  have "records self (nat idx) = None"
  proof (rule ccontr)
    assume "records self (nat idx) \<noteq> None"
    then obtain i n where "nodes self i = Some n" "nidx n = idx" using inv idx(2) by (auto simp: dns_inv_def)
    then have "(nname n, idx) \<in> set (dns_view self ids)" using view_elem [OF inv] by blast
    then show False using None lru_lookup_iff [OF distinct_indices [OF inv], of idx "nname n"] by simp
  qed
  then have "hev_mapped_dns_lookup ip self = Ret (None, self)"
    using idx(2) unfolding hev_mapped_dns_lookup_def Let_def idx(1) [symmetric] by simp
  then show ?thesis using None inv by (intro exI [of _ ids] exI [of _ self]) simp
next
  case (Some nm)
  then obtain i n where n: "nodes self i = Some n" "nname n = nm" "nidx n = idx"
    using view_elem [OF inv] lru_lookup_iff [OF distinct_indices [OF inv]] by blast
  have "records self (nat idx) = Some i" "idx < dmax self"
    using inv_nodes(4,5) [OF inv n(1)] n(3) inv by (auto simp: dns_inv_def)
  then have "hev_mapped_dns_lookup ip self = Ret (Some nm, dns_touch i self)"
    using n idx(2) unfolding hev_mapped_dns_lookup_def Let_def idx(1) [symmetric] by simp
  then show ?thesis using touch_view [OF inv n(1)] n(2) Some
    by (intro exI [of _ "remove1 i ids @ [i]"] exI [of _ "dns_touch i self"]) (simp add: dns_touch_def)
qed

lemma free_loop_all:
  assumes "list_rep (dlist self) (xs @ ids)" "\<forall>i \<in> set ids. nodes self i \<noteq> None" "length ids \<le> n"
  shows "dns_free_loop n (case ids of [] \<Rightarrow> None | i # _ \<Rightarrow> Some i) self =
    Ret (self\<lparr>nodes := (nodes self) |` (- set ids)\<rparr>)"
  using assms
proof (induction ids arbitrary: self xs n)
  case Nil
  then show ?case by simp
next
  case (Cons i ids)
  then obtain m where m: "n = Suc m" by (cases n) auto
  let ?s = "hev_mapped_dns_node_free i self"
  have rep: "list_rep (dlist ?s) ((xs @ [i]) @ ids)"
    using Cons.prems(1) by (simp add: hev_mapped_dns_node_free_def)
  have "i \<notin> set ids" using hl.rep_distinct [OF Cons.prems(1)] by simp
  then have "\<forall>j \<in> set ids. nodes ?s j \<noteq> None"
    using Cons.prems(2) by (auto simp: hev_mapped_dns_node_free_def)
  from Cons.IH [OF rep this, of m] have "dns_free_loop m (case ids of [] \<Rightarrow> None | i # _ \<Rightarrow> Some i) ?s =
      Ret (?s\<lparr>nodes := (nodes ?s) |` (- set ids)\<rparr>)" using Cons.prems(3) m by simp
  moreover have "(nodes ?s) |` (- set ids) = (nodes self) |` (- set (i # ids))"
    by (auto simp: hev_mapped_dns_node_free_def restrict_map_def)
  ultimately show ?case
    using hl.rep_next [OF Cons.prems(1)] Cons.prems(2) m by (auto simp: hev_mapped_dns_node_free_def)
qed

section \<open>Histories\<close>

datatype dns_op = Find "byte list" | Look int

fun dns_run :: "dns_op list \<Rightarrow> mapped_dns \<Rightarrow> mapped_dns outcome" where
  "dns_run [] self = Ret self"
| "dns_run (Find nm # ops) self = bind_o (hev_mapped_dns_find True nm self) (\<lambda>(_, s). dns_run ops s)"
| "dns_run (Look ip # ops) self = bind_o (hev_mapped_dns_lookup ip self) (\<lambda>(_, s). dns_run ops s)"

fun lru_run :: "int \<Rightarrow> int \<Rightarrow> dns_op list \<Rightarrow> lru \<Rightarrow> lru" where
  "lru_run mx mk [] xs = xs"
| "lru_run mx mk (Find nm # ops) xs = lru_run mx mk ops (snd (lru_find mx nm xs))"
| "lru_run mx mk (Look ip # ops) xs =
     lru_run mx mk ops (case lru_lookup (ip AND NOT mk) xs of None \<Rightarrow> xs | Some nm \<Rightarrow> lru_touch nm xs)"

lemma dns_run_refines:
  assumes "dns_inv self ids" "0 < dmax self" "mask self < 0"
  shows "\<exists>self' ids'. dns_run ops self = Ret self' \<and> dns_inv self' ids' \<and>
    dns_view self' ids' = lru_run (dmax self) (mask self) ops (dns_view self ids) \<and>
    dmax self' = dmax self \<and> mask self' = mask self \<and> net self' = net self"
  using assms
proof (induction ops arbitrary: self ids)
  case (Cons op ops)
  show ?case
  proof (cases op)
    case (Find nm)
    obtain s1 ids1 where 1: "hev_mapped_dns_find True nm self =
        Ret (fst (lru_find (dmax self) nm (dns_view self ids)), s1)" "dns_inv s1 ids1"
      "dns_view s1 ids1 = snd (lru_find (dmax self) nm (dns_view self ids))"
      "dmax s1 = dmax self" "mask s1 = mask self" "net s1 = net self"
      using find_refines [OF Cons.prems(1,2), of nm] by blast
    show ?thesis using Cons.IH [OF 1(2)] Cons.prems 1 Find by simp
  next
    case (Look ip)
    have nn: "0 \<le> ip AND NOT (mask self)" using Cons.prems(3) by simp
    obtain s1 ids1 where 1: "hev_mapped_dns_lookup ip self =
        Ret (lru_lookup (ip AND NOT (mask self)) (dns_view self ids), s1)" "dns_inv s1 ids1"
      "dns_view s1 ids1 = (case lru_lookup (ip AND NOT (mask self)) (dns_view self ids) of
        None \<Rightarrow> dns_view self ids | Some nm \<Rightarrow> lru_touch nm (dns_view self ids))"
      "dmax s1 = dmax self" "mask s1 = mask self" "net s1 = net self"
      using lookup_refines [OF Cons.prems(1) refl nn] by blast
    show ?thesis using Cons.IH [OF 1(2)] Cons.prems 1 Look by simp
  qed
qed auto

section \<open>Survival\<close>

text \<open>The entries more recently used than \<open>nm\<close>.\<close>

fun younger :: "byte list \<Rightarrow> lru \<Rightarrow> byte list set" where
  "younger nm [] = {}"
| "younger nm (x # xs) = (if fst x = nm then fst ` set xs else younger nm xs)"

fun lru_finds :: "int \<Rightarrow> byte list list \<Rightarrow> lru \<Rightarrow> lru" where
  "lru_finds mx [] xs = xs"
| "lru_finds mx (nm # nms) xs = lru_finds mx nms (snd (lru_find mx nm xs))"

definition lru_ok :: "int \<Rightarrow> lru \<Rightarrow> bool" where
  "lru_ok mx xs \<longleftrightarrow> distinct (map fst xs) \<and> int (length xs) \<le> mx"

lemma younger_append: "nm \<in> fst ` set xs \<Longrightarrow> younger nm (xs @ ys) = younger nm xs \<union> fst ` set ys"
  by (induction xs) auto

lemma younger_filter: "n \<noteq> nm \<Longrightarrow> younger nm (filter (\<lambda>x. fst x \<noteq> n) xs) \<subseteq> younger nm xs"
  by (induction xs) auto

lemma lru_touch_set: "set (lru_touch n xs) = set xs"
  by (auto simp: lru_touch_def)

lemma lru_touch_ok: "distinct (map fst xs) \<Longrightarrow> distinct (map fst (lru_touch n xs))"
  by (auto simp: lru_touch_def distinct_map_filter)

lemma length_lru_touch [simp]: "length (lru_touch n xs) = length xs"
  by (induction xs) (simp_all add: lru_touch_def)

lemma younger_skip: "nm \<notin> fst ` set ys \<Longrightarrow> younger nm (ys @ zs) = younger nm zs"
  by (induction ys) auto

lemma younger_self: "younger nm (lru_touch nm xs) \<subseteq> {nm}"
proof -
  have "\<forall>x \<in> set zs. fst x = nm \<Longrightarrow> younger nm zs \<subseteq> {nm}" for zs :: lru
    by (induction zs) auto
  moreover have "younger nm (lru_touch nm xs) = younger nm (filter (\<lambda>x. fst x = nm) xs)"
    unfolding lru_touch_def by (rule younger_skip) auto
  ultimately show ?thesis by simp
qed

lemma younger_touch: "younger nm (lru_touch n xs) \<subseteq> insert n (younger nm xs)"
proof (cases "n = nm")
  case True
  then show ?thesis using younger_self [of nm xs] by auto
next
  case False
  show ?thesis
  proof (cases "nm \<in> fst ` set xs")
    case True
    then have "nm \<in> fst ` set (filter (\<lambda>x. fst x \<noteq> n) xs)" using False by force
    from younger_append [OF this] have "younger nm (lru_touch n xs) =
        younger nm (filter (\<lambda>x. fst x \<noteq> n) xs) \<union> fst ` set (filter (\<lambda>x. fst x = n) xs)"
      by (simp add: lru_touch_def)
    then show ?thesis using younger_filter [OF False, of xs] by auto
  next
    case F: False
    have "nm \<notin> fst ` set ys \<Longrightarrow> younger nm ys = {}" for ys :: lru by (induction ys) auto
    then show ?thesis using F lru_touch_set [of n xs] by simp
  qed
qed

lemma lru_find_keeps:
  assumes ok: "lru_ok mx xs" and nm: "map_of xs nm = Some i"
    and S: "finite S" "younger nm xs \<subseteq> S" "n \<in> S" "int (card (S - {nm})) < mx"
  shows "lru_ok mx (snd (lru_find mx n xs)) \<and> map_of (snd (lru_find mx n xs)) nm = Some i \<and>
    younger nm (snd (lru_find mx n xs)) \<subseteq> S"
proof (cases "map_of xs n")
  case (Some j)
  have "map_of (lru_touch n xs) nm = Some i"
    using ok nm lru_touch_ok [of xs n] lru_touch_set [of n xs] by (simp add: lru_ok_def map_of_eq_Some_iff)
  then show ?thesis using Some ok lru_touch_ok [of xs n] younger_touch [of nm n xs] S
    by (auto simp: lru_find_def lru_ok_def)
next
  case None
  have ne: "n \<noteq> nm" using None nm by auto
  have n: "n \<notin> fst ` set xs" using None by (simp add: map_of_eq_None_iff)
  have in_xs: "nm \<in> fst ` set xs" using nm by (force dest: map_of_SomeD)
  show ?thesis
  proof (cases "int (length xs) < mx")
    case True
    then show ?thesis using None ok nm n ne in_xs younger_append [OF in_xs, of "[(n, int (length xs))]"] S
      by (auto simp: lru_find_def lru_ok_def map_add_def map_of_append split: option.splits)
  next
    case False
    obtain x ys where xs: "xs = x # ys" using in_xs by (cases xs) auto
    have "fst x \<noteq> nm"
    proof
      assume x: "fst x = nm"
      have "nm \<notin> fst ` set ys" using x ok xs by (simp add: lru_ok_def)
      moreover have "fst ` set ys \<subseteq> S" using S(2) x xs by simp
      ultimately have sub: "insert n (fst ` set ys) \<subseteq> S - {nm}" using S(3) ne by blast
      have "card (fst ` set ys) = length ys"
        using ok xs by (metis distinct_card distinct.simps(2) length_map list.set_map list.simps(9) lru_ok_def)
      then have "card (insert n (fst ` set ys)) = Suc (length ys)" using n xs by auto
      then have "Suc (length ys) \<le> card (S - {nm})" using card_mono [OF _ sub] S(1) by simp
      then show False using S(4) False xs by simp
    qed
    then have "map_of ys nm = Some i" "nm \<in> fst ` set ys" "younger nm xs = younger nm ys"
      using nm in_xs xs by auto
    then show ?thesis using None False ok n ne xs S younger_append [of nm ys "[(n, snd x)]"]
      by (auto simp: lru_find_def lru_ok_def map_of_append map_add_def split: option.splits)
  qed
qed

lemma lru_run_finds_keeps:
  assumes "lru_ok mx xs" "map_of xs nm = Some i" "finite S" "younger nm xs \<subseteq> S" "set nms \<subseteq> S"
    "int (card (S - {nm})) < mx"
  shows "lru_ok mx (lru_run mx mk (map Find nms) xs) \<and> map_of (lru_run mx mk (map Find nms) xs) nm = Some i"
  using assms
proof (induction nms arbitrary: xs)
  case (Cons n nms)
  have n: "n \<in> S" using Cons.prems(5) by simp
  from lru_find_keeps [OF Cons.prems(1-4) n Cons.prems(6)] Cons show ?case by simp
qed simp

lemma younger_found: "younger nm (snd (lru_find mx nm xs)) \<subseteq> {nm}"
proof (cases "map_of xs nm")
  case (Some i)
  then show ?thesis using younger_self [of nm xs] by (simp add: lru_find_def)
next
  case None
  then have n: "nm \<notin> fst ` set xs" by (simp add: map_of_eq_None_iff)
  then have "nm \<notin> fst ` set (tl xs)" by (cases xs) auto
  then show ?thesis using None younger_skip [OF n] younger_skip [of nm "tl xs"] by (simp add: lru_find_def)
qed

end
