(* ===== verification/DnsServer.thy ===== *)
theory DnsServer
  imports MappedDNS
begin

text \<open>
  The handler of DNS queries (\<open>hev_mapped_dns_handle\<close> of \<open>src/hev-mapped-dns.c\<close>). The request is an
  object of exactly its length and the response buffer one of \<open>slen\<close> bytes; an access beside them is
  \<open>Fault\<close>. The request is changed in place: the length bytes of the labels become dots, so that
  the name is a C string.
\<close>

section \<open>The handler\<close>

definition read_u16 :: "byte list \<Rightarrow> nat \<Rightarrow> u16 outcome" where
  "read_u16 rb off = bind_o (rdo rb off) (\<lambda>a. bind_o (rdo rb (off + 1)) (\<lambda>b. Ret (mk16 a b)))"

definition write_u16 :: "u16 \<Rightarrow> byte list" where
  "write_u16 v = [hi8 v, lo8 v]"

definition write_u32 :: "u32 \<Rightarrow> byte list" where
  "write_u32 v = be32 v"

text \<open>The labels of a name, from \<open>off\<close>: the offset of the terminating zero byte, or nothing when a
  label leaves the request.\<close>

function dns_labels :: "nat \<Rightarrow> nat \<Rightarrow> byte list \<Rightarrow> (nat option \<times> byte list) outcome" where
  "dns_labels qlen off rb =
     bind_o (rdo rb off) (\<lambda>b.
       if b = 0 then Ret (Some off, rb)
       else if off + 1 + unat b \<ge> qlen then Ret (None, rb)
       else dns_labels qlen (off + 1 + unat b) (put off [46] rb))"
  by pat_completeness auto
termination by (relation "measure (\<lambda>(qlen, off, rb). qlen - off)") auto

declare dns_labels.simps [simp del]

text \<open>One answer is an offset of a name in the request and an address. \<open>alloc\<close> says, by the number of
  questions left, whether the allocations succeed.\<close>

type_synonym answer = "nat \<times> int"

definition dns_answer_a :: "bool \<Rightarrow> nat \<Rightarrow> byte list \<Rightarrow> answer list \<Rightarrow> mapped_dns \<Rightarrow> (answer list \<times> mapped_dns) outcome" where
  "dns_answer_a alloc off rb ips self =
     bind_o (of_option (cstr_at rb (off + 1))) (\<lambda>name.
     bind_o (hev_mapped_dns_find alloc name self) (\<lambda>(idx, self').
       Ret (if idx \<ge> 0 then ips @ [(off, net self OR idx)] else ips, self')))"

fun dns_questions :: "(nat \<Rightarrow> bool) \<Rightarrow> nat \<Rightarrow> nat \<Rightarrow> nat \<Rightarrow> answer list \<Rightarrow> byte list \<Rightarrow> mapped_dns \<Rightarrow>
    ((nat \<times> answer list) option \<times> mapped_dns) outcome" where
  "dns_questions alloc qlen 0 off ips rb self = Ret (Some (off, ips), self)"
| "dns_questions alloc qlen (Suc k) off ips rb self =
     bind_o (dns_labels qlen off rb) (\<lambda>(r, rb).
       case r of
         None \<Rightarrow> Ret (None, self)
       | Some off1 \<Rightarrow>
           if off1 + 1 + 3 \<ge> qlen then Ret (None, self)
           else
             bind_o (read_u16 rb (off1 + 1)) (\<lambda>qtype.
             bind_o (read_u16 rb (off1 + 3)) (\<lambda>qclass.
             bind_o (if qtype = 1 \<and> qclass = 1 then dns_answer_a (alloc k) off rb ips self
                     else Ret (ips, self)) (\<lambda>(ips, self).
               dns_questions alloc qlen k (off1 + 5) ips rb self))))"

definition dns_record :: "answer \<Rightarrow> byte list" where
  "dns_record a = [0xc0, of_nat (fst a)] @ write_u16 1 @ write_u16 1 @ write_u32 1 @ write_u16 4 @
     write_u32 (word_of_int (snd a))"

fun dns_answers :: "nat \<Rightarrow> nat \<Rightarrow> answer list \<Rightarrow> byte list \<Rightarrow> nat option \<times> byte list" where
  "dns_answers slen off [] sb = (Some off, sb)"
| "dns_answers slen off (a # as) sb =
     (if off + 15 \<ge> slen then (None, sb)
      else dns_answers slen (off + 16) as (put off (dns_record a) sb))"

definition dns_flags :: "u16 \<Rightarrow> u16" where
  "dns_flags fl = fl OR 0x8000 OR drop_bit 1 (fl AND 0x100)"

text \<open>The result, the response buffer and the state.\<close>

definition hev_mapped_dns_handle :: "(nat \<Rightarrow> bool) \<Rightarrow> byte list \<Rightarrow> byte list \<Rightarrow> mapped_dns \<Rightarrow>
    (int \<times> byte list \<times> mapped_dns) outcome" where
  "hev_mapped_dns_handle alloc req res self =
     (let qlen = length req; slen = length res in
      if slen < qlen then Ret (- 1, res, self)
      else
        let sb = put 0 req res in
        bind_o (rd_sego req 4 2) (\<lambda>qd.
        bind_o (rd_sego sb 2 2) (\<lambda>fl.
        bind_o (putc 2 (store16 (ntohs (load16 fl))) sb) (\<lambda>sb.
        bind_o (putc 6 [0, 0, 0, 0, 0, 0] sb) (\<lambda>sb.
          let n = unat (ntohs (load16 qd)); fl = ntohs (load16 fl) in
          if n > 32 then Ret (- 1, sb, self)
          else
            bind_o (dns_questions alloc qlen n 12 [] req self) (\<lambda>(r, self).
              case r of
                None \<Rightarrow> Ret (- 1, sb, self)
              | Some (off, ips) \<Rightarrow>
                  (case dns_answers slen off ips sb of
                     (None, sb) \<Rightarrow> Ret (- 1, sb, self)
                   | (Some off, sb) \<Rightarrow>
                       bind_o (putc 2 (store16 (htons (dns_flags fl))) sb) (\<lambda>sb.
                       bind_o (putc 6 (store16 (htons (of_nat (length ips)))) sb) (\<lambda>sb.
                         Ret (int off, sb, self))))))))))"

section \<open>Queries\<close>

definition labels_enc :: "byte list list \<Rightarrow> byte list" where
  "labels_enc ls = concat (map (\<lambda>l. of_nat (length l) # l) ls)"

text \<open>What the request holds after the labels were walked.\<close>

definition labels_dotted :: "byte list list \<Rightarrow> byte list" where
  "labels_dotted ls = concat (map (\<lambda>l. 46 # l) ls)"

definition labels_ok :: "byte list list \<Rightarrow> bool" where
  "labels_ok ls \<longleftrightarrow> ls \<noteq> [] \<and> (\<forall>l \<in> set ls. l \<noteq> [] \<and> length l \<le> 63 \<and> 0 \<notin> set l)"

text \<open>The name a query asks for, in the textual form.\<close>

definition dns_name :: "byte list list \<Rightarrow> byte list" where
  "dns_name ls = tl (labels_dotted ls)"

lemma length_labels: "length (labels_dotted ls) = length (labels_enc ls)"
  by (induction ls) (simp_all add: labels_dotted_def labels_enc_def)

lemma dns_labels_enc:
  assumes "\<forall>l \<in> set ls. l \<noteq> [] \<and> length l \<le> 63" "off = length pre"
    "qlen = length (pre @ labels_enc ls @ 0 # post)"
  shows "dns_labels qlen off (pre @ labels_enc ls @ 0 # post) =
    Ret (Some (off + length (labels_enc ls)), pre @ labels_dotted ls @ 0 # post)"
  using assms
proof (induction ls arbitrary: pre off)
  case Nil
  then show ?case by (subst dns_labels.simps) (simp add: labels_enc_def labels_dotted_def)
next
  case (Cons l ls)
  let ?pre = "pre @ 46 # l"
  have l: "l \<noteq> []" "length l \<le> 63" using Cons.prems(1) by simp_all
  have u: "unat (of_nat (length l) :: byte) = length l" using l(2) by (intro unat_of_nat_byte) simp
  have nz: "(of_nat (length l) :: byte) \<noteq> 0" using u l(1) by (metis length_0_conv unsigned_0)
  have rb: "pre @ labels_enc (l # ls) @ 0 # post = pre @ of_nat (length l) # l @ labels_enc ls @ 0 # post"
    by (simp add: labels_enc_def)
  have "dns_labels qlen off (pre @ labels_enc (l # ls) @ 0 # post) =
      dns_labels qlen (off + 1 + length l) (?pre @ labels_enc ls @ 0 # post)"
    unfolding rb using Cons.prems(2,3) u nz
    by (subst dns_labels.simps) (simp add: put_def labels_enc_def)
  also have "\<dots> = Ret (Some (off + 1 + length l + length (labels_enc ls)),
      ?pre @ labels_dotted ls @ 0 # post)"
    by (rule Cons.IH) (use Cons.prems in \<open>simp_all add: labels_enc_def\<close>)
  finally show ?case by (simp add: labels_enc_def labels_dotted_def)
qed

lemma dns_name_cstr:
  assumes "labels_ok ls"
  shows "cstr_at (pre @ labels_dotted ls @ 0 # post) (length pre + 1) = Some (dns_name ls)"
proof -
  obtain l ls' where ls: "ls = l # ls'" using assms by (cases ls) (auto simp: labels_ok_def)
  have d: "labels_dotted ls = 46 # dns_name ls" by (simp add: dns_name_def labels_dotted_def ls)
  have "is_cstr (labels_dotted ls)"
    using assms by (auto simp: is_cstr_def labels_ok_def labels_dotted_def)
  then have "is_cstr (dns_name ls)" unfolding d by (simp add: is_cstr_def)
  then show ?thesis unfolding d by (simp add: cstr_at_def takeWhile_cstr)
qed

text \<open>A query for one address, possibly followed by additional records.\<close>

definition dns_query :: "byte \<Rightarrow> byte \<Rightarrow> u16 \<Rightarrow> byte list \<Rightarrow> byte list list \<Rightarrow> byte list \<Rightarrow> byte list" where
  "dns_query i0 i1 fl counts ls more' =
     [i0, i1] @ write_u16 fl @ [0, 1] @ counts @ labels_enc ls @ [0, 0, 1, 0, 1] @ more'"

lemma rd_append: "rd (xs @ ys) (length xs + k) = rd ys k"
  by (simp add: rd_def)

lemma questions_query:
  assumes "labels_ok ls" "length counts = 6"
  shows "dns_questions alloc (length (dns_query i0 i1 fl counts ls z)) 1 12 []
      (dns_query i0 i1 fl counts ls z) self =
    bind_o (hev_mapped_dns_find (alloc 0) (dns_name ls) self) (\<lambda>(idx, self').
      Ret (Some (17 + length (labels_enc ls), if idx \<ge> 0 then [(12, net self OR idx)] else []), self'))"
proof -
  let ?pre = "[i0, i1] @ write_u16 fl @ [0, 1] @ counts"
  let ?post = "[0, 1, 0, 1] @ z"
  have pre: "length ?pre = 12" using assms(2) by (simp add: write_u16_def)
  have q: "dns_query i0 i1 fl counts ls z = ?pre @ labels_enc ls @ 0 # ?post" by (simp add: dns_query_def)
  have ls: "\<forall>l \<in> set ls. l \<noteq> [] \<and> length l \<le> 63" using assms(1) by (auto simp: labels_ok_def)
  let ?n = "length (labels_enc ls)"
  let ?rb = "?pre @ labels_dotted ls @ 0 # ?post"
  have lab: "dns_labels (length (?pre @ labels_enc ls @ 0 # ?post)) 12 (?pre @ labels_enc ls @ 0 # ?post) =
      Ret (Some (12 + ?n), ?rb)"
    by (rule dns_labels_enc [OF ls]) (use pre in simp_all)
  have split: "?rb = (?pre @ labels_dotted ls @ [0]) @ [0, 1, 0, 1] @ z"
    and len: "length (?pre @ labels_dotted ls @ [0]) = 13 + ?n"
    using pre length_labels [of ls] by simp_all
  have rd: "rd ?rb (13 + ?n + k) = rd ([0, 1, 0, 1] @ z) k" for k
    unfolding split len [symmetric] by (rule rd_append)
  have "read_u16 ?rb (13 + ?n + 0) = Ret 1" "read_u16 ?rb (13 + ?n + 2) = Ret 1"
    unfolding read_u16_def add.assoc [of "13 + ?n"] rd by (simp_all add: rd_def mk16_def)
  then have qt: "read_u16 ?rb (12 + ?n + 1) = Ret 1" "read_u16 ?rb (12 + ?n + 3) = Ret 1"
    by (simp_all add: add.commute)
  have nm: "cstr_at ?rb (12 + 1) = Some (dns_name ls)"
    using dns_name_cstr [OF assms(1), of ?pre ?post] unfolding pre .
  show ?thesis
    unfolding q One_nat_def dns_questions.simps lab
    using qt nm pre length_labels [of ls]
    by (cases "hev_mapped_dns_find (alloc 0) (dns_name ls) self")
      (auto simp: dns_answer_a_def bind_o_assoc split: prod.splits)
qed

lemma put_append: "put (length a) new (a @ b) = a @ new @ drop (length new) b"
  by (simp add: put_def)

lemma length_dns_record [simp]: "length (dns_record a) = 16"
  by (simp add: dns_record_def write_u16_def write_u32_def)

text \<open>The response of the handler to such a query.\<close>

definition dns_response :: "byte \<Rightarrow> byte \<Rightarrow> u16 \<Rightarrow> byte list list \<Rightarrow> int \<Rightarrow> byte list" where
  "dns_response i0 i1 fl ls ip =
     [i0, i1] @ write_u16 (dns_flags fl) @ [0, 1, 0, 1, 0, 0, 0, 0] @ labels_enc ls @ [0, 0, 1, 0, 1] @
     dns_record (12, ip)"

lemma handle_query:
  assumes ls: "labels_ok ls" and c: "length counts = 6"
    and q: "q = dns_query i0 i1 fl counts ls z" and fits: "length q \<le> length res"
    and room: "33 + length (labels_enc ls) \<le> length res"
    and find: "hev_mapped_dns_find (alloc 0) (dns_name ls) self = Ret (idx, self')" "0 \<le> idx"
  shows "\<exists>sb. hev_mapped_dns_handle alloc q res self = Ret (33 + int (length (labels_enc ls)), sb, self') \<and>
    take (33 + length (labels_enc ls)) sb = dns_response i0 i1 fl ls (net self OR idx) \<and>
    length sb = length res"
proof -
  let ?n = "length (labels_enc ls)"
  obtain c0 c1 c2 c3 c4 c5 where counts: "counts = [c0, c1, c2, c3, c4, c5]"
    using c by (auto simp: eval_nat_numeral length_Suc_conv)
  let ?tl = "z @ drop (length q) res"
  let ?body = "labels_enc ls @ [0, 0, 1, 0, 1] @ ?tl"
  let ?sb = "\<lambda>f a. [i0, i1] @ f @ [0, 1] @ a @ [0, 0, 0, 0] @ ?body"
  have sb0: "put 0 q res = [i0, i1, hi8 fl, lo8 fl, 0, 1, c0, c1, c2, c3, c4, c5] @ ?body"
    unfolding put_0 by (simp add: q dns_query_def counts write_u16_def)
  have qs: "dns_questions alloc (length q) 1 12 [] q self = Ret (Some (17 + ?n, [(12, net self OR idx)]), self')"
    unfolding q using questions_query [OF ls c, of alloc i0 i1 fl z self] find by simp
  have qd: "rd_sego q 4 2 = Ret [0, 1]" by (simp add: q dns_query_def write_u16_def seg_def)
  have one: "unat (ntohs (load16 [0, 1])) = 1" by simp (simp add: mk16_def)
  let ?h = "[i0, i1] @ [lo8 fl, hi8 fl] @ [0, 1] @ [0, 0] @ [0, 0, 0, 0] @ labels_enc ls @ [0, 0, 1, 0, 1]"
  have hl: "length ?h = 17 + ?n" by simp
  let ?rec = "dns_record (12, net self OR idx)"
  have an: "dns_answers (length res) (17 + ?n) [(12, net self OR idx)] (?h @ ?tl) =
      (Some (33 + ?n), ?h @ ?rec @ drop 16 ?tl)"
    using room put_append [of ?h ?rec ?tl] unfolding hl by simp
  have tl: "16 \<le> length ?tl" using room fits by (simp add: q dns_query_def counts write_u16_def)
  let ?R = "[i0, i1] @ write_u16 (dns_flags fl) @ [0, 1, 0, 1, 0, 0, 0, 0] @ labels_enc ls @ [0, 0, 1, 0, 1] @
      ?rec @ drop 16 ?tl"
  have fl: "ntohs (load16 [hi8 fl, lo8 fl]) = fl" by simp
  have s1: "rd_sego (put 0 q res) 2 2 = Ret [hi8 fl, lo8 fl]" unfolding sb0 by (simp add: seg_def)
  have s2: "putc 2 (store16 fl) (put 0 q res) =
      Ret ([i0, i1, lo8 fl, hi8 fl, 0, 1, c0, c1, c2, c3, c4, c5] @ ?body)"
    unfolding sb0 by (simp add: put_def store16_def)
  have s3: "putc 6 [0, 0, 0, 0, 0, 0] ([i0, i1, lo8 fl, hi8 fl, 0, 1, c0, c1, c2, c3, c4, c5] @ ?body) = Ret (?h @ ?tl)"
    by (simp add: put_def)
  let ?h2 = "[i0, i1] @ write_u16 (dns_flags fl) @ [0, 1] @ [0, 0] @ [0, 0, 0, 0] @ labels_enc ls @ [0, 0, 1, 0, 1]"
  have s4: "putc 2 (store16 (htons (dns_flags fl))) (?h @ ?rec @ drop 16 ?tl) = Ret (?h2 @ ?rec @ drop 16 ?tl)"
    by (simp add: put_def write_u16_def)
  have s5: "putc 6 (store16 (htons (of_nat (length [(12 :: nat, net self OR idx)])))) (?h2 @ ?rec @ drop 16 ?tl) = Ret ?R"
    by (simp add: put_def write_u16_def hi8_def lo8_def)
  have "hev_mapped_dns_handle alloc q res self = Ret (33 + int ?n, ?R, self')"
    using fits unfolding hev_mapped_dns_handle_def Let_def qd bind_o_simps s1 fl s2 s3 one qs prod.case
      option.case an s4 s5
    by simp
  moreover have R: "?R = dns_response i0 i1 fl ls (net self OR idx) @ drop 16 ?tl" by (simp add: dns_response_def)
  moreover have rl: "length (dns_response i0 i1 fl ls (net self OR idx)) = 33 + ?n"
    by (simp add: dns_response_def write_u16_def)
  moreover have "take (33 + ?n) ?R = dns_response i0 i1 fl ls (net self OR idx)"
    unfolding R rl [symmetric] by simp
  moreover have "length ?R = length res"
    using tl fits room by (simp add: q dns_query_def counts write_u16_def)
  ultimately show ?thesis by blast
qed

section \<open>Theorems\<close>

text \<open>An address of the network and back.\<close>

lemma net_or_idx:
  fixes nt idx :: int
  assumes "mk = - (2 ^ k)" "nt AND (2 ^ k - 1) = 0" "0 \<le> idx" "idx < 2 ^ k"
  shows "(nt OR idx) AND NOT mk = idx"
proof -
  have m: "NOT mk = Bit_Operations.mask k"
    unfolding assms(1) by (simp add: mask_eq_exp_minus_1 not_int_def)
  have "nt AND Bit_Operations.mask k = 0" using assms(2) by (simp add: mask_eq_exp_minus_1)
  moreover have "idx AND Bit_Operations.mask k = idx"
    using take_bit_int_eq_self [of idx k] take_bit_eq_mask [of k idx] assms(3,4) by simp
  ultimately show ?thesis unfolding m by (simp add: bit.conj_disj_distrib2)
qed

lemma construct_run:
  assumes "hev_mapped_dns_construct nt mk mx = Some self0" "0 < mx" "mk < 0"
  shows "\<exists>self ids. dns_run ops self0 = Ret self \<and> dns_inv self ids \<and>
    dns_view self ids = lru_run mx mk ops [] \<and> dmax self = mx \<and> mask self = mk \<and> net self = nt"
proof -
  have s: "dns_inv self0 []" "dns_view self0 [] = []" "dmax self0 = mx"
    using new_inv [OF assms(1)] assms(2) by auto
  have "mask self0 = mk" "net self0 = nt"
    using assms(1) by (auto simp: hev_mapped_dns_construct_def split: if_splits)
  then show ?thesis using dns_run_refines [OF s(1), of ops] s assms(2,3) by auto
qed

lemma lru_find_ok: "lru_ok mx xs \<Longrightarrow> 0 < mx \<Longrightarrow> lru_ok mx (snd (lru_find mx nm xs)) \<and>
    map_of (snd (lru_find mx nm xs)) nm = Some (fst (lru_find mx nm xs))"
proof -
  assume ok: "lru_ok mx xs" and pos: "0 < mx"
  show ?thesis
  proof (cases "map_of xs nm")
    case (Some i)
    then show ?thesis
      using ok lru_touch_ok [of xs nm] lru_touch_set [of nm xs]
      by (simp add: lru_find_def lru_ok_def map_of_eq_Some_iff)
  next
    case None
    then have "nm \<notin> fst ` set xs" by (simp add: map_of_eq_None_iff)
    moreover have "fst ` set (tl xs) \<subseteq> fst ` set xs" by (cases xs) auto
    moreover have "distinct (map fst (tl xs))" using ok by (cases xs) (auto simp: lru_ok_def)
    ultimately have "nm \<notin> fst ` set xs" "nm \<notin> fst ` set (tl xs)" "distinct (map fst (tl xs))" by blast+
    then show ?thesis using None ok pos
      by (cases xs) (auto simp: lru_find_def lru_ok_def map_of_append map_add_def split: option.splits)
  qed
qed

lemma view_ok: "dns_inv self ids \<Longrightarrow> lru_ok (dmax self) (dns_view self ids)"
  using distinct_view by (auto simp: lru_ok_def dns_inv_def dns_view_def)

text \<open>C16. The name table refines a least-recently-used table: over every history of queries and
  lookups it never touches a freed or foreign node, the nodes in the list, in the tree and in the
  array of records agree, and names and indices are those of the specification. Names and indices
  are in one-to-one correspondence.\<close>

theorem mapped_dns_refines_lru:
  assumes "hev_mapped_dns_construct nt mk mx = Some self0" "0 < mx" "mk < 0"
  shows "\<exists>self ids. dns_run ops self0 = Ret self \<and> dns_inv self ids \<and>
    dns_view self ids = lru_run mx mk ops [] \<and>
    distinct (map fst (lru_run mx mk ops [])) \<and> distinct (map snd (lru_run mx mk ops []))"
proof -
  obtain self ids where s: "dns_run ops self0 = Ret self" "dns_inv self ids"
    "dns_view self ids = lru_run mx mk ops []" using construct_run [OF assms, of ops] by blast
  show ?thesis
    using s distinct_view [OF s(2)] distinct_indices [OF s(2)]
    by (intro exI [of _ self] exI [of _ ids]) simp
qed

theorem mapped_dns_refines_lru_witness:
  "\<exists>self0 self ids. hev_mapped_dns_construct 0 (- 16) 2 = Some self0 \<and>
    dns_run [Find [97], Find [98], Look 0, Find [99]] self0 = Ret self \<and> dns_inv self ids \<and>
    dns_view self ids = [([97], 0), ([99], 1)]"
proof -
  obtain self0 where c: "hev_mapped_dns_construct 0 (- 16) 2 = Some self0"
    by (simp add: hev_mapped_dns_construct_def)
  have "lru_run 2 (- 16) [Find [97], Find [98], Look 0, Find [99]] [] = [([97], 0), ([99], 1)]" by code_simp
  then show ?thesis
    using mapped_dns_refines_lru [OF c, of "[Find [97], Find [98], Look 0, Find [99]]"] c by simp
qed

text \<open>C17. The DNS server answers: after any history, a query for the address of a name gets a
  response with the query's id, the response flag, its question, and one address record that
  points to the question; a later connection to exactly this address is looked up as the name
  that was asked for.\<close>

theorem mapped_dns_answers:
  assumes "hev_mapped_dns_construct nt mk mx = Some self0" "0 < mx"
    and "mk = - (2 ^ k)" "nt AND (2 ^ k - 1) = 0" "dns_run ops self0 = Ret self"
    and "labels_ok ls" "length counts = 6" "q = dns_query i0 i1 fl counts ls z"
    and "length q \<le> length res" "33 + length (labels_enc ls) \<le> length res" "alloc 0"
  shows "\<exists>ip sb self'. hev_mapped_dns_handle alloc q res self =
      Ret (33 + int (length (labels_enc ls)), sb, self') \<and>
    take (33 + length (labels_enc ls)) sb = dns_response i0 i1 fl ls ip \<and>
    (\<exists>self''. hev_mapped_dns_lookup ip self' = Ret (Some (dns_name ls), self''))"
proof -
  have mk: "mk < 0" using assms(3) by simp
  obtain ids where inv: "dns_inv self ids" and s: "dmax self = mx" "mask self = mk" "net self = nt"
    using construct_run [OF assms(1,2) mk, of ops] assms(5) by auto
  have le: "mx \<le> 2 ^ k - 1"
    using assms(1,3) by (auto simp: hev_mapped_dns_construct_def not_int_def split: if_splits)
  let ?v = "lru_find mx (dns_name ls) (dns_view self ids)"
  obtain self' ids' where f: "hev_mapped_dns_find True (dns_name ls) self = Ret (fst ?v, self')"
    "dns_inv self' ids'" "dns_view self' ids' = snd ?v" "mask self' = mk" "dmax self' = mx"
    using find_refines [OF inv, of "dns_name ls"] s assms(2) by auto
  have m: "map_of (snd ?v) (dns_name ls) = Some (fst ?v)"
    using lru_find_ok [OF view_ok [OF inv]] s assms(2) by simp
  then have el: "(dns_name ls, fst ?v) \<in> set (dns_view self' ids')" using f(3) by (auto dest: map_of_SomeD)
  then obtain i n where n: "nodes self' i = Some n" "nidx n = fst ?v" using view_elem [OF f(2)] by blast
  have b: "0 \<le> fst ?v" "fst ?v < 2 ^ k"
    using inv_nodes(3,4) [OF f(2) n(1)] n(2) f(2,5) le by (auto simp: dns_inv_def)
  have idx: "(nt OR fst ?v) AND NOT mk = fst ?v" by (rule net_or_idx [OF assms(3,4) b])
  have "lru_lookup (fst ?v) (dns_view self' ids') = Some (dns_name ls)"
    using lru_lookup_iff [OF distinct_indices [OF f(2)]] el by simp
  then have "\<exists>self''. hev_mapped_dns_lookup (nt OR fst ?v) self' = Ret (Some (dns_name ls), self'')"
    using lookup_refines [OF f(2), of "fst ?v" "nt OR fst ?v"] idx f(4) b(1) by auto
  moreover have "hev_mapped_dns_find (alloc 0) (dns_name ls) self = Ret (fst ?v, self')"
    using f(1) assms(11) by simp
  ultimately show ?thesis
    using handle_query [OF assms(6-10) _ b(1), where alloc = alloc and self = self and self' = self'] s(3)
    by blast
qed

text \<open>C29. A name keeps its address while it is remembered: after it was asked for, asking for any
  sequence of other names that has fewer than \<open>max\<close> different ones leaves its address unchanged.\<close>

theorem mapped_dns_survives:
  assumes "dns_inv self ids" "0 < dmax self" "mask self < 0"
    and "hev_mapped_dns_find True nm self = Ret (idx, self1)"
    and "int (card (set nms - {nm})) < dmax self"
    and "dns_run (map Find nms) self1 = Ret self2"
  shows "\<exists>self3. hev_mapped_dns_find True nm self2 = Ret (idx, self3)"
proof -
  let ?v = "lru_find (dmax self) nm (dns_view self ids)"
  obtain ids1 where 1: "idx = fst ?v" "dns_inv self1 ids1" "dns_view self1 ids1 = snd ?v"
    "dmax self1 = dmax self" "mask self1 = mask self"
    using find_refines [OF assms(1,2), of nm] assms(4) by auto
  have v: "lru_ok (dmax self) (snd ?v)" "map_of (snd ?v) nm = Some (fst ?v)"
    using lru_find_ok [OF view_ok [OF assms(1)] assms(2)] by blast+
  obtain ids2 where 2: "dns_inv self2 ids2" "dmax self2 = dmax self"
    "dns_view self2 ids2 = lru_run (dmax self) (mask self) (map Find nms) (snd ?v)"
    using dns_run_refines [OF 1(2), of "map Find nms"] 1 assms(2,3,6) by auto
  have "younger nm (snd ?v) \<subseteq> insert nm (set nms)" using younger_found by blast
  moreover have "int (card (insert nm (set nms) - {nm})) < dmax self" using assms(5) by simp
  ultimately have "map_of (dns_view self2 ids2) nm = Some idx"
    using lru_run_finds_keeps [OF v, of "insert nm (set nms)" nms "mask self"] 2(3) 1(1) by auto
  then have "fst (lru_find (dmax self) nm (dns_view self2 ids2)) = idx" by (simp add: lru_find_def)
  then show ?thesis using find_refines [OF 2(1), of nm] 2(2) assms(2) by auto
qed

definition demo_dns :: mapped_dns where
  "demo_dns = \<lparr>use = 0, dmax = 2, net = 0x64400000, mask = - 16, dlist = hev_list_new, dtree = Nil,
     records = (\<lambda>_. None), nodes = Map.empty, fresh = 0\<rparr>"

lemma demo_dns_new: "hev_mapped_dns_construct 0x64400000 (- 16) 2 = Some demo_dns"
  by (simp add: hev_mapped_dns_construct_def demo_dns_def)

theorem mapped_dns_survives_witness:
  "\<exists>s1 s2 s3 i. hev_mapped_dns_find True [97] demo_dns = Ret (i, s1) \<and>
    dns_run (map Find [[98], [97], [98]]) s1 = Ret s2 \<and> hev_mapped_dns_find True [97] s2 = Ret (i, s3)"
proof -
  have inv: "dns_inv demo_dns []" using new_inv [OF demo_dns_new] by simp
  have d: "0 < dmax demo_dns" "mask demo_dns < 0" by (simp_all add: demo_dns_def)
  obtain i s1 ids1 where 1: "hev_mapped_dns_find True [97] demo_dns = Ret (i, s1)" "dns_inv s1 ids1"
    "dmax s1 = dmax demo_dns" "mask s1 = mask demo_dns" using find_refines [OF inv d(1)] by blast
  obtain s2 where 2: "dns_run (map Find [[98], [97], [98]]) s1 = Ret s2"
    using dns_run_refines [OF 1(2)] 1 d by metis
  have "set [[98], [97], [98]] - {[97 :: byte]} = {[98]}" by auto
  then have "int (card (set [[98], [97], [98]] - {[97 :: byte]})) < dmax demo_dns"
    by (simp only: demo_dns_def) simp
  from mapped_dns_survives [OF inv d 1(1) this 2] show ?thesis using 1(1) 2 by blast
qed

theorem mapped_dns_answers_witness:
  "\<exists>ip sb s' s''. hev_mapped_dns_handle (\<lambda>_. True) (dns_query 7 9 0x100 [0, 0, 0, 0, 0, 0] [[97], [98, 99]] [])
      (replicate 64 0) demo_dns = Ret (38, sb, s') \<and>
    take 38 sb = dns_response 7 9 0x100 [[97], [98, 99]] ip \<and>
    hev_mapped_dns_lookup ip s' = Ret (Some [97, 46, 98, 99], s'')"
proof -
  let ?ls = "[[97], [98, 99]] :: byte list list"
  have ok: "labels_ok ?ls" and nm: "dns_name ?ls = [97, 46, 98, 99]" and len: "length (labels_enc ?ls) = 5"
    by (simp_all add: labels_ok_def dns_name_def labels_dotted_def labels_enc_def)
  have nt: "(0x64400000 :: int) AND (2 ^ 4 - 1) = 0" by simp
  have q: "length (dns_query 7 9 0x100 [0, 0, 0, 0, 0, 0] ?ls []) \<le> length (replicate 64 (0 :: byte))"
    by (simp add: dns_query_def write_u16_def labels_enc_def)
  show ?thesis
    using mapped_dns_answers [OF demo_dns_new _ _ nt _ ok _ refl q, of "[]" demo_dns "\<lambda>_. True"] nm
    by (simp add: len)
qed

text \<open>C30. A query that is only a header, with a question count between 1 and 32, is read past its
  end: the handler looks at the byte behind the request before it compares any offset with the
  length.\<close>

theorem mapped_dns_header_only_faults:
  assumes "length q = 12" "12 \<le> length res" "0 < unat (ntohs (load16 (seg 4 2 q)))"
    "unat (ntohs (load16 (seg 4 2 q))) \<le> 32"
  shows "hev_mapped_dns_handle alloc q res self = Fault"
proof -
  obtain k where k: "unat (ntohs (load16 (seg 4 2 q))) = Suc k" using assms(3) by (cases "unat (ntohs (load16 (seg 4 2 q)))") auto
  have "rd q 12 = None" using assms(1) by (simp add: rd_eq_None_iff)
  then have "dns_labels 12 12 q = Fault" by (subst dns_labels.simps) simp
  then have qs: "dns_questions alloc 12 (Suc k) 12 [] q self = Fault" by simp
  show ?thesis using assms k qs
    by (simp add: hev_mapped_dns_handle_def Let_def del: dns_questions.simps)
qed

theorem mapped_dns_header_only_faults_witness:
  "hev_mapped_dns_handle (\<lambda>_. True) [0, 0, 1, 0, 0, 1, 0, 0, 0, 0, 0, 0] (replicate 64 0) demo_dns = Fault"
proof -
  have "ntohs (load16 (seg 4 2 [0, 0, 1, 0, 0, 1, 0, 0, 0, 0, 0, 0])) = 1" by simp (simp add: mk16_def)
  then show ?thesis
    using mapped_dns_header_only_faults [of "[0, 0, 1, 0, 0, 1, 0, 0, 0, 0, 0, 0]" "replicate 64 0"] by simp
qed

text \<open>After any history the destructor frees every node exactly once and leaves none.\<close>

lemma mapped_dns_destruct_frees:
  assumes "hev_mapped_dns_construct nt mk mx = Some self0" "0 < mx" "mk < 0" "dns_run ops self0 = Ret self"
  shows "\<exists>self'. hev_mapped_dns_destruct self = Ret self' \<and> nodes self' = Map.empty"
proof -
  obtain ids where inv: "dns_inv self ids" using construct_run [OF assms(1-3), of ops] assms(4) by auto
  then have rep: "list_rep (dlist self) ([] @ ids)" and u: "use self = int (length ids)"
    and dom: "dom (nodes self) = set ids" by (simp_all add: dns_inv_def)
  have "\<forall>i \<in> set ids. nodes self i \<noteq> None" using dom by auto
  from free_loop_all [OF rep this, of "nat (use self)"] hl.rep_first [OF rep [simplified]]
  have "hev_mapped_dns_destruct self = Ret (self\<lparr>nodes := (nodes self) |` (- set ids)\<rparr>)"
    using u by (simp add: hev_mapped_dns_destruct_def)
  moreover have "(nodes self) |` (- set ids) = Map.empty"
    using dom by (auto simp: restrict_map_def fun_eq_iff)
  ultimately show ?thesis by simp
qed

lemma mapped_dns_destruct_frees_example:
  "\<exists>self self'. dns_run [Find [97], Find [98], Find [99]] demo_dns = Ret self \<and>
    hev_mapped_dns_destruct self = Ret self' \<and> nodes self' = Map.empty"
proof -
  obtain self where r: "dns_run [Find [97], Find [98], Find [99]] demo_dns = Ret self"
    using construct_run [OF demo_dns_new, of "[Find [97], Find [98], Find [99]]"] by auto
  then show ?thesis using mapped_dns_destruct_frees [OF demo_dns_new _ _ r] by auto
qed

end
