(* ===== verification/LwipAddr.thy ===== *)
theory LwipAddr
  imports DnsServer Client
begin

text \<open>
  The conversions between the addresses of lwIP and the packed addresses of SOCKS5
  (\<open>src/misc/hev-utils.c\<close>). An IPv4 address that the mapped DNS handed out stands for a name, and
  the session asks the proxy for the name.
\<close>

section \<open>Addresses of lwIP\<close>

text \<open>The union of an IPv4 and an IPv6 address, sixteen bytes in network order, with its type.\<close>

record ip_addr =
  ip_mem :: "byte list"
  ip_type :: byte

abbreviation (input) IPADDR_TYPE_V4 :: byte where "IPADDR_TYPE_V4 \<equiv> 0"
abbreviation (input) IPADDR_TYPE_V6 :: byte where "IPADDR_TYPE_V6 \<equiv> 6"
abbreviation (input) IPADDR_TYPE_ANY :: byte where "IPADDR_TYPE_ANY \<equiv> 46"

text \<open>\<open>ntohl\<close> of the IPv4 word, passed on as a C \<open>int\<close>.\<close>

definition ip4_host :: "ip_addr \<Rightarrow> int" where
  "ip4_host ip = sint (of_be32 (ip_mem ip))"

definition hev_socks5_addr_from_lwip :: "byte list \<Rightarrow> ip_addr \<Rightarrow> u16 \<Rightarrow> mapped_dns option \<Rightarrow>
    (int \<times> byte list \<times> mapped_dns option) outcome" where
  "hev_socks5_addr_from_lwip addr ip port dns =
     (if ip_type ip = IPADDR_TYPE_V4 then
        bind_o (case dns of
                  None \<Rightarrow> Ret (None, None)
                | Some d \<Rightarrow> bind_o (hev_mapped_dns_lookup (ip4_host ip) d) (\<lambda>(name, d). Ret (name, Some d)))
          (\<lambda>(name, dns).
            bind_o (case name of
                      Some nm \<Rightarrow> hev_socks5_addr_from_name addr nm (uint (htons port))
                    | None \<Rightarrow> hev_socks5_addr_from_ipv4 addr (ip_mem ip) (uint (htons port)))
              (\<lambda>(r, addr). Ret (0, addr, dns)))
      else if ip_type ip = IPADDR_TYPE_V6 then
        bind_o (hev_socks5_addr_from_ipv6 addr (ip_mem ip) (uint (htons port)))
          (\<lambda>(r, addr). Ret (0, addr, dns))
      else Ret (- 1, addr, dns))"

definition hev_socks5_addr_into_lwip :: "byte list \<Rightarrow> ip_addr \<Rightarrow> u16 \<Rightarrow> (int \<times> ip_addr \<times> u16) outcome" where
  "hev_socks5_addr_into_lwip addr ip port =
     bind_o (rdo addr 0) (\<lambda>atype.
       if atype = HEV_SOCKS5_ADDR_TYPE_IPV4 then
         bind_o (rd_sego addr 1 4) (\<lambda>a. bind_o (rd_sego addr 5 2) (\<lambda>p.
           Ret (0, ip\<lparr>ip_mem := put 0 a (ip_mem ip), ip_type := IPADDR_TYPE_V4\<rparr>, ntohs (load16 p))))
       else if atype = HEV_SOCKS5_ADDR_TYPE_IPV6 then
         bind_o (rd_sego addr 1 16) (\<lambda>a. bind_o (rd_sego addr 17 2) (\<lambda>p.
           Ret (0, ip\<lparr>ip_mem := put 0 a (ip_mem ip), ip_type := IPADDR_TYPE_V6\<rparr>, ntohs (load16 p))))
       else Ret (- 1, ip, port))"

section \<open>What the conversions do\<close>

lemma into_lwip_v4:
  "length a = 4 \<Longrightarrow> length (ip_mem ip) = 16 \<Longrightarrow> hev_socks5_addr_into_lwip (saddr_enc (SV4 a p) @ z) ip q =
    Ret (0, ip\<lparr>ip_mem := a @ drop 4 (ip_mem ip), ip_type := IPADDR_TYPE_V4\<rparr>, p)"
  by (simp add: hev_socks5_addr_into_lwip_def seg_append1 seg_append2 put_0 htons_def)

lemma into_lwip_v6:
  "length a = 16 \<Longrightarrow> length (ip_mem ip) = 16 \<Longrightarrow> hev_socks5_addr_into_lwip (saddr_enc (SV6 a p) @ z) ip q =
    Ret (0, ip\<lparr>ip_mem := a, ip_type := IPADDR_TYPE_V6\<rparr>, p)"
  by (simp add: hev_socks5_addr_into_lwip_def seg_append1 seg_append2 put_0 htons_def)

lemma into_lwip_name:
  "hev_socks5_addr_into_lwip (saddr_enc (SName n p) @ z) ip q = Ret (- 1, ip, q)"
  by (simp add: hev_socks5_addr_into_lwip_def)

text \<open>The address a destination becomes without a name for it.\<close>

definition saddr_of_ip :: "ip_addr \<Rightarrow> u16 \<Rightarrow> saddr" where
  "saddr_of_ip ip port =
     (if ip_type ip = IPADDR_TYPE_V4 then SV4 (take 4 (ip_mem ip)) port else SV6 (take 16 (ip_mem ip)) port)"

lemma from_lwip_ip:
  assumes "ip_type ip \<in> {IPADDR_TYPE_V4, IPADDR_TYPE_V6}" "length (ip_mem ip) = 16" "length buf = 260"
    and "ip_type ip = IPADDR_TYPE_V4 \<longrightarrow> dns = None"
  shows "\<exists>z. hev_socks5_addr_from_lwip buf ip port dns = Ret (0, saddr_enc (saddr_of_ip ip port) @ z, dns) \<and>
    saddr_wf (saddr_of_ip ip port)"
  using assms
  by (auto simp: hev_socks5_addr_from_lwip_def saddr_of_ip_def hev_socks5_addr_from_ipv4_def
      hev_socks5_addr_from_ipv6_def put_0)

lemma from_lwip_name:
  assumes "ip_type ip = IPADDR_TYPE_V4" "length buf = 260"
    and "hev_mapped_dns_lookup (ip4_host ip) d = Ret (Some nm, d')" "is_cstr nm" "length nm \<le> 255"
  shows "\<exists>z. hev_socks5_addr_from_lwip buf ip port (Some d) = Ret (0, saddr_enc (SName nm port) @ z, Some d')"
  using addr_from_name_enc [OF assms(4,5,2), of port] assms(1,3)
  by (auto simp: hev_socks5_addr_from_lwip_def)

end
