(* ===== verification/SessionTcp.thy ===== *)
theory SessionTcp
  imports Pbuf LwipAddr Splice
begin

text \<open>
  The TCP session (\<open>src/hev-socks5-session-tcp.c\<close>): it joins a connection that lwIP accepted from
  the tunnel to the socket of the SOCKS5 client. Bytes from lwIP wait in a chain of packet buffers;
  bytes for lwIP wait in a ring buffer that lwIP reads in place, without a copy, until the peer
  acknowledges them. The callbacks run while the session's task sleeps.

  lwIP's own protocol engine is the environment: it answers \<open>tcp_write\<close> and \<open>tcp_output\<close>, delivers
  packets within the window it advertised, and acknowledges no more than it was given. The record
  \<open>tcp_pcb\<close> keeps what the session told it.
\<close>

section \<open>State\<close>

text \<open>\<open>written\<close>: the bytes accepted by \<open>tcp_write\<close> so far; \<open>refs\<close>: the positions of the session's
  ring that lwIP still points to; \<open>acked\<close>: how many bytes were acknowledged; \<open>inlog\<close>: the bytes
  delivered to the session; \<open>recved\<close>: how many of them it reported as consumed; \<open>write_failed\<close>:
  a \<open>tcp_write\<close> or \<open>tcp_output\<close> answered with an error.\<close>

record tcp_pcb =
  write_ok :: "bool list"
  output_ok :: "bool list"
  written :: "byte list"
  refs :: "nat list"
  acked :: nat
  inlog :: "byte list"
  recved :: nat
  fin_sent :: bool
  write_failed :: bool
  handlers :: bool
  pcb_aborted :: bool

record session_tcp = client_tcp +
  queue :: "nat option"
  pcb :: bool
  pcb_eof :: bool
  buffer :: "ring option"

record tsess =
  tobj :: session_tcp
  tchan :: chan
  tpcb :: tcp_pcb
  tmem :: pmem

abbreviation (input) TCP_WND :: nat where "TCP_WND \<equiv> 65528"
abbreviation (input) TCP_SND_BUF :: nat where "TCP_SND_BUF \<equiv> 65528"

definition set_obj :: "(session_tcp \<Rightarrow> session_tcp) \<Rightarrow> tsess \<Rightarrow> tsess" where
  "set_obj f st = st\<lparr>tobj := f (tobj st)\<rparr>"

section \<open>From lwIP to the proxy\<close>

definition read_payload :: "pbuf \<Rightarrow> byte list outcome" where
  "read_payload b =
     (if 0 \<le> payload b then of_option (rd_seg (area b) (nat (payload b)) (unat (plen b))) else Fault)"

text \<open>The first \<open>k\<close> buffers of a chain.\<close>

fun pbuf_iov :: "nat \<Rightarrow> nat option \<Rightarrow> pmem \<Rightarrow> byte list list outcome" where
  "pbuf_iov 0 p m = Ret []"
| "pbuf_iov (Suc k) None m = Ret []"
| "pbuf_iov (Suc k) (Some a) m =
     bind_o (deref a m) (\<lambda>b. bind_o (read_payload b) (\<lambda>d.
       bind_o (pbuf_iov k (pnext b) m) (\<lambda>v. Ret (d # v))))"

text \<open>\<open>tcp_recved\<close> takes a 16-bit count.\<close>

definition tcp_recved :: "nat \<Rightarrow> tcp_pcb \<Rightarrow> tcp_pcb" where
  "tcp_recved s p = p\<lparr>recved := recved p + unat (of_nat s :: u16)\<rparr>"

definition tcp_splice_f :: "tsess \<Rightarrow> (int \<times> tsess) outcome" where
  "tcp_splice_f st =
     (case queue (tobj st) of
        None \<Rightarrow>
          if pcb_eof (tobj st) then Ret (- 1, st\<lparr>tchan := (tchan st)\<lparr>wr_shut := True\<rparr>\<rparr>)
          else Ret (0, st)
      | Some q \<Rightarrow>
          bind_o (pbuf_iov 64 (Some q) (tmem st)) (\<lambda>iov.
            case writev_nb (concat iov) (tchan st) of
              (SAgain _, c) \<Rightarrow> Ret (0, st\<lparr>tchan := c\<rparr>)
            | (SErr, c) \<Rightarrow> Ret (- 1, st\<lparr>tchan := c\<rparr>)
            | (SOk d, c) \<Rightarrow>
                if d = [] then Ret (- 1, st\<lparr>tchan := c\<rparr>)
                else bind_o (pbuf_free_header (Some q) (of_nat (length d)) (tmem st)) (\<lambda>(q', m).
                  let st = st\<lparr>tchan := c, tmem := m, tobj := (tobj st)\<lparr>queue := q'\<rparr>\<rparr> in
                  Ret (1, if pcb (tobj st) then st\<lparr>tpcb := tcp_recved (length d) (tpcb st)\<rparr> else st))))"

section \<open>From the proxy to lwIP\<close>

text \<open>\<open>tcp_write\<close> without \<open>TCP_WRITE_FLAG_COPY\<close>: lwIP keeps a pointer to the bytes. Its length
  parameter has 16 bits.\<close>

definition tcp_write :: "size_t \<Rightarrow> size_t \<Rightarrow> byte list \<Rightarrow> tcp_pcb \<Rightarrow> bool \<times> tcp_pcb" where
  "tcp_write ptr len d p =
     (let ok = (case write_ok p of [] \<Rightarrow> True | b # _ \<Rightarrow> b); p = p\<lparr>write_ok := tl (write_ok p)\<rparr>;
          n = unat (ucast len :: u16) in
      if ok then (True, p\<lparr>written := written p @ seg (unat ptr) n d,
                    refs := refs p @ [unat ptr ..< unat ptr + n]\<rparr>)
      else (False, p\<lparr>write_failed := True\<rparr>))"

definition tcp_output :: "tcp_pcb \<Rightarrow> bool \<times> tcp_pcb" where
  "tcp_output p =
     (let ok = (case output_ok p of [] \<Rightarrow> True | b # _ \<Rightarrow> b) in
      (ok, p\<lparr>output_ok := tl (output_ok p), write_failed := write_failed p \<or> \<not> ok\<rparr>))"

text \<open>One \<open>tcp_write\<close> for each part of the reading vector, whatever the ones before returned. The
  result is whether all succeeded and the sum of the lengths.\<close>

fun tcp_writes :: "iovec list \<Rightarrow> byte list \<Rightarrow> tcp_pcb \<Rightarrow> bool \<times> size_t \<times> tcp_pcb" where
  "tcp_writes [] d p = (True, 0, p)"
| "tcp_writes ((ptr, len) # iov) d p =
     (case tcp_write ptr len d p of (ok, p) \<Rightarrow>
      case tcp_writes iov d p of (oks, s, p) \<Rightarrow> (ok \<and> oks, len + s, p))"

definition splice_b_read :: "ring \<Rightarrow> chan \<Rightarrow> int \<times> ring \<times> chan" where
  "splice_b_read r c =
     (case hev_ring_buffer_writing r of
        [] \<Rightarrow> (0, r, c)
      | iov \<Rightarrow>
          (case readv_nb (iov_space iov) c of
             (SAgain _, c) \<Rightarrow> (0, r, c)
           | (SErr, c) \<Rightarrow> (- 1, r, c)
           | (SOk d, c) \<Rightarrow>
               if d = [] then (- 1, r, c)
               else (1, hev_ring_buffer_write_finish (of_nat (length d))
                      (r\<lparr>rdata := iov_scatter iov d (rdata r)\<rparr>), c)))"

definition splice_b_write :: "int \<Rightarrow> ring \<Rightarrow> tcp_pcb \<Rightarrow> int \<times> ring \<times> tcp_pcb" where
  "splice_b_write res r p =
     (case hev_ring_buffer_reading r of
        [] \<Rightarrow> (res, r, if res < 0 then p\<lparr>fin_sent := True\<rparr> else p)
      | iov \<Rightarrow>
          (case tcp_writes iov (rdata r) p of (ok, s, p) \<Rightarrow>
           case tcp_output p of (ok', p) \<Rightarrow>
             (if ok \<and> ok' then 1 else - 1, hev_ring_buffer_read_finish s r, p)))"

definition tcp_splice_b :: "tsess \<Rightarrow> (int \<times> tsess) outcome" where
  "tcp_splice_b st =
     bind_o (of_option (buffer (tobj st))) (\<lambda>r.
       case splice_b_read r (tchan st) of (res, r, c) \<Rightarrow>
       if pcb (tobj st) then
         (case splice_b_write res r (tpcb st) of (res, r, p) \<Rightarrow>
            Ret (res, st\<lparr>tchan := c, tpcb := p, tobj := (tobj st)\<lparr>buffer := Some r\<rparr>\<rparr>))
       else Ret (- 1, st\<lparr>tchan := c, tobj := (tobj st)\<lparr>buffer := Some r\<rparr>\<rparr>))"

section \<open>The callbacks\<close>

datatype lwip_err = ERR_OK | ERR_WOULDBLOCK | ERR_MEM | ERR_RST | ERR_IF | ERR_OTHER

definition hev_socks5_session_terminate :: "'a socks5_scheme \<Rightarrow> 'a socks5_scheme" where
  "hev_socks5_session_terminate self = hev_socks5_set_timeout self 0"

definition tcp_recv_handler :: "nat option \<Rightarrow> tsess \<Rightarrow> (lwip_err \<times> tsess) outcome" where
  "tcp_recv_handler p st =
     (case p of
        None \<Rightarrow> Ret (ERR_OK, set_obj (\<lambda>s. s\<lparr>pcb_eof := True\<rparr>) st)
      | Some t \<Rightarrow>
          (case queue (tobj st) of
             None \<Rightarrow> Ret (ERR_OK, set_obj (\<lambda>s. s\<lparr>queue := Some t\<rparr>) st)
           | Some q \<Rightarrow>
               bind_o (deref q (tmem st)) (\<lambda>b.
                 if unat (tot_len b) > TCP_WND then Ret (ERR_WOULDBLOCK, st)
                 else bind_o (pbuf_cat (Some q) (Some t) (tmem st)) (\<lambda>m. Ret (ERR_OK, st\<lparr>tmem := m\<rparr>)))))"

definition tcp_sent_handler :: "u16 \<Rightarrow> tsess \<Rightarrow> (lwip_err \<times> tsess) outcome" where
  "tcp_sent_handler len st =
     bind_o (of_option (buffer (tobj st))) (\<lambda>r.
       Ret (ERR_OK, set_obj (\<lambda>s. s\<lparr>buffer := Some (hev_ring_buffer_read_release (ucast len) r)\<rparr>) st))"

definition tcp_err_handler :: "tsess \<Rightarrow> tsess" where
  "tcp_err_handler st = set_obj (\<lambda>s. hev_socks5_session_terminate (s\<lparr>pcb := False\<rparr>)) st"

text \<open>What lwIP may do next. A delivery brings new buffers, a chain of them at fresh addresses,
  and fits the window: what was delivered and not yet reported as consumed stays within \<open>TCP_WND\<close>.
  Nothing is delivered after the end of the stream. An acknowledgement covers bytes that were
  written. Nothing happens after the connection is gone.\<close>

datatype lwip_event = LwRecv "(nat \<times> pbuf) list" | LwFin | LwSent u16 | LwErr

definition deliver :: "(nat \<times> pbuf) list \<Rightarrow> pmem \<Rightarrow> pmem" where
  "deliver bs m = m\<lparr>objs := fmadd (objs m) (fmap_of_list bs)\<rparr>"

definition lwip_may :: "lwip_event \<Rightarrow> tsess \<Rightarrow> bool" where
  "lwip_may e st \<longleftrightarrow> pcb (tobj st) \<and>
     (case e of
        LwRecv bs \<Rightarrow>
          \<not> pcb_eof (tobj st) \<and> bs \<noteq> [] \<and> (\<forall>a \<in> set (map fst bs). fmlookup (objs (tmem st)) a = None) \<and>
          chain (deliver bs (tmem st)) (Some (fst (hd bs))) (map fst bs) \<and>
          length (inlog (tpcb st)) + length (chain_bytes (deliver bs (tmem st)) (map fst bs))
            \<le> recved (tpcb st) + TCP_WND
      | LwSent n \<Rightarrow> unat n \<le> length (refs (tpcb st)) \<and> buffer (tobj st) \<noteq> None
      | _ \<Rightarrow> True)"

definition lwip_step :: "lwip_event \<Rightarrow> tsess \<Rightarrow> tsess outcome" where
  "lwip_step e st =
     (if \<not> lwip_may e st then Ret st
      else case e of
        LwRecv bs \<Rightarrow>
          let m = deliver bs (tmem st); a = map fst bs in
          bind_o (tcp_recv_handler (Some (hd a)) (st\<lparr>tmem := m\<rparr>)) (\<lambda>(err, st).
            Ret (if err = ERR_OK
                 then st\<lparr>tpcb := (tpcb st)\<lparr>inlog := inlog (tpcb st) @ chain_bytes m a\<rparr>\<rparr> else st))
      | LwFin \<Rightarrow> bind_o (tcp_recv_handler None st) (\<lambda>(err, st). Ret st)
      | LwSent n \<Rightarrow>
          bind_o (tcp_sent_handler n (st\<lparr>tpcb := (tpcb st)\<lparr>refs := drop (unat n) (refs (tpcb st)),
              acked := acked (tpcb st) + unat n\<rparr>\<rparr>)) (\<lambda>(err, st). Ret st)
      | LwErr \<Rightarrow> Ret (tcp_err_handler st))"

fun lwip_steps :: "lwip_event list \<Rightarrow> tsess \<Rightarrow> tsess outcome" where
  "lwip_steps [] st = Ret st"
| "lwip_steps (e # es) st = bind_o (lwip_step e st) (lwip_steps es)"

section \<open>The splice loop\<close>

text \<open>A turn: what lwIP does while the task sleeps, and how the sleep ends. When the turns are used
  up the session is still asleep; the first component of the result says whether it has ended.\<close>

type_synonym turn = "lwip_event list \<times> nap"

definition tcp_yield :: "yield_type \<Rightarrow> turn \<Rightarrow> tsess \<Rightarrow> (int \<times> tsess) outcome" where
  "tcp_yield type t st =
     (case t of (es, p) \<Rightarrow>
      case hev_socks5_task_io_yielder type p (tobj st) of (res, self) \<Rightarrow>
        bind_o (lwip_steps es (st\<lparr>tobj := self\<rparr>)) (\<lambda>st. Ret (res, st)))"

fun tcp_loop :: "turn list \<Rightarrow> int \<Rightarrow> int \<Rightarrow> tsess \<Rightarrow> (bool \<times> turn list \<times> tsess) outcome" where
  "tcp_loop ts res_f res_b st =
     bind_o (if res_f \<ge> 0 then tcp_splice_f st else Ret (res_f, st)) (\<lambda>(res_f, st).
     bind_o (if res_b \<ge> 0 then tcp_splice_b st else Ret (res_b, st)) (\<lambda>(res_b, st).
       case (if res_f > 0 \<or> res_b > 0 then Some HEV_TASK_YIELD
             else if res_f AND res_b = 0 then Some HEV_TASK_WAITIO else None) of
         None \<Rightarrow> Ret (True, ts, st)
       | Some type \<Rightarrow>
           (case ts of
              [] \<Rightarrow> Ret (False, [], st)
            | t # ts \<Rightarrow>
                bind_o (tcp_yield type t st) (\<lambda>(res, st).
                  if res < 0 then Ret (True, ts, st) else tcp_loop ts res_f res_b st))))"

declare tcp_loop.simps [simp del]

text \<open>After the splice the session waits until lwIP no longer points into the ring.\<close>

fun tcp_drain :: "turn list \<Rightarrow> tsess \<Rightarrow> (bool \<times> tsess) outcome" where
  "tcp_drain ts st =
     (if \<not> pcb (tobj st) then Ret (True, st)
      else bind_o (of_option (buffer (tobj st))) (\<lambda>r.
        if hev_ring_buffer_get_use_size r = 0 then Ret (True, st)
        else case ts of
            [] \<Rightarrow> Ret (False, st)
          | t # ts \<Rightarrow>
              bind_o (tcp_yield HEV_TASK_WAITIO t st) (\<lambda>(res, st).
                if res < 0 then Ret (True, st) else tcp_drain ts st)))"

declare tcp_drain.simps [simp del]

definition hev_socks5_session_tcp_splice :: "nat \<Rightarrow> byte list \<Rightarrow> turn list \<Rightarrow> tsess \<Rightarrow> (bool \<times> tsess) outcome" where
  "hev_socks5_session_tcp_splice tcp_buffer_size mem ts st =
     (if \<not> pcb (tobj st) then Ret (True, st)
      else let st = set_obj (\<lambda>s. s\<lparr>buffer := Some (hev_ring_buffer_alloca (of_nat tcp_buffer_size) mem)\<rparr>) st in
        bind_o (tcp_loop ts 1 1 st) (\<lambda>(ended, ts, st). if ended then tcp_drain ts st else Ret (False, st)))"

section \<open>Construction and destruction\<close>

text \<open>\<open>addr\<close> is the uninitialised \<open>HevSocks5Addr\<close> on the stack. The object starts zeroed.\<close>

definition hev_socks5_session_tcp_construct :: "byte list \<Rightarrow> ip_addr \<Rightarrow> u16 \<Rightarrow> mapped_dns option \<Rightarrow> os \<Rightarrow>
    tsess \<Rightarrow> (int \<times> mapped_dns option \<times> tsess) outcome" where
  "hev_socks5_session_tcp_construct addr local_ip local_port dns w st =
     bind_o (hev_socks5_addr_from_lwip addr local_ip local_port dns) (\<lambda>(res, addr, dns).
       if res < 0 then Ret (- 1, dns, st)
       else bind_o (hev_socks5_client_tcp_construct addr (tobj st) w) (\<lambda>(res, self).
         if res < 0 then Ret (- 1, dns, st\<lparr>tobj := self\<rparr>)
         else Ret (0, dns, st\<lparr>tobj := self\<lparr>pcb := True\<rparr>, tpcb := (tpcb st)\<lparr>handlers := True\<rparr>\<rparr>)))"

definition hev_socks5_session_tcp_destruct :: "os \<Rightarrow> tsess \<Rightarrow> (os \<times> tsess) outcome" where
  "hev_socks5_session_tcp_destruct w st =
     (let st = (if pcb (tobj st)
                then st\<lparr>tpcb := (tpcb st)\<lparr>handlers := False, pcb_aborted := True\<rparr>\<rparr> else st) in
      bind_o (if queue (tobj st) = None then Ret st
              else bind_o (pbuf_free (queue (tobj st)) (tmem st)) (\<lambda>(n, m). Ret (st\<lparr>tmem := m\<rparr>))) (\<lambda>st.
        Ret (case hev_socks5_destruct (tobj st) of Some fd \<Rightarrow> close_fd fd w | None \<Rightarrow> w,
             set_obj (\<lambda>s. s\<lparr>tcp_addr := None\<rparr>) st)))"

section \<open>The stream towards the proxy\<close>

text \<open>\<open>w0\<close> is what the socket had taken before. What lwIP delivered is what was written to the
  socket followed by what waits in the queue; the window was opened by exactly the former.\<close>

definition fwd_inv :: "byte list \<Rightarrow> tsess \<Rightarrow> bool" where
  "fwd_inv w0 st \<longleftrightarrow> (\<exists>x as. wire (tchan st) = w0 @ x \<and>
     inlog (tpcb st) = x @ chain_bytes (tmem st) as \<and> chain (tmem st) (queue (tobj st)) as \<and>
     (pcb (tobj st) \<longrightarrow> recved (tpcb st) = length x) \<and> length (chain_bytes (tmem st) as) \<le> TCP_WND)"

lemma read_payload_ok: "buf_ok b \<Longrightarrow> read_payload b = Ret (pbytes b)"
  by (simp add: buf_ok_def read_payload_def pbytes_def)

lemma pbuf_iov_chain:
  "chain m p as \<Longrightarrow> \<exists>v z. pbuf_iov k p m = Ret v \<and> chain_bytes m as = concat v @ z"
proof (induction as arbitrary: p k)
  case Nil
  then show ?case by (cases k) auto
next
  case (Cons a as)
  show ?case
  proof (cases k)
    case (Suc j)
    obtain b where b: "p = Some a" "fmlookup (objs m) a = Some b" "buf_ok b" "chain m (pnext b) as"
      using Cons.prems by (rule chain_Cons_cases)
    with Cons.IH [of "pnext b" j] obtain v z where
      "pbuf_iov j (pnext b) m = Ret v" "chain_bytes m as = concat v @ z" by blast
    then show ?thesis using b Suc by (simp add: read_payload_ok)
  qed simp
qed

lemma tcp_splice_f_inv:
  assumes "fwd_inv w0 st"
  obtains r st' where "tcp_splice_f st = Ret (r, st')" "fwd_inv w0 st'"
    "tpcb st' = (tpcb st)\<lparr>recved := recved (tpcb st')\<rparr>" "rxs (tchan st') = rxs (tchan st)"
    "tobj st' = (tobj st)\<lparr>queue := queue (tobj st')\<rparr>"
    "wr_shut (tchan st') \<longrightarrow> wr_shut (tchan st) \<or> queue (tobj st') = None \<and> pcb_eof (tobj st') \<and> r < 0"
proof -
  from assms obtain x as where i: "wire (tchan st) = w0 @ x" "inlog (tpcb st) = x @ chain_bytes (tmem st) as"
    "chain (tmem st) (queue (tobj st)) as" "pcb (tobj st) \<longrightarrow> recved (tpcb st) = length x"
    "length (chain_bytes (tmem st) as) \<le> TCP_WND" by (auto simp: fwd_inv_def)
  show thesis
  proof (cases "queue (tobj st)")
    case None
    have "fwd_inv w0 (st\<lparr>tchan := (tchan st)\<lparr>wr_shut := True\<rparr>\<rparr>)" using assms by (simp add: fwd_inv_def)
    then show thesis using assms None that by (cases "pcb_eof (tobj st)") (simp_all add: tcp_splice_f_def)
  next
    case (Some q)
    obtain v z where v: "pbuf_iov 64 (Some q) (tmem st) = Ret v" "chain_bytes (tmem st) as = concat v @ z"
      using pbuf_iov_chain [OF i(3)] Some by metis
    obtain k c where w: "writev_nb (concat v) (tchan st) = (k, c)" by fastforce
    note wn = writev_nb_wire [OF w]
    show thesis
    proof (cases k)
      case (SOk d)
      with wn have c: "wire c = wire (tchan st) @ d" "rxs c = rxs (tchan st)" "wr_shut c = wr_shut (tchan st)"
        by simp_all
      obtain z' where z': "concat v = d @ z'" using wn(2) SOk by blast
      show thesis
      proof (cases "d = []")
        case True
        then show thesis using that [of "- 1" "st\<lparr>tchan := c\<rparr>"] assms Some v w SOk c
          by (simp add: tcp_splice_f_def fwd_inv_def)
      next
        case False
        have l: "length d \<le> 65528" using i(5) v(2) z' by simp
        then have u: "unat (of_nat (length d) :: u16) = length d" by (simp add: unsigned_of_nat take_bit_nat_eq_self)
        obtain q' m' as' where f: "pbuf_free_header (Some q) (of_nat (length d)) (tmem st) = Ret (q', m')"
          "chain m' q' as'" "chain_bytes m' as' = drop (length d) (chain_bytes (tmem st) as)"
          using pq.consume_ok [of "tmem st" "Some q" as "of_nat (length d)"] i(3) Some u v(2) z' by auto
        define st1 where "st1 = st\<lparr>tchan := c, tmem := m', tobj := (tobj st)\<lparr>queue := q'\<rparr>\<rparr>"
        define st' where "st' = (if pcb (tobj st) then st1\<lparr>tpcb := tcp_recved (length d) (tpcb st)\<rparr> else st1)"
        have "tcp_splice_f st = Ret (1, st')"
          using Some v w SOk False f(1) by (simp add: tcp_splice_f_def st'_def st1_def Let_def)
        moreover have "fwd_inv w0 st'" unfolding fwd_inv_def
          by (rule exI [of _ "x @ d"], rule exI [of _ as'])
            (use i f(2,3) v(2) z' c u in \<open>auto simp: st'_def st1_def tcp_recved_def\<close>)
        ultimately show thesis
          by (rule that) (use c in \<open>simp_all add: st'_def st1_def tcp_recved_def\<close>)
      qed
    next
      case (SAgain p)
      then show thesis using that [of 0 "st\<lparr>tchan := c\<rparr>"] assms Some v w wn
        by (simp add: tcp_splice_f_def fwd_inv_def)
    next
      case SErr
      then show thesis using that [of "- 1" "st\<lparr>tchan := c\<rparr>"] assms Some v w wn
        by (simp add: tcp_splice_f_def fwd_inv_def)
    qed
  qed
qed

section \<open>The stream towards lwIP\<close>

text \<open>\<open>i0\<close> is what the socket had to give when the session started. The bytes lwIP still points to
  are, in the ring as it is now, the bytes that were handed over; without a failed write they are
  exactly the ring's unreleased part, and lwIP has a prefix of the stream.\<close>

definition bwd_inv :: "byte list \<Rightarrow> ring \<Rightarrow> tcp_pcb \<Rightarrow> chan \<Rightarrow> bool" where
  "bwd_inv i0 r p c \<longleftrightarrow> ring_inv r \<and> unat (max_size r) \<le> TCP_SND_BUF \<and>
     set (refs p) \<subseteq> {..<length (rdata r)} \<and> acked p \<le> length (written p) \<and>
     map ((!) (rdata r)) (refs p) = drop (acked p) (written p) \<and> length (refs p) \<le> length (ring_held r) \<and>
     (\<not> write_failed p \<longrightarrow> refs p = held_pos r \<and> i0 = written p @ ring_pending r @ rx_stream (rxs c))"

lemma seg_upt: "off + n \<le> L \<Longrightarrow> seg off n [0..<L] = [off..<off + n]"
  by (simp add: seg_def drop_upt take_upt)

lemma map_nth_upt: "off + n \<le> length d \<Longrightarrow> map ((!) d) [off..<off + n] = seg off n d"
  by (rule nth_equalityI) (simp_all add: nth_seg)

definition iov_fits :: "iovec list \<Rightarrow> nat \<Rightarrow> bool" where
  "iov_fits iov L \<longleftrightarrow> (\<forall>(b, l) \<in> set iov. unat b + unat l \<le> L \<and> unat l < 65536)"

lemma unat_u16_len: "unat (l :: size_t) < 65536 \<Longrightarrow> unat (ucast l :: u16) = unat l"
  by (simp add: unsigned_ucast_eq take_bit_nat_eq_self)

lemma tcp_writes_refs:
  assumes "tcp_writes iov d p = (ok, s, p')" "iov_fits iov (length d)"
  shows "\<exists>new. p' = p\<lparr>write_ok := write_ok p', written := written p @ map ((!) d) new,
      refs := refs p @ new, write_failed := write_failed p \<or> \<not> ok\<rparr> \<and>
    set new \<subseteq> {..<length d} \<and> length new \<le> iov_space iov \<and>
    (ok \<longrightarrow> new = iov_gather iov [0..<length d])"
  using assms
proof (induction iov arbitrary: p ok s p')
  case (Cons e iov)
  obtain ptr len where e: "e = (ptr, len)" by fastforce
  obtain ok1 p1 where w: "tcp_write ptr len d p = (ok1, p1)" by fastforce
  obtain ok2 s2 p2 where ws: "tcp_writes iov d p1 = (ok2, s2, p2)" by (metis prod_cases3)
  have r: "ok = (ok1 \<and> ok2)" "p' = p2" using Cons.prems(1) e w ws by simp_all
  have b: "unat ptr + unat len \<le> length d" "unat (ucast len :: u16) = unat len" "iov_fits iov (length d)"
    using Cons.prems(2) e by (auto simp: iov_fits_def unat_u16_len)
  obtain new where n: "p2 = p1\<lparr>write_ok := write_ok p2, written := written p1 @ map ((!) d) new,
      refs := refs p1 @ new, write_failed := write_failed p1 \<or> \<not> ok2\<rparr>"
    "set new \<subseteq> {..<length d}" "length new \<le> iov_space iov" "ok2 \<longrightarrow> new = iov_gather iov [0..<length d]"
    using Cons.IH [OF ws b(3)] by blast
  let ?h = "if ok1 then [unat ptr ..< unat ptr + unat len] else []"
  have p1: "p1 = p\<lparr>write_ok := write_ok p1, written := written p @ map ((!) d) ?h,
      refs := refs p @ ?h, write_failed := write_failed p \<or> \<not> ok1\<rparr>"
    using w b by (auto simp: tcp_write_def Let_def map_nth_upt split: if_splits)
  show ?case
  proof (intro exI [of _ "?h @ new"] conjI)
    show "p' = p\<lparr>write_ok := write_ok p', written := written p @ map ((!) d) (?h @ new),
      refs := refs p @ (?h @ new), write_failed := write_failed p \<or> \<not> ok\<rparr>"
      unfolding r using n(1) p1 by (cases p; cases p1; cases p2) auto
  qed (use n b e r in \<open>auto simp: seg_upt\<close>)
qed simp

lemma tcp_writes_sum: "tcp_writes iov d p = (ok, s, p') \<Longrightarrow> s = (\<Sum>(b, l)\<leftarrow>iov. l)"
  by (induction iov arbitrary: p ok s) (auto split: prod.splits)

lemma reading_facts:
  assumes "ring_inv r" "unat (max_size r) \<le> TCP_SND_BUF"
  shows "iov_fits (hev_ring_buffer_reading r) (length (rdata r))" "(\<Sum>(b, l)\<leftarrow>hev_ring_buffer_reading r. l) = rda_size r"
    "iov_space (hev_ring_buffer_reading r) = unat (rda_size r)"
proof -
  note n = ring_inv_nat [OF assms(1)]
  have p: "rp r < max_size r" "rda_size r \<le> max_size r" using assms(1) by (auto simp: ring_inv_def)
  have u: "unat (max_size r - rp r) = length (rdata r) - unat (rp r)"
    using n p by (simp add: unat_sub word_le_nat_alt)
  have v: "\<not> rda_size r \<le> max_size r - rp r \<Longrightarrow>
      unat (rda_size r - (max_size r - rp r)) = unat (rda_size r) - (length (rdata r) - unat (rp r))"
    using u by (simp add: unat_sub word_le_nat_alt)
  show "iov_fits (hev_ring_buffer_reading r) (length (rdata r))"
    using n(2,3,4,6) u v assms(2) by (auto simp: ring_reading_circ circ_iov_def iov_fits_def word_le_nat_alt)
  show "(\<Sum>(b, l)\<leftarrow>hev_ring_buffer_reading r. l) = rda_size r"
    by (simp add: ring_reading_circ circ_iov_def)
  show "iov_space (hev_ring_buffer_reading r) = unat (rda_size r)"
    using p by (simp add: ring_reading_circ iov_space_circ)
qed

lemma splice_b_read_inv:
  assumes i: "bwd_inv i0 r p c" and nf: "\<not> write_failed p" and s: "splice_b_read r c = (res, r', c')"
  shows "bwd_inv i0 r' p c'" "wire c' = wire c" "wr_shut c' = wr_shut c"
proof -
  have ri: "ring_inv r" and eq: "refs p = held_pos r" "i0 = written p @ ring_pending r @ rx_stream (rxs c)"
    using i nf by (simp_all add: bwd_inv_def)
  show "bwd_inv i0 r' p c'" "wire c' = wire c" "wr_shut c' = wr_shut c"
  proof (atomize (full), cases "hev_ring_buffer_writing r")
    case Nil
    then show "bwd_inv i0 r' p c' \<and> wire c' = wire c \<and> wr_shut c' = wr_shut c"
      using i s by (simp add: splice_b_read_def)
  next
    case (Cons e iov)
    obtain k c1 where rv: "readv_nb (iov_space (hev_ring_buffer_writing r)) c = (k, c1)" by fastforce
    note st = readv_nb_stream [OF rv]
    show "bwd_inv i0 r' p c' \<and> wire c' = wire c \<and> wr_shut c' = wr_shut c"
    proof (cases "\<exists>d. k = SOk d \<and> d \<noteq> []")
      case True
      then obtain d where d: "k = SOk d" "d \<noteq> []" by blast
      have l: "length d \<le> ring_room r" using st(2) [OF d(1)] ring_room_writing [OF ri] by simp
      have r': "r' = ring_fill d r" "c' = c1"
        using s Cons rv d by (simp_all add: splice_b_read_def ring_fill_def)
      have m: "max_size (ring_fill d r) = max_size r"
        by (simp add: ring_fill_def hev_ring_buffer_write_finish_def)
      have ri': "ring_inv (ring_fill d r)" using rb.push_inv [OF ri l] .
      have h: "ring_held (ring_fill d r) = ring_held r" "ring_pending (ring_fill d r) = ring_pending r @ d"
        using rb.push_held [OF ri l] rb.push_peek [OF ri l] by simp_all
      have "map ((!) (rdata (ring_fill d r))) (refs p) = ring_held r"
        using held_pos_nth(1) [OF ri'] held_pos_fill [OF ri l] h eq(1) by simp
      moreover have "ring_held r = drop (acked p) (written p)"
        using held_pos_nth(1) [OF ri] eq(1) i by (simp add: bwd_inv_def)
      moreover have "set (refs p) \<subseteq> {..<length (rdata (ring_fill d r))}"
        using held_pos_nth(2) [OF ri'] held_pos_fill [OF ri l] eq(1) by simp
      moreover have "i0 = written p @ ring_pending (ring_fill d r) @ rx_stream (rxs c1)"
        using eq(2) st(1) d(1) h by simp
      moreover have "wire c1 = wire c \<and> wr_shut c1 = wr_shut c" by (subst st(3), subst st(3)) simp
      ultimately show ?thesis using i nf m ri' h(1) held_pos_fill [OF ri l] eq(1) r'
        unfolding bwd_inv_def by metis
    next
      case False
      then have "r' = r" "c' = c1" "rx_stream (rxs c) = rx_stream (rxs c1)"
        using s Cons rv st(1) by (auto simp: splice_b_read_def split: sysr.splits if_splits)
      moreover have "wire c1 = wire c \<and> wr_shut c1 = wr_shut c" by (subst st(3), subst st(3)) simp
      ultimately show ?thesis using i by (simp add: bwd_inv_def)
    qed
  qed
qed

lemma splice_b_write_inv:
  assumes i: "bwd_inv i0 r p c" and nf: "\<not> write_failed p" and s: "splice_b_write res r p = (res', r', p')"
  shows "bwd_inv i0 r' p' c" "inlog p' = inlog p" "recved p' = recved p"
    "write_failed p' \<longrightarrow> res' < 0" "fin_sent p' \<longrightarrow> fin_sent p \<or> ring_pending r' = [] \<and> res' < 0"
    "handlers p' = handlers p" "pcb_aborted p' = pcb_aborted p"
proof -
  have ri: "ring_inv r" and mx: "unat (max_size r) \<le> TCP_SND_BUF"
    and eq: "refs p = held_pos r" "i0 = written p @ ring_pending r @ rx_stream (rxs c)"
    and ak: "acked p \<le> length (written p)" and rf: "map ((!) (rdata r)) (refs p) = drop (acked p) (written p)"
    using i nf unfolding bwd_inv_def by blast+
  note rd = reading_facts [OF ri mx] and n = ring_inv_nat [OF ri] and lp = length_ring_parts [OF ri]
  have "bwd_inv i0 r' p' c \<and> inlog p' = inlog p \<and> recved p' = recved p \<and> (write_failed p' \<longrightarrow> res' < 0) \<and>
    (fin_sent p' \<longrightarrow> fin_sent p \<or> ring_pending r' = [] \<and> res' < 0) \<and> handlers p' = handlers p \<and>
    pcb_aborted p' = pcb_aborted p"
  proof (cases "hev_ring_buffer_reading r")
    case Nil
    then have "ring_pending r = []" using ring_reading_gather [OF ri] by simp
    then show ?thesis using i nf s Nil by (auto simp: splice_b_write_def bwd_inv_def split: if_splits)
  next
    case (Cons e iov)
    obtain ok sm p1 where w: "tcp_writes (hev_ring_buffer_reading r) (rdata r) p = (ok, sm, p1)"
      by (metis prod_cases3)
    obtain ok' p2 where o: "tcp_output p1 = (ok', p2)" by fastforce
    have res: "res' = (if ok \<and> ok' then 1 else - 1)" "r' = hev_ring_buffer_read_finish sm r" "p' = p2"
      using s Cons w o by (simp_all add: splice_b_write_def)
    have sm: "sm = rda_size r" using tcp_writes_sum [OF w] rd(2) by simp
    obtain new where p1: "p1 = p\<lparr>write_ok := write_ok p1, written := written p @ map ((!) (rdata r)) new,
        refs := refs p @ new, write_failed := write_failed p \<or> \<not> ok\<rparr>"
      "set new \<subseteq> {..<length (rdata r)}" "length new \<le> unat (rda_size r)"
      "ok \<longrightarrow> new = iov_gather (hev_ring_buffer_reading r) [0..<length (rdata r)]"
      using tcp_writes_refs [OF w rd(1)] rd(3) by auto
    have p2: "p2 = p\<lparr>write_ok := write_ok p2, output_ok := output_ok p2,
        written := written p @ map ((!) (rdata r)) new, refs := refs p @ new, write_failed := \<not> (ok \<and> ok')\<rparr>"
      using p1(1) o nf by (cases p; cases p1; cases p2) (auto simp: tcp_output_def Let_def)
    define r1 where "r1 = hev_ring_buffer_read_finish (of_nat (unat (rda_size r))) r"
    have le: "unat (rda_size r) \<le> length (ring_pending r)" using lp by simp
    have r1: "r' = r1" "rdata r1 = rdata r" "max_size r1 = max_size r"
      using res sm by (simp_all add: r1_def hev_ring_buffer_read_finish_def)
    have ri1: "ring_inv r1" and h1: "ring_held r1 = ring_held r @ ring_pending r" "ring_pending r1 = []"
      using rb.pop_inv [OF ri le] rb.pop_held [OF ri le] rb.pop_peek [OF ri le] lp by (simp_all add: r1_def)
    have hp: "held_pos r1 = held_pos r @ iov_gather (hev_ring_buffer_reading r) [0..<length (rdata r)]"
      using held_pos_finish [OF ri] by (simp add: r1_def)
    have strong: "refs p @ new = held_pos r1 \<and> i0 = (written p @ map ((!) (rdata r)) new) @ ring_pending r1 @ rx_stream (rxs c)"
      if "ok"
    proof -
      have a: "refs p @ new = held_pos r1" using p1(4) that hp eq(1) by simp
      have "map ((!) (rdata r)) (held_pos r @ new) = ring_held r @ ring_pending r"
        using held_pos_nth(1) [OF ri1] a eq(1) r1(2) h1(1) by metis
      then have "map ((!) (rdata r)) new = ring_pending r"
        using held_pos_nth(1) [OF ri] by simp
      then show ?thesis using a eq(2) h1(2) by simp
    qed
    have refs1: "map ((!) (rdata r)) (refs p @ new) = drop (acked p) (written p @ map ((!) (rdata r)) new)"
      using rf ak by simp
    have "bwd_inv i0 r1 p2 c" unfolding bwd_inv_def
    proof (intro conjI)
      show "length (refs p2) \<le> length (ring_held r1)"
        using p1(3) h1(1) eq(1) held_pos_nth(3) [OF ri] lp by (subst p2) simp
      show "map ((!) (rdata r1)) (refs p2) = drop (acked p2) (written p2)"
        by (subst p2, subst p2, subst p2) (use refs1 r1(2) in simp)
      show "set (refs p2) \<subseteq> {..<length (rdata r1)}"
        using p1(2) held_pos_nth(2) [OF ri] eq(1) r1(2) by (subst p2) simp
      show "acked p2 \<le> length (written p2)" by (subst p2, subst p2) (use ak in simp)
      show "\<not> write_failed p2 \<longrightarrow> refs p2 = held_pos r1 \<and> i0 = written p2 @ ring_pending r1 @ rx_stream (rxs c)"
        by (subst p2, subst p2, subst p2) (use strong in simp)
    qed (use ri1 r1 mx in simp_all)
    moreover have "inlog p2 = inlog p \<and> recved p2 = recved p \<and> (write_failed p2 \<longrightarrow> \<not> (ok \<and> ok')) \<and>
      fin_sent p2 = fin_sent p \<and> handlers p2 = handlers p \<and> pcb_aborted p2 = pcb_aborted p"
      using p2 by (cases p; cases p2) auto
    ultimately show ?thesis using res(1,3) r1(1) by auto
  qed
  then show "bwd_inv i0 r' p' c" "inlog p' = inlog p" "recved p' = recved p"
    "write_failed p' \<longrightarrow> res' < 0" "fin_sent p' \<longrightarrow> fin_sent p \<or> ring_pending r' = [] \<and> res' < 0"
    "handlers p' = handlers p" "pcb_aborted p' = pcb_aborted p" by blast+
qed

section \<open>The session as a whole\<close>

definition sess_inv :: "byte list \<Rightarrow> byte list \<Rightarrow> tsess \<Rightarrow> bool" where
  "sess_inv w0 i0 st \<longleftrightarrow> fwd_inv w0 st \<and>
     (\<exists>r. buffer (tobj st) = Some r \<and> bwd_inv i0 r (tpcb st) (tchan st) \<and>
        (fin_sent (tpcb st) \<longrightarrow> ring_pending r = [])) \<and>
     (wr_shut (tchan st) \<longrightarrow> queue (tobj st) = None \<and> pcb_eof (tobj st))"

lemma sess_splice_f:
  assumes i: "sess_inv w0 i0 st" and ns: "\<not> wr_shut (tchan st)"
  obtains r st' where "tcp_splice_f st = Ret (r, st')" "sess_inv w0 i0 st'" "wr_shut (tchan st') \<longrightarrow> r < 0"
    "write_failed (tpcb st') = write_failed (tpcb st)" "fin_sent (tpcb st') = fin_sent (tpcb st)"
proof -
  obtain r st' where f: "tcp_splice_f st = Ret (r, st')" "fwd_inv w0 st'"
    "tpcb st' = (tpcb st)\<lparr>recved := recved (tpcb st')\<rparr>" "rxs (tchan st') = rxs (tchan st)"
    "tobj st' = (tobj st)\<lparr>queue := queue (tobj st')\<rparr>"
    "wr_shut (tchan st') \<longrightarrow> wr_shut (tchan st) \<or> queue (tobj st') = None \<and> pcb_eof (tobj st') \<and> r < 0"
    using tcp_splice_f_inv i by (metis sess_inv_def)
  have p: "refs (tpcb st') = refs (tpcb st)" "written (tpcb st') = written (tpcb st)"
    "acked (tpcb st') = acked (tpcb st)" "write_failed (tpcb st') = write_failed (tpcb st)"
    "fin_sent (tpcb st') = fin_sent (tpcb st)" by (subst f(3); simp)+
  have b: "buffer (tobj st') = buffer (tobj st)" by (subst f(5)) simp
  have "sess_inv w0 i0 st'" using i f(2,4,6) ns p b by (auto simp: sess_inv_def bwd_inv_def)
  then show thesis using that f(1,6) ns p by blast
qed

lemma sess_splice_b:
  assumes i: "sess_inv w0 i0 st" and ok: "\<not> write_failed (tpcb st)" "\<not> fin_sent (tpcb st)"
  obtains res st' where "tcp_splice_b st = Ret (res, st')" "sess_inv w0 i0 st'"
    "wr_shut (tchan st') = wr_shut (tchan st)" "write_failed (tpcb st') \<longrightarrow> res < 0"
    "fin_sent (tpcb st') \<longrightarrow> res < 0"
proof -
  obtain r where r: "buffer (tobj st) = Some r" "bwd_inv i0 r (tpcb st) (tchan st)"
    using i by (auto simp: sess_inv_def)
  obtain k r1 c1 where rd: "splice_b_read r (tchan st) = (k, r1, c1)" by (metis prod_cases3)
  note b1 = splice_b_read_inv [OF r(2) ok(1) rd]
  show thesis
  proof (cases "pcb (tobj st)")
    case False
    let ?st = "st\<lparr>tchan := c1, tobj := (tobj st)\<lparr>buffer := Some r1\<rparr>\<rparr>"
    have "tcp_splice_b st = Ret (- 1, ?st)" using r(1) rd False by (simp add: tcp_splice_b_def)
    moreover have "sess_inv w0 i0 ?st" using i b1 ok(2) by (auto simp: sess_inv_def fwd_inv_def)
    ultimately show thesis by (rule that) (use b1 in simp_all)
  next
    case True
    obtain res r2 p2 where wt: "splice_b_write k r1 (tpcb st) = (res, r2, p2)" by (metis prod_cases3)
    note b2 = splice_b_write_inv [OF b1(1) ok(1) wt]
    let ?st = "st\<lparr>tchan := c1, tpcb := p2, tobj := (tobj st)\<lparr>buffer := Some r2\<rparr>\<rparr>"
    have "tcp_splice_b st = Ret (res, ?st)" using r(1) rd wt True by (simp add: tcp_splice_b_def)
    moreover have "sess_inv w0 i0 ?st" using i b1 b2 ok(2) by (auto simp: sess_inv_def fwd_inv_def)
    ultimately show thesis by (rule that) (use b1 b2 ok in simp_all)
  qed
qed

lemma deliver_lookup:
  assumes "chain (deliver bs m) p as" "\<forall>a \<in> set as. fmlookup (objs m) a = None" "chain m q qs"
  shows "set qs \<inter> set as = {}"
  using chain_live [OF assms(3)] assms(2) by (auto simp: fmlookup_dom_iff)

lemma deliver_same: "\<forall>a \<in> A. a \<notin> set (map fst bs) \<Longrightarrow> same_at A m (deliver bs m)"
  by (fastforce simp: same_at_def deliver_def fset_of_list_elem)

text \<open>A delivery that lwIP may make is never refused and never wraps the 16-bit total.\<close>

lemma recv_handler_inv:
  assumes i: "fwd_inv w0 st" and may: "lwip_may (LwRecv bs) st"
  obtains q' m' where "lwip_step (LwRecv bs) st = Ret (st\<lparr>tmem := m', tobj := (tobj st)\<lparr>queue := q'\<rparr>,
      tpcb := (tpcb st)\<lparr>inlog := inlog (tpcb st) @ chain_bytes (deliver bs (tmem st)) (map fst bs)\<rparr>\<rparr>)"
    "fwd_inv w0 (st\<lparr>tmem := m', tobj := (tobj st)\<lparr>queue := q'\<rparr>,
      tpcb := (tpcb st)\<lparr>inlog := inlog (tpcb st) @ chain_bytes (deliver bs (tmem st)) (map fst bs)\<rparr>\<rparr>)"
proof -
  let ?m = "deliver bs (tmem st)" and ?as = "map fst bs" and ?new = "chain_bytes (deliver bs (tmem st)) (map fst bs)"
  from may have m: "pcb (tobj st)" "bs \<noteq> []" "\<forall>a \<in> set ?as. fmlookup (objs (tmem st)) a = None"
    "chain ?m (Some (fst (hd bs))) ?as"
    "length (inlog (tpcb st)) + length ?new \<le> recved (tpcb st) + TCP_WND" by (simp_all add: lwip_may_def)
  from i m(1) obtain x qs where x: "wire (tchan st) = w0 @ x" "inlog (tpcb st) = x @ chain_bytes (tmem st) qs"
    "chain (tmem st) (queue (tobj st)) qs" "recved (tpcb st) = length x" by (auto simp: fwd_inv_def)
  have len: "length (chain_bytes (tmem st) qs) + length ?new \<le> TCP_WND" using m(5) x(2,4) by simp
  have dis: "set qs \<inter> set ?as = {}" by (rule deliver_lookup [OF m(4,3) x(3)])
  then have sm: "same_at (set qs) (tmem st) ?m" by (intro deliver_same) auto
  have q: "chain ?m (queue (tobj st)) qs" "chain_bytes ?m qs = chain_bytes (tmem st) qs"
    using x(3) sm by (simp_all add: chain_cong chain_bytes_cong)
  have hd: "hd ?as = fst (hd bs)" using m(2) by (simp add: hd_map)
  have step: "\<exists>q' m'. tcp_recv_handler (Some (hd ?as)) (st\<lparr>tmem := ?m\<rparr>) =
      Ret (ERR_OK, st\<lparr>tmem := m', tobj := (tobj st)\<lparr>queue := q'\<rparr>\<rparr>) \<and> chain m' q' (qs @ ?as) \<and>
      chain_bytes m' (qs @ ?as) = chain_bytes (tmem st) qs @ ?new"
  proof (cases "queue (tobj st)")
    case None
    then have "qs = []" using x(3) by (simp add: chain_None)
    then show ?thesis using None m(4) hd by (auto simp: tcp_recv_handler_def set_obj_def)
  next
    case (Some h)
    obtain qs' where qs: "qs = h # qs'" using x(3) Some by (cases qs) auto
    from q(1) [unfolded Some qs] obtain b where b: "fmlookup (objs ?m) h = Some b"
      "unat (tot_len b) = length (chain_bytes ?m qs)" by (rule chain_Cons_cases) (auto simp: qs)
    have "\<exists>m'. pbuf_cat (Some h) (Some (fst (hd bs))) ?m = Ret m' \<and> chain m' (Some h) (qs @ ?as) \<and>
        chain_bytes m' (qs @ ?as) = chain_bytes ?m qs @ ?new \<and> same_at (- set qs) ?m m'"
      using q Some m(4) dis len by (intro pq.cat_ok) simp_all
    then obtain m' where "pbuf_cat (Some h) (Some (fst (hd bs))) ?m = Ret m'" "chain m' (Some h) (qs @ ?as)"
      "chain_bytes m' (qs @ ?as) = chain_bytes ?m qs @ ?new" by blast
    moreover have "st\<lparr>tmem := m', tobj := tobj st\<lparr>queue := Some h\<rparr>\<rparr> = st\<lparr>tmem := m'\<rparr>" for m'
      using Some by (cases "tobj st"; cases st) simp
    ultimately show ?thesis using Some b hd q(2) len
      by (intro exI [of _ "Some h"] exI [of _ m']) (simp add: tcp_recv_handler_def)
  qed
  then obtain q' m' where h: "tcp_recv_handler (Some (hd ?as)) (st\<lparr>tmem := ?m\<rparr>) =
      Ret (ERR_OK, st\<lparr>tmem := m', tobj := (tobj st)\<lparr>queue := q'\<rparr>\<rparr>)" "chain m' q' (qs @ ?as)"
      "chain_bytes m' (qs @ ?as) = chain_bytes (tmem st) qs @ ?new" by blast
  show thesis
  proof (rule that)
    show "lwip_step (LwRecv bs) st = Ret (st\<lparr>tmem := m', tobj := (tobj st)\<lparr>queue := q'\<rparr>,
        tpcb := (tpcb st)\<lparr>inlog := inlog (tpcb st) @ ?new\<rparr>\<rparr>)"
      using may h(1) by (simp add: lwip_step_def Let_def)
    show "fwd_inv w0 (st\<lparr>tmem := m', tobj := (tobj st)\<lparr>queue := q'\<rparr>,
        tpcb := (tpcb st)\<lparr>inlog := inlog (tpcb st) @ ?new\<rparr>\<rparr>)"
      unfolding fwd_inv_def by (rule exI [of _ x], rule exI [of _ "qs @ ?as"]) (use x h len in simp)
  qed
qed

text \<open>An acknowledgement releases the front of what lwIP points to, and the rest stays in place.\<close>

lemma sent_handler_inv:
  assumes i: "bwd_inv i0 r p c" and le: "unat n \<le> length (refs p)"
  shows "bwd_inv i0 (hev_ring_buffer_read_release (ucast n) r)
    (p\<lparr>refs := drop (unat n) (refs p), acked := acked p + unat n\<rparr>) c"
    "ring_pending (hev_ring_buffer_read_release (ucast n) r) = ring_pending r"
proof -
  have ri: "ring_inv r" using i by (simp add: bwd_inv_def)
  have un: "(ucast n :: size_t) = of_nat (unat n)" by simp
  have len: "unat n \<le> length (ring_held r)" using i le by (simp add: bwd_inv_def)
  let ?r = "hev_ring_buffer_read_release (of_nat (unat n)) r"
  have same: "rdata ?r = rdata r" "max_size ?r = max_size r"
    by (simp_all add: hev_ring_buffer_read_release_def Let_def)
  note rel = rb.release_inv [OF ri len] rb.release_held [OF ri len] rb.release_peek [OF ri len]
  have dr: "map ((!) (rdata r)) (drop (unat n) (refs p)) = drop (acked p + unat n) (written p)"
    using i by (simp add: bwd_inv_def add.commute flip: drop_map)
  have "length (refs p) = length (written p) - acked p"
    using i unfolding bwd_inv_def by (metis length_drop length_map)
  moreover have "acked p \<le> length (written p)" using i by (simp add: bwd_inv_def)
  ultimately have "acked p + unat n \<le> length (written p)" using le by linarith
  then show "bwd_inv i0 (hev_ring_buffer_read_release (ucast n) r)
      (p\<lparr>refs := drop (unat n) (refs p), acked := acked p + unat n\<rparr>) c"
    using i rel same dr held_pos_release [OF ri len] set_drop_subset [of "unat n" "refs p"]
    unfolding un bwd_inv_def by (auto simp del: drop_drop)
  show "ring_pending (hev_ring_buffer_read_release (ucast n) r) = ring_pending r"
    unfolding un using rel by simp
qed

lemma lwip_step_inv:
  assumes i: "sess_inv w0 i0 st"
  obtains st' where "lwip_step e st = Ret st'" "sess_inv w0 i0 st'" "wr_shut (tchan st') = wr_shut (tchan st)"
    "write_failed (tpcb st') = write_failed (tpcb st)" "fin_sent (tpcb st') = fin_sent (tpcb st)"
proof (cases "lwip_may e st")
  case False
  then show thesis using i that by (simp add: lwip_step_def)
next
  case may: True
  show thesis
  proof (cases e)
    case (LwRecv bs)
    have "fwd_inv w0 st" using i by (simp add: sess_inv_def)
    then obtain q' m' where r: "lwip_step e st = Ret (st\<lparr>tmem := m', tobj := (tobj st)\<lparr>queue := q'\<rparr>,
          tpcb := (tpcb st)\<lparr>inlog := inlog (tpcb st) @ chain_bytes (deliver bs (tmem st)) (map fst bs)\<rparr>\<rparr>)"
      "fwd_inv w0 (st\<lparr>tmem := m', tobj := (tobj st)\<lparr>queue := q'\<rparr>,
          tpcb := (tpcb st)\<lparr>inlog := inlog (tpcb st) @ chain_bytes (deliver bs (tmem st)) (map fst bs)\<rparr>\<rparr>)"
      using recv_handler_inv may LwRecv by metis
    have "\<not> pcb_eof (tobj st)" using may LwRecv by (simp add: lwip_may_def)
    then show thesis by (intro that [OF r(1)]) (use i r(2) in \<open>auto simp: sess_inv_def bwd_inv_def\<close>)
  next
    case LwFin
    then show thesis using i may
      by (intro that [of "set_obj (\<lambda>s. s\<lparr>pcb_eof := True\<rparr>) st"])
        (auto simp: lwip_step_def tcp_recv_handler_def set_obj_def sess_inv_def fwd_inv_def)
  next
    case (LwSent n)
    obtain r where r: "buffer (tobj st) = Some r" "bwd_inv i0 r (tpcb st) (tchan st)"
      "fin_sent (tpcb st) \<longrightarrow> ring_pending r = []" using i by (auto simp: sess_inv_def)
    have le: "unat n \<le> length (refs (tpcb st))" using may LwSent by (simp add: lwip_may_def)
    note s = sent_handler_inv [OF r(2) le]
    show thesis
      by (rule that [of "st\<lparr>tobj := (tobj st)\<lparr>buffer := Some (hev_ring_buffer_read_release (ucast n) r)\<rparr>,
          tpcb := (tpcb st)\<lparr>refs := drop (unat n) (refs (tpcb st)), acked := acked (tpcb st) + unat n\<rparr>\<rparr>"])
        (use may LwSent r s i in \<open>auto simp: lwip_step_def tcp_sent_handler_def set_obj_def sess_inv_def fwd_inv_def\<close>)
  next
    case LwErr
    then show thesis using i may
      by (intro that [of "tcp_err_handler st"])
        (auto simp: lwip_step_def tcp_err_handler_def set_obj_def hev_socks5_session_terminate_def
          hev_socks5_set_timeout_def sess_inv_def fwd_inv_def)
  qed
qed

lemma lwip_steps_inv:
  assumes "sess_inv w0 i0 st"
  obtains st' where "lwip_steps es st = Ret st'" "sess_inv w0 i0 st'" "wr_shut (tchan st') = wr_shut (tchan st)"
    "write_failed (tpcb st') = write_failed (tpcb st)" "fin_sent (tpcb st') = fin_sent (tpcb st)"
  using assms
proof (induction es arbitrary: st thesis)
  case (Cons e es)
  obtain st1 where 1: "lwip_step e st = Ret st1" "sess_inv w0 i0 st1" "wr_shut (tchan st1) = wr_shut (tchan st)"
    "write_failed (tpcb st1) = write_failed (tpcb st)" "fin_sent (tpcb st1) = fin_sent (tpcb st)"
    using Cons.prems(2) by (rule lwip_step_inv)
  obtain st2 where "lwip_steps es st1 = Ret st2" "sess_inv w0 i0 st2" "wr_shut (tchan st2) = wr_shut (tchan st1)"
    "write_failed (tpcb st2) = write_failed (tpcb st1)" "fin_sent (tpcb st2) = fin_sent (tpcb st1)"
    using Cons.IH [OF _ 1(2)] by blast
  then show ?case using 1 by (intro Cons.prems(1) [of st2]) simp_all
qed simp

lemma yielder_obj:
  "hev_socks5_task_io_yielder type p self = (r, self') \<Longrightarrow> self' = self \<or> self' = self\<lparr>timeout := 0\<rparr>"
  by (auto simp: hev_socks5_task_io_yielder_def woken_def Let_def split: if_splits)

lemma tcp_yield_inv:
  assumes "sess_inv w0 i0 st"
  obtains res st' where "tcp_yield type t st = Ret (res, st')" "sess_inv w0 i0 st'"
    "wr_shut (tchan st') = wr_shut (tchan st)" "write_failed (tpcb st') = write_failed (tpcb st)"
    "fin_sent (tpcb st') = fin_sent (tpcb st)"
proof -
  obtain es p where t: "t = (es, p)" by fastforce
  obtain res self where y: "hev_socks5_task_io_yielder type p (tobj st) = (res, self)" by fastforce
  have "sess_inv w0 i0 (st\<lparr>tobj := self\<rparr>)"
    using assms yielder_obj [OF y] by (auto simp: sess_inv_def fwd_inv_def)
  then obtain st' where "lwip_steps es (st\<lparr>tobj := self\<rparr>) = Ret st'" "sess_inv w0 i0 st'"
    "wr_shut (tchan st') = wr_shut (tchan st)" "write_failed (tpcb st') = write_failed (tpcb st)"
    "fin_sent (tpcb st') = fin_sent (tpcb st)" by (rule lwip_steps_inv) simp
  then show thesis using that t y by (simp add: tcp_yield_def)
qed

lemma try_f:
  assumes i: "sess_inv w0 i0 st" and w: "wr_shut (tchan st) \<longrightarrow> res_f < 0"
  obtains rf st1 where "(if res_f \<ge> 0 then tcp_splice_f st else Ret (res_f, st)) = Ret (rf, st1)"
    "sess_inv w0 i0 st1" "wr_shut (tchan st1) \<longrightarrow> rf < 0" "write_failed (tpcb st1) = write_failed (tpcb st)"
    "fin_sent (tpcb st1) = fin_sent (tpcb st)"
proof (cases "res_f \<ge> 0")
  case True
  then have "\<not> wr_shut (tchan st)" using w by auto
  with i obtain r st' where "tcp_splice_f st = Ret (r, st')" "sess_inv w0 i0 st'" "wr_shut (tchan st') \<longrightarrow> r < 0"
    "write_failed (tpcb st') = write_failed (tpcb st)" "fin_sent (tpcb st') = fin_sent (tpcb st)"
    by (rule sess_splice_f)
  then show thesis using that True by simp
next
  case False
  then show thesis using that [of res_f st] i w by simp
qed

lemma try_b:
  assumes i: "sess_inv w0 i0 st" and w: "write_failed (tpcb st) \<longrightarrow> res_b < 0" "fin_sent (tpcb st) \<longrightarrow> res_b < 0"
  obtains rb st2 where "(if res_b \<ge> 0 then tcp_splice_b st else Ret (res_b, st)) = Ret (rb, st2)"
    "sess_inv w0 i0 st2" "wr_shut (tchan st2) = wr_shut (tchan st)" "write_failed (tpcb st2) \<longrightarrow> rb < 0"
    "fin_sent (tpcb st2) \<longrightarrow> rb < 0"
proof (cases "res_b \<ge> 0")
  case True
  then have "\<not> write_failed (tpcb st)" "\<not> fin_sent (tpcb st)" using w by auto
  with i obtain r st' where "tcp_splice_b st = Ret (r, st')" "sess_inv w0 i0 st'"
    "wr_shut (tchan st') = wr_shut (tchan st)" "write_failed (tpcb st') \<longrightarrow> r < 0" "fin_sent (tpcb st') \<longrightarrow> r < 0"
    by (rule sess_splice_b)
  then show thesis using that True by simp
next
  case False
  then show thesis using that [of res_b st] i w by simp
qed

lemma tcp_loop_inv:
  assumes "sess_inv w0 i0 st" "wr_shut (tchan st) \<longrightarrow> res_f < 0" "write_failed (tpcb st) \<longrightarrow> res_b < 0"
    "fin_sent (tpcb st) \<longrightarrow> res_b < 0"
  shows "\<exists>ended ts' st'. tcp_loop ts res_f res_b st = Ret (ended, ts', st') \<and> sess_inv w0 i0 st'"
  using assms
proof (induction ts arbitrary: res_f res_b st)
  case (Cons t ts)
  obtain rf st1 where f: "(if res_f \<ge> 0 then tcp_splice_f st else Ret (res_f, st)) = Ret (rf, st1)"
    "sess_inv w0 i0 st1" "wr_shut (tchan st1) \<longrightarrow> rf < 0" "write_failed (tpcb st1) = write_failed (tpcb st)"
    "fin_sent (tpcb st1) = fin_sent (tpcb st)" using Cons.prems(1,2) by (rule try_f)
  have w: "write_failed (tpcb st1) \<longrightarrow> res_b < 0" "fin_sent (tpcb st1) \<longrightarrow> res_b < 0"
    using Cons.prems(3,4) f(4,5) by simp_all
  obtain rb st2 where b: "(if res_b \<ge> 0 then tcp_splice_b st1 else Ret (res_b, st1)) = Ret (rb, st2)"
    "sess_inv w0 i0 st2" "wr_shut (tchan st2) = wr_shut (tchan st1)" "write_failed (tpcb st2) \<longrightarrow> rb < 0"
    "fin_sent (tpcb st2) \<longrightarrow> rb < 0" using f(2) w by (rule try_b)
  show ?case
  proof (cases "(if rf > 0 \<or> rb > 0 then Some HEV_TASK_YIELD
        else if rf AND rb = 0 then Some HEV_TASK_WAITIO else None)")
    case (Some type)
    obtain res st3 where y: "tcp_yield type t st2 = Ret (res, st3)" "sess_inv w0 i0 st3"
      "wr_shut (tchan st3) = wr_shut (tchan st2)" "write_failed (tpcb st3) = write_failed (tpcb st2)"
      "fin_sent (tpcb st3) = fin_sent (tpcb st2)" using b(2) by (rule tcp_yield_inv)
    have "\<exists>ended ts' st'. tcp_loop ts rf rb st3 = Ret (ended, ts', st') \<and> sess_inv w0 i0 st'"
      using y b f(3) by (intro Cons.IH) simp_all
    then show ?thesis using y(2) by (subst tcp_loop.simps) (simp only: f(1) b(1) Some y(1) bind_o_simps
          prod.case option.case list.case, auto)
  next
    case None
    then show ?thesis using b(2) by (subst tcp_loop.simps) (simp only: f(1) b(1) bind_o_simps
          prod.case option.case, blast)
  qed
next
  case Nil
  obtain rf st1 where f: "(if res_f \<ge> 0 then tcp_splice_f st else Ret (res_f, st)) = Ret (rf, st1)"
    "sess_inv w0 i0 st1" "write_failed (tpcb st1) = write_failed (tpcb st)"
    "fin_sent (tpcb st1) = fin_sent (tpcb st)" using Nil.prems(1,2) by (rule try_f)
  have w: "write_failed (tpcb st1) \<longrightarrow> res_b < 0" "fin_sent (tpcb st1) \<longrightarrow> res_b < 0"
    using Nil.prems(3,4) f(3,4) by simp_all
  obtain rb st2 where "(if res_b \<ge> 0 then tcp_splice_b st1 else Ret (res_b, st1)) = Ret (rb, st2)"
    "sess_inv w0 i0 st2" using f(2) w by (rule try_b)
  then show ?case by (subst tcp_loop.simps) (simp only: f(1) bind_o_simps prod.case, auto split: option.splits)
qed

lemma tcp_drain_inv:
  "sess_inv w0 i0 st \<Longrightarrow> \<exists>ended st'. tcp_drain ts st = Ret (ended, st') \<and> sess_inv w0 i0 st'"
proof (induction ts arbitrary: st)
  case Nil
  then obtain r where "buffer (tobj st) = Some r" by (auto simp: sess_inv_def)
  then show ?case using Nil by (subst tcp_drain.simps) auto
next
  case (Cons t ts)
  then obtain r where r: "buffer (tobj st) = Some r" by (auto simp: sess_inv_def)
  obtain res st' where "tcp_yield HEV_TASK_WAITIO t st = Ret (res, st')" "sess_inv w0 i0 st'"
    using Cons.prems by (rule tcp_yield_inv)
  then show ?case using r Cons by (subst tcp_drain.simps) auto
qed

section \<open>Properties\<close>

text \<open>A session whose splice is about to start: lwIP was given nothing yet; what it delivered during
  the handshake is queued.\<close>

definition sess_start :: "tsess \<Rightarrow> bool" where
  "sess_start st \<longleftrightarrow> pcb (tobj st) \<and> fwd_inv (wire (tchan st)) st \<and> refs (tpcb st) = [] \<and>
     written (tpcb st) = [] \<and> acked (tpcb st) = 0 \<and> \<not> write_failed (tpcb st) \<and> \<not> fin_sent (tpcb st) \<and>
     \<not> wr_shut (tchan st)"

lemma splice_inv:
  assumes s: "sess_start st" and n: "0 < n" "n \<le> TCP_SND_BUF" "length mem = n"
  obtains ended st' where "hev_socks5_session_tcp_splice n mem ts st = Ret (ended, st')"
    "sess_inv (wire (tchan st)) (rx_stream (rxs (tchan st))) st'"
proof -
  let ?r = "hev_ring_buffer_alloca (of_nat n) mem" and ?i = "rx_stream (rxs (tchan st))"
  let ?st = "set_obj (\<lambda>s. s\<lparr>buffer := Some (hev_ring_buffer_alloca (of_nat n) mem)\<rparr>) st"
  have small: "n < 2 ^ 63" using n(2) by simp
  note a = ring_alloca_inv [OF n(1) small n(3)]
  have "held_pos ?r = []" using held_pos_nth(3) [OF a(1)] a(2) by simp
  moreover have "unat (max_size ?r) = n"
    using ring_inv_nat(6) [OF a(1)] n(3) by (simp add: hev_ring_buffer_alloca_def)
  ultimately have "bwd_inv ?i ?r (tpcb st) (tchan st)"
    using s a n(2) by (simp add: bwd_inv_def sess_start_def)
  moreover have "fwd_inv (wire (tchan st)) ?st" using s by (simp add: sess_start_def fwd_inv_def set_obj_def) blast
  ultimately have i: "sess_inv (wire (tchan st)) ?i ?st"
    using s a(3) by (simp add: sess_inv_def set_obj_def sess_start_def)
  have "\<exists>ended ts' st'. tcp_loop ts 1 1 ?st = Ret (ended, ts', st') \<and> sess_inv (wire (tchan st)) ?i st'"
    using s i by (intro tcp_loop_inv) (simp_all add: set_obj_def sess_start_def)
  then obtain ended ts' st1 where l: "tcp_loop ts 1 1 ?st = Ret (ended, ts', st1)"
    "sess_inv (wire (tchan st)) ?i st1" by blast
  have p: "pcb (tobj st)" using s by (simp add: sess_start_def)
  show thesis
  proof (cases ended)
    case True
    then show thesis using that tcp_drain_inv [OF l(2), of ts'] l(1) p
      by (auto simp: hev_socks5_session_tcp_splice_def Let_def)
  next
    case False
    then show thesis using that l p by (auto simp: hev_socks5_session_tcp_splice_def Let_def)
  qed
qed

definition demo_session :: session_tcp where
  "demo_session = \<lparr>sfd = 3, timeout = 5, udp_associated = 0, stype = TYPE_TCP, family = FAMILY_IPV4,
     auth_user = None, auth_pass = None, tcp_addr = None, queue = None, pcb = True, pcb_eof = False,
     buffer = None\<rparr>"

definition demo_pcb :: tcp_pcb where
  "demo_pcb = \<lparr>write_ok = [], output_ok = [], written = [], refs = [], acked = 0, inlog = [], recved = 0,
     fin_sent = False, write_failed = False, handlers = True, pcb_aborted = False\<rparr>"

definition demo_tsess :: tsess where
  "demo_tsess = \<lparr>tobj = demo_session,
     tchan = \<lparr>rxs = [RxData [1, 2, 3], RxAgain (Nap 9 False), RxData [4, 5], RxEof],
       txs = [TxTake 2, TxAgain (Nap 9 False), TxTake 9], wire = [7], wr_shut = False, errno_of = E_NONE\<rparr>,
     tpcb = demo_pcb, tmem = \<lparr>objs = fmempty, spare = []\<rparr>\<rparr>"

definition demo_turns :: "turn list" where
  "demo_turns = [([LwRecv [(1, demo_buf (Some 2) [10, 11] 3), (2, demo_buf None [12] 1)], LwSent 2], Nap 3 False)]"

lemma demo_start: "sess_start demo_tsess"
  by (simp add: sess_start_def demo_tsess_def demo_session_def demo_pcb_def fwd_inv_def)
    (rule exI [of _ "[]"], simp)

text \<open>C8. Towards the proxy the TCP session is transparent: whatever lwIP delivers within its window,
  in packets of any shape and at any time, and however the socket takes it, the session does not
  fault, and at every moment what was delivered is exactly what was written to the socket followed
  by what waits in the queue. The window is reopened by exactly the bytes written, the queue never
  exceeds the window, so its 16-bit length never wraps, and the socket's write side is shut down only
  after lwIP's end of stream and the last queued byte.\<close>

theorem tcp_session_forward:
  assumes "sess_start st" "0 < n" "n \<le> TCP_SND_BUF" "length mem = n"
  shows "\<exists>ended st' x as. hev_socks5_session_tcp_splice n mem ts st = Ret (ended, st') \<and>
    wire (tchan st') = wire (tchan st) @ x \<and> inlog (tpcb st') = x @ chain_bytes (tmem st') as \<and>
    chain (tmem st') (queue (tobj st')) as \<and> length (chain_bytes (tmem st') as) \<le> TCP_WND \<and>
    (pcb (tobj st') \<longrightarrow> recved (tpcb st') = length x) \<and>
    (wr_shut (tchan st') \<longrightarrow> pcb_eof (tobj st') \<and> inlog (tpcb st') = x)"
proof -
  obtain ended st' where r: "hev_socks5_session_tcp_splice n mem ts st = Ret (ended, st')"
    "sess_inv (wire (tchan st)) (rx_stream (rxs (tchan st))) st'" using assms by (rule splice_inv)
  then obtain x as where x: "wire (tchan st') = wire (tchan st) @ x"
    "inlog (tpcb st') = x @ chain_bytes (tmem st') as" "chain (tmem st') (queue (tobj st')) as"
    "pcb (tobj st') \<longrightarrow> recved (tpcb st') = length x" "length (chain_bytes (tmem st') as) \<le> TCP_WND"
    by (auto simp: sess_inv_def fwd_inv_def)
  have "wr_shut (tchan st') \<longrightarrow> pcb_eof (tobj st') \<and> inlog (tpcb st') = x"
  proof
    assume "wr_shut (tchan st')"
    then have "pcb_eof (tobj st')" "queue (tobj st') = None" using r(2) by (simp_all add: sess_inv_def)
    then show "pcb_eof (tobj st') \<and> inlog (tpcb st') = x" using x(2,3) by (simp add: chain_None)
  qed
  then show ?thesis using r(1) x by blast
qed

lemma demo_runs:
  "case hev_socks5_session_tcp_splice 4 [0, 0, 0, 0] demo_turns demo_tsess of
     Ret (ended, st) \<Rightarrow> \<not> ended \<and> wire (tchan st) = [7, 10, 11] \<and> inlog (tpcb st) = [10, 11, 12] \<and>
       written (tpcb st) = [1, 2, 3] \<and> \<not> write_failed (tpcb st) \<and> acked (tpcb st) = 2 \<and>
       rx_stream (rxs (tchan st)) = [4, 5]
   | _ \<Rightarrow> False"
  by code_simp

theorem tcp_session_forward_witness:
  "\<exists>st' as. hev_socks5_session_tcp_splice 4 [0, 0, 0, 0] demo_turns demo_tsess = Ret (False, st') \<and>
    wire (tchan st') = [7, 10, 11] \<and> chain (tmem st') (queue (tobj st')) as \<and> chain_bytes (tmem st') as = [12]"
proof -
  have "wire (tchan demo_tsess) = [7]" by (simp add: demo_tsess_def)
  with tcp_session_forward [OF demo_start, of 4 "[0, 0, 0, 0]" demo_turns] demo_runs show ?thesis by auto
qed

text \<open>C9. Towards lwIP the session is transparent and its zero-copy buffer is safe: as long as lwIP
  accepts what it is given, the bytes it was given, those waiting in the ring and those not yet read
  are the socket's stream in order; and always, whatever failed, every byte lwIP still points to is in
  the ring as it was handed over, until it is acknowledged. The connection's write side is closed only
  when nothing that was read is left in the ring.\<close>

theorem tcp_session_backward:
  assumes "sess_start st" "0 < n" "n \<le> TCP_SND_BUF" "length mem = n"
  shows "\<exists>ended st' r. hev_socks5_session_tcp_splice n mem ts st = Ret (ended, st') \<and>
    buffer (tobj st') = Some r \<and> ring_inv r \<and>
    (\<not> write_failed (tpcb st') \<longrightarrow>
       rx_stream (rxs (tchan st)) = written (tpcb st') @ ring_pending r @ rx_stream (rxs (tchan st'))) \<and>
    map ((!) (rdata r)) (refs (tpcb st')) = drop (acked (tpcb st')) (written (tpcb st')) \<and>
    (fin_sent (tpcb st') \<longrightarrow> ring_pending r = [])"
proof -
  obtain ended st' where "hev_socks5_session_tcp_splice n mem ts st = Ret (ended, st')"
    "sess_inv (wire (tchan st)) (rx_stream (rxs (tchan st))) st'" using assms by (rule splice_inv)
  moreover from this(2) obtain r where "buffer (tobj st') = Some r"
    "bwd_inv (rx_stream (rxs (tchan st))) r (tpcb st') (tchan st')" "fin_sent (tpcb st') \<longrightarrow> ring_pending r = []"
    by (auto simp: sess_inv_def)
  ultimately show ?thesis unfolding bwd_inv_def by blast
qed

theorem tcp_session_backward_witness:
  "\<exists>st' r. hev_socks5_session_tcp_splice 4 [0, 0, 0, 0] demo_turns demo_tsess = Ret (False, st') \<and>
    buffer (tobj st') = Some r \<and> ring_pending r = [] \<and> map ((!) (rdata r)) (refs (tpcb st')) = [3]"
proof -
  have i: "rx_stream (rxs (tchan demo_tsess)) = [1, 2, 3, 4, 5]" by (simp add: demo_tsess_def)
  have n: "0 < (4 :: nat)" "4 \<le> (TCP_SND_BUF :: nat)" "length [0, 0, 0, 0 :: byte] = 4" by simp_all
  obtain ended st' r where r: "hev_socks5_session_tcp_splice 4 [0, 0, 0, 0] demo_turns demo_tsess = Ret (ended, st')"
    "buffer (tobj st') = Some r" "\<not> write_failed (tpcb st') \<longrightarrow>
      rx_stream (rxs (tchan demo_tsess)) = written (tpcb st') @ ring_pending r @ rx_stream (rxs (tchan st'))"
    "map ((!) (rdata r)) (refs (tpcb st')) = drop (acked (tpcb st')) (written (tpcb st'))"
    using tcp_session_backward [OF demo_start n, of demo_turns] by blast
  from demo_runs r(1) have d: "\<not> ended" "written (tpcb st') = [1, 2, 3]" "\<not> write_failed (tpcb st')"
    "acked (tpcb st') = 2" "rx_stream (rxs (tchan st')) = [4, 5]" by simp_all
  have "map ((!) (rdata r)) (refs (tpcb st')) = [3]" by (subst r(4)) (simp add: d)
  then show ?thesis using r(1-3) d i by auto
qed

text \<open>C32. A failed write leaves a hole: when the ring's contents wrap around its end, the two parts are
  written one after the other whatever the first call answers. If lwIP refuses the first part and
  takes the second, it is given the second part without the first, both parts leave the ring, and the
  call only reports an error.\<close>

theorem tcp_write_failure_leaves_gap:
  assumes i: "ring_inv r" "unat (max_size r) \<le> TCP_SND_BUF"
    and rd: "hev_ring_buffer_reading r = [(a, l), (b, k)]" and w: "write_ok p = False # True # ws"
  shows "\<exists>r' p'. splice_b_write res r p = (- 1, r', p') \<and>
    written p' = written p @ drop (unat l) (ring_pending r) \<and> ring_pending r' = []"
proof -
  have fit: "iov_fits [(a, l), (b, k)] (length (rdata r))" and sum: "l + k = rda_size r"
    using reading_facts [OF i] rd by simp_all
  then have kl: "unat (ucast k :: u16) = unat k" "unat a + unat l \<le> length (rdata r)"
    by (auto simp: iov_fits_def unat_u16_len)
  have pend: "ring_pending r = seg (unat a) (unat l) (rdata r) @ seg (unat b) (unat k) (rdata r)"
    using ring_reading_gather [OF i(1)] rd by simp
  have le: "unat (rda_size r) \<le> length (ring_pending r)" using length_ring_parts [OF i(1)] by simp
  have "ring_pending (hev_ring_buffer_read_finish (rda_size r) r) = []"
    using rb.pop_peek [OF i(1) le] length_ring_parts [OF i(1)] by simp
  then show ?thesis using rd w pend kl sum
    by (simp add: splice_b_write_def tcp_write_def tcp_output_def Let_def)
qed

definition demo_ring :: ring where
  "demo_ring = \<lparr>rp = 3, wp = 2, rda_size = 3, use_size = 3, max_size = 4, rdata = [2, 3, 0, 1]\<rparr>"

theorem tcp_write_failure_leaves_gap_witness:
  "\<exists>r' p'. splice_b_write 1 demo_ring (demo_pcb\<lparr>write_ok := [False, True]\<rparr>) = (- 1, r', p') \<and>
    ring_pending demo_ring = [1, 2, 3] \<and> written p' = [2, 3]"
proof -
  have i: "ring_inv demo_ring" "unat (max_size demo_ring) \<le> TCP_SND_BUF"
    by (simp_all add: demo_ring_def ring_inv_def)
  have rd: "hev_ring_buffer_reading demo_ring = [(3, 1), (0, 2)]" by code_simp
  have "ring_pending demo_ring = [1, 2, 3]" by code_simp
  then show ?thesis
    using tcp_write_failure_leaves_gap [OF i rd, of "demo_pcb\<lparr>write_ok := [False, True]\<rparr>" "[]" 1]
    by (auto simp: demo_pcb_def)
qed

text \<open>Destroying a session releases what it held: the packet buffers that lwIP delivered and
  nobody consumed, its descriptor, and the connection, whose callbacks are removed before it is
  aborted. No other packet buffer is touched.\<close>

lemma tcp_session_destruct_releases:
  assumes c: "chain (tmem st) (queue (tobj st)) as"
  shows "\<exists>w' st'. hev_socks5_session_tcp_destruct w st = Ret (w', st') \<and>
    fset (fmdom (objs (tmem st'))) = fset (fmdom (objs (tmem st))) - set as \<and>
    same_at (- set as) (tmem st) (tmem st') \<and>
    open_fds w' = (if 0 \<le> sfd (tobj st) then open_fds w - {sfd (tobj st)} else open_fds w) \<and>
    (pcb (tobj st) \<longrightarrow> pcb_aborted (tpcb st') \<and> \<not> handlers (tpcb st'))"
proof (cases "queue (tobj st)")
  case None
  then have "as = []" using c by (simp add: chain_None)
  then show ?thesis using None
    by (auto simp: hev_socks5_session_tcp_destruct_def Let_def set_obj_def same_at_def hev_socks5_destruct_def)
next
  case (Some q)
  let ?m = "(tmem st)\<lparr>objs := fmfilter (\<lambda>a. a \<notin> set as) (objs (tmem st))\<rparr>"
  have f: "pbuf_free (Some q) (tmem st) = Ret (of_nat (length as), ?m)"
    using free_chain [OF c, of 0] Some by (simp add: pbuf_free_def)
  have "fset (fmdom (objs ?m)) = fset (fmdom (objs (tmem st))) - set as" "same_at (- set as) (tmem st) ?m"
    by (auto simp: same_at_def)
  then show ?thesis using Some f
    by (cases "pcb (tobj st)") (auto simp: hev_socks5_session_tcp_destruct_def Let_def set_obj_def hev_socks5_destruct_def)
qed

lemma tcp_session_destruct_releases_example:
  "\<exists>w' st'. hev_socks5_session_tcp_destruct demo_os
      (demo_tsess\<lparr>tobj := demo_session\<lparr>queue := Some 1\<rparr>, tmem := demo_pmem\<rparr>) = Ret (w', st') \<and>
    fset (fmdom (objs (tmem st'))) = {3, 4} \<and> open_fds w' = {} \<and> pcb_aborted (tpcb st')"
proof -
  let ?st = "demo_tsess\<lparr>tobj := demo_session\<lparr>queue := Some 1\<rparr>, tmem := demo_pmem\<rparr>"
  have c: "chain (tmem ?st) (queue (tobj ?st)) [1, 2]" using demo_chains(1) by simp
  have "fset (fmdom (objs demo_pmem)) - set [1, 2] = {3, 4}" by (auto simp: demo_pmem_def)
  with tcp_session_destruct_releases [OF c, of demo_os] show ?thesis
    by (auto simp: demo_session_def demo_os_def)
qed

end
