(* ===== verification/Config.thy ===== *)
theory Config
  imports Socks5
begin

text \<open>
  The configuration (\<open>src/hev-config.c\<close>): the static variables as a record, the parsers of the YAML
  sections over a parsed document (\<open>yaml_document_t\<close>), and the getters. The parser of the YAML text is
  a parameter. Numbers are read with \<open>strtoul\<close> and narrowed as the assignments narrow them; strings
  are copied into fixed buffers with \<open>strncpy\<close>.
\<close>

section \<open>The C library\<close>

definition str :: "string \<Rightarrow> byte list" where
  "str s = map (\<lambda>c. of_nat (of_char c)) s"

lemma str_eq_iff [simp]: "str s = str t \<longleftrightarrow> s = t"
proof -
  have "inj (\<lambda>c. of_nat (of_char c) :: byte)"
  proof (rule injI)
    fix c d :: char assume "(of_nat (of_char c) :: byte) = of_nat (of_char d)"
    then have "unat (of_nat (of_char c) :: byte) = unat (of_nat (of_char d) :: byte)" by simp
    then have "(of_char c :: nat) = of_char d" by (simp only: unsigned_of_nat take_bit_eq_mod) simp
    then show "c = d" by simp
  qed
  then show ?thesis by (simp add: str_def inj_map_eq_map)
qed

definition isspace :: "byte \<Rightarrow> bool" where
  "isspace b \<longleftrightarrow> b = 32 \<or> 9 \<le> b \<and> b \<le> 13"

definition digit_val :: "byte \<Rightarrow> nat" where
  "digit_val b =
     (if 48 \<le> b \<and> b \<le> 57 then unat b - 48
      else if 97 \<le> b \<and> b \<le> 122 then unat b - 87
      else if 65 \<le> b \<and> b \<le> 90 then unat b - 55 else 36)"

fun digits :: "nat \<Rightarrow> byte list \<Rightarrow> nat \<Rightarrow> nat" where
  "digits base [] v = v"
| "digits base (b # bs) v = (if digit_val b < base then digits base bs (v * base + digit_val b) else v)"

text \<open>The sign, and the digits behind it.\<close>

definition sign_split :: "byte list \<Rightarrow> bool \<times> byte list" where
  "sign_split s =
     (case dropWhile isspace s of
        [] \<Rightarrow> (False, [])
      | b # bs \<Rightarrow> if b = 45 then (True, bs) else if b = 43 then (False, bs) else (False, b # bs))"

text \<open>Base 0 takes the base from the prefix.\<close>

definition base_split :: "nat \<Rightarrow> byte list \<Rightarrow> nat \<times> byte list" where
  "base_split base s =
     (if base \<noteq> 0 then (base, s)
      else case s of
          z # x # d # bs \<Rightarrow>
            if z = 48 \<and> (x = 120 \<or> x = 88) \<and> digit_val d < 16 then (16, d # bs)
            else if z = 48 then (8, s) else (10, s)
        | z # bs \<Rightarrow> if z = 48 then (8, s) else (10, s)
        | [] \<Rightarrow> (10, s))"

definition strtoul :: "byte list \<Rightarrow> nat \<Rightarrow> nat" where
  "strtoul s base =
     (case sign_split s of (neg, s) \<Rightarrow>
      case base_split base s of (base, s) \<Rightarrow>
        let v = digits base s 0 in
        if 2 ^ 64 \<le> v then 2 ^ 64 - 1 else if neg then (2 ^ 64 - v) mod 2 ^ 64 else v)"

definition strtol :: "byte list \<Rightarrow> nat \<Rightarrow> int" where
  "strtol s base =
     (case sign_split s of (neg, s) \<Rightarrow>
      case base_split base s of (base, s) \<Rightarrow>
        let v = int (digits base s 0) in
        if neg then max (- (2 ^ 63)) (- v) else min (2 ^ 63 - 1) v)"

text \<open>The narrowing of an assignment to \<open>int\<close>.\<close>

definition to_int :: "int \<Rightarrow> int" where
  "to_int v = sint (word_of_int v :: 32 word)"

definition tolower :: "byte \<Rightarrow> byte" where
  "tolower b = (if 65 \<le> b \<and> b \<le> 90 then b + 32 else b)"

fun strcasecmp :: "byte list \<Rightarrow> byte list \<Rightarrow> int" where
  "strcasecmp [] [] = 0"
| "strcasecmp [] (b # bs) = - uint (tolower b)"
| "strcasecmp (a # as) [] = uint (tolower a)"
| "strcasecmp (a # as) (b # bs) =
     (if tolower a = tolower b then strcasecmp as bs else uint (tolower a) - uint (tolower b))"

text \<open>\<open>inet_pton\<close> stores four bytes; the variable is an \<open>int\<close>.\<close>

definition load32 :: "byte list \<Rightarrow> int" where
  "load32 a = sint (of_be32 (rev (take 4 a)))"

definition ntohl :: "int \<Rightarrow> int" where
  "ntohl v = sint (of_be32 (rev (be32 (word_of_int v))))"

section \<open>Documents\<close>

datatype yaml_node = YAML_SCALAR "byte list" | YAML_SEQUENCE "int list" | YAML_MAPPING "(int \<times> int) list"

type_synonym yaml_doc = "yaml_node list"

definition yaml_document_get_node :: "yaml_doc \<Rightarrow> int \<Rightarrow> yaml_node option" where
  "yaml_document_get_node doc i = (if 0 < i \<and> i \<le> int (length doc) then Some (doc ! nat (i - 1)) else None)"

definition yaml_document_get_root_node :: "yaml_doc \<Rightarrow> yaml_node option" where
  "yaml_document_get_root_node doc = (case doc of [] \<Rightarrow> None | n # _ \<Rightarrow> Some n)"

text \<open>The C string a scalar holds.\<close>

definition scalar :: "yaml_node option \<Rightarrow> byte list option" where
  "scalar n = (case n of Some (YAML_SCALAR v) \<Rightarrow> Some (takeWhile (\<lambda>b. b \<noteq> 0) v) | _ \<Rightarrow> None)"

text \<open>The loops over the pairs of a mapping stop at the first pair that has no key or value, or whose
  key is not a scalar. The loops over scalars also stop at the first value that is not one.\<close>

fun node_pairs :: "yaml_doc \<Rightarrow> (int \<times> int) list \<Rightarrow> (byte list \<times> yaml_node option) list" where
  "node_pairs doc [] = []"
| "node_pairs doc ((k, v) # ps) =
     (if k = 0 \<or> v = 0 then []
      else case scalar (yaml_document_get_node doc k) of
          None \<Rightarrow> []
        | Some key \<Rightarrow> (key, yaml_document_get_node doc v) # node_pairs doc ps)"

fun scalars :: "(byte list \<times> yaml_node option) list \<Rightarrow> (byte list \<times> byte list) list" where
  "scalars [] = []"
| "scalars ((k, n) # ps) = (case scalar n of None \<Rightarrow> [] | Some v \<Rightarrow> (k, v) # scalars ps)"

fun present :: "(byte list \<times> yaml_node option) list \<Rightarrow> (byte list \<times> yaml_node) list" where
  "present [] = []"
| "present ((k, n) # ps) = (case n of None \<Rightarrow> [] | Some v \<Rightarrow> (k, v) # present ps)"

section \<open>The variables\<close>

record config_server =
  cs_user :: "byte list option"
  cs_pass :: "byte list option"
  cs_mark :: u32
  udp_in_udp :: bool
  cs_port :: u16
  pipeline :: bool
  fastopen :: bool
  udp_addr :: "byte list"
  srv_addr :: "byte list"

record config =
  tun_name :: "byte list"
  tun_mtu :: u32
  multi_queue :: int
  tun_ipv4_address :: "byte list"
  tun_ipv6_address :: "byte list"
  tun_post_up_script :: "byte list"
  tun_pre_down_script :: "byte list"
  srv :: config_server
  cf_user :: "byte list"
  cf_pass :: "byte list"
  mapdns_address :: int
  mapdns_port :: int
  mapdns_network :: int
  mapdns_netmask :: int
  mapdns_cache_size :: int
  log_file :: "byte list"
  pid_file :: "byte list"
  max_session_count :: int
  cf_task_stack_size :: int
  tcp_buffer_size :: int
  cf_udp_recv_buffer_size :: int
  cf_udp_copy_buffer_nums :: int
  cf_connect_timeout :: int
  tcp_read_write_timeout :: int
  udp_read_write_timeout :: int
  limit_nofile :: int
  log_level :: int

abbreviation (input) HEV_LOGGER_DEBUG :: int where "HEV_LOGGER_DEBUG \<equiv> 0"
abbreviation (input) HEV_LOGGER_INFO :: int where "HEV_LOGGER_INFO \<equiv> 1"
abbreviation (input) HEV_LOGGER_WARN :: int where "HEV_LOGGER_WARN \<equiv> 2"
abbreviation (input) HEV_LOGGER_ERROR :: int where "HEV_LOGGER_ERROR \<equiv> 3"
abbreviation (input) TASK_STACK_SIZE :: int where "TASK_STACK_SIZE \<equiv> 20480"
abbreviation (input) CF_UDP_BUF_SIZE :: int where "CF_UDP_BUF_SIZE \<equiv> 1500"
abbreviation (input) CF_TCP_SND_BUF :: int where "CF_TCP_SND_BUF \<equiv> 65528"

abbreviation zeros :: "nat \<Rightarrow> byte list" where
  "zeros n \<equiv> replicate n 0"

definition config_default :: config where
  "config_default = \<lparr>tun_name = zeros 64, tun_mtu = 8500, multi_queue = 0, tun_ipv4_address = zeros 16,
     tun_ipv6_address = zeros 64, tun_post_up_script = zeros 1024, tun_pre_down_script = zeros 1024,
     srv = \<lparr>cs_user = None, cs_pass = None, cs_mark = 0, udp_in_udp = False, cs_port = 0,
       pipeline = False, fastopen = False, udp_addr = zeros 256, srv_addr = zeros 256\<rparr>,
     cf_user = zeros 256, cf_pass = zeros 256, mapdns_address = 0, mapdns_port = 0, mapdns_network = 0,
     mapdns_netmask = 0, mapdns_cache_size = 0, log_file = zeros 1024, pid_file = zeros 1024,
     max_session_count = 0, cf_task_stack_size = 86016, tcp_buffer_size = 65536,
     cf_udp_recv_buffer_size = 524288, cf_udp_copy_buffer_nums = 10, cf_connect_timeout = 10000,
     tcp_read_write_timeout = 300000, udp_read_write_timeout = 60000, limit_nofile = 65535,
     log_level = HEV_LOGGER_WARN\<rparr>"

section \<open>The sections\<close>

definition mapping_pairs :: "yaml_node option \<Rightarrow> (int \<times> int) list option" where
  "mapping_pairs base = (case base of Some (YAML_MAPPING ps) \<Rightarrow> Some ps | _ \<Rightarrow> None)"

definition tunnel_ipv4_pair :: "byte list \<times> byte list \<Rightarrow> config \<Rightarrow> config" where
  "tunnel_ipv4_pair p c =
     (if fst p = str ''address'' then c\<lparr>tun_ipv4_address := strncpy (tun_ipv4_address c) (snd p) 15\<rparr> else c)"

definition hev_config_parse_tunnel_ipv4 :: "yaml_doc \<Rightarrow> yaml_node option \<Rightarrow> config \<Rightarrow> int \<times> config" where
  "hev_config_parse_tunnel_ipv4 doc base c =
     (case mapping_pairs base of
        None \<Rightarrow> (- 1, c)
      | Some ps \<Rightarrow> (0, fold tunnel_ipv4_pair (scalars (node_pairs doc ps)) c))"

definition tunnel_ipv6_pair :: "byte list \<times> byte list \<Rightarrow> config \<Rightarrow> config" where
  "tunnel_ipv6_pair p c =
     (if fst p = str ''address'' then c\<lparr>tun_ipv6_address := strncpy (tun_ipv6_address c) (snd p) 63\<rparr> else c)"

definition hev_config_parse_tunnel_ipv6 :: "yaml_doc \<Rightarrow> yaml_node option \<Rightarrow> config \<Rightarrow> int \<times> config" where
  "hev_config_parse_tunnel_ipv6 doc base c =
     (case mapping_pairs base of
        None \<Rightarrow> (- 1, c)
      | Some ps \<Rightarrow> (0, fold tunnel_ipv6_pair (scalars (node_pairs doc ps)) c))"

definition tunnel_pair :: "yaml_doc \<Rightarrow> byte list \<times> yaml_node \<Rightarrow> config \<Rightarrow> config" where
  "tunnel_pair doc p c =
     (case p of (key, node) \<Rightarrow>
      case scalar (Some node) of
        Some value \<Rightarrow>
          if key = str ''name'' then c\<lparr>tun_name := strncpy (tun_name c) value 63\<rparr>
          else if key = str ''mtu'' then c\<lparr>tun_mtu := of_nat (strtoul value 10)\<rparr>
          else if key = str ''multi-queue'' then c\<lparr>multi_queue := strcasecmp value (str ''false'')\<rparr>
          else if key = str ''ipv4'' then c\<lparr>tun_ipv4_address := strncpy (tun_ipv4_address c) value 15\<rparr>
          else if key = str ''ipv6'' then c\<lparr>tun_ipv6_address := strncpy (tun_ipv6_address c) value 63\<rparr>
          else if key = str ''post-up-script'' then c\<lparr>tun_post_up_script := strncpy (tun_post_up_script c) value 63\<rparr>
          else if key = str ''pre-down-script'' then c\<lparr>tun_pre_down_script := strncpy (tun_pre_down_script c) value 63\<rparr>
          else c
      | None \<Rightarrow>
          if key = str ''ipv4'' then snd (hev_config_parse_tunnel_ipv4 doc (Some node) c)
          else if key = str ''ipv6'' then snd (hev_config_parse_tunnel_ipv6 doc (Some node) c)
          else c)"

definition hev_config_parse_tunnel :: "yaml_doc \<Rightarrow> yaml_node option \<Rightarrow> config \<Rightarrow> int \<times> config" where
  "hev_config_parse_tunnel doc base c =
     (case mapping_pairs base of
        None \<Rightarrow> (- 1, c)
      | Some ps \<Rightarrow> (0, fold (tunnel_pair doc) (present (node_pairs doc ps)) c))"

text \<open>The local pointers of \<open>hev_config_parse_socks5\<close>.\<close>

record socks5_vars =
  v_addr :: "byte list option"
  v_port :: "byte list option"
  v_udpm :: "byte list option"
  v_udpa :: "byte list option"
  v_user :: "byte list option"
  v_pass :: "byte list option"
  v_mark :: "byte list option"
  v_pipe :: "byte list option"
  v_tfso :: "byte list option"

definition socks5_vars_init :: socks5_vars where
  "socks5_vars_init = \<lparr>v_addr = None, v_port = None, v_udpm = None, v_udpa = None, v_user = None,
     v_pass = None, v_mark = None, v_pipe = None, v_tfso = None\<rparr>"

definition socks5_pair :: "byte list \<times> byte list \<Rightarrow> socks5_vars \<Rightarrow> socks5_vars" where
  "socks5_pair p v =
     (case p of (key, value) \<Rightarrow>
        if key = str ''port'' then v\<lparr>v_port := Some value\<rparr>
        else if key = str ''address'' then v\<lparr>v_addr := Some value\<rparr>
        else if key = str ''udp'' then v\<lparr>v_udpm := Some value\<rparr>
        else if key = str ''udp-address'' then v\<lparr>v_udpa := Some value\<rparr>
        else if key = str ''pipeline'' then v\<lparr>v_pipe := Some value\<rparr>
        else if key = str ''username'' then v\<lparr>v_user := Some value\<rparr>
        else if key = str ''password'' then v\<lparr>v_pass := Some value\<rparr>
        else if key = str ''mark'' then v\<lparr>v_mark := Some value\<rparr>
        else if key = str ''tcp-fastopen'' then v\<lparr>v_tfso := Some value\<rparr>
        else v)"

text \<open>\<open>srv.user\<close> and \<open>srv.pass\<close> point to the static buffers \<open>cf_user\<close> and \<open>cf_pass\<close>; the model keeps
  the string found there.\<close>

definition buf_str :: "byte list \<Rightarrow> byte list" where
  "buf_str b = takeWhile (\<lambda>x. x \<noteq> 0) b"

definition if_set :: "byte list option \<Rightarrow> (byte list \<Rightarrow> config \<Rightarrow> config) \<Rightarrow> config \<Rightarrow> config" where
  "if_set x f c = (case x of None \<Rightarrow> c | Some value \<Rightarrow> f value c)"

definition socks5_creds :: "byte list \<Rightarrow> byte list \<Rightarrow> config \<Rightarrow> config" where
  "socks5_creds user pass c =
     (let c = c\<lparr>cf_user := strncpy (cf_user c) user 255, cf_pass := strncpy (cf_pass c) pass 255\<rparr> in
      c\<lparr>srv := (srv c)\<lparr>cs_user := Some (buf_str (cf_user c)), cs_pass := Some (buf_str (cf_pass c))\<rparr>\<rparr>)"

definition socks5_store :: "byte list \<Rightarrow> byte list \<Rightarrow> socks5_vars \<Rightarrow> config \<Rightarrow> config" where
  "socks5_store addr port v c =
     (let c = c\<lparr>srv := (srv c)\<lparr>srv_addr := strncpy (srv_addr (srv c)) addr 255,
            cs_port := of_nat (strtoul port 10)\<rparr>\<rparr>;
          c = if_set (v_pipe v) (\<lambda>pipe c. if strcasecmp pipe (str ''true'') = 0
                then c\<lparr>srv := (srv c)\<lparr>pipeline := True\<rparr>\<rparr> else c) c;
          c = if_set (v_udpm v) (\<lambda>udpm c. if strcasecmp udpm (str ''udp'') = 0
                then c\<lparr>srv := (srv c)\<lparr>udp_in_udp := True\<rparr>\<rparr> else c) c;
          c = if_set (v_udpa v) (\<lambda>udpa c. c\<lparr>srv := (srv c)\<lparr>udp_addr := strncpy (udp_addr (srv c)) udpa 255\<rparr>\<rparr>) c;
          c = if_set (v_user v) (\<lambda>user. if_set (v_pass v) (\<lambda>pass. socks5_creds user pass)) c;
          c = if_set (v_mark v) (\<lambda>mark c. c\<lparr>srv := (srv c)\<lparr>cs_mark := of_nat (strtoul mark 0)\<rparr>\<rparr>) c
      in if_set (v_tfso v) (\<lambda>tfso c. c\<lparr>srv := (srv c)\<lparr>fastopen := (strcasecmp tfso (str ''true'') = 0)\<rparr>\<rparr>) c)"

definition hev_config_parse_socks5 :: "yaml_doc \<Rightarrow> yaml_node option \<Rightarrow> config \<Rightarrow> int \<times> config" where
  "hev_config_parse_socks5 doc base c =
     (case mapping_pairs base of
        None \<Rightarrow> (- 1, c)
      | Some ps \<Rightarrow>
          let v = fold socks5_pair (scalars (node_pairs doc ps)) socks5_vars_init in
          (case (v_port v, v_addr v) of
             (Some port, Some addr) \<Rightarrow>
               if (v_user v = None) \<noteq> (v_pass v = None) then (- 1, c)
               else (0, socks5_store addr port v c)
           | _ \<Rightarrow> (- 1, c)))"

definition mapdns_pair :: "(byte list \<Rightarrow> byte list option) \<Rightarrow> byte list \<times> byte list \<Rightarrow> config \<Rightarrow> config" where
  "mapdns_pair pton p c =
     (case p of (key, value) \<Rightarrow>
        if key = str ''address'' then
          (case pton value of Some a \<Rightarrow> c\<lparr>mapdns_address := load32 a\<rparr> | None \<Rightarrow> c)
        else if key = str ''port'' then c\<lparr>mapdns_port := to_int (int (strtoul value 10))\<rparr>
        else if key = str ''network'' then
          (case pton value of Some a \<Rightarrow> c\<lparr>mapdns_network := load32 a\<rparr> | None \<Rightarrow> c)
        else if key = str ''netmask'' then
          (case pton value of Some a \<Rightarrow> c\<lparr>mapdns_netmask := load32 a\<rparr> | None \<Rightarrow> c)
        else if key = str ''cache-size'' then c\<lparr>mapdns_cache_size := to_int (int (strtoul value 10))\<rparr>
        else c)"

definition hev_config_parse_mapdns :: "(byte list \<Rightarrow> byte list option) \<Rightarrow> yaml_doc \<Rightarrow> yaml_node option \<Rightarrow>
    config \<Rightarrow> int \<times> config" where
  "hev_config_parse_mapdns pton doc base c =
     (case mapping_pairs base of
        None \<Rightarrow> (- 1, c)
      | Some ps \<Rightarrow>
          let c = fold (mapdns_pair pton) (scalars (node_pairs doc ps)) c in
          (0, c\<lparr>mapdns_network := ntohl (mapdns_network c), mapdns_netmask := ntohl (mapdns_netmask c)\<rparr>))"

definition hev_config_parse_log_level :: "byte list \<Rightarrow> int" where
  "hev_config_parse_log_level value =
     (if value = str ''debug'' then HEV_LOGGER_DEBUG
      else if value = str ''info'' then HEV_LOGGER_INFO
      else if value = str ''error'' then HEV_LOGGER_ERROR else HEV_LOGGER_WARN)"

text \<open>\<open>(tcp, udp, rw)\<close> are the three local time-outs.\<close>

definition misc_pair :: "byte list \<times> byte list \<Rightarrow> config \<times> int \<times> int \<times> int \<Rightarrow> config \<times> int \<times> int \<times> int" where
  "misc_pair p s =
     (case p of (key, value) \<Rightarrow> case s of (c, tcp, udp, rw) \<Rightarrow>
      let n = to_int (int (strtoul value 10)) in
        if key = str ''task-stack-size'' then (c\<lparr>cf_task_stack_size := n\<rparr>, tcp, udp, rw)
        else if key = str ''tcp-buffer-size'' then (c\<lparr>tcp_buffer_size := n\<rparr>, tcp, udp, rw)
        else if key = str ''udp-recv-buffer-size'' then (c\<lparr>cf_udp_recv_buffer_size := n\<rparr>, tcp, udp, rw)
        else if key = str ''udp-copy-buffer-nums'' then (c\<lparr>cf_udp_copy_buffer_nums := n\<rparr>, tcp, udp, rw)
        else if key = str ''max-session-count'' then (c\<lparr>max_session_count := n\<rparr>, tcp, udp, rw)
        else if key = str ''connect-timeout'' then (c\<lparr>cf_connect_timeout := n\<rparr>, tcp, udp, rw)
        else if key = str ''read-write-timeout'' then (c, tcp, udp, n)
        else if key = str ''tcp-read-write-timeout'' then (c, n, udp, rw)
        else if key = str ''udp-read-write-timeout'' then (c, tcp, n, rw)
        else if key = str ''pid-file'' then (c\<lparr>pid_file := strncpy (pid_file c) value 1023\<rparr>, tcp, udp, rw)
        else if key = str ''log-file'' then (c\<lparr>log_file := strncpy (log_file c) value 1023\<rparr>, tcp, udp, rw)
        else if key = str ''log-level'' then (c\<lparr>log_level := hev_config_parse_log_level value\<rparr>, tcp, udp, rw)
        else if key = str ''limit-nofile'' then (c\<lparr>limit_nofile := to_int (strtol value 10)\<rparr>, tcp, udp, rw)
        else s)"

definition hev_config_parse_misc :: "yaml_doc \<Rightarrow> yaml_node option \<Rightarrow> config \<Rightarrow> int \<times> config" where
  "hev_config_parse_misc doc base c =
     (case mapping_pairs base of
        None \<Rightarrow> (- 1, c)
      | Some ps \<Rightarrow>
          (case fold misc_pair (scalars (node_pairs doc ps)) (c, - 1, - 1, - 1) of (c, tcp, udp, rw) \<Rightarrow>
             let tcp = (if tcp \<le> 0 then rw else tcp); udp = (if udp \<le> 0 then rw else udp);
                 c = (if tcp > 0 then c\<lparr>tcp_read_write_timeout := tcp\<rparr> else c);
                 c = (if udp > 0 then c\<lparr>udp_read_write_timeout := udp\<rparr> else c)
             in (0, c)))"

section \<open>The document\<close>

definition doc_section :: "(byte list \<Rightarrow> byte list option) \<Rightarrow> yaml_doc \<Rightarrow> byte list \<Rightarrow> yaml_node option \<Rightarrow>
    config \<Rightarrow> int \<times> config" where
  "doc_section pton doc key node c =
     (if key = str ''tunnel'' then hev_config_parse_tunnel doc node c
      else if key = str ''socks5'' then hev_config_parse_socks5 doc node c
      else if key = str ''mapdns'' then hev_config_parse_mapdns pton doc node c
      else if key = str ''misc'' then hev_config_parse_misc doc node c
      else (0, c))"

fun doc_sections :: "(byte list \<Rightarrow> byte list option) \<Rightarrow> yaml_doc \<Rightarrow> (byte list \<times> yaml_node option) list \<Rightarrow>
    config \<Rightarrow> int \<times> config" where
  "doc_sections pton doc [] c = (0, c)"
| "doc_sections pton doc ((key, node) # ps) c =
     (case doc_section pton doc key node c of (res, c) \<Rightarrow>
        if res < 0 then (- 1, c) else doc_sections pton doc ps c)"

definition int_range :: "int \<Rightarrow> bool" where
  "int_range v \<longleftrightarrow> - (2 ^ 31) \<le> v \<and> v < 2 ^ 31"

text \<open>The clamping at the end. The multiplication and the additions are of \<open>int\<close>; their overflow is
  undefined.\<close>

definition clamp_sizes :: "config \<Rightarrow> config outcome" where
  "clamp_sizes c =
     (let c = (if tcp_buffer_size c > CF_TCP_SND_BUF then c\<lparr>tcp_buffer_size := CF_TCP_SND_BUF\<rparr> else c);
          udp_buffer_size = CF_UDP_BUF_SIZE * cf_udp_copy_buffer_nums c;
          min_task_stack_size = TASK_STACK_SIZE +
            (if tcp_buffer_size c > udp_buffer_size then tcp_buffer_size c else udp_buffer_size)
      in if \<not> int_range udp_buffer_size \<or> \<not> int_range min_task_stack_size then Fault
         else Ret (if cf_task_stack_size c < min_task_stack_size
                   then c\<lparr>cf_task_stack_size := min_task_stack_size\<rparr> else c))"

definition hev_config_parse_doc :: "(byte list \<Rightarrow> byte list option) \<Rightarrow> yaml_doc \<Rightarrow> config \<Rightarrow> (int \<times> config) outcome" where
  "hev_config_parse_doc pton doc c =
     (case mapping_pairs (yaml_document_get_root_node doc) of
        None \<Rightarrow> Ret (- 1, c)
      | Some ps \<Rightarrow>
          (case doc_sections pton doc (node_pairs doc ps) c of (res, c) \<Rightarrow>
             if res < 0 then Ret (- 1, c) else bind_o (clamp_sizes c) (\<lambda>c. Ret (0, c))))"

text \<open>\<open>load\<close> is the YAML parser: initialisation and parsing may fail.\<close>

definition hev_config_init_from_str :: "(byte list \<Rightarrow> yaml_doc option) \<Rightarrow> (byte list \<Rightarrow> byte list option) \<Rightarrow>
    byte list \<Rightarrow> config \<Rightarrow> (int \<times> config) outcome" where
  "hev_config_init_from_str load pton config_str c =
     (case load config_str of None \<Rightarrow> Ret (- 1, c) | Some doc \<Rightarrow> hev_config_parse_doc pton doc c)"

definition hev_config_init_from_file :: "(byte list \<Rightarrow> yaml_doc option) \<Rightarrow> (byte list \<Rightarrow> byte list option) \<Rightarrow>
    (byte list \<Rightarrow> byte list option) \<Rightarrow> byte list \<Rightarrow> config \<Rightarrow> (int \<times> config) outcome" where
  "hev_config_init_from_file load pton file config_path c =
     (case file config_path of
        None \<Rightarrow> Ret (- 1, c)
      | Some text \<Rightarrow> (case load text of None \<Rightarrow> Ret (- 1, c) | Some doc \<Rightarrow> hev_config_parse_doc pton doc c))"

section \<open>The getters\<close>

text \<open>A string variable reads as a null pointer when it is empty.\<close>

definition str_or_null :: "byte list \<Rightarrow> byte list option outcome" where
  "str_or_null buf =
     bind_o (of_option (rd buf 0)) (\<lambda>b.
       if b = 0 then Ret None else bind_o (of_option (cstr_at buf 0)) (\<lambda>s. Ret (Some s)))"

definition hev_config_get_tunnel_name :: "config \<Rightarrow> byte list option outcome" where
  "hev_config_get_tunnel_name c = str_or_null (tun_name c)"

definition hev_config_get_tunnel_ipv4_address :: "config \<Rightarrow> byte list option outcome" where
  "hev_config_get_tunnel_ipv4_address c = str_or_null (tun_ipv4_address c)"

definition hev_config_get_tunnel_ipv6_address :: "config \<Rightarrow> byte list option outcome" where
  "hev_config_get_tunnel_ipv6_address c = str_or_null (tun_ipv6_address c)"

definition hev_config_get_tunnel_post_up_script :: "config \<Rightarrow> byte list option outcome" where
  "hev_config_get_tunnel_post_up_script c = str_or_null (tun_post_up_script c)"

definition hev_config_get_tunnel_pre_down_script :: "config \<Rightarrow> byte list option outcome" where
  "hev_config_get_tunnel_pre_down_script c = str_or_null (tun_pre_down_script c)"

definition hev_config_get_misc_pid_file :: "config \<Rightarrow> byte list option outcome" where
  "hev_config_get_misc_pid_file c = str_or_null (pid_file c)"

definition hev_config_get_misc_log_file :: "config \<Rightarrow> byte list outcome" where
  "hev_config_get_misc_log_file c =
     bind_o (str_or_null (log_file c)) (\<lambda>s. Ret (case s of None \<Rightarrow> str ''stderr'' | Some f \<Rightarrow> f))"

definition hev_config_get_mapdns_address :: "config \<Rightarrow> int" where
  "hev_config_get_mapdns_address c = mapdns_address c"

definition hev_config_get_mapdns_port :: "config \<Rightarrow> int" where
  "hev_config_get_mapdns_port c = mapdns_port c"

definition hev_config_get_mapdns_network :: "config \<Rightarrow> int" where
  "hev_config_get_mapdns_network c = mapdns_network c"

definition hev_config_get_mapdns_netmask :: "config \<Rightarrow> int" where
  "hev_config_get_mapdns_netmask c = mapdns_netmask c"

definition hev_config_get_mapdns_cache_size :: "config \<Rightarrow> int" where
  "hev_config_get_mapdns_cache_size c = mapdns_cache_size c"

definition hev_config_get_misc_udp_recv_buffer_size :: "config \<Rightarrow> int" where
  "hev_config_get_misc_udp_recv_buffer_size c = cf_udp_recv_buffer_size c"

definition hev_config_get_misc_connect_timeout :: "config \<Rightarrow> int" where
  "hev_config_get_misc_connect_timeout c = cf_connect_timeout c"

definition hev_config_get_misc_tcp_read_write_timeout :: "config \<Rightarrow> int" where
  "hev_config_get_misc_tcp_read_write_timeout c = tcp_read_write_timeout c"

definition hev_config_get_misc_udp_read_write_timeout :: "config \<Rightarrow> int" where
  "hev_config_get_misc_udp_read_write_timeout c = udp_read_write_timeout c"

definition hev_config_get_misc_limit_nofile :: "config \<Rightarrow> int" where
  "hev_config_get_misc_limit_nofile c = limit_nofile c"

definition hev_config_get_misc_log_level :: "config \<Rightarrow> int" where
  "hev_config_get_misc_log_level c = log_level c"

definition hev_config_get_tunnel_mtu :: "config \<Rightarrow> u32" where
  "hev_config_get_tunnel_mtu c = tun_mtu c"

definition hev_config_get_tunnel_multi_queue :: "config \<Rightarrow> int" where
  "hev_config_get_tunnel_multi_queue c = multi_queue c"

definition hev_config_get_socks5_server :: "config \<Rightarrow> config_server" where
  "hev_config_get_socks5_server c = srv c"

definition hev_config_get_misc_max_session_count :: "config \<Rightarrow> int" where
  "hev_config_get_misc_max_session_count c = max_session_count c"

definition hev_config_get_misc_tcp_buffer_size :: "config \<Rightarrow> int" where
  "hev_config_get_misc_tcp_buffer_size c = tcp_buffer_size c"

definition hev_config_get_misc_task_stack_size :: "config \<Rightarrow> int" where
  "hev_config_get_misc_task_stack_size c = cf_task_stack_size c"

definition hev_config_get_misc_udp_copy_buffer_nums :: "config \<Rightarrow> int" where
  "hev_config_get_misc_udp_copy_buffer_nums c = cf_udp_copy_buffer_nums c"

section \<open>The variables stay well formed\<close>

definition term_buf :: "nat \<Rightarrow> byte list \<Rightarrow> bool" where
  "term_buf n b \<longleftrightarrow> 0 < n \<and> length b = n \<and> b ! (n - 1) = 0"

definition cred_ok :: "byte list option \<Rightarrow> bool" where
  "cred_ok x \<longleftrightarrow> (case x of None \<Rightarrow> True | Some s \<Rightarrow> is_cstr s \<and> length s \<le> 255)"

text \<open>Every string buffer keeps its size and ends with a zero byte; the credentials, which are either
  both set or both not, fit the one-byte lengths of the SOCKS5 authentication.\<close>

definition cfg_ok :: "config \<Rightarrow> bool" where
  "cfg_ok c \<longleftrightarrow> term_buf 64 (tun_name c) \<and> term_buf 16 (tun_ipv4_address c) \<and> term_buf 64 (tun_ipv6_address c) \<and>
     term_buf 1024 (tun_post_up_script c) \<and> term_buf 1024 (tun_pre_down_script c) \<and>
     term_buf 256 (cf_user c) \<and> term_buf 256 (cf_pass c) \<and> term_buf 1024 (log_file c) \<and> term_buf 1024 (pid_file c) \<and>
     term_buf 256 (srv_addr (srv c)) \<and> term_buf 256 (udp_addr (srv c)) \<and>
     cred_ok (cs_user (srv c)) \<and> cred_ok (cs_pass (srv c)) \<and> (cs_user (srv c) = None) = (cs_pass (srv c) = None)"

lemma term_buf_strncpy:
  assumes "term_buf n b" "k < n" shows "term_buf n (strncpy b s k)"
proof -
  have "length (take k (s @ replicate k 0)) = k" "\<not> n - 1 < k" using assms(2) by simp_all
  then have "strncpy b s k ! (n - 1) = drop k b ! (n - 1 - k)"
    using assms(2) by (simp only: strncpy_def nth_append if_False)
  then show ?thesis using assms by (simp add: term_buf_def)
qed

lemma term_buf_zeros: "0 < n \<Longrightarrow> term_buf n (zeros n)"
  by (simp add: term_buf_def)

lemma term_buf_zero: "term_buf n b \<Longrightarrow> 0 \<in> set b"
  by (metis term_buf_def diff_less nth_mem zero_less_one)

lemma takeWhile_before_zero: "0 \<in> set b \<Longrightarrow> length (takeWhile (\<lambda>x. x \<noteq> 0) b) < length (b :: byte list)"
  by (induction b) auto

lemma buf_str_less: "term_buf n b \<Longrightarrow> length (takeWhile (\<lambda>x. x \<noteq> 0) b) < n"
  using takeWhile_before_zero [of b] term_buf_zero [of n b] by (auto simp: term_buf_def)

lemma buf_str_cred: "term_buf 256 b \<Longrightarrow> cred_ok (Some (buf_str b))"
  using buf_str_less [of 256 b] by (simp add: cred_ok_def buf_str_def)

lemma fold_keeps: "(\<And>p c. I c \<Longrightarrow> I (f p c)) \<Longrightarrow> I c \<Longrightarrow> I (fold f ps c)"
  by (induction ps arbitrary: c) simp_all

lemma default_ok: "cfg_ok config_default"
  by (simp add: cfg_ok_def config_default_def term_buf_zeros cred_ok_def)

lemma cfg_ok_unaffected [simp]:
  "cfg_ok (c\<lparr>tun_mtu := m\<rparr>) = cfg_ok c" "cfg_ok (c\<lparr>multi_queue := i\<rparr>) = cfg_ok c"
  "cfg_ok (c\<lparr>mapdns_address := i\<rparr>) = cfg_ok c" "cfg_ok (c\<lparr>mapdns_port := i\<rparr>) = cfg_ok c"
  "cfg_ok (c\<lparr>mapdns_network := i\<rparr>) = cfg_ok c" "cfg_ok (c\<lparr>mapdns_netmask := i\<rparr>) = cfg_ok c"
  "cfg_ok (c\<lparr>mapdns_cache_size := i\<rparr>) = cfg_ok c" "cfg_ok (c\<lparr>max_session_count := i\<rparr>) = cfg_ok c"
  "cfg_ok (c\<lparr>cf_task_stack_size := i\<rparr>) = cfg_ok c" "cfg_ok (c\<lparr>tcp_buffer_size := i\<rparr>) = cfg_ok c"
  "cfg_ok (c\<lparr>cf_udp_recv_buffer_size := i\<rparr>) = cfg_ok c" "cfg_ok (c\<lparr>cf_udp_copy_buffer_nums := i\<rparr>) = cfg_ok c"
  "cfg_ok (c\<lparr>cf_connect_timeout := i\<rparr>) = cfg_ok c" "cfg_ok (c\<lparr>tcp_read_write_timeout := i\<rparr>) = cfg_ok c"
  "cfg_ok (c\<lparr>udp_read_write_timeout := i\<rparr>) = cfg_ok c" "cfg_ok (c\<lparr>limit_nofile := i\<rparr>) = cfg_ok c"
  "cfg_ok (c\<lparr>log_level := i\<rparr>) = cfg_ok c"
  "cfg_ok (c\<lparr>srv := (srv c)\<lparr>cs_mark := m\<rparr>\<rparr>) = cfg_ok c" "cfg_ok (c\<lparr>srv := (srv c)\<lparr>udp_in_udp := b\<rparr>\<rparr>) = cfg_ok c"
  "cfg_ok (c\<lparr>srv := (srv c)\<lparr>pipeline := b\<rparr>\<rparr>) = cfg_ok c" "cfg_ok (c\<lparr>srv := (srv c)\<lparr>fastopen := b\<rparr>\<rparr>) = cfg_ok c"
  by (simp_all add: cfg_ok_def)

lemma cfg_ok_strncpy [simp]:
  assumes "cfg_ok c"
  shows "k < 64 \<Longrightarrow> cfg_ok (c\<lparr>tun_name := strncpy (tun_name c) v k\<rparr>)"
    "k < 16 \<Longrightarrow> cfg_ok (c\<lparr>tun_ipv4_address := strncpy (tun_ipv4_address c) v k\<rparr>)"
    "k < 64 \<Longrightarrow> cfg_ok (c\<lparr>tun_ipv6_address := strncpy (tun_ipv6_address c) v k\<rparr>)"
    "k < 1024 \<Longrightarrow> cfg_ok (c\<lparr>tun_post_up_script := strncpy (tun_post_up_script c) v k\<rparr>)"
    "k < 1024 \<Longrightarrow> cfg_ok (c\<lparr>tun_pre_down_script := strncpy (tun_pre_down_script c) v k\<rparr>)"
    "k < 1024 \<Longrightarrow> cfg_ok (c\<lparr>log_file := strncpy (log_file c) v k\<rparr>)"
    "k < 1024 \<Longrightarrow> cfg_ok (c\<lparr>pid_file := strncpy (pid_file c) v k\<rparr>)"
    "k < 256 \<Longrightarrow> cfg_ok (c\<lparr>srv := (srv c)\<lparr>udp_addr := strncpy (udp_addr (srv c)) v k\<rparr>\<rparr>)"
    "k < 256 \<Longrightarrow> cfg_ok (c\<lparr>srv := (srv c)\<lparr>srv_addr := strncpy (srv_addr (srv c)) v k, cs_port := p\<rparr>\<rparr>)"
  using assms by (simp_all add: cfg_ok_def term_buf_strncpy)

lemma cfg_ok_creds:
  assumes "cfg_ok c" shows "cfg_ok (socks5_creds user pass c)"
proof -
  have "term_buf 256 (strncpy (cf_user c) user 255)" "term_buf 256 (strncpy (cf_pass c) pass 255)"
    using assms by (simp_all add: cfg_ok_def term_buf_strncpy)
  with assms show ?thesis by (simp add: socks5_creds_def Let_def cfg_ok_def buf_str_cred)
qed

lemma cfg_ok_if_set: "(\<And>x c. cfg_ok c \<Longrightarrow> cfg_ok (f x c)) \<Longrightarrow> cfg_ok c \<Longrightarrow> cfg_ok (if_set x f c)"
  by (simp add: if_set_def split: option.split)

lemma tunnel_ipv4_ok: "cfg_ok c \<Longrightarrow> cfg_ok (snd (hev_config_parse_tunnel_ipv4 doc base c))"
  using fold_keeps [of cfg_ok tunnel_ipv4_pair]
  by (simp add: hev_config_parse_tunnel_ipv4_def tunnel_ipv4_pair_def split: option.split)

lemma tunnel_ipv6_ok: "cfg_ok c \<Longrightarrow> cfg_ok (snd (hev_config_parse_tunnel_ipv6 doc base c))"
  using fold_keeps [of cfg_ok tunnel_ipv6_pair]
  by (simp add: hev_config_parse_tunnel_ipv6_def tunnel_ipv6_pair_def split: option.split)

lemma tunnel_pair_ok: "cfg_ok c \<Longrightarrow> cfg_ok (tunnel_pair doc p c)"
  by (simp add: tunnel_pair_def tunnel_ipv4_ok tunnel_ipv6_ok split: prod.split option.split)

lemma tunnel_ok: "cfg_ok c \<Longrightarrow> cfg_ok (snd (hev_config_parse_tunnel doc base c))"
  using fold_keeps [of cfg_ok "tunnel_pair doc"] tunnel_pair_ok
  by (simp add: hev_config_parse_tunnel_def split: option.split)

lemma mapdns_ok: "cfg_ok c \<Longrightarrow> cfg_ok (snd (hev_config_parse_mapdns pton doc base c))"
proof -
  have "cfg_ok c \<Longrightarrow> cfg_ok (mapdns_pair pton p c)" for p c
    by (simp add: mapdns_pair_def split: prod.split option.split)
  then have "cfg_ok c \<Longrightarrow> cfg_ok (fold (mapdns_pair pton) ps c)" for ps by (rule fold_keeps)
  then show "cfg_ok c \<Longrightarrow> cfg_ok (snd (hev_config_parse_mapdns pton doc base c))"
    by (simp add: hev_config_parse_mapdns_def Let_def split: option.split)
qed

lemma misc_ok: "cfg_ok c \<Longrightarrow> cfg_ok (snd (hev_config_parse_misc doc base c))"
proof -
  have "cfg_ok (fst s) \<Longrightarrow> cfg_ok (fst (misc_pair p s))" for p s
    by (cases p; cases s) (simp add: misc_pair_def Let_def)
  then have f: "cfg_ok (fst s) \<Longrightarrow> cfg_ok (fst (fold misc_pair ps s))" for ps s
    using fold_keeps [of "\<lambda>s. cfg_ok (fst s)" misc_pair] by blast
  assume c: "cfg_ok c"
  show "cfg_ok (snd (hev_config_parse_misc doc base c))"
  proof (cases "mapping_pairs base")
    case (Some ps)
    obtain c' t t' r where q: "fold misc_pair (scalars (node_pairs doc ps)) (c, - 1, - 1, - 1) = (c', t, t', r)"
      by (metis prod_cases4)
    have "cfg_ok c'" using f [of "(c, - 1, - 1, - 1)" "scalars (node_pairs doc ps)"] c q by simp
    then show ?thesis by (simp add: hev_config_parse_misc_def Some q Let_def)
  qed (simp add: hev_config_parse_misc_def c)
qed

lemma socks5_store_ok: "cfg_ok c \<Longrightarrow> cfg_ok (socks5_store addr port v c)"
  unfolding socks5_store_def Let_def by (intro cfg_ok_if_set) (simp_all add: cfg_ok_creds cfg_ok_if_set)

lemma socks5_ok: "cfg_ok c \<Longrightarrow> cfg_ok (snd (hev_config_parse_socks5 doc base c))"
  by (simp add: hev_config_parse_socks5_def Let_def socks5_store_ok split: option.split)

lemma doc_sections_ok: "cfg_ok c \<Longrightarrow> cfg_ok (snd (doc_sections pton doc ps c))"
proof (induction pton doc ps c rule: doc_sections.induct)
  case (2 pton doc key node ps c)
  have "cfg_ok (snd (doc_section pton doc key node c))"
    using 2(2) by (simp add: doc_section_def tunnel_ok socks5_ok mapdns_ok misc_ok)
  then show ?case using 2(1) by (cases "doc_section pton doc key node c") simp
qed simp

lemma clamp_sizes_ok: "clamp_sizes c = Ret c' \<Longrightarrow> cfg_ok c \<Longrightarrow> cfg_ok c'"
  by (auto simp: clamp_sizes_def Let_def split: if_splits)

lemma parse_doc_ok:
  assumes "cfg_ok c" "hev_config_parse_doc pton doc c = Ret (res, c')" shows "cfg_ok c'"
proof (cases "mapping_pairs (yaml_document_get_root_node doc)")
  case None then show ?thesis using assms by (simp add: hev_config_parse_doc_def)
next
  case (Some ps)
  obtain r d where d: "doc_sections pton doc (node_pairs doc ps) c = (r, d)" by fastforce
  have "cfg_ok d" using doc_sections_ok [OF assms(1), of pton doc "node_pairs doc ps"] d by simp
  then show ?thesis
    using assms(2) Some d clamp_sizes_ok
    by (auto simp: hev_config_parse_doc_def bind_o_Ret_iff split: if_splits)
qed

text \<open>The library may be started many times in one process; the variables keep what the earlier
  documents set.\<close>

fun load_docs :: "(byte list \<Rightarrow> byte list option) \<Rightarrow> yaml_doc list \<Rightarrow> config \<Rightarrow> config outcome" where
  "load_docs pton [] c = Ret c"
| "load_docs pton (doc # docs) c = bind_o (hev_config_parse_doc pton doc c) (\<lambda>(res, c). load_docs pton docs c)"

lemma load_docs_ok: "load_docs pton docs c = Ret c' \<Longrightarrow> cfg_ok c \<Longrightarrow> cfg_ok c'"
  by (induction docs arbitrary: c) (auto simp: bind_o_Ret_iff dest: parse_doc_ok)

definition short_str :: "nat \<Rightarrow> byte list option outcome \<Rightarrow> bool" where
  "short_str n x \<longleftrightarrow> x = Ret None \<or> (\<exists>s. x = Ret (Some s) \<and> is_cstr s \<and> s \<noteq> [] \<and> length s < n)"

lemma str_or_null_short:
  assumes "term_buf n b" shows "short_str n (str_or_null b)"
proof -
  obtain x bs where b: "b = x # bs" using assms by (cases b) (auto simp: term_buf_def)
  show ?thesis
    using term_buf_zero [OF assms] buf_str_less [OF assms] is_cstr_takeWhile [of b]
    by (auto simp: str_or_null_def short_str_def rd_def cstr_at_def b simp del: is_cstr_takeWhile)
qed

text \<open>C33. Whatever documents are loaded one after the other, accepted or not, with whatever values in
  them, every string getter returns a null pointer or a terminated, non-empty string inside its buffer,
  and the credentials are both present or both absent and short enough for the one-byte length fields
  of the SOCKS5 authentication request.\<close>

theorem config_type:
  assumes "load_docs pton docs config_default = Ret c"
  shows "short_str 64 (hev_config_get_tunnel_name c) \<and> short_str 16 (hev_config_get_tunnel_ipv4_address c) \<and>
    short_str 64 (hev_config_get_tunnel_ipv6_address c) \<and> short_str 1024 (hev_config_get_tunnel_post_up_script c) \<and>
    short_str 1024 (hev_config_get_tunnel_pre_down_script c) \<and> short_str 1024 (hev_config_get_misc_pid_file c) \<and>
    (\<exists>f. hev_config_get_misc_log_file c = Ret f \<and> is_cstr f \<and> f \<noteq> [] \<and> length f < 1024) \<and>
    (let s = hev_config_get_socks5_server c in
      (cs_user s = None) = (cs_pass s = None) \<and> cred_ok (cs_user s) \<and> cred_ok (cs_pass s))"
proof -
  have c: "cfg_ok c" using load_docs_ok [OF assms default_ok] .
  then have "short_str 1024 (str_or_null (log_file c))" by (simp add: cfg_ok_def str_or_null_short)
  moreover have "is_cstr (str ''stderr'')" by (simp add: is_cstr_def str_def)
  ultimately have "\<exists>f. hev_config_get_misc_log_file c = Ret f \<and> is_cstr f \<and> f \<noteq> [] \<and> length f < 1024"
    by (auto simp: short_str_def hev_config_get_misc_log_file_def str_def)
  with c show ?thesis
    by (simp add: cfg_ok_def str_or_null_short hev_config_get_tunnel_name_def hev_config_get_tunnel_ipv4_address_def
        hev_config_get_tunnel_ipv6_address_def hev_config_get_tunnel_post_up_script_def
        hev_config_get_tunnel_pre_down_script_def hev_config_get_misc_pid_file_def hev_config_get_socks5_server_def)
qed

definition example_doc :: yaml_doc where
  "example_doc =
     [YAML_MAPPING [(2, 3), (4, 5)], YAML_SCALAR (str ''socks5''),
      YAML_MAPPING [(6, 7), (8, 9), (10, 11), (12, 13)], YAML_SCALAR (str ''misc''),
      YAML_MAPPING [(14, 15), (16, 17)],
      YAML_SCALAR (str ''port''), YAML_SCALAR (str ''1080''),
      YAML_SCALAR (str ''address''), YAML_SCALAR (str ''::1''),
      YAML_SCALAR (str ''username''), YAML_SCALAR (str ''u''),
      YAML_SCALAR (str ''password''), YAML_SCALAR (str ''p''),
      YAML_SCALAR (str ''tcp-buffer-size''), YAML_SCALAR (str ''70000''),
      YAML_SCALAR (str ''task-stack-size''), YAML_SCALAR (str ''1'')]"

lemma example_doc_pairs:
  "mapping_pairs (yaml_document_get_root_node example_doc) = Some [(2, 3), (4, 5)]"
  "node_pairs example_doc [(2, 3), (4, 5)] =
     [(str ''socks5'', Some (YAML_MAPPING [(6, 7), (8, 9), (10, 11), (12, 13)])),
      (str ''misc'', Some (YAML_MAPPING [(14, 15), (16, 17)]))]"
  "scalars (node_pairs example_doc [(6, 7), (8, 9), (10, 11), (12, 13)]) =
     [(str ''port'', str ''1080''), (str ''address'', str ''::1''), (str ''username'', str ''u''), (str ''password'', str ''p'')]"
  "scalars (node_pairs example_doc [(14, 15), (16, 17)]) =
     [(str ''tcp-buffer-size'', str ''70000''), (str ''task-stack-size'', str ''1'')]"
  by code_simp+

lemma example_socks5:
  "\<exists>v. \<forall>c. hev_config_parse_socks5 example_doc (Some (YAML_MAPPING [(6, 7), (8, 9), (10, 11), (12, 13)])) c =
     (0, socks5_store (str ''::1'') (str ''1080'') v c)"
  by (rule exI, rule allI, simp add: hev_config_parse_socks5_def mapping_pairs_def example_doc_pairs socks5_pair_def
      socks5_vars_init_def del: node_pairs.simps)

lemma example_misc:
  "hev_config_parse_misc example_doc (Some (YAML_MAPPING [(14, 15), (16, 17)])) c =
     (0, c\<lparr>tcp_buffer_size := 70000, cf_task_stack_size := 1\<rparr>)"
proof -
  have n: "to_int (int (strtoul (str ''70000'') 10)) = 70000" "to_int (int (strtoul (str ''1'') 10)) = 1"
    by (simp_all add: strtoul_def sign_split_def base_split_def isspace_def str_def digit_val_def to_int_def)
  have "misc_pair (str ''tcp-buffer-size'', str ''70000'') (c, - 1, - 1, - 1) = (c\<lparr>tcp_buffer_size := 70000\<rparr>, - 1, - 1, - 1)"
    by (simp add: misc_pair_def n)
  moreover have "misc_pair (str ''task-stack-size'', str ''1'') (d, - 1, - 1, - 1) = (d\<lparr>cf_task_stack_size := 1\<rparr>, - 1, - 1, - 1)" for d
    by (simp add: misc_pair_def n)
  ultimately show ?thesis
    by (simp add: hev_config_parse_misc_def mapping_pairs_def example_doc_pairs Let_def del: node_pairs.simps)
qed

lemma socks5_store_sizes [simp]:
  "cf_udp_copy_buffer_nums (socks5_store addr port v c) = cf_udp_copy_buffer_nums c"
  by (simp add: socks5_store_def socks5_creds_def Let_def if_set_def split: option.split)

lemma example_doc_loaded:
  "\<exists>c. hev_config_parse_doc (\<lambda>_. None) example_doc config_default = Ret (0, c) \<and> tcp_buffer_size c = 65528"
proof -
  obtain v where v: "\<And>c. hev_config_parse_socks5 example_doc (Some (YAML_MAPPING [(6, 7), (8, 9), (10, 11), (12, 13)])) c =
     (0, socks5_store (str ''::1'') (str ''1080'') v c)" using example_socks5 by blast
  show ?thesis
    by (simp add: hev_config_parse_doc_def example_doc_pairs doc_section_def v example_misc clamp_sizes_def
        int_range_def Let_def del: node_pairs.simps) (simp add: config_default_def)
qed

theorem config_type_witness:
  "\<exists>c. load_docs (\<lambda>_. None) [example_doc] config_default = Ret c \<and>
     (let s = hev_config_get_socks5_server c in (cs_user s = None) = (cs_pass s = None) \<and> cred_ok (cs_user s))"
proof -
  obtain c where "load_docs (\<lambda>_. None) [example_doc] config_default = Ret c" using example_doc_loaded by auto
  then show ?thesis using config_type [of "\<lambda>_. None" "[example_doc]" c] by (auto simp: Let_def)
qed

text \<open>After a document is accepted the sizes fit together: the TCP ring of a session is no longer
  than lwIP's send buffer, and the stack of a task holds its base size and, on top, either the TCP ring
  or all the datagrams of one UDP batch.\<close>

lemma config_sizes:
  assumes "hev_config_parse_doc pton doc c = Ret (0, c')"
  shows "hev_config_get_misc_tcp_buffer_size c' \<le> CF_TCP_SND_BUF \<and>
    TASK_STACK_SIZE + hev_config_get_misc_tcp_buffer_size c' \<le> hev_config_get_misc_task_stack_size c' \<and>
    TASK_STACK_SIZE + CF_UDP_BUF_SIZE * hev_config_get_misc_udp_copy_buffer_nums c' \<le>
      hev_config_get_misc_task_stack_size c'"
proof -
  have "TASK_STACK_SIZE + tcp_buffer_size c' \<le> cf_task_stack_size c' \<and> tcp_buffer_size c' \<le> CF_TCP_SND_BUF \<and>
      TASK_STACK_SIZE + CF_UDP_BUF_SIZE * cf_udp_copy_buffer_nums c' \<le> cf_task_stack_size c'"
    if "clamp_sizes d = Ret c'" for d
    using that by (auto simp: clamp_sizes_def Let_def split: if_splits)
  then show ?thesis
    using assms by (auto simp: hev_config_parse_doc_def bind_o_Ret_iff hev_config_get_misc_tcp_buffer_size_def
        hev_config_get_misc_task_stack_size_def hev_config_get_misc_udp_copy_buffer_nums_def
        split: option.splits prod.splits if_splits)
qed

lemma config_sizes_example:
  "\<exists>c. hev_config_parse_doc (\<lambda>_. None) example_doc config_default = Ret (0, c) \<and>
     TASK_STACK_SIZE + CF_TCP_SND_BUF \<le> hev_config_get_misc_task_stack_size c"
proof -
  obtain c where c: "hev_config_parse_doc (\<lambda>_. None) example_doc config_default = Ret (0, c)" "tcp_buffer_size c = 65528"
    using example_doc_loaded by blast
  then show ?thesis using config_sizes [OF c(1)] by (auto simp: hev_config_get_misc_tcp_buffer_size_def)
qed

section \<open>The SOCKS5 section\<close>

text \<open>The settings a section holds: the last value given for a key.\<close>

definition setting :: "yaml_doc \<Rightarrow> (int \<times> int) list \<Rightarrow> string \<Rightarrow> byte list option" where
  "setting doc ps key = map_of (rev (scalars (node_pairs doc ps))) (str key)"

lemma fold_socks5_pair:
  defines "v \<equiv> \<lambda>ps. fold socks5_pair ps socks5_vars_init"
  shows "v_port (v ps) = map_of (rev ps) (str ''port'')" "v_addr (v ps) = map_of (rev ps) (str ''address'')"
    "v_user (v ps) = map_of (rev ps) (str ''username'')" "v_pass (v ps) = map_of (rev ps) (str ''password'')"
  by (induction ps rule: rev_induct)
    (auto simp: v_def socks5_vars_init_def socks5_pair_def map_of_append map_add_def split: prod.split if_splits)

lemma scalars_cstr: "map_of (rev (scalars ps)) k = Some v \<Longrightarrow> is_cstr v"
proof -
  have "\<forall>p \<in> set (scalars ps). is_cstr (snd p)" for ps
  proof (induction ps rule: scalars.induct)
    case (2 k n ps)
    then show ?case by (cases "scalar n") (auto simp: scalar_def split: option.splits yaml_node.splits)
  qed simp
  then show "map_of (rev (scalars ps)) k = Some v \<Longrightarrow> is_cstr v" by (fastforce dest: map_of_SomeD)
qed

lemma buf_str_strncpy:
  assumes "term_buf (Suc k) b" "is_cstr s" shows "buf_str (strncpy b s k) = take k s"
proof (cases "k \<le> length s")
  case True
  have "drop k b = [0]" using assms(1) 
    using Cons_nth_drop_Suc [of k b] by (simp add: term_buf_def)
  moreover have "is_cstr (take k s)" using assms(2) by (auto simp: is_cstr_def dest: in_set_takeD)
  ultimately show ?thesis using True takeWhile_cstr [of "take k s" "[]"] by (simp add: buf_str_def strncpy_def)
next
  case False
  then obtain m where "k = length s + Suc m" by (metis less_imp_Suc_add not_le_imp_less add_Suc_right)
  then show ?thesis using takeWhile_cstr [OF assms(2)] by (simp add: buf_str_def strncpy_def)
qed

definition socks5_complete :: "yaml_doc \<Rightarrow> (int \<times> int) list \<Rightarrow> bool" where
  "socks5_complete doc ps \<longleftrightarrow> setting doc ps ''port'' \<noteq> None \<and> setting doc ps ''address'' \<noteq> None \<and>
     (setting doc ps ''username'' = None) = (setting doc ps ''password'' = None)"

lemma socks5_store_srv:
  "cs_port (srv (socks5_store addr port v c)) = of_nat (strtoul port 10)"
  "srv_addr (srv (socks5_store addr port v c)) = strncpy (srv_addr (srv c)) addr 255"
  "(v_user v = None) = (v_pass v = None) \<Longrightarrow>
   cs_user (srv (socks5_store addr port v c)) =
     (case v_user v of None \<Rightarrow> cs_user (srv c) | Some u \<Rightarrow> Some (buf_str (strncpy (cf_user c) u 255)))"
  "(v_user v = None) = (v_pass v = None) \<Longrightarrow>
   cs_pass (srv (socks5_store addr port v c)) =
     (case v_pass v of None \<Rightarrow> cs_pass (srv c) | Some p \<Rightarrow> Some (buf_str (strncpy (cf_pass c) p 255)))"
  by (auto simp: socks5_store_def socks5_creds_def Let_def if_set_def split: option.split)

text \<open>C34. The \<open>socks5\<close> section is accepted exactly when it names a port and an address and either both
  or none of user name and password; of a key given twice the last value counts. A rejected section
  changes nothing; an accepted one leaves in the variables the port, the first 255 bytes of the address
  and, when given, the first 255 bytes of each credential.\<close>

theorem config_socks5_section:
  assumes "cfg_ok c"
  shows "case hev_config_parse_socks5 doc (Some (YAML_MAPPING ps)) c of (res, c') \<Rightarrow>
    if socks5_complete doc ps then
      res = 0 \<and> Some (cs_port (srv c')) = map_option (\<lambda>s. of_nat (strtoul s 10)) (setting doc ps ''port'') \<and>
      Some (buf_str (srv_addr (srv c'))) = map_option (take 255) (setting doc ps ''address'') \<and>
      cs_user (srv c') = (case setting doc ps ''username'' of None \<Rightarrow> cs_user (srv c) | Some u \<Rightarrow> Some (take 255 u)) \<and>
      cs_pass (srv c') = (case setting doc ps ''password'' of None \<Rightarrow> cs_pass (srv c) | Some p \<Rightarrow> Some (take 255 p))
    else res = - 1 \<and> c' = c"
proof (cases "socks5_complete doc ps")
  case False
  then show ?thesis
    by (auto simp: hev_config_parse_socks5_def mapping_pairs_def Let_def socks5_complete_def setting_def fold_socks5_pair
        split: option.split)
next
  case True
  have t: "is_cstr s \<Longrightarrow> buf_str (strncpy (srv_addr (srv c)) s 255) = take 255 s"
    "is_cstr s \<Longrightarrow> buf_str (strncpy (cf_user c) s 255) = take 255 s"
    "is_cstr s \<Longrightarrow> buf_str (strncpy (cf_pass c) s 255) = take 255 s" for s
    using assms buf_str_strncpy [of 255 _ s] by (simp_all add: cfg_ok_def)
  have s: "setting doc ps key = Some s \<Longrightarrow> is_cstr s" for key s by (auto simp: setting_def intro: scalars_cstr)
  let ?v = "fold socks5_pair (scalars (node_pairs doc ps)) socks5_vars_init"
  obtain port addr where p: "setting doc ps ''port'' = Some port" "setting doc ps ''address'' = Some addr"
    using True by (auto simp: socks5_complete_def)
  have v: "v_user ?v = setting doc ps ''username''" "v_pass ?v = setting doc ps ''password''"
    by (simp_all add: setting_def fold_socks5_pair)
  have "hev_config_parse_socks5 doc (Some (YAML_MAPPING ps)) c = (0, socks5_store addr port ?v c)"
    using p True
    by (simp add: hev_config_parse_socks5_def mapping_pairs_def Let_def socks5_complete_def setting_def fold_socks5_pair)
  moreover have "(v_user ?v = None) = (v_pass ?v = None)" using True by (simp add: v socks5_complete_def)
  ultimately show ?thesis using True
    by (cases "setting doc ps ''username''"; cases "setting doc ps ''password''")
      (simp_all add: socks5_store_srv p v t s s [OF p(2)])
qed

theorem config_socks5_section_witness:
  "cs_user (srv (snd (hev_config_parse_socks5 example_doc
     (Some (YAML_MAPPING [(6, 7), (8, 9), (10, 11), (12, 13)])) config_default))) = Some (str ''u'') \<and>
   fst (hev_config_parse_socks5 example_doc (Some (YAML_MAPPING [(6, 7), (8, 9), (10, 11)])) config_default) = - 1"
proof -
  let ?all = "[(6, 7), (8, 9), (10, 11), (12, 13)]" and ?some = "[(6, 7), (8, 9), (10, 11)]"
  have "scalars (node_pairs example_doc ?some) =
     [(str ''port'', str ''1080''), (str ''address'', str ''::1''), (str ''username'', str ''u'')]" by code_simp
  then have "\<not> socks5_complete example_doc ?some"
    by (simp add: socks5_complete_def setting_def del: node_pairs.simps)
  moreover have "setting example_doc ?all ''username'' = Some (str ''u'')" "socks5_complete example_doc ?all"
    by (simp_all add: socks5_complete_def setting_def example_doc_pairs del: node_pairs.simps)
  ultimately show ?thesis
    using config_socks5_section [OF default_ok, of example_doc ?all] config_socks5_section [OF default_ok, of example_doc ?some]
    by (simp add: str_def split: prod.splits)
qed

end
