(* ===== verification/SessionUdp.thy ===== *)
theory SessionUdp
  imports SessionTcp UdpRelay Config
begin

text \<open>
  The UDP session (\<open>src/hev-socks5-session-udp.c\<close>): datagrams that lwIP delivers wait in a list of
  frames, each with its SOCKS5 destination, until the task sends them to the proxy; datagrams from
  the proxy are handed to lwIP at once. The list is the intrusive list of \<open>HevList\<close>, the frames and
  packet buffers are heap objects, and the socket side is the relay of \<open>UdpRelay\<close>.
\<close>

section \<open>State\<close>

record frame_obj =
  f_addr :: "byte list"
  f_data :: nat

record session_udp = client_udp +
  frame_list :: hlist
  frames :: int
  u_addr :: int
  u_port :: int
  u_pcb :: bool

text \<open>The session with what it uses: the sockets, the packet buffers, the frames, the answers of
  \<open>udp_sendfrom\<close> and what was given to it, and the mapped DNS.\<close>

record usess =
  urel :: "session_udp relay"
  umem :: pmem
  uframes :: "nat \<Rightarrow> frame_obj option"
  send_ok :: "bool list"
  usent :: "((ip_addr \<times> u16) \<times> byte list) list"
  udns :: "mapped_dns option"
  handler_set :: bool

definition uobj :: "usess \<Rightarrow> session_udp" where
  "uobj st = robj (urel st)"

definition set_uobj :: "(session_udp \<Rightarrow> session_udp) \<Rightarrow> usess \<Rightarrow> usess" where
  "set_uobj f st = st\<lparr>urel := (urel st)\<lparr>robj := f (robj (urel st))\<rparr>\<rparr>"

abbreviation (input) UDP_POOL_SIZE :: int where "UDP_POOL_SIZE \<equiv> 512"

section \<open>Callback\<close>

text \<open>\<open>new\<close> is the new frame, its address field uninitialised. \<open>dst\<close> is the local address of the
  connection: the destination of the datagram.\<close>

definition session_udp_recv_handler :: "nat option \<Rightarrow> ip_addr \<times> u16 \<Rightarrow> (nat \<times> byte list) option \<Rightarrow> usess \<Rightarrow> usess outcome" where
  "session_udp_recv_handler p dst new st =
     (case p of
        None \<Rightarrow> Ret (set_uobj hev_socks5_session_terminate st)
      | Some a \<Rightarrow>
          if frames (uobj st) > UDP_POOL_SIZE then
            bind_o (pbuf_free (Some a) (umem st)) (\<lambda>(_, m). Ret (st\<lparr>umem := m\<rparr>))
          else case new of
              None \<Rightarrow> bind_o (pbuf_free (Some a) (umem st)) (\<lambda>(_, m). Ret (st\<lparr>umem := m\<rparr>))
            | Some (n, junk) \<Rightarrow>
                bind_o (hev_socks5_addr_from_lwip junk (fst dst) (snd dst) (udns st)) (\<lambda>(_, addr, dns).
                bind_o (rdo addr 0) (\<lambda>atype.
                  let st = st\<lparr>udns := dns\<rparr>;
                      st = (if atype = HEV_SOCKS5_ADDR_TYPE_NAME
                            then set_uobj (\<lambda>s. s\<lparr>u_addr := load32 (ip_mem (fst dst)), u_port := uint (snd dst)\<rparr>) st
                            else st);
                      st = st\<lparr>uframes := (uframes st)(n \<mapsto> \<lparr>f_addr = addr, f_data = a\<rparr>)\<rparr> in
                  Ret (set_uobj (\<lambda>s. s\<lparr>frames := frames s + 1, frame_list := hev_list_add_tail n (frame_list s)\<rparr>) st))))"

text \<open>Datagrams that lwIP delivers while the task waits.\<close>

type_synonym udelivery = "nat option \<times> (ip_addr \<times> u16) \<times> (nat \<times> byte list) option"

fun udp_deliveries :: "udelivery list \<Rightarrow> usess \<Rightarrow> usess outcome" where
  "udp_deliveries [] st = Ret st"
| "udp_deliveries ((p, dst, new) # ds) st = bind_o (session_udp_recv_handler p dst new st) (udp_deliveries ds)"

section \<open>Towards the proxy\<close>

text \<open>The vector of the first \<open>k\<close> frames from \<open>node\<close>.\<close>

fun fwd_f_msgs :: "nat \<Rightarrow> nat option \<Rightarrow> usess \<Rightarrow> smsg list outcome" where
  "fwd_f_msgs 0 node st = Ret []"
| "fwd_f_msgs (Suc k) node st =
     bind_o (of_option node) (\<lambda>n.
     bind_o (of_option (uframes st n)) (\<lambda>f.
     bind_o (deref (f_data f) (umem st)) (\<lambda>b.
     bind_o (read_payload b) (\<lambda>d.
     bind_o (fwd_f_msgs k (hev_list_node_next (frame_list (uobj st)) n) st) (\<lambda>ms.
       Ret ((f_addr f, d) # ms))))))"

text \<open>Removing the first \<open>k\<close> frames after they were sent.\<close>

fun fwd_f_done :: "nat \<Rightarrow> usess \<Rightarrow> usess outcome" where
  "fwd_f_done 0 st = Ret st"
| "fwd_f_done (Suc k) st =
     bind_o (of_option (hev_list_first (frame_list (uobj st)))) (\<lambda>n.
     bind_o (of_option (uframes st n)) (\<lambda>f.
     let st = set_uobj (\<lambda>s. s\<lparr>frame_list := hev_list_del n (frame_list s)\<rparr>) st;
         st = st\<lparr>uframes := (uframes st)(n := None)\<rparr> in
     bind_o (pbuf_free (Some (f_data f)) (umem st)) (\<lambda>(_, m).
       fwd_f_done k (set_uobj (\<lambda>s. s\<lparr>frames := frames s - 1\<rparr>) (st\<lparr>umem := m\<rparr>)))))"

text \<open>\<open>ds\<close>: what lwIP delivers while the send waits.\<close>

definition hev_socks5_session_udp_fwd_f :: "nat \<Rightarrow> udelivery list \<Rightarrow> usess \<Rightarrow> (int \<times> usess) outcome" where
  "hev_socks5_session_udp_fwd_f num ds st =
     (if frames (uobj st) \<le> 0 then Ret (0, st)
      else
        let res = (if frames (uobj st) > int num then num else nat (frames (uobj st))) in
        bind_o (fwd_f_msgs res (hev_list_first (frame_list (uobj st))) st) (\<lambda>msgv.
        bind_o (hev_socks5_udp_sendmmsg msgv (urel st)) (\<lambda>(res, r).
        bind_o (udp_deliveries ds (st\<lparr>urel := r\<rparr>)) (\<lambda>st.
          if res \<le> 0 then Ret (- 1, st)
          else bind_o (fwd_f_done (nat res) st) (\<lambda>st. Ret (1, st))))))"

section \<open>Towards lwIP\<close>

text \<open>\<open>junk\<close> is the uninitialised \<open>saddr\<close> on the stack. When the session's destination is known by name,
  its mapped address is the source of all answers; only the four address bytes are set then.\<close>

definition reply_source :: "ip_addr \<Rightarrow> umsg \<Rightarrow> session_udp \<Rightarrow> (ip_addr \<times> u16) option outcome" where
  "reply_source junk m self =
     (if u_addr self \<noteq> 0 \<and> u_port self \<noteq> 0 then
        Ret (Some (junk\<lparr>ip_mem := put 0 (rev (be32 (word_of_int (u_addr self)))) (ip_mem junk)\<rparr>, word_of_int (u_port self)))
      else bind_o (of_option (umsg_addr m)) (\<lambda>a.
        bind_o (hev_socks5_addr_into_lwip a junk 0) (\<lambda>(ret, ip, port).
          Ret (if ret < 0 then None else Some (ip, port)))))"

definition udp_sendfrom :: "nat \<Rightarrow> ip_addr \<times> u16 \<Rightarrow> usess \<Rightarrow> (bool \<times> usess) outcome" where
  "udp_sendfrom b src st =
     bind_o (deref b (umem st)) (\<lambda>p. bind_o (read_payload p) (\<lambda>d.
       case send_ok st of
         [] \<Rightarrow> Ret (True, st\<lparr>usent := usent st @ [(src, d)]\<rparr>)
       | ok # oks \<Rightarrow> Ret (ok, st\<lparr>send_ok := oks, usent := (if ok then usent st @ [(src, d)] else usent st)\<rparr>)))"

fun fwd_b_send :: "(umsg \<times> ip_addr) list \<Rightarrow> usess \<Rightarrow> (int \<times> usess) outcome" where
  "fwd_b_send [] st = Ret (1, st)"
| "fwd_b_send ((m, junk) # ms) st =
     bind_o (reply_source junk m (uobj st)) (\<lambda>src.
       case src of
         None \<Rightarrow> Ret (- 1, st)
       | Some src \<Rightarrow>
           bind_o (pbuf_alloc_reference (umsg_data m) (of_nat (mlen m)) PBUF_REF (umem st)) (\<lambda>(b, mm).
             let st = st\<lparr>umem := mm\<rparr> in
             case b of
               None \<Rightarrow> Ret (- 1, st)
             | Some b \<Rightarrow>
                 bind_o (udp_sendfrom b src st) (\<lambda>(ok, st).
                 bind_o (pbuf_free (Some b) (umem st)) (\<lambda>(_, mm).
                   let st = st\<lparr>umem := mm\<rparr> in
                   if \<not> ok then Ret (- 1, st) else fwd_b_send ms st))))"

text \<open>\<open>bufs\<close>: the \<open>num\<close> buffers on the stack; \<open>junks\<close>: the stack slots of \<open>saddr\<close>.\<close>

definition hev_socks5_session_udp_fwd_b :: "byte list list \<Rightarrow> ip_addr list \<Rightarrow> usess \<Rightarrow> (int \<times> usess) outcome" where
  "hev_socks5_session_udp_fwd_b bufs junks st =
     bind_o (hev_socks5_udp_recvmmsg True bufs (urel st)) (\<lambda>(res, ms, r).
       let st = st\<lparr>urel := r\<rparr> in
       if res \<le> 0 then Ret (if res = - 1 \<and> rerrno r = EAGAIN then 0 else - 1, st)
       else fwd_b_send (zip ms junks) st)"

section \<open>The splice loop\<close>

text \<open>A round: the datagrams delivered while the send waits, the buffers and the stack slots; then how
  the sleep ends and what is delivered meanwhile. \<open>Wait\<close>: the session is still asleep when the
  rounds are used up.\<close>

type_synonym uround = "udelivery list \<times> byte list list \<times> ip_addr list"

fun session_udp_loop :: "uround \<Rightarrow> (nap \<times> udelivery list \<times> uround) list \<Rightarrow> int \<Rightarrow> int \<Rightarrow> usess \<Rightarrow> usess outcome" where
  "session_udp_loop (ds, bufs, junks) ts res_f res_b st =
     bind_o (if res_f \<ge> 0 then hev_socks5_session_udp_fwd_f (length bufs) ds st else Ret (res_f, st)) (\<lambda>(rf, st).
     bind_o (if res_b \<ge> 0 then hev_socks5_session_udp_fwd_b bufs junks st else Ret (res_b, st)) (\<lambda>(rb, st).
       case (if rf > 0 \<or> rb > 0 then Some HEV_TASK_YIELD
             else if rf AND rb = 0 then Some HEV_TASK_WAITIO else None) of
         None \<Rightarrow> Ret st
       | Some type \<Rightarrow>
           (case ts of
              [] \<Rightarrow> Wait
            | (p, ds, env) # ts \<Rightarrow>
                (case relay_yield type p (urel st) of (k, r) \<Rightarrow>
                  bind_o (udp_deliveries ds (st\<lparr>urel := r\<rparr>)) (\<lambda>st.
                    if k \<noteq> 0 then Ret st else session_udp_loop env ts rf rb st)))))"

declare session_udp_loop.simps [simp del]

definition hev_socks5_session_udp_splice :: "uround \<Rightarrow> (nap \<times> udelivery list \<times> uround) list \<Rightarrow> usess \<Rightarrow> usess outcome" where
  "hev_socks5_session_udp_splice env ts st = session_udp_loop env ts 1 1 st"

section \<open>Upstream address, construction and destruction\<close>

definition hev_socks5_addr_get_port :: "byte list \<Rightarrow> u16 outcome" where
  "hev_socks5_addr_get_port addr =
     bind_o (rdo addr 0) (\<lambda>atype.
       if atype = HEV_SOCKS5_ADDR_TYPE_IPV4 then bind_o (rd_sego addr 5 2) (\<lambda>p. Ret (load16 p))
       else if atype = HEV_SOCKS5_ADDR_TYPE_IPV6 then bind_o (rd_sego addr 17 2) (\<lambda>p. Ret (load16 p))
       else if atype = HEV_SOCKS5_ADDR_TYPE_NAME then
         bind_o (rdo addr 1) (\<lambda>len. bind_o (rd_sego addr (2 + unat len) 2) (\<lambda>p. Ret (load16 p)))
       else Ret 0)"

text \<open>\<open>tl\<close> is the rest of the address variable behind the bytes received.\<close>

definition hev_socks5_session_udp_set_upstream_addr :: "config \<Rightarrow> resolver \<Rightarrow>
    (session_udp \<Rightarrow> fd \<Rightarrow> sockaddr6 \<Rightarrow> int) \<Rightarrow> byte list \<Rightarrow> byte list \<Rightarrow> session_udp \<Rightarrow> os \<Rightarrow> (int \<times> session_udp \<times> os) outcome" where
  "hev_socks5_session_udp_set_upstream_addr cf rv binder junk addr self w =
     bind_o (rdo (udp_addr (srv cf)) 0) (\<lambda>u0.
     bind_o (if udp_in_udp (srv cf) \<and> u0 \<noteq> 0 then
               bind_o (hev_socks5_addr_get_port addr) (\<lambda>port.
               bind_o (of_option (cstr_at (udp_addr (srv cf)) 0)) (\<lambda>name.
               bind_o (hev_socks5_addr_from_name (addr @ junk) name (uint port)) (\<lambda>(_, addr). Ret addr)))
             else Ret addr) (\<lambda>addr.
       hev_socks5_client_udp_set_upstream_addr rv binder addr self w))"

definition hev_socks5_session_udp_construct :: "config \<Rightarrow> usess \<Rightarrow> (int \<times> usess) outcome" where
  "hev_socks5_session_udp_construct cf st =
     (let type = (if udp_in_udp (hev_config_get_socks5_server cf) then TYPE_UDP_IN_UDP else TYPE_UDP_IN_TCP) in
      Ret (0, (set_uobj (\<lambda>s. (hev_socks5_client_udp_construct type s)\<lparr>u_pcb := True\<rparr>) st)\<lparr>handler_set := True\<rparr>))"

fun udp_free_frames :: "nat \<Rightarrow> nat option \<Rightarrow> usess \<Rightarrow> usess outcome" where
  "udp_free_frames k None st = Ret st"
| "udp_free_frames 0 (Some n) st = Wait"
| "udp_free_frames (Suc k) (Some n) st =
     bind_o (of_option (uframes st n)) (\<lambda>f.
     let node = hev_list_node_next (frame_list (uobj st)) n in
     bind_o (pbuf_free (Some (f_data f)) (umem st)) (\<lambda>(_, m).
       udp_free_frames k node (st\<lparr>umem := m, uframes := (uframes st)(n := None)\<rparr>)))"

text \<open>The bound of the loop is the number of frames.\<close>

definition hev_socks5_session_udp_destruct :: "os \<Rightarrow> usess \<Rightarrow> (os \<times> usess) outcome" where
  "hev_socks5_session_udp_destruct w st =
     bind_o (udp_free_frames (nat (frames (uobj st))) (hev_list_first (frame_list (uobj st))) st) (\<lambda>st.
       let st = (if u_pcb (uobj st) then st\<lparr>handler_set := False\<rparr> else st) in
       Ret (hev_socks5_client_udp_destruct (uobj st) w, st))"

section \<open>The queue of datagrams\<close>

text \<open>The destination of a datagram: the name the mapped DNS has for the address, or the address. A lookup
  reorders the table, which changes no name.\<close>

definition dns_name_of :: "mapped_dns option \<Rightarrow> ip_addr \<Rightarrow> byte list option" where
  "dns_name_of dns ip =
     (case dns of None \<Rightarrow> None
      | Some d \<Rightarrow> (case hev_mapped_dns_lookup (ip4_host ip) d of Ret (nm, _) \<Rightarrow> nm | _ \<Rightarrow> None))"

definition dest_of :: "mapped_dns option \<Rightarrow> ip_addr \<times> u16 \<Rightarrow> saddr" where
  "dest_of dns dst =
     (case dst of (ip, port) \<Rightarrow>
        if ip_type ip = IPADDR_TYPE_V4
        then (case dns_name_of dns ip of Some nm \<Rightarrow> SName nm port | None \<Rightarrow> saddr_of_ip ip port)
        else saddr_of_ip ip port)"

definition names_ok :: "mapped_dns option \<Rightarrow> bool" where
  "names_ok dns \<longleftrightarrow>
     (case dns of None \<Rightarrow> True
      | Some d \<Rightarrow> mask d < 0 \<and> (\<exists>ids. dns_inv d ids \<and> (\<forall>nm \<in> fst ` set (dns_view d ids). is_cstr nm \<and> length nm \<le> 255)))"

lemma lookup_names:
  assumes "mask d < 0" "dns_inv d ids" "\<forall>nm \<in> fst ` set (dns_view d ids). is_cstr nm \<and> length nm \<le> 255"
  obtains nm d' where "hev_mapped_dns_lookup ip d = Ret (nm, d')" "names_ok (Some d')"
    "case nm of None \<Rightarrow> True | Some x \<Rightarrow> is_cstr x \<and> length x \<le> 255"
    "\<And>a. dns_name_of (Some d') a = dns_name_of (Some d) a"
proof -
  have pos: "0 \<le> i AND NOT (mask d)" for i :: int using assms(1) by simp
  obtain ids' d' where r: "hev_mapped_dns_lookup ip d = Ret (lru_lookup (ip AND NOT (mask d)) (dns_view d ids), d')"
    "dns_inv d' ids'" "mask d' = mask d"
    and v: "dns_view d' ids' = (case lru_lookup (ip AND NOT (mask d)) (dns_view d ids) of
        None \<Rightarrow> dns_view d ids | Some nm \<Rightarrow> lru_touch nm (dns_view d ids))"
    using lookup_refines [OF assms(2) refl pos [of ip]] by (elim exE conjE) blast
  have set: "set (dns_view d' ids') = set (dns_view d ids)" using v by (auto simp: lru_touch_set split: option.splits)
  have iff: "lru_lookup i (dns_view d' ids') = Some nm \<longleftrightarrow> lru_lookup i (dns_view d ids) = Some nm" for i nm
    using lru_lookup_iff [OF distinct_indices [OF r(2)]] lru_lookup_iff [OF distinct_indices [OF assms(2)]] set by simp
  have same: "lru_lookup i (dns_view d' ids') = lru_lookup i (dns_view d ids)" for i
    using iff [of i] by (cases "lru_lookup i (dns_view d ids)") (auto intro: option.exhaust)
  have nm: "dns_name_of (Some e) a = lru_lookup (ip4_host a AND NOT (mask e)) (dns_view e j)"
    if "dns_inv e j" "mask e < 0" for e j a
    using lookup_refines [OF that(1) refl, of "ip4_host a"] that(2) by (auto simp: dns_name_of_def)
  show thesis
  proof (rule that [OF r(1)])
    show "names_ok (Some d')" using r(2,3) assms(1,3) set by (auto simp: names_ok_def)
    show "dns_name_of (Some d') a = dns_name_of (Some d) a" for a
      using nm [OF r(2), of a] nm [OF assms(2,1), of a] same r(3) assms(1) by simp
    show "case lru_lookup (ip AND NOT (mask d)) (dns_view d ids) of None \<Rightarrow> True | Some x \<Rightarrow> is_cstr x \<and> length x \<le> 255"
      using lru_lookup_iff [OF distinct_indices [OF assms(2)]] assms(3) by (force split: option.splits)
  qed
qed

lemma from_lwip_dest:
  assumes "names_ok dns" "ip_type (fst dst) \<in> {IPADDR_TYPE_V4, IPADDR_TYPE_V6}" "length (ip_mem (fst dst)) = 16"
    "length junk = 260"
  obtains z dns' where "hev_socks5_addr_from_lwip junk (fst dst) (snd dst) dns = Ret (0, saddr_enc (dest_of dns dst) @ z, dns')"
    "saddr_wf (dest_of dns dst)" "names_ok dns'" "\<And>x. dest_of dns' x = dest_of dns x"
proof -
  obtain ip port where dst: "dst = (ip, port)" by fastforce
  show thesis
  proof (cases "ip_type ip = IPADDR_TYPE_V4 \<and> dns \<noteq> None")
    case False
    then obtain z where "hev_socks5_addr_from_lwip junk ip port dns = Ret (0, saddr_enc (saddr_of_ip ip port) @ z, dns)"
      "saddr_wf (saddr_of_ip ip port)" using from_lwip_ip [of ip junk dns port] assms(2-4) dst by auto
    moreover have "dest_of dns dst = saddr_of_ip ip port" using False dst by (auto simp: dest_of_def dns_name_of_def)
    ultimately show thesis using that [of z dns] assms(1) dst by simp
  next
    case True
    then obtain d ids where d: "dns = Some d" "mask d < 0" "dns_inv d ids"
      "\<forall>nm \<in> fst ` set (dns_view d ids). is_cstr nm \<and> length nm \<le> 255" using assms(1) by (auto simp: names_ok_def)
    obtain nm d' where l: "hev_mapped_dns_lookup (ip4_host ip) d = Ret (nm, d')" "names_ok (Some d')"
      "case nm of None \<Rightarrow> True | Some x \<Rightarrow> is_cstr x \<and> length x \<le> 255"
      "\<And>a. dns_name_of (Some d') a = dns_name_of (Some d) a" using lookup_names [OF d(2-4), of "ip4_host ip"] by blast
    have same: "dest_of (Some d') x = dest_of dns x" for x using l(4) d(1) by (cases x) (simp add: dest_of_def)
    show thesis
    proof (cases nm)
      case None
      then have e: "dest_of dns dst = saddr_of_ip ip port" using True l(1) d(1) dst by (simp add: dest_of_def dns_name_of_def)
      obtain z where "hev_socks5_addr_from_lwip junk ip port None = Ret (0, saddr_enc (saddr_of_ip ip port) @ z, None)"
        "saddr_wf (saddr_of_ip ip port)" using from_lwip_ip [of ip junk None port] assms(2-4) dst by auto
      then have "hev_socks5_addr_from_lwip junk ip port dns = Ret (0, saddr_enc (saddr_of_ip ip port) @ z, Some d')"
        using True l(1) d(1) None by (auto simp: hev_socks5_addr_from_lwip_def bind_o_Ret_iff)
      then show thesis using that [of z "Some d'"] e same l(2) dst \<open>saddr_wf (saddr_of_ip ip port)\<close> by simp
    next
      case (Some x)
      then have x: "is_cstr x" "length x \<le> 255" using l(3) by simp_all
      have e: "dest_of dns dst = SName x port" using True l(1) d(1) dst Some by (simp add: dest_of_def dns_name_of_def)
      obtain z where "hev_socks5_addr_from_lwip junk ip port (Some d) = Ret (0, saddr_enc (SName x port) @ z, Some d')"
        using from_lwip_name [of ip junk d x d' port] True assms(4) l(1) Some x by auto
      then show thesis using that [of z "Some d'"] e same l(2) dst x d(1) by simp
    qed
  qed
qed

text \<open>A waiting datagram: its frame, the chain of its packet buffers, its destination and the bytes of its
  first packet buffer. These are the bytes of the datagram when it came in one buffer.\<close>

type_synonym dgram = "nat \<times> nat list \<times> saddr \<times> byte list"

abbreviation dg_bufs :: "dgram \<Rightarrow> nat list" where "dg_bufs x \<equiv> fst (snd x)"
abbreviation dg_msg :: "dgram \<Rightarrow> saddr \<times> byte list" where "dg_msg x \<equiv> snd (snd x)"
abbreviation bufs_of :: "dgram list \<Rightarrow> nat list" where "bufs_of q \<equiv> concat (map dg_bufs q)"

definition dg_data :: "pmem \<Rightarrow> dgram \<Rightarrow> bool" where
  "dg_data m x \<longleftrightarrow> dg_bufs x \<noteq> [] \<and> chain m (Some (hd (dg_bufs x))) (dg_bufs x) \<and>
     chain_bytes m [hd (dg_bufs x)] = snd (dg_msg x)"

definition dg_rep :: "usess \<Rightarrow> dgram \<Rightarrow> bool" where
  "dg_rep st x \<longleftrightarrow> saddr_wf (fst (dg_msg x)) \<and> dg_data (umem st) x \<and>
     (\<exists>z. uframes st (fst x) = Some \<lparr>f_addr = saddr_enc (fst (dg_msg x)) @ z, f_data = hd (dg_bufs x)\<rparr>)"

text \<open>The list, the counter, the frames and the packet buffers of the session are the queue \<open>q\<close>; \<open>U\<close> are
  the packet buffers of others.\<close>

definition udp_queue :: "nat set \<Rightarrow> usess \<Rightarrow> dgram list \<Rightarrow> bool" where
  "udp_queue U st q \<longleftrightarrow> list_rep (frame_list (uobj st)) (map fst q) \<and> frames (uobj st) = int (length q) \<and>
     (\<forall>x \<in> set q. dg_rep st x) \<and> distinct (bufs_of q) \<and> dom (uframes st) = fst ` set q \<and>
     fset (fmdom (objs (umem st))) = set (bufs_of q) \<union> U \<and> set (bufs_of q) \<inter> U = {} \<and> names_ok (udns st)"

definition dg_enqueue :: "dgram list \<Rightarrow> dgram \<Rightarrow> dgram list" where
  "dg_enqueue q x = (if int (length q) > UDP_POOL_SIZE then q else q @ [x])"

definition dg_free :: "nat list \<Rightarrow> pmem \<Rightarrow> pmem" where
  "dg_free bs m = m\<lparr>objs := fmfilter (\<lambda>a. a \<notin> set bs) (objs m)\<rparr>"

lemma lookup_dg_free [simp]: "fmlookup (objs (dg_free bs m)) a = (if a \<in> set bs then None else fmlookup (objs m) a)"
  by (simp add: dg_free_def)

lemma dom_dg_free: "fset (fmdom (objs (dg_free bs m))) = fset (fmdom (objs m)) - set bs"
  by (auto simp: dg_free_def)

lemma dg_data_cong: "same_at (set (dg_bufs x)) m m' \<Longrightarrow> dg_data m' x = dg_data m x"
  using chain_cong [of "dg_bufs x" m m'] chain_bytes_cong [of "[hd (dg_bufs x)]" m m']
  by (cases "dg_bufs x") (auto simp: dg_data_def same_at_def simp del: chain.simps chain_bytes.simps)

lemma dg_data_free: "dg_data m x \<Longrightarrow> \<exists>n. pbuf_free (Some (hd (dg_bufs x))) m = Ret (n, dg_free (dg_bufs x) m)"
  using free_chain [of m _ "dg_bufs x" 0] by (auto simp: dg_data_def pbuf_free_def dg_free_def)

lemma dg_free_other:
  assumes "set (dg_bufs y) \<inter> set bs = {}"
  shows "dg_data (dg_free bs m) y = dg_data m y"
  by (rule dg_data_cong) (use assms in \<open>auto simp: same_at_def\<close>)

lemma image_neq: "f x \<notin> f ` A \<Longrightarrow> y \<in> A \<Longrightarrow> f y \<noteq> f x"
  by (metis image_eqI)

lemma bufs_disjoint:
  assumes "distinct (bufs_of (x # q))" "y \<in> set q"
  shows "set (dg_bufs y) \<inter> set (dg_bufs x) = {}"
  using assms by auto

lemma udp_queueD:
  assumes "udp_queue U st q"
  shows "list_rep (frame_list (uobj st)) (map fst q)" "frames (uobj st) = int (length q)" "x \<in> set q \<Longrightarrow> dg_rep st x"
    "distinct (bufs_of q)" "dom (uframes st) = fst ` set q" "fset (fmdom (objs (umem st))) = set (bufs_of q) \<union> U"
    "set (bufs_of q) \<inter> U = {}" "names_ok (udns st)" "distinct (map fst q)"
  using assms hl.rep_distinct [of "frame_list (uobj st)" "map fst q"] unfolding udp_queue_def by blast+

lemma uobj_set [simp]:
  "uobj (set_uobj f st) = f (uobj st)" "umem (set_uobj f st) = umem st" "uframes (set_uobj f st) = uframes st"
  "udns (set_uobj f st) = udns st" "rctl (urel (set_uobj f st)) = rctl (urel st)" "rdg (urel (set_uobj f st)) = rdg (urel st)"
  by (simp_all add: uobj_def set_uobj_def)

lemma uobj_upd [simp]:
  "uobj (st\<lparr>umem := m\<rparr>) = uobj st" "uobj (st\<lparr>uframes := f\<rparr>) = uobj st" "uobj (st\<lparr>udns := d\<rparr>) = uobj st"
  by (simp_all add: uobj_def)

lemma dg_first:
  assumes "dg_data m x"
  obtains b where "fmlookup (objs m) (hd (dg_bufs x)) = Some b" "buf_ok b" "pbytes b = snd (dg_msg x)"
  using assms by (cases "dg_bufs x") (auto simp: dg_data_def split: option.splits)

lemma fwd_f_msgs_queue:
  assumes "udp_queue U st q" "q = xs @ ys" "k \<le> length ys"
  shows "\<exists>sm. fwd_f_msgs k (case map fst ys of [] \<Rightarrow> None | y # _ \<Rightarrow> Some y) st = Ret sm \<and>
    list_all2 smsg_is sm (map dg_msg (take k ys))"
  using assms(2,3)
proof (induction k arbitrary: xs ys)
  case (Suc k)
  then obtain x zs where ys: "ys = x # zs" by (cases ys) auto
  obtain sm where sm: "fwd_f_msgs k (case map fst zs of [] \<Rightarrow> None | y # _ \<Rightarrow> Some y) st = Ret sm"
    "list_all2 smsg_is sm (map dg_msg (take k zs))" using Suc.IH [of "xs @ [x]" zs] Suc.prems ys by auto
  have l: "list_rep (frame_list (uobj st)) (map fst xs @ fst x # map fst zs)" and r: "dg_rep st x"
    using assms(1) Suc.prems(1) ys by (simp_all add: udp_queue_def)
  obtain b z where b: "uframes st (fst x) = Some \<lparr>f_addr = saddr_enc (fst (dg_msg x)) @ z, f_data = hd (dg_bufs x)\<rparr>"
    "fmlookup (objs (umem st)) (hd (dg_bufs x)) = Some b" "buf_ok b" "pbytes b = snd (dg_msg x)" "saddr_wf (fst (dg_msg x))"
    using r dg_first [of "umem st" x] unfolding dg_rep_def by metis
  have "smsg_is (saddr_enc (fst (dg_msg x)) @ z, snd (dg_msg x)) (dg_msg x)" using b(5) by (simp add: smsg_is_def)
  then show ?case using sm b hl.rep_next [OF l] read_payload_ok [OF b(3)] ys by (simp add: deref_def)
qed simp

lemma udp_queue_pop:
  assumes "udp_queue U st (x # q)"
  obtains f n where "hev_list_first (frame_list (uobj st)) = Some (fst x)" "uframes st (fst x) = Some f"
    "f_data f = hd (dg_bufs x)" "pbuf_free (Some (hd (dg_bufs x))) (umem st) = Ret (n, dg_free (dg_bufs x) (umem st))"
proof -
  have "dg_rep st x" "list_rep (frame_list (uobj st)) (fst x # map fst q)" using assms by (simp_all add: udp_queue_def)
  then show thesis using that dg_data_free [of "umem st" x] hl.rep_first by (auto simp: dg_rep_def)
qed

lemma fwd_f_done_queue:
  assumes "udp_queue U st q" "k \<le> length q"
  shows "\<exists>st'. fwd_f_done k st = Ret st' \<and> udp_queue U st' (drop k q) \<and>
    rctl (urel st') = rctl (urel st) \<and> rdg (urel st') = rdg (urel st)"
  using assms
proof (induction k arbitrary: st q)
  case (Suc k)
  then obtain x q' where q: "q = x # q'" by (cases q) auto
  obtain f n where f: "hev_list_first (frame_list (uobj st)) = Some (fst x)" "uframes st (fst x) = Some f"
    "f_data f = hd (dg_bufs x)" "pbuf_free (Some (hd (dg_bufs x))) (umem st) = Ret (n, dg_free (dg_bufs x) (umem st))"
    using udp_queue_pop Suc.prems(1) q by metis
  let ?st = "set_uobj (\<lambda>s. s\<lparr>frames := frames s - 1\<rparr>)
    ((set_uobj (\<lambda>s. s\<lparr>frame_list := hev_list_del (fst x) (frame_list s)\<rparr>) st)
      \<lparr>uframes := (uframes st)(fst x := None), umem := dg_free (dg_bufs x) (umem st)\<rparr>)"
  note u = udp_queueD [OF Suc.prems(1) [unfolded q]]
  have "list_rep (hev_list_del (fst x) (frame_list (uobj st))) (map fst q')" using u(1) hl.rep_pop by simp
  moreover have "dg_rep ?st y" if "y \<in> set q'" for y
  proof -
    have "fst y \<noteq> fst x" using that u(9) image_neq [of fst x "set q'" y] by simp
    moreover have "dg_rep st y" using u(3) that by simp
    ultimately show ?thesis using dg_free_other [OF bufs_disjoint [OF u(4) that]] by (simp add: dg_rep_def)
  qed
  moreover have "dom ((uframes st)(fst x := None)) = fst ` set q'" using u(5,9) by auto
  moreover have "fset (fmdom (objs (dg_free (dg_bufs x) (umem st)))) = set (bufs_of q') \<union> U"
    using u(4,6,7) unfolding dom_dg_free by auto
  moreover have "frames (uobj st) - 1 = int (length q')" using u(2) by simp
  ultimately have "udp_queue U ?st q'" using u(4,7,8) unfolding udp_queue_def by auto
  then obtain st' where "fwd_f_done k ?st = Ret st'" "udp_queue U st' (drop k q')" "rctl (urel st') = rctl (urel ?st)"
    "rdg (urel st') = rdg (urel ?st)" using Suc.IH [of ?st q'] Suc.prems(2) q by auto
  then show ?case using f q by (auto simp: Let_def)
qed auto

text \<open>A delivery of lwIP: a chain of packet buffers that nobody else holds, for an IPv4 or IPv6 destination, with
  memory for a frame.\<close>

definition arrival :: "nat set \<Rightarrow> usess \<Rightarrow> udelivery \<Rightarrow> dgram \<Rightarrow> bool" where
  "arrival U st e x \<longleftrightarrow> set (dg_bufs x) \<subseteq> U \<and> uframes st (fst x) = None \<and> dg_data (umem st) x \<and>
     (case e of (p, dst, new) \<Rightarrow> p = Some (hd (dg_bufs x)) \<and> (\<exists>junk. new = Some (fst x, junk) \<and> length junk = 260) \<and>
        fst (dg_msg x) = dest_of (udns st) dst \<and> ip_type (fst dst) \<in> {IPADDR_TYPE_V4, IPADDR_TYPE_V6} \<and>
        length (ip_mem (fst dst)) = 16)"

definition arrivals :: "nat set \<Rightarrow> usess \<Rightarrow> udelivery list \<Rightarrow> dgram list \<Rightarrow> bool" where
  "arrivals U st ds xs \<longleftrightarrow> list_all2 (arrival U st) ds xs \<and> distinct (map fst xs) \<and> distinct (bufs_of xs)"

lemma recv_handler_queue:
  assumes q: "udp_queue U st q" and a: "arrival U st (p, dst, new) x"
  obtains st' where "session_udp_recv_handler p dst new st = Ret st'" "udp_queue (U - set (dg_bufs x)) st' (dg_enqueue q x)"
    "rctl (urel st') = rctl (urel st)" "rdg (urel st') = rdg (urel st)" "\<And>a. dest_of (udns st') a = dest_of (udns st) a"
    "\<And>n. n \<noteq> fst x \<Longrightarrow> uframes st' n = uframes st n" "\<And>a. a \<notin> set (dg_bufs x) \<Longrightarrow> fmlookup (objs (umem st')) a = fmlookup (objs (umem st)) a"
proof -
  note u = udp_queueD [OF q]
  obtain junk where n: "p = Some (hd (dg_bufs x))" "new = Some (fst x, junk)" "length junk = 260" "set (dg_bufs x) \<subseteq> U"
    "uframes st (fst x) = None" "dg_data (umem st) x" "fst (dg_msg x) = dest_of (udns st) dst"
    "ip_type (fst dst) \<in> {IPADDR_TYPE_V4, IPADDR_TYPE_V6}" "length (ip_mem (fst dst)) = 16"
    using a by (auto simp: arrival_def)
  obtain k where fr: "pbuf_free (Some (hd (dg_bufs x))) (umem st) = Ret (k, dg_free (dg_bufs x) (umem st))"
    using dg_data_free [OF n(6)] by blast
  have nq: "set (bufs_of q) \<inter> set (dg_bufs x) = {}" "fst x \<notin> fst ` set q" using n(4,5) u(5,7) by (blast, metis domIff)
  have ne: "distinct (dg_bufs x)" using n(6) chain_distinct by (auto simp: dg_data_def)
  show thesis
  proof (cases "frames (uobj st) > UDP_POOL_SIZE")
    case True
    let ?st = "st\<lparr>umem := dg_free (dg_bufs x) (umem st)\<rparr>"
    have "dg_rep ?st y" if "y \<in> set q" for y
    proof -
      have "set (dg_bufs y) \<inter> set (dg_bufs x) = {}" using nq(1) that by auto
      then show ?thesis using u(3) [OF that] dg_free_other by (simp add: dg_rep_def)
    qed
    moreover have "fset (fmdom (objs (umem ?st))) = set (bufs_of q) \<union> (U - set (dg_bufs x))"
      using u(6) nq(1) by (simp add: dom_dg_free) blast
    ultimately have "udp_queue (U - set (dg_bufs x)) ?st q" using u(1,2,4,5,7,8) unfolding udp_queue_def by auto
    moreover have "dg_enqueue q x = q" using True u(2) by (simp add: dg_enqueue_def)
    ultimately show thesis using that [of ?st] True fr n(1) by (simp add: session_udp_recv_handler_def)
  next
    case False
    obtain z dns where r: "hev_socks5_addr_from_lwip junk (fst dst) (snd dst) (udns st) =
        Ret (0, saddr_enc (dest_of (udns st) dst) @ z, dns)" "saddr_wf (dest_of (udns st) dst)" "names_ok dns"
      "\<And>x. dest_of dns x = dest_of (udns st) x"
      using from_lwip_dest [OF u(8) n(8,9,3)] by blast
    obtain t where t: "rdo (saddr_enc (dest_of (udns st) dst) @ z) 0 = Ret t" by (cases "dest_of (udns st) dst") auto
    define s1 where "s1 = (if t = HEV_SOCKS5_ADDR_TYPE_NAME
      then set_uobj (\<lambda>s. s\<lparr>u_addr := load32 (ip_mem (fst dst)), u_port := uint (snd dst)\<rparr>) (st\<lparr>udns := dns\<rparr>) else st\<lparr>udns := dns\<rparr>)"
    have s1: "frames (uobj s1) = frames (uobj st)" "frame_list (uobj s1) = frame_list (uobj st)" "umem s1 = umem st"
      "uframes s1 = uframes st" "udns s1 = dns" "rctl (urel s1) = rctl (urel st)" "rdg (urel s1) = rdg (urel st)" by (simp_all add: s1_def)
    let ?f = "\<lparr>f_addr = saddr_enc (dest_of (udns st) dst) @ z, f_data = hd (dg_bufs x)\<rparr>"
    let ?st = "set_uobj (\<lambda>s. s\<lparr>frames := frames s + 1, frame_list := hev_list_add_tail (fst x) (frame_list s)\<rparr>)
      (s1\<lparr>uframes := (uframes s1)(fst x \<mapsto> ?f)\<rparr>)"
    have h: "session_udp_recv_handler p dst new st = Ret ?st"
      using False r(1) t n(1,2) by (simp add: session_udp_recv_handler_def s1_def Let_def)
    have "dg_rep ?st y" if "y \<in> set (q @ [x])" for y
    proof (cases "y = x")
      case True then show ?thesis using n(6,7) r(2) s1(3) by (simp add: dg_rep_def)
    next
      case False
      then have y: "y \<in> set q" using that by simp
      have "fst y \<noteq> fst x" by (rule image_neq [OF nq(2) y])
      then show ?thesis using u(3) [OF y] s1(3,4) by (simp add: dg_rep_def)
    qed
    moreover have "list_rep (hev_list_add_tail (fst x) (frame_list (uobj st))) (map fst (q @ [x]))"
      using hl.rep_add_tail [OF u(1), of "fst x"] nq(2) by simp
    moreover have "distinct (bufs_of (q @ [x]))" using u(4) nq(1) ne by simp
    moreover have "fset (fmdom (objs (umem ?st))) = set (bufs_of (q @ [x])) \<union> (U - set (dg_bufs x))"
      "set (bufs_of (q @ [x])) \<inter> (U - set (dg_bufs x)) = {}" using u(6,7) n(4) s1(3) by auto
    moreover have "dom (uframes ?st) = fst ` set (q @ [x])" using u(5) s1(4) by auto
    ultimately have "udp_queue (U - set (dg_bufs x)) ?st (q @ [x])"
      using u(2) s1 r(3) unfolding udp_queue_def by simp
    moreover have "dg_enqueue q x = q @ [x]" using False u(2) by (simp add: dg_enqueue_def)
    ultimately show thesis using that [of ?st] h s1 r(4) by simp
  qed
qed

lemma deliveries_queue:
  assumes "udp_queue U st q" "arrivals U st ds xs"
  shows "\<exists>st'. udp_deliveries ds st = Ret st' \<and> udp_queue (U - set (bufs_of xs)) st' (foldl dg_enqueue q xs) \<and>
    rctl (urel st') = rctl (urel st) \<and> rdg (urel st') = rdg (urel st)"
  using assms
proof (induction ds arbitrary: U st q xs)
  case Nil
  then show ?case by (simp add: arrivals_def)
next
  case (Cons e ds)
  obtain x ys where xs: "xs = x # ys" "arrival U st e x" "list_all2 (arrival U st) ds ys"
    using Cons.prems(2) by (auto simp: arrivals_def list_all2_Cons1)
  obtain p dst new where e: "e = (p, dst, new)" by (metis prod_cases3)
  obtain s1 where s1: "session_udp_recv_handler p dst new st = Ret s1" "udp_queue (U - set (dg_bufs x)) s1 (dg_enqueue q x)"
    "rctl (urel s1) = rctl (urel st)" "rdg (urel s1) = rdg (urel st)" "\<And>a. dest_of (udns s1) a = dest_of (udns st) a"
    "\<And>n. n \<noteq> fst x \<Longrightarrow> uframes s1 n = uframes st n" "\<And>a. a \<notin> set (dg_bufs x) \<Longrightarrow> fmlookup (objs (umem s1)) a = fmlookup (objs (umem st)) a"
    using recv_handler_queue [OF Cons.prems(1) xs(2) [unfolded e]] by blast
  have nx: "fst x \<notin> fst ` set ys" "distinct (bufs_of (x # ys))" "distinct (map fst ys)" "distinct (bufs_of ys)"
    using Cons.prems(2) xs(1) by (simp_all add: arrivals_def)
  have "arrival (U - set (dg_bufs x)) s1 d y" if "arrival U st d y" "y \<in> set ys" for d y
  proof -
    have y: "set (dg_bufs y) \<inter> set (dg_bufs x) = {}" by (rule bufs_disjoint [OF nx(2) that(2)])
    have "same_at (set (dg_bufs y)) (umem st) (umem s1)" using y s1(7) by (auto simp: same_at_def)
    note c = dg_data_cong [OF this]
    show ?thesis using that s1(5,6) image_neq [OF nx(1) that(2)] y unfolding arrival_def c by (cases d) auto
  qed
  then have "arrivals (U - set (dg_bufs x)) s1 ds ys"
    using xs(3) nx(3,4) unfolding arrivals_def by (auto intro: list.rel_mono_strong)
  then obtain st' where st': "udp_deliveries ds s1 = Ret st'" "rctl (urel st') = rctl (urel s1)" "rdg (urel st') = rdg (urel s1)"
    "udp_queue (U - set (dg_bufs x) - set (bufs_of ys)) st' (foldl dg_enqueue (dg_enqueue q x) ys)"
    using Cons.IH [OF s1(2)] by blast
  have "U - set (bufs_of xs) = U - set (dg_bufs x) - set (bufs_of ys)" using xs(1) by auto
  then show ?case using st' s1(1,3,4) e xs(1) by simp
qed

lemma dg_enqueue_prefix: "\<exists>z. foldl dg_enqueue q xs = q @ z"
proof (induction xs arbitrary: q)
  case (Cons x xs)
  obtain z where "foldl dg_enqueue (dg_enqueue q x) xs = dg_enqueue q x @ z" using Cons.IH by blast
  moreover have "dg_enqueue q x = q \<or> dg_enqueue q x = q @ [x]" by (simp add: dg_enqueue_def)
  ultimately show ?case by auto
qed simp

lemma dg_pool_bound: "length q \<le> 513 \<Longrightarrow> length (foldl dg_enqueue q xs) \<le> 513"
  by (induction xs arbitrary: q) (simp_all add: dg_enqueue_def)

lemma free_frames_queue:
  assumes "list_rep (frame_list (uobj st)) (map fst (xs @ q))" "\<forall>x \<in> set q. dg_rep st x" "distinct (bufs_of q)"
  shows "\<exists>st'. udp_free_frames (length q) (case map fst q of [] \<Rightarrow> None | n # _ \<Rightarrow> Some n) st = Ret st' \<and>
    (\<forall>a. fmlookup (objs (umem st')) a = (if a \<in> set (bufs_of q) then None else fmlookup (objs (umem st)) a)) \<and>
    (\<forall>n. uframes st' n = (if n \<in> fst ` set q then None else uframes st n)) \<and> uobj st' = uobj st"
  using assms
proof (induction q arbitrary: st xs)
  case (Cons x q)
  have d: "distinct (map fst (xs @ x # q))" using hl.rep_distinct [OF Cons.prems(1)] .
  have r: "dg_rep st x" using Cons.prems(2) by simp
  obtain f where f: "uframes st (fst x) = Some f" "f_data f = hd (dg_bufs x)" using r by (auto simp: dg_rep_def)
  obtain j where fr: "pbuf_free (Some (hd (dg_bufs x))) (umem st) = Ret (j, dg_free (dg_bufs x) (umem st))"
    using r dg_data_free [of "umem st" x] by (auto simp: dg_rep_def)
  have l: "list_rep (frame_list (uobj st)) (map fst xs @ fst x # map fst q)" using Cons.prems(1) by simp
  let ?st = "st\<lparr>umem := dg_free (dg_bufs x) (umem st), uframes := (uframes st)(fst x := None)\<rparr>"
  have "dg_rep ?st y" if "y \<in> set q" for y
  proof -
    have "fst y \<noteq> fst x" using that d image_neq [of fst x "set q" y] by simp
    moreover have "dg_rep st y" using Cons.prems(2) that by simp
    ultimately show ?thesis using dg_free_other [OF bufs_disjoint [OF Cons.prems(3) that]] by (simp add: dg_rep_def)
  qed
  moreover have "list_rep (frame_list (uobj ?st)) (map fst ((xs @ [x]) @ q))" using l by simp
  ultimately obtain st' where "udp_free_frames (length q) (case map fst q of [] \<Rightarrow> None | n # _ \<Rightarrow> Some n) ?st = Ret st'"
    "\<forall>a. fmlookup (objs (umem st')) a = (if a \<in> set (bufs_of q) then None else fmlookup (objs (umem ?st)) a)"
    "\<forall>n. uframes st' n = (if n \<in> fst ` set q then None else uframes ?st n)" "uobj st' = uobj ?st"
    using Cons.IH [of ?st "xs @ [x]"] Cons.prems(3) by auto
  then show ?case using f fr hl.rep_next [OF l] by (auto simp: Let_def)
qed simp

lemma queue_urel:
  assumes "frame_list (robj r) = frame_list (robj (urel st))" "frames (robj r) = frames (robj (urel st))"
  shows "udp_queue U (st\<lparr>urel := r\<rparr>) q = udp_queue U st q" "arrivals U (st\<lparr>urel := r\<rparr>) ds xs = arrivals U st ds xs"
  using assms by (simp_all add: udp_queue_def uobj_def dg_rep_def arrivals_def arrival_def [abs_def])

lemma destruct_queue:
  assumes "udp_queue U st q"
  shows "\<exists>st'. hev_socks5_session_udp_destruct w st = Ret (hev_socks5_client_udp_destruct (uobj st) w, st') \<and>
    fset (fmdom (objs (umem st'))) = U \<and> uframes st' = Map.empty \<and> (u_pcb (uobj st) \<longrightarrow> \<not> handler_set st')"
proof -
  note u = udp_queueD [OF assms]
  obtain st' where st': "udp_free_frames (length q) (case map fst q of [] \<Rightarrow> None | n # _ \<Rightarrow> Some n) st = Ret st'"
    "\<And>a. fmlookup (objs (umem st')) a = (if a \<in> set (bufs_of q) then None else fmlookup (objs (umem st)) a)"
    "\<And>n. uframes st' n = (if n \<in> fst ` set q then None else uframes st n)" "uobj st' = uobj st"
    using free_frames_queue [of st "[]" q] u(1,3,4) by auto
  have "fset (fmdom (objs (umem st'))) = fset (fmdom (objs (umem st))) - set (bufs_of q)"
  proof (rule set_eqI)
    fix a
    show "a \<in> fset (fmdom (objs (umem st'))) \<longleftrightarrow> a \<in> fset (fmdom (objs (umem st))) - set (bufs_of q)"
      using st'(2) [of a] by (simp add: fmlookup_dom_iff)
  qed
  then have "fset (fmdom (objs (umem st'))) = U" using u(6,7) by blast
  moreover have "uframes st' = Map.empty" using st'(3) u(5) by (auto simp: fun_eq_iff domIff)
  ultimately show ?thesis using st'(1,4) u(2) hl.rep_first [OF u(1)]
    by (auto simp: hev_socks5_session_udp_destruct_def Let_def uobj_def)
qed

text \<open>One round, whatever the socket does: the call cannot fault, and the datagrams that leave the queue are
  the first ones.\<close>

lemma fwd_f_queue:
  assumes "udp_queue U st q" "q \<noteq> []" "0 < num" "arrivals U st ds xs"
  shows "hev_socks5_session_udp_fwd_f num ds st \<noteq> Fault"
    "hev_socks5_session_udp_fwd_f num ds st = Ret (res, st') \<Longrightarrow>
      \<exists>k \<le> min num (length q). res = (if k = 0 then - 1 else 1) \<and>
        udp_queue (U - set (bufs_of xs)) st' (drop k (foldl dg_enqueue q xs)) \<and>
        (stype (uobj st) = TYPE_UDP_IN_UDP \<longrightarrow> dout (rdg (urel st')) =
           dout (rdg (urel st)) @ map (\<lambda>x. (None, udp_packet (dg_msg x))) (take k q))"
proof -
  note u = udp_queueD [OF assms(1)]
  let ?n = "min num (length q)" and ?r = "urel st"
  have n: "(if frames (uobj st) > int num then num else nat (frames (uobj st))) = ?n" using u(2) by simp
  obtain sm where sm: "fwd_f_msgs ?n (hev_list_first (frame_list (uobj st))) st = Ret sm"
    "list_all2 smsg_is sm (map dg_msg (take ?n q))"
    using fwd_f_msgs_queue [OF assms(1), of "[]" q ?n] hl.rep_first [OF u(1)] by auto
  have kr: "keeps_rest frame_list" "keeps_rest frames" by (simp_all add: keeps_rest_def)
  have eq: "hev_socks5_session_udp_fwd_f num ds st =
      bind_o (hev_socks5_udp_sendmmsg sm ?r) (\<lambda>(res, r). bind_o (udp_deliveries ds (st\<lparr>urel := r\<rparr>)) (\<lambda>st.
        if res \<le> 0 then Ret (- 1, st) else bind_o (fwd_f_done (nat res) st) (\<lambda>st. Ret (1, st))))"
    using assms(2) u(2) sm(1) n unfolding hev_socks5_session_udp_fwd_f_def Let_def by simp
  have step: "\<exists>k \<le> ?n. \<exists>s2. bind_o (udp_deliveries ds (st\<lparr>urel := r\<rparr>)) (\<lambda>st.
        if x \<le> 0 then Ret (- 1, st) else bind_o (fwd_f_done (nat x) st) (\<lambda>st. Ret (1, st))) = Ret (if k = 0 then - 1 else (1 :: int), s2) \<and>
      udp_queue (U - set (bufs_of xs)) s2 (drop k (foldl dg_enqueue q xs)) \<and>
      (stype (uobj st) = TYPE_UDP_IN_UDP \<longrightarrow> dout (rdg (urel s2)) =
           dout (rdg (urel st)) @ map (\<lambda>x. (None, udp_packet (dg_msg x))) (take k q))"
    if x: "hev_socks5_udp_sendmmsg sm ?r = Ret (x, r)" for x r
  proof -
    note e = sendmmsg_effect(2) [OF sm(2) x kr(1)] sendmmsg_effect(2) [OF sm(2) x kr(2)]
    obtain k where k: "k \<le> ?n" "if k = 0 then x \<le> 0 else x = int k" "stype (robj ?r) = TYPE_UDP_IN_UDP \<longrightarrow>
        dout (rdg r) = dout (rdg ?r) @ take k (map (\<lambda>m. (None, udp_packet m)) (map dg_msg (take ?n q)))"
      using sendmmsg_effect(3) [OF sm(2) x] by auto
    have d: "take k (map (\<lambda>m. (None, udp_packet m)) (map dg_msg (take ?n q))) = map (\<lambda>x. (None, udp_packet (dg_msg x))) (take k q)"
      using k(1) by (simp add: take_map min_def)
    have s: "udp_queue U (st\<lparr>urel := r\<rparr>) q" "arrivals U (st\<lparr>urel := r\<rparr>) ds xs" using assms(1,4) queue_urel [OF e] by simp_all
    obtain s1 where s1: "udp_deliveries ds (st\<lparr>urel := r\<rparr>) = Ret s1"
      "udp_queue (U - set (bufs_of xs)) s1 (foldl dg_enqueue q xs)" "rdg (urel s1) = rdg r" using deliveries_queue [OF s] by auto
    have "k \<le> length (foldl dg_enqueue q xs)" using dg_enqueue_prefix [of q xs] k(1) by auto
    then obtain s2 where s2: "fwd_f_done k s1 = Ret s2" "udp_queue (U - set (bufs_of xs)) s2 (drop k (foldl dg_enqueue q xs))"
      "rdg (urel s2) = rdg r" using fwd_f_done_queue [OF s1(2), of k] s1(3) by metis
    show ?thesis using k s1 s2 d by (intro exI [of _ k] conjI exI [of _ s2]) (auto simp: uobj_def)
  qed
  show "hev_socks5_session_udp_fwd_f num ds st \<noteq> Fault"
  proof (cases "hev_socks5_udp_sendmmsg sm ?r")
    case (Ret y)
    then obtain x r where y: "hev_socks5_udp_sendmmsg sm ?r = Ret (x, r)" by (cases y) simp
    show ?thesis using step [OF y] unfolding eq y bind_o_simps prod.case by (elim exE conjE) simp
  next
    case Fault
    then show ?thesis using sendmmsg_effect(1) [OF sm(2), of ?r] by simp
  qed (simp add: eq)
  assume "hev_socks5_session_udp_fwd_f num ds st = Ret (res, st')"
  then obtain x r where x: "hev_socks5_udp_sendmmsg sm ?r = Ret (x, r)" and
    b: "bind_o (udp_deliveries ds (st\<lparr>urel := r\<rparr>)) (\<lambda>st. if x \<le> 0 then Ret (- 1, st)
      else bind_o (fwd_f_done (nat x) st) (\<lambda>st. Ret (1, st))) = Ret (res, st')"
    unfolding eq by (cases "hev_socks5_udp_sendmmsg sm ?r") auto
  obtain k s2 where "k \<le> ?n" "(res, st') = (if k = 0 then - 1 else 1, s2)"
    "udp_queue (U - set (bufs_of xs)) s2 (drop k (foldl dg_enqueue q xs))"
    "stype (uobj st) = TYPE_UDP_IN_UDP \<longrightarrow> dout (rdg (urel s2)) =
       dout (rdg (urel st)) @ map (\<lambda>x. (None, udp_packet (dg_msg x))) (take k q)"
    using step [OF x] unfolding b outcome.inject by blast
  then show "\<exists>k \<le> ?n. res = (if k = 0 then - 1 else 1) \<and>
        udp_queue (U - set (bufs_of xs)) st' (drop k (foldl dg_enqueue q xs)) \<and>
        (stype (uobj st) = TYPE_UDP_IN_UDP \<longrightarrow> dout (rdg (urel st')) =
           dout (rdg (urel st)) @ map (\<lambda>x. (None, udp_packet (dg_msg x))) (take k q))"
    by blast
qed

text \<open>With a socket that takes the data, the UDP-in-TCP form sends as many datagrams as fit the round.\<close>

lemma fwd_f_tcp:
  assumes "udp_queue U st q" "q \<noteq> []" "0 < num" "arrivals U st ds xs"
    and "stype (uobj st) = TYPE_UDP_IN_TCP" "live (uobj st)"
    and "tx_ready (length (udp_frames (map dg_msg (take num q)))) (txs (rctl (urel st)))"
  shows "\<exists>st'. hev_socks5_session_udp_fwd_f num ds st = Ret (1, st') \<and>
    wire (rctl (urel st')) = wire (rctl (urel st)) @ udp_frames (map dg_msg (take num q)) \<and>
    udp_queue (U - set (bufs_of xs)) st' (drop (min num (length q)) (foldl dg_enqueue q xs))"
proof -
  note u = udp_queueD [OF assms(1)]
  let ?k = "min num (length q)" and ?r = "urel st"
  have tk: "take ?k q = take num q" by (simp add: min_def)
  have k: "(if frames (uobj st) > int num then num else nat (frames (uobj st))) = ?k" using u(2) by simp
  obtain sm where sm: "fwd_f_msgs ?k (hev_list_first (frame_list (uobj st))) st = Ret sm"
    "list_all2 smsg_is sm (map dg_msg (take num q))"
    using fwd_f_msgs_queue [OF assms(1), of "[]" q ?k] hl.rep_first [OF u(1)] tk by auto
  obtain c where c: "hev_socks5_udp_sendmmsg_tcp sm (robj ?r) ((rctl ?r)\<lparr>errno_of := rerrno ?r\<rparr>) = Ret (int ?k, robj ?r, c)"
    "wire c = wire (rctl ?r) @ udp_frames (map dg_msg (take num q))"
  proof (rule sendmmsg_tcp_msgs [OF _ sm(2), of "robj ?r" "(rctl ?r)\<lparr>errno_of := rerrno ?r\<rparr>"])
    show "udp_live (robj ?r, [])" using assms(5,6) by (simp add: udp_live_def uobj_def)
  qed (use assms(2,3,7) in \<open>auto simp: min_def\<close>)
  let ?s = "st\<lparr>urel := ?r\<lparr>robj := robj ?r, rctl := c, rerrno := errno_of c\<rparr>\<rparr>"
  have s: "udp_queue U ?s q" "arrivals U ?s ds xs" using assms(1,4) queue_urel by simp_all
  obtain s1 where s1: "udp_deliveries ds ?s = Ret s1" "udp_queue (U - set (bufs_of xs)) s1 (foldl dg_enqueue q xs)"
    "rctl (urel s1) = c" using deliveries_queue [OF s] by auto
  have "?k \<le> length (foldl dg_enqueue q xs)" using dg_enqueue_prefix [of q xs] by auto
  then obtain s2 where s2: "fwd_f_done ?k s1 = Ret s2" "rctl (urel s2) = c"
    "udp_queue (U - set (bufs_of xs)) s2 (drop ?k (foldl dg_enqueue q xs))"
    using fwd_f_done_queue [OF s1(2), of ?k] s1(3) by metis
  have "hev_socks5_session_udp_fwd_f num ds st = Ret (1, s2)"
    using assms(2,3,5) u(2) sm(1) c(1) s1(1) s2(1)
    unfolding hev_socks5_session_udp_fwd_f_def Let_def k
    by (simp add: hev_socks5_udp_sendmmsg_def uobj_def)
  then show ?thesis using s2 c(2) by auto
qed

section \<open>Theorems\<close>

text \<open>C11. The waiting datagrams of a UDP session are a queue with room for 513. A round that sends to the
  proxy, in either form and whatever the socket does, never faults; while it waits lwIP may deliver more,
  each delivery with memory for its frame.
  If it returns, the first \<open>k\<close> datagrams have left the queue and their packet buffers and frames are
  freed, the rest and the newly delivered ones are kept in order, dropping what exceeds the room, and the
  result says whether \<open>k\<close> is positive; destroying the session afterwards frees whatever is left, so no
  packet buffer or frame leaks or is freed twice. In the UDP-in-UDP form exactly these \<open>k\<close> datagrams were
  given to the socket; in the UDP-in-TCP form, when the socket takes the data and the session is not
  terminated, \<open>k\<close> is as large as it can be and the \<open>k\<close> datagrams were written as frames. Each carries the
  destination it had (the name where the mapped DNS knows one) and the bytes of its first packet buffer:
  all its bytes when lwIP delivered it in one buffer, fewer when it came as a chain.\<close>

theorem udp_session_queue:
  assumes "udp_queue U st q" "q \<noteq> []" "length q \<le> 513" "0 < num" "arrivals U st ds xs"
  shows "hev_socks5_session_udp_fwd_f num ds st \<noteq> Fault \<and>
    (\<forall>res st'. hev_socks5_session_udp_fwd_f num ds st = Ret (res, st') \<longrightarrow>
       (\<exists>k \<le> min num (length q). res = (if k = 0 then - 1 else 1) \<and>
          udp_queue (U - set (bufs_of xs)) st' (drop k (foldl dg_enqueue q xs)) \<and>
          length (drop k (foldl dg_enqueue q xs)) \<le> 513 \<and>
          (stype (uobj st) = TYPE_UDP_IN_UDP \<longrightarrow> dout (rdg (urel st')) =
             dout (rdg (urel st)) @ map (\<lambda>x. (None, udp_packet (dg_msg x))) (take k q)) \<and>
          (\<exists>st''. hev_socks5_session_udp_destruct w st' = Ret (hev_socks5_client_udp_destruct (uobj st') w, st'') \<and>
             fset (fmdom (objs (umem st''))) = U - set (bufs_of xs) \<and> uframes st'' = Map.empty))) \<and>
    (stype (uobj st) = TYPE_UDP_IN_TCP \<and> live (uobj st) \<and>
       tx_ready (length (udp_frames (map dg_msg (take num q)))) (txs (rctl (urel st))) \<longrightarrow>
       (\<exists>st'. hev_socks5_session_udp_fwd_f num ds st = Ret (1, st') \<and>
          wire (rctl (urel st')) = wire (rctl (urel st)) @ udp_frames (map dg_msg (take num q)) \<and>
          udp_queue (U - set (bufs_of xs)) st' (drop (min num (length q)) (foldl dg_enqueue q xs))))"
proof (intro conjI allI impI)
  show "hev_socks5_session_udp_fwd_f num ds st \<noteq> Fault" by (rule fwd_f_queue(1) [OF assms(1,2,4,5)])
  fix res st' assume "hev_socks5_session_udp_fwd_f num ds st = Ret (res, st')"
  from fwd_f_queue(2) [OF assms(1,2,4,5) this] obtain k where k: "k \<le> min num (length q)" "res = (if k = 0 then - 1 else 1)"
    "udp_queue (U - set (bufs_of xs)) st' (drop k (foldl dg_enqueue q xs))"
    "stype (uobj st) = TYPE_UDP_IN_UDP \<longrightarrow> dout (rdg (urel st')) =
       dout (rdg (urel st)) @ map (\<lambda>x. (None, udp_packet (dg_msg x))) (take k q)" by blast
  moreover have "length (drop k (foldl dg_enqueue q xs)) \<le> 513" using dg_pool_bound [OF assms(3), of xs] by simp
  ultimately show "\<exists>k \<le> min num (length q). res = (if k = 0 then - 1 else 1) \<and>
          udp_queue (U - set (bufs_of xs)) st' (drop k (foldl dg_enqueue q xs)) \<and>
          length (drop k (foldl dg_enqueue q xs)) \<le> 513 \<and>
          (stype (uobj st) = TYPE_UDP_IN_UDP \<longrightarrow> dout (rdg (urel st')) =
             dout (rdg (urel st)) @ map (\<lambda>x. (None, udp_packet (dg_msg x))) (take k q)) \<and>
          (\<exists>st''. hev_socks5_session_udp_destruct w st' = Ret (hev_socks5_client_udp_destruct (uobj st') w, st'') \<and>
             fset (fmdom (objs (umem st''))) = U - set (bufs_of xs) \<and> uframes st'' = Map.empty)"
    using destruct_queue [OF k(3), of w] by blast
next
  assume "stype (uobj st) = TYPE_UDP_IN_TCP \<and> live (uobj st) \<and>
       tx_ready (length (udp_frames (map dg_msg (take num q)))) (txs (rctl (urel st)))"
  then show "\<exists>st'. hev_socks5_session_udp_fwd_f num ds st = Ret (1, st') \<and>
          wire (rctl (urel st')) = wire (rctl (urel st)) @ udp_frames (map dg_msg (take num q)) \<and>
          udp_queue (U - set (bufs_of xs)) st' (drop (min num (length q)) (foldl dg_enqueue q xs))"
    using fwd_f_tcp [OF assms(1,2,4,5)] by blast
qed

text \<open>Two datagrams wait, the first in a chain of two packet buffers; a third arrives during the send, and two
  are sent at a time.\<close>

definition demo_usess :: usess where
  "demo_usess = \<lparr>urel = \<lparr>robj = \<lparr>sfd = 4, timeout = 60000, udp_associated = 0, stype = TYPE_UDP_IN_TCP,
       family = FAMILY_UNSPEC, auth_user = None, auth_pass = None, udp_fd = - 1,
       frame_list = hev_list_add_tail 7 (hev_list_add_tail 5 hev_list_new), frames = 2, u_addr = 0, u_port = 0, u_pcb = True\<rparr>,
       rctl = demo_tx, rdg = \<lparr>drx = [], dtx = [], dout = [], dpeer = None, derrno = E_NONE\<rparr>,
       rout = \<lparr>drx = [], dtx = [], dout = [], dpeer = None, derrno = E_NONE\<rparr>, rbind = True, rerrno = E_NONE\<rparr>,
     umem = \<lparr>objs = fmupd 1 (demo_buf (Some 4) [1, 2, 3] 5) (fmupd 4 (demo_buf None [8, 8] 2) (fmupd 2 (demo_buf None [] 0)
       (fmupd 3 (demo_buf None [9] 1) fmempty))), spare = []\<rparr>,
     uframes = [5 \<mapsto> \<lparr>f_addr = saddr_enc (SV4 [10, 0, 0, 1] 53), f_data = 1\<rparr>,
       7 \<mapsto> \<lparr>f_addr = saddr_enc (SName [97, 98] 443), f_data = 2\<rparr>],
     send_ok = [], usent = [], udns = None, handler_set = True\<rparr>"

abbreviation demo_arriving :: udelivery where
  "demo_arriving \<equiv> (Some 3, (\<lparr>ip_mem = [10, 0, 0, 2] @ replicate 12 0, ip_type = IPADDR_TYPE_V4\<rparr>, 53), Some (9, replicate 260 0))"

abbreviation demo_waiting :: "dgram list" where
  "demo_waiting \<equiv> [(5, [1, 4], SV4 [10, 0, 0, 1] 53, [1, 2, 3]), (7, [2], SName [97, 98] 443, [])]"

lemma demo_udp_queue:
  "udp_queue {3} demo_usess demo_waiting"
  "arrivals {3} demo_usess [demo_arriving] [(9, [3], SV4 [10, 0, 0, 2] 53, [9])]"
proof -
  have l: "list_rep (hev_list_add_tail 7 (hev_list_add_tail 5 hev_list_new)) ([] @ [5] @ [7])"
    using hl.rep_add_tail [OF hl.rep_add_tail [OF hl.rep_empty, of 5], of 7] by simp
  show "udp_queue {3} demo_usess demo_waiting"
    using l by (auto simp: udp_queue_def demo_usess_def uobj_def dg_rep_def dg_data_def demo_buf_def buf_ok_def pbytes_def
        names_ok_def)
  show "arrivals {3} demo_usess [demo_arriving] [(9, [3], SV4 [10, 0, 0, 2] 53, [9])]"
    by (simp add: arrivals_def arrival_def demo_usess_def dg_data_def demo_buf_def buf_ok_def pbytes_def dest_of_def
        dns_name_of_def saddr_of_ip_def)
qed

theorem udp_session_queue_witness:
  "\<exists>st' st''. hev_socks5_session_udp_fwd_f 2 [demo_arriving] demo_usess = Ret (1, st') \<and>
    wire (rctl (urel st')) = [7] @ udp_frames demo_frames \<and>
    udp_queue {} st' [(9, [3], SV4 [10, 0, 0, 2] 53, [9])] \<and>
    hev_socks5_session_udp_destruct demo_os st' = Ret (hev_socks5_client_udp_destruct (uobj st') demo_os, st'') \<and>
    fset (fmdom (objs (umem st''))) = {} \<and> uframes st'' = Map.empty"
proof -
  have len: "length (udp_frames demo_frames) = 22"
    by (simp add: demo_frames_def udp_frame_def udp_tcp_hdr_def)
  have tx: "tx_ready (length (udp_frames demo_frames)) (txs (rctl (urel demo_usess)))" "wire (rctl (urel demo_usess)) = [7]"
    "stype (uobj demo_usess) = TYPE_UDP_IN_TCP" "live (uobj demo_usess)"
    by (simp_all add: len demo_usess_def demo_tx_def calm_def uobj_def live_def)
  have m: "map dg_msg (take 2 demo_waiting) = demo_frames" by (simp add: demo_frames_def)
  have q: "demo_waiting \<noteq> []" "length demo_waiting \<le> 513" "(0 :: nat) < 2" by simp_all
  note t = udp_session_queue [OF demo_udp_queue(1) q demo_udp_queue(2), of demo_os, unfolded m]
  obtain st' where st': "hev_socks5_session_udp_fwd_f 2 [demo_arriving] demo_usess = Ret (1, st')"
    "wire (rctl (urel st')) = [7] @ udp_frames demo_frames"
    "udp_queue {} st' [(9, [3], SV4 [10, 0, 0, 2] 53, [9])]"
    using t tx by (auto simp: dg_enqueue_def)
  then show ?thesis using t by fastforce
qed

text \<open>C38. A session whose proxy relays datagrams over UDP dereferences a null pointer when a datagram of fewer
  than four bytes arrives before any datagram went to a name.\<close>

theorem udp_session_short_datagram_faults:
  assumes "stype (uobj st) = TYPE_UDP_IN_UDP" "udp_associated (uobj st) \<noteq> 0" "u_addr (uobj st) = 0"
    and "drx (rdg (urel st)) = [DgData sa d]" "length d < 4" "length buf = UDP_BUF_SIZE"
  shows "hev_socks5_session_udp_fwd_b (buf # bufs) (junk # junks) st = Fault"
proof -
  have t: "take (length buf) d = d" using assms(5,6) by simp
  obtain n where "hev_socks5_addr_len (drop 3 (put 0 d buf)) = Ret n"
    using addr_len_total [of "drop 3 (put 0 d buf)"] assms(5,6) by auto
  moreover have "dg_take k [] = ([], [])" for k by (cases k) simp_all
  ultimately show ?thesis using t assms
    by (auto simp: hev_socks5_session_udp_fwd_b_def hev_socks5_udp_recvmmsg_def hev_socks5_udp_recvmmsg_udp_def
        hev_task_io_socket_recvmmsg_def uobj_def reply_source_def umsg_addr_def Let_def)
qed

definition demo_short :: usess where
  "demo_short = demo_usess\<lparr>urel := (urel demo_usess)\<lparr>robj := (robj (urel demo_usess))\<lparr>stype := TYPE_UDP_IN_UDP, udp_associated := 1\<rparr>,
     rdg := (rdg (urel demo_usess))\<lparr>drx := [DgData sockaddr6_zero [1, 2]]\<rparr>\<rparr>\<rparr>"

theorem udp_session_short_datagram_faults_witness:
  "hev_socks5_session_udp_fwd_b [replicate UDP_BUF_SIZE 0] [\<lparr>ip_mem = replicate 16 0, ip_type = 0\<rparr>] demo_short = Fault"
  by (rule udp_session_short_datagram_faults [where sa = sockaddr6_zero and d = "[1, 2]"]) (simp_all add: demo_short_def demo_usess_def uobj_def)

end
