(* ===== verification/Session.thy ===== *)
theory Session
  imports SessionUdp
begin

text \<open>
  A session from end to end (\<open>src/hev-socks5-session.c\<close>): connect to the proxy, authenticate as the
  configuration says, ask for the destination, and splice until both directions have ended. The two
  classes differ in their splicer and in the address they ask for.
\<close>

section \<open>Operations\<close>

text \<open>\<open>set_sock_mark\<close> tells whether the kernel accepts the mark; the fast-open option may fail unnoticed.\<close>

definition hev_socks5_session_bind :: "config \<Rightarrow> (fd \<Rightarrow> u32 \<Rightarrow> bool) \<Rightarrow> 'a \<Rightarrow> fd \<Rightarrow> sockaddr6 \<Rightarrow> int" where
  "hev_socks5_session_bind cf set_sock_mark self fd dest =
     (let mark = cs_mark (hev_config_get_socks5_server cf) in
      if mark \<noteq> 0 \<and> \<not> set_sock_mark fd mark then - 1 else 0)"

definition session_connect :: "config \<Rightarrow> socks5_params \<Rightarrow> resolver \<Rightarrow> (fd \<Rightarrow> u32 \<Rightarrow> bool) \<Rightarrow> 'a client_scheme \<Rightarrow> os \<Rightarrow>
    (int \<times> 'a client_scheme \<times> os) outcome" where
  "session_connect cf g rv set_mark self w =
     (let s = hev_config_get_socks5_server cf in
      bind_o (of_option (cstr_at (srv_addr s) 0)) (\<lambda>addr.
        hev_socks5_client_connect g rv (hev_socks5_session_bind cf set_mark) addr (uint (cs_port s)) self w))"

definition session_auth :: "config \<Rightarrow> 'a client_scheme \<Rightarrow> 'a client_scheme" where
  "session_auth cf self =
     (let s = hev_config_get_socks5_server cf in
      if cs_user s \<noteq> None \<and> cs_pass s \<noteq> None
      then hev_socks5_client_set_auth self (cs_user s) (cs_pass s) else self)"

text \<open>The run of a TCP session. \<open>es1\<close> and \<open>es2\<close> are what lwIP does during the connect and during the
  handshake, \<open>ts\<close> the turns of the splice; the first component says whether the session has ended.\<close>

definition session_run_tcp :: "config \<Rightarrow> socks5_params \<Rightarrow> resolver \<Rightarrow> (fd \<Rightarrow> u32 \<Rightarrow> bool) \<Rightarrow>
    lwip_event list \<Rightarrow> lwip_event list \<Rightarrow> byte list \<Rightarrow> turn list \<Rightarrow> tsess \<Rightarrow> os \<Rightarrow> (bool \<times> tsess \<times> os) outcome" where
  "session_run_tcp cf g rv set_mark es1 es2 ring_mem ts st w =
     bind_o (session_connect cf g rv set_mark (tobj st) w) (\<lambda>(res, self, w).
     bind_o (lwip_steps es1 (st\<lparr>tobj := self\<rparr>)) (\<lambda>st.
       if res < 0 then Ret (True, st, w)
       else let st = set_obj (session_auth cf) st in
         bind_o (hev_socks5_client_handshake g hev_socks5_client_tcp_class (pipeline (hev_config_get_socks5_server cf))
             (tobj st) (tchan st) w) (\<lambda>(res, self, c, w).
         bind_o (lwip_steps es2 (st\<lparr>tobj := self, tchan := c\<rparr>)) (\<lambda>st.
           if res < 0 then Ret (True, st, w)
           else bind_o (hev_socks5_session_tcp_splice (nat (hev_config_get_misc_tcp_buffer_size cf)) ring_mem ts st)
             (\<lambda>(ended, st). Ret (ended, st, w))))))"

definition session_udp_class :: "config \<Rightarrow> resolver \<Rightarrow> (fd \<Rightarrow> u32 \<Rightarrow> bool) \<Rightarrow> byte list \<Rightarrow> session_udp client_class" where
  "session_udp_class cf rv set_mark junk =
     (hev_socks5_client_udp_class rv (hev_socks5_session_bind cf set_mark))\<lparr>set_upstream_addr :=
        hev_socks5_session_udp_set_upstream_addr cf rv (hev_socks5_session_bind cf set_mark) junk\<rparr>"

definition session_run_udp :: "config \<Rightarrow> socks5_params \<Rightarrow> resolver \<Rightarrow> (fd \<Rightarrow> u32 \<Rightarrow> bool) \<Rightarrow> byte list \<Rightarrow>
    udelivery list \<Rightarrow> udelivery list \<Rightarrow> uround \<Rightarrow> (nap \<times> udelivery list \<times> uround) list \<Rightarrow> usess \<Rightarrow> os \<Rightarrow>
    (usess \<times> os) outcome" where
  "session_run_udp cf g rv set_mark junk ds1 ds2 env ts st w =
     bind_o (session_connect cf g rv set_mark (uobj st) w) (\<lambda>(res, self, w).
     bind_o (udp_deliveries ds1 (set_uobj (\<lambda>_. self) st)) (\<lambda>st.
       if res < 0 then Ret (st, w)
       else let st = set_uobj (session_auth cf) st in
         bind_o (hev_socks5_client_handshake g (session_udp_class cf rv set_mark junk)
             (pipeline (hev_config_get_socks5_server cf)) (uobj st) (rctl (urel st)) w) (\<lambda>(res, self, c, w).
         bind_o (udp_deliveries ds2 (st\<lparr>urel := (urel st)\<lparr>robj := self, rctl := c\<rparr>\<rparr>)) (\<lambda>st.
           if res < 0 then Ret (st, w)
           else bind_o (hev_socks5_session_udp_splice env ts st) (\<lambda>st. Ret (st, w))))))"

section \<open>The handshake leaves the socket open\<close>

definition quiet :: "('a, 's) act \<Rightarrow> bool" where
  "quiet m \<longleftrightarrow> (\<forall>s c w x s' c' w'. m s c w = Ret (x, s', c', w') \<longrightarrow> wr_shut c' = wr_shut c)"

lemma quiet_bind: "quiet m \<Longrightarrow> (\<And>x. quiet (f x)) \<Longrightarrow> quiet (bind_a m f)"
  unfolding quiet_def bind_a_def by (fastforce simp: bind_o_Ret_iff split: prod.splits)

lemma quiet_basic:
  "quiet (ret_a x)" "quiet get_a" "quiet (upd_a f)" "quiet (lift_a y)" "quiet (recv_a n)" "quiet (send_a bs)"
  "quiet (sendmsg_a iov)" "quiet (get_upstream_a k)" "quiet (set_upstream_a k a)"
  by (auto simp: quiet_def act_defs recv_a_def send_a_def sendmsg_a_eq hev_task_io_socket_recv_def get_upstream_a_def
      set_upstream_a_def hev_task_io_socket_send_def bind_o_Ret_iff split: prod.splits option.splits)

lemma quiet_if: "quiet a \<Longrightarrow> quiet b \<Longrightarrow> quiet (if P then a else b)"
  by simp

lemma quiet_andthen: "quiet m \<Longrightarrow> quiet k \<Longrightarrow> quiet (andthen m k)"
  unfolding andthen_def by (intro quiet_bind quiet_if quiet_basic)

lemma quiet_option: "quiet a \<Longrightarrow> (\<And>x. quiet (f x)) \<Longrightarrow> quiet (case y of None \<Rightarrow> a | Some x \<Rightarrow> f x)"
  by (cases y) simp_all

lemma quiet_prod: "(\<And>x y. quiet (f x y)) \<Longrightarrow> quiet (case p of (x, y) \<Rightarrow> f x y)"
  by (cases p) simp

lemmas quiet_intros = quiet_bind quiet_basic quiet_if quiet_andthen quiet_option quiet_prod

lemma quiet_parts:
  "quiet hev_socks5_client_write_auth_methods" "quiet hev_socks5_client_write_auth_creds"
  "quiet (hev_socks5_client_write_request k)" "quiet hev_socks5_client_read_auth_method"
  "quiet hev_socks5_client_read_auth_creds" "quiet (hev_socks5_client_read_response k)"
  unfolding hev_socks5_client_write_auth_methods_def hev_socks5_client_write_auth_creds_def Let_def
    hev_socks5_client_write_request_def hev_socks5_client_read_auth_method_def
    hev_socks5_client_read_auth_creds_def hev_socks5_client_read_response_def
  by (intro quiet_intros)+

lemma quiet_handshake: "quiet (hev_socks5_client_handshake g k p)"
  unfolding hev_socks5_client_handshake_def hev_socks5_client_handshake_standard_def
    hev_socks5_client_handshake_pipeline_def
  by (intro quiet_intros quiet_parts)

section \<open>What the set-up keeps\<close>

definition strip :: "'a socks5_scheme \<Rightarrow> 'a socks5_scheme" where
  "strip s = s\<lparr>timeout := 0, sfd := 0, family := FAMILY_UNSPEC\<rparr>"

lemma strip_upd [simp]:
  "strip (s\<lparr>timeout := t\<rparr>) = strip s" "strip (s\<lparr>sfd := fd\<rparr>) = strip s" "strip (s\<lparr>family := f\<rparr>) = strip s"
  by (simp_all add: strip_def)

lemma client_connect_keeps:
  assumes "hev_socks5_client_connect g rv binder addr port self w = Ret (r, self', w')"
  shows "strip self' = strip self"
proof -
  have "strip s' = strip (self\<lparr>timeout := connect_timeout g\<rparr>)"
    if "hev_task_io_socket_connect (Some hev_socks5_task_io_yielder) (self\<lparr>timeout := connect_timeout g\<rparr>) evs =
      Ret (x, s', evs')" for s' evs x evs'
    by (rule connect_keeps_rest [OF _ that]) (simp add: keeps_rest_def)
  then have k: "strip s' = strip self"
    if "hev_task_io_socket_connect (Some hev_socks5_task_io_yielder) (self\<lparr>timeout := connect_timeout g\<rparr>) evs =
      Ret (x, s', evs')" for s' evs x evs' using that by simp
  show ?thesis using assms
    by (auto simp: hev_socks5_client_connect_def Let_def bind_o_Ret_iff hev_socks5_set_timeout_def
        hev_socks5_set_addr_family_def split: if_splits prod.splits dest!: k)
qed

lemma strip_fields:
  fixes s s' :: session_tcp
  assumes "strip s' = strip s"
  shows "queue s' = queue s" "pcb s' = pcb s" "pcb_eof s' = pcb_eof s" "buffer s' = buffer s" "tcp_addr s' = tcp_addr s"
    "stype s' = stype s" "auth_user s' = auth_user s" "auth_pass s' = auth_pass s"
  using arg_cong [OF assms, of queue] arg_cong [OF assms, of pcb] arg_cong [OF assms, of pcb_eof]
    arg_cong [OF assms, of buffer] arg_cong [OF assms, of tcp_addr] arg_cong [OF assms, of stype]
    arg_cong [OF assms, of auth_user] arg_cong [OF assms, of auth_pass]
  by (simp_all add: strip_def)

text \<open>Before the splice lwIP may deliver bytes and the end of the stream.\<close>

lemma start_step:
  assumes i: "sess_start st" "buffer (tobj st) = None" and e: "e \<noteq> LwErr"
  shows "\<exists>st' q f. lwip_step e st = Ret st' \<and> sess_start st' \<and> tobj st' = (tobj st)\<lparr>queue := q, pcb_eof := f\<rparr> \<and>
    tchan st' = tchan st"
proof (cases "lwip_may e st")
  case False
  then show ?thesis using i by (intro exI [of _ st] exI [of _ "queue (tobj st)"] exI [of _ "pcb_eof (tobj st)"])
      (simp add: lwip_step_def)
next
  case may: True
  show ?thesis
  proof (cases e)
    case (LwRecv bs)
    obtain q' m' where r: "lwip_step e st = Ret (st\<lparr>tmem := m', tobj := (tobj st)\<lparr>queue := q'\<rparr>,
          tpcb := (tpcb st)\<lparr>inlog := inlog (tpcb st) @ chain_bytes (deliver bs (tmem st)) (map fst bs)\<rparr>\<rparr>)"
      "fwd_inv (wire (tchan st)) (st\<lparr>tmem := m', tobj := (tobj st)\<lparr>queue := q'\<rparr>,
          tpcb := (tpcb st)\<lparr>inlog := inlog (tpcb st) @ chain_bytes (deliver bs (tmem st)) (map fst bs)\<rparr>\<rparr>)"
      using recv_handler_inv [of "wire (tchan st)" st bs] may LwRecv i(1) by (auto simp: sess_start_def)
    show ?thesis
      by (rule exI, rule exI [of _ q'], rule exI [of _ "pcb_eof (tobj st)"], rule conjI [OF r(1)])
        (use r(2) i(1) in \<open>simp add: sess_start_def\<close>)
  next
    case LwFin
    have "(tobj st)\<lparr>pcb_eof := True\<rparr> = (tobj st)\<lparr>queue := queue (tobj st), pcb_eof := True\<rparr>" by simp
    then show ?thesis using LwFin may i(1)
      by (intro exI [of _ "set_obj (\<lambda>s. s\<lparr>pcb_eof := True\<rparr>) st"] exI [of _ "queue (tobj st)"] exI [of _ True])
        (auto simp: lwip_step_def tcp_recv_handler_def set_obj_def sess_start_def fwd_inv_def)
  next
    case (LwSent n) then show ?thesis using may i(2) by (simp add: lwip_may_def)
  next
    case LwErr then show ?thesis using e by simp
  qed
qed

lemma start_steps:
  assumes "sess_start st" "buffer (tobj st) = None" "LwErr \<notin> set es"
  shows "\<exists>st' q f. lwip_steps es st = Ret st' \<and> sess_start st' \<and> tobj st' = (tobj st)\<lparr>queue := q, pcb_eof := f\<rparr> \<and>
    tchan st' = tchan st"
  using assms
proof (induction es arbitrary: st)
  case Nil
  then show ?case by (intro exI [of _ st] exI [of _ "queue (tobj st)"] exI [of _ "pcb_eof (tobj st)"]) simp
next
  case (Cons e es)
  obtain s1 q f where s1: "lwip_step e st = Ret s1" "sess_start s1" "tobj s1 = (tobj st)\<lparr>queue := q, pcb_eof := f\<rparr>"
    "tchan s1 = tchan st" using start_step [OF Cons.prems(1,2), of e] Cons.prems(3) by auto
  obtain s2 q' f' where s2: "lwip_steps es s1 = Ret s2" "sess_start s2" "tobj s2 = (tobj s1)\<lparr>queue := q', pcb_eof := f'\<rparr>"
    "tchan s2 = tchan s1" using Cons.IH [OF s1(2)] s1(3) Cons.prems(2,3) by auto
  then show ?case using s1 by (intro exI [of _ s2] exI [of _ q'] exI [of _ f']) simp
qed

text \<open>Changing what the handshake changes keeps a session ready for the splice.\<close>

lemma start_update:
  assumes "sess_start st" "pcb self" "queue self = queue (tobj st)" "pcb_eof self = pcb_eof (tobj st)"
    "wr_shut c = wr_shut (tchan st)"
  shows "sess_start (st\<lparr>tobj := self, tchan := c\<rparr>)"
  using assms by (auto simp: sess_start_def fwd_inv_def)

lemma tcp_handshake_granted:
  fixes s :: "'a client_tcp_scheme"
  assumes "chan_st (server_grant (client_method s) rsv b) r out (length (client_hello s HEV_SOCKS5_REQ_CMD_CONNECT a)) c"
    and "tcp_timeout g \<noteq> 0" "saddr_wf a" "saddr_wf b" "is_ip b" "creds_ok s"
    and "stype s = TYPE_TCP" "tcp_addr s = Some (saddr_enc a @ z)"
  obtains c' where "hev_socks5_client_handshake g hev_socks5_client_tcp_class p s c w =
      Ret (0, s\<lparr>timeout := tcp_timeout g, tcp_addr := None\<rparr>, c', w)"
    "wire c' = out @ client_hello s HEV_SOCKS5_REQ_CMD_CONNECT a" "rx_stream (rxs c') = r" "wr_shut c' = wr_shut c"
proof -
  let ?s1 = "hev_socks5_set_timeout s (tcp_timeout g)" and ?K = hev_socks5_client_tcp_class
  let ?s' = "s\<lparr>timeout := tcp_timeout g, tcp_addr := None\<rparr>"
  have get: "get_upstream_addr ?K ?s1 w = (Some (saddr_enc a @ z), ?s')"
    and set: "set_upstream_addr ?K (saddr_enc b) ?s' w = Ret (0, ?s', w)" and live: "live ?s'"
    and cmd: "req_cmd (stype s) = Some HEV_SOCKS5_REQ_CMD_CONNECT"
    using assms by (simp_all add: hev_socks5_client_tcp_class_def req_cmd_def live_def
        hev_socks5_client_tcp_get_upstream_addr_def hev_socks5_client_tcp_set_upstream_addr_def hev_socks5_set_timeout_def)
  note h = runs_handshake [OF assms(1,2) live assms(3-6) cmd get set, of p]
  obtain c' where c': "hev_socks5_client_handshake g ?K p s c w = Ret (0, ?s', c', w)"
    "chan_st [] r (out @ client_hello s HEV_SOCKS5_REQ_CMD_CONNECT a) 0 c'"
    using h assms(7) by (auto simp: runs_def)
  have "wr_shut c' = wr_shut c" using quiet_handshake c'(1) unfolding quiet_def by blast
  then show thesis using that c' by (simp add: chan_st_def)
qed

lemma session_auth_ok:
  assumes "cfg_ok cf" "auth_user s = None"
  shows "creds_ok (session_auth cf s)"
  using assms by (auto simp: creds_ok_def session_auth_def hev_config_get_socks5_server_def hev_socks5_client_set_auth_def
      cfg_ok_def cred_ok_def split: option.splits)

lemma same_hello:
  assumes "auth_user s' = auth_user s" "auth_pass s' = auth_pass s"
  shows "client_method s' = client_method s" "client_hello s' = client_hello s" "creds_ok s' = creds_ok s"
  using assms by (simp_all add: client_method_def client_hello_def client_methods_def client_creds_def creds_ok_def fun_eq_iff)

lemma session_auth_fields [simp]:
  "stype (session_auth cf s) = stype s" "timeout (session_auth cf s) = timeout s"
  by (simp_all add: session_auth_def hev_socks5_client_set_auth_def Let_def)

lemma session_auth_tcp [simp]:
  fixes s :: session_tcp
  shows "queue (session_auth cf s) = queue s" "pcb (session_auth cf s) = pcb s" "pcb_eof (session_auth cf s) = pcb_eof s"
    "buffer (session_auth cf s) = buffer s" "tcp_addr (session_auth cf s) = tcp_addr s"
  by (simp_all add: session_auth_def hev_socks5_client_set_auth_def Let_def)

lemma session_auth_cong:
  assumes "auth_user s' = auth_user s" "auth_pass s' = auth_pass s"
  shows "auth_user (session_auth cf s') = auth_user (session_auth cf s)"
    "auth_pass (session_auth cf s') = auth_pass (session_auth cf s)"
  using assms by (simp_all add: session_auth_def hev_socks5_client_set_auth_def Let_def)

text \<open>The session reaches its splice with the greeting on the wire and the stream behind the grant unread.\<close>

lemma session_reaches_splice:
  assumes cf: "cfg_ok cf" and st: "sess_start st" "buffer (tobj st) = None" "wire (tchan st) = []"
    and con: "session_connect cf g rv set_mark (tobj st) w = Ret (0, s1, w1)"
    and obj: "stype (tobj st) = TYPE_TCP" "tcp_addr (tobj st) = Some (saddr_enc a @ z)" "auth_user (tobj st) = None"
    and ev: "LwErr \<notin> set es1" "LwErr \<notin> set es2"
    and gr: "chan_st (server_grant (client_method (session_auth cf (tobj st))) rsv b) r []
      (length (client_hello (session_auth cf (tobj st)) HEV_SOCKS5_REQ_CMD_CONNECT a)) (tchan st)"
    and ok: "tcp_timeout g \<noteq> 0" "saddr_wf a" "saddr_wf b" "is_ip b"
  obtains st2 where "session_run_tcp cf g rv set_mark es1 es2 ring_mem ts st w =
      bind_o (hev_socks5_session_tcp_splice (nat (hev_config_get_misc_tcp_buffer_size cf)) ring_mem ts st2)
        (\<lambda>(ended, st). Ret (ended, st, w1))"
    "sess_start st2" "wire (tchan st2) = client_hello (session_auth cf (tobj st)) HEV_SOCKS5_REQ_CMD_CONNECT a"
    "rx_stream (rxs (tchan st2)) = r"
proof -
  obtain addr where "hev_socks5_client_connect g rv (hev_socks5_session_bind cf set_mark) addr
      (uint (cs_port (hev_config_get_socks5_server cf))) (tobj st) w = Ret (0, s1, w1)"
    using con by (auto simp: session_connect_def Let_def bind_o_Ret_iff)
  note f = strip_fields [OF client_connect_keeps [OF this]]
  have "sess_start (st\<lparr>tobj := s1, tchan := tchan st\<rparr>)"
    by (rule start_update [OF st(1)]) (use f st(1) in \<open>auto simp: sess_start_def\<close>)
  then have "sess_start (st\<lparr>tobj := s1\<rparr>)" by simp
  then obtain t1 q e where t1: "lwip_steps es1 (st\<lparr>tobj := s1\<rparr>) = Ret t1" "sess_start t1" "tobj t1 = s1\<lparr>queue := q, pcb_eof := e\<rparr>"
    "tchan t1 = tchan st" using start_steps [of "st\<lparr>tobj := s1\<rparr>" es1] ev(1) st(2) f(4) by auto
  let ?sA = "session_auth cf (tobj st)" and ?s2 = "session_auth cf (tobj t1)"
  have "auth_user (tobj t1) = auth_user (tobj st)" "auth_pass (tobj t1) = auth_pass (tobj st)" using t1(3) f by simp_all
  note h = same_hello [OF session_auth_cong [OF this, of cf]]
  have c: "creds_ok ?s2" using session_auth_ok [OF cf obj(3)] h(3) by simp
  have o: "stype ?s2 = TYPE_TCP" "tcp_addr ?s2 = Some (saddr_enc a @ z)" using t1(3) f obj by simp_all
  obtain c' where c': "hev_socks5_client_handshake g hev_socks5_client_tcp_class
      (pipeline (hev_config_get_socks5_server cf)) ?s2 (tchan st) w1 =
      Ret (0, ?s2\<lparr>timeout := tcp_timeout g, tcp_addr := None\<rparr>, c', w1)"
    "wire c' = client_hello ?sA HEV_SOCKS5_REQ_CMD_CONNECT a" "rx_stream (rxs c') = r" "wr_shut c' = wr_shut (tchan st)"
    using tcp_handshake_granted [OF gr [folded h(1,2)] ok c o] h(2) by auto
  let ?s3 = "?s2\<lparr>timeout := tcp_timeout g, tcp_addr := None\<rparr>"
  let ?t2 = "t1\<lparr>tobj := ?s3, tchan := c'\<rparr>"
  have "sess_start ?t2" by (rule start_update [OF t1(2)]) (use t1(2,4) c'(4) in \<open>auto simp: sess_start_def\<close>)
  moreover have "buffer (tobj ?t2) = None" using t1(3) f(4) st(2) by simp
  ultimately obtain t3 where t3: "lwip_steps es2 ?t2 = Ret t3" "sess_start t3" "tchan t3 = c'"
    using start_steps [of ?t2 es2] ev(2) by auto
  have "session_run_tcp cf g rv set_mark es1 es2 ring_mem ts st w =
      bind_o (hev_socks5_session_tcp_splice (nat (hev_config_get_misc_tcp_buffer_size cf)) ring_mem ts t3)
        (\<lambda>(ended, st). Ret (ended, st, w1))"
    using con t1(1,4) c'(1) t3(1) by (simp add: session_run_tcp_def set_obj_def Let_def)
  then show thesis using that t3 c'(2,3) by simp
qed

section \<open>Theorems\<close>

text \<open>C1. A TCP session works from end to end. When the proxy can be reached and grants the request, however
  its answer is cut into packets and whatever lwIP delivers meanwhile, the session runs without fault; at
  every moment the proxy has received exactly the SOCKS5 greeting for the configured credentials and the
  destination, followed by what the application sent, in order, less what is still queued; and as long
  as lwIP accepts data the application gets exactly the bytes behind the grant, less what waits in the
  ring or is not read yet.\<close>

theorem tcp_session_end_to_end:
  assumes "cfg_ok cf" "0 < tcp_buffer_size cf" "tcp_buffer_size cf \<le> int TCP_SND_BUF"
    and "int (length ring_mem) = tcp_buffer_size cf"
    and "sess_start st" "buffer (tobj st) = None" "wire (tchan st) = []"
    and "session_connect cf g rv set_mark (tobj st) w = Ret (0, s1, w1)"
    and "stype (tobj st) = TYPE_TCP" "tcp_addr (tobj st) = Some (saddr_enc a @ z)" "auth_user (tobj st) = None"
    and "LwErr \<notin> set es1" "LwErr \<notin> set es2"
    and "chan_st (server_grant (client_method (session_auth cf (tobj st))) rsv b) r []
      (length (client_hello (session_auth cf (tobj st)) HEV_SOCKS5_REQ_CMD_CONNECT a)) (tchan st)"
    and "tcp_timeout g \<noteq> 0" "saddr_wf a" "saddr_wf b" "is_ip b"
  shows "\<exists>ended st' x as rg. session_run_tcp cf g rv set_mark es1 es2 ring_mem ts st w = Ret (ended, st', w1) \<and>
    wire (tchan st') = client_hello (session_auth cf (tobj st)) HEV_SOCKS5_REQ_CMD_CONNECT a @ x \<and>
    inlog (tpcb st') = x @ chain_bytes (tmem st') as \<and> chain (tmem st') (queue (tobj st')) as \<and>
    buffer (tobj st') = Some rg \<and>
    (\<not> write_failed (tpcb st') \<longrightarrow> r = written (tpcb st') @ ring_pending rg @ rx_stream (rxs (tchan st')))"
proof -
  let ?n = "nat (hev_config_get_misc_tcp_buffer_size cf)"
  obtain st2 where run: "session_run_tcp cf g rv set_mark es1 es2 ring_mem ts st w =
      bind_o (hev_socks5_session_tcp_splice ?n ring_mem ts st2) (\<lambda>(ended, st). Ret (ended, st, w1))"
    and st2: "sess_start st2" "wire (tchan st2) = client_hello (session_auth cf (tobj st)) HEV_SOCKS5_REQ_CMD_CONNECT a"
      "rx_stream (rxs (tchan st2)) = r"
    by (rule session_reaches_splice [OF assms(1,5-18)])
  have n: "0 < ?n" "?n \<le> TCP_SND_BUF" "length ring_mem = ?n"
    using assms(2-4) by (simp_all add: hev_config_get_misc_tcp_buffer_size_def)
  obtain ended st' where s: "hev_socks5_session_tcp_splice ?n ring_mem ts st2 = Ret (ended, st')"
    "sess_inv (wire (tchan st2)) (rx_stream (rxs (tchan st2))) st'" by (rule splice_inv [OF st2(1) n])
  then show ?thesis using run st2(2,3) unfolding sess_inv_def fwd_inv_def bwd_inv_def by auto
qed

definition demo_start_session :: tsess where
  "demo_start_session = demo_tsess\<lparr>tobj := demo_session\<lparr>tcp_addr := Some (saddr_enc (SName [97] 80))\<rparr>,
     tchan := \<lparr>rxs = [RxData [5], RxAgain (Nap 7 False), RxData [0, 5, 0, 0, 1, 1, 2, 3, 4, 0, 80, 9]],
       txs = [TxTake 2, TxAgain (Nap 9 False), TxTake 90], wire = [], wr_shut = False, errno_of = E_NONE\<rparr>\<rparr>"

definition demo_config :: config where
  "demo_config = config_default\<lparr>tcp_buffer_size := 4\<rparr>"

definition any_resolver :: resolver where
  "any_resolver = demo_resolver\<lparr>pton4 := \<lambda>n. Some [10, 0, 0, 1]\<rparr>"

lemma demo_session_connects:
  "case hev_socks5_client_connect socks5_default_params any_resolver (\<lambda>s f a. 0) [] 0 (tobj demo_start_session) demo_os of
     Ret (r, s, w) \<Rightarrow> r = 0 | _ \<Rightarrow> False"
  by code_simp

theorem tcp_session_end_to_end_witness:
  "\<exists>ended st' w' x as. session_run_tcp demo_config socks5_default_params any_resolver (\<lambda>f m. True)
      [LwRecv [(1, demo_buf None [12] 1)]] [LwFin] [0, 0, 0, 0] [] demo_start_session demo_os = Ret (ended, st', w') \<and>
    wire (tchan st') = [5, 1, 0, 5, 1, 0, 3, 1, 97, 0, 80] @ x \<and> inlog (tpcb st') = x @ chain_bytes (tmem st') as"
proof -
  have b: "hev_socks5_session_bind demo_config (\<lambda>f m. True) = (\<lambda>(s :: session_tcp) f a. 0)"
    by (simp add: hev_socks5_session_bind_def fun_eq_iff Let_def)
  have c: "srv_addr (hev_config_get_socks5_server demo_config) = zeros 256" "cs_port (hev_config_get_socks5_server demo_config) = 0"
    by (simp_all add: demo_config_def config_default_def hev_config_get_socks5_server_def)
  have "cstr_at (zeros 256) 0 = Some []" by (simp add: cstr_at_def)
  then obtain s1 w1 where con: "session_connect demo_config socks5_default_params any_resolver (\<lambda>f m. True)
      (tobj demo_start_session) demo_os = Ret (0, s1, w1)"
    using demo_session_connects b c by (auto simp: session_connect_def split: outcome.splits prod.splits)
  have cf: "cfg_ok demo_config" using default_ok by (simp add: demo_config_def cfg_ok_def)
  have st: "sess_start demo_start_session"
    by (simp add: demo_start_session_def sess_start_def demo_tsess_def demo_session_def demo_pcb_def fwd_inv_def)
      (rule exI [of _ "[]"], simp)
  have au: "session_auth demo_config (tobj demo_start_session) = tobj demo_start_session"
    by (simp add: session_auth_def demo_config_def config_default_def hev_config_get_socks5_server_def)
  have h: "client_hello (tobj demo_start_session) HEV_SOCKS5_REQ_CMD_CONNECT (SName [97] 80) = [5, 1, 0, 5, 1, 0, 3, 1, 97, 0, 80]"
    and m: "server_grant (client_method (tobj demo_start_session)) 0 (SV4 [1, 2, 3, 4] 80) = [5, 0, 5, 0, 0, 1, 1, 2, 3, 4, 0, 80]"
    by (simp_all add: demo_start_session_def demo_session_def client_hello_def client_methods_def client_creds_def
        server_grant_def client_method_def hi8_def lo8_def)
  have ch: "chan_st [5, 0, 5, 0, 0, 1, 1, 2, 3, 4, 0, 80] [9] []
      (length ([5, 1, 0, 5, 1, 0, 3, 1, 97, 0, 80] :: byte list)) (tchan demo_start_session)"
    by (simp add: chan_st_def demo_start_session_def calm_def)
  have ob: "buffer (tobj demo_start_session) = None" "wire (tchan demo_start_session) = []"
    "stype (tobj demo_start_session) = TYPE_TCP" "tcp_addr (tobj demo_start_session) = Some (saddr_enc (SName [97] 80) @ [])"
    "auth_user (tobj demo_start_session) = None" "tcp_timeout socks5_default_params \<noteq> 0" "tcp_buffer_size demo_config = 4"
    by (simp_all add: demo_start_session_def demo_session_def socks5_default_params_def demo_config_def)
  show ?thesis
    using tcp_session_end_to_end [OF cf _ _ _ st ob(1,2) con ob(3-5), of "[0, 0, 0, 0]" "[LwRecv [(1, demo_buf None [12] 1)]]"
        "[LwFin]" 0 "SV4 [1, 2, 3, 4] 80" "[9]" "[]"] ob(6,7) ch
    unfolding au h m by auto
qed

text \<open>C39. Terminating a session before its task has run for the first time has no effect: the connect sets the
  time-out again, and the session runs exactly as if it had not been told to end. This is the state of
  every session between its creation in a callback and the next turn of the scheduler.\<close>

theorem terminate_before_run_lost:
  "session_run_tcp cf g rv set_mark es1 es2 ring_mem ts (set_obj hev_socks5_session_terminate st) w =
     session_run_tcp cf g rv set_mark es1 es2 ring_mem ts st w \<and>
   session_run_udp cf g rv set_mark junk ds1 ds2 env us (set_uobj hev_socks5_session_terminate ut) w =
     session_run_udp cf g rv set_mark junk ds1 ds2 env us ut w"
proof -
  have c: "session_connect cf g rv set_mark (hev_socks5_session_terminate s) w = session_connect cf g rv set_mark s w"
    for s :: "'c client_scheme"
    by (simp add: session_connect_def hev_socks5_client_connect_def hev_socks5_session_terminate_def
        hev_socks5_set_timeout_def hev_socks5_get_addr_family_def Let_def)
  have "(set_obj hev_socks5_session_terminate st)\<lparr>tobj := s\<rparr> = st\<lparr>tobj := s\<rparr>"
    "set_uobj (\<lambda>_. u) (set_uobj hev_socks5_session_terminate ut) = set_uobj (\<lambda>_. u) ut" for s u
    by (simp_all add: set_obj_def set_uobj_def)
  moreover have "tobj (set_obj hev_socks5_session_terminate st) = hev_socks5_session_terminate (tobj st)"
    by (simp add: set_obj_def)
  ultimately show ?thesis by (simp add: session_run_tcp_def session_run_udp_def c)
qed

end
