(* ===== verification/SpliceEnd.thy ===== *)
theory SpliceEnd
  imports Service
begin

text \<open>
  The socket-to-socket splice ends: when both peers end their streams and both sockets go on taking
  data, the loop of \<open>hev_task_io_splice\<close> stops by itself after a number of rounds that the events of
  the two sockets bound, and unless the yielder stopped it everything has then been relayed. The last
  theorem is about the call that the program makes, with the yielder of \<open>hev-socks5-tcp.c\<close>.
\<close>

section \<open>Sockets that make progress\<close>

text \<open>Data and pauses, then the end of the stream.\<close>

fun ends :: "rx_event list \<Rightarrow> bool" where
  "ends [] \<longleftrightarrow> False"
| "ends (RxData bs # es) \<longleftrightarrow> bs \<noteq> [] \<and> ends es"
| "ends (RxEof # es) \<longleftrightarrow> True"
| "ends (RxErr # es) \<longleftrightarrow> False"
| "ends (RxAgain p # es) \<longleftrightarrow> ends es"

lemma sys_recv_ends:
  assumes "ends es" "0 < n"
  obtains p es' where "sys_recv n es = Some (SAgain p, es')" "ends es'" "rx_weight es' < rx_weight es" "rx_stream es' = rx_stream es"
  | d es' where "sys_recv n es = Some (SOk d, es')" "d \<noteq> []" "ends es'" "rx_weight es' < rx_weight es"
      "rx_stream es = d @ rx_stream es'"
  | "sys_recv n es = Some (SOk [], es)" "rx_stream es = []"
proof (cases es rule: ends.cases)
  case (2 bs es1)
  then show thesis using assms that(2) [of "take n bs" "if length bs \<le> n then es1 else RxData (drop n bs) # es1"]
    by (auto split: if_splits)
qed (use assms that in auto)

lemma sys_send_progress:
  assumes "tx_ready n es" "bs \<noteq> []" "length bs \<le> n"
  obtains p es' where "sys_send bs es = Some (SAgain p, es')" "tx_ready n es'" "tx_weight es' < tx_weight es"
  | d r es' where "sys_send bs es = Some (SOk d, es')" "d \<noteq> []" "bs = d @ r" "tx_ready (n - length d) es'"
      "tx_weight es' < tx_weight es"
proof -
  note s = sys_send_ready [OF assms]
  obtain x es' where x: "sys_send bs es = Some (x, es')" using s by (cases "sys_send bs es") auto
  show thesis
  proof (cases x)
    case (SOk d)
    then show thesis using s x that(2) [of d es'] sys_send_weight [of bs es x es'] by auto
  next
    case (SAgain p)
    then show thesis using s x that(1) [of p es'] sys_send_weight [of bs es x es'] by auto
  qed (use s x in auto)
qed

section \<open>One direction\<close>

definition flow :: "circ \<Rightarrow> chan \<Rightarrow> chan \<Rightarrow> bool" where
  "flow f ci co \<longleftrightarrow> circ_inv f \<and> ends (rxs ci) \<and> tx_ready (length (circ_used f) + length (rx_stream (rxs ci))) (txs co)"

text \<open>A direction is still flowing, or has passed everything on and shut the other side.\<close>

definition direction :: "int \<Rightarrow> circ \<Rightarrow> chan \<Rightarrow> chan \<Rightarrow> bool" where
  "direction r f ci co \<longleftrightarrow> circ_inv f \<and>
     (if r < 0 then circ_used f = [] \<and> rx_stream (rxs ci) = [] \<and> wr_shut co else flow f ci co)"

definition weight :: "int \<Rightarrow> chan \<Rightarrow> chan \<Rightarrow> nat" where
  "weight r ci co = (if r < 0 then 0 else Suc (rx_weight (rxs ci) + tx_weight (txs co)))"

lemma splice_in_flow:
  assumes f: "flow f ci co" and i: "splice_in f ci = (r, f1, c1)"
  shows "flow f1 c1 co \<and> (rx_weight (rxs c1) < rx_weight (rxs ci) \<and> 0 \<le> r \<or>
    c1 = ci \<and> f1 = f \<and> (if 0 \<le> r then circ_used f \<noteq> [] else rx_stream (rxs ci) = []))"
proof -
  have inv: "circ_inv f" "ends (rxs ci)" using f by (simp_all add: flow_def)
  note w = circ_room_writing [OF inv(1)]
  note s = splice_in_stream [OF inv(1) i]
  obtain d where d: "rx_stream (rxs ci) = d @ rx_stream (rxs c1)" "circ_used f1 = circ_used f @ d" using s(4) by blast
  have fl: "flow f1 c1 co" if "ends (rxs c1)" using f s(1) d that by (simp add: flow_def add.assoc)
  show ?thesis
  proof (cases "hev_circular_buffer_writing f")
    case Nil
    have "length (circ_used f) = unat (cuse_size f)" by (simp add: circ_used_def)
    then have "circ_used f \<noteq> []" using Nil w circ_inv_nat [OF inv(1)] by (auto simp: circ_room_def)
    then show ?thesis using Nil i f by (simp add: splice_in_def)
  next
    case (Cons v vs)
    then have n: "0 < iov_space (hev_circular_buffer_writing f)" using w by simp
    show ?thesis
      by (rule sys_recv_ends [OF inv(2) n]; use i Cons fl f in \<open>auto simp: splice_in_def readv_nb_def\<close>)
  qed
qed

lemma splice_out_flow:
  assumes f: "flow f ci co" and o: "splice_out r f co = (r', f', co')"
  shows "if circ_used f = [] then r' = r \<and> f' = f \<and> co' = (if r < 0 then co\<lparr>wr_shut := True\<rparr> else co)
    else 0 \<le> r' \<and> flow f' ci co' \<and> tx_weight (txs co') < tx_weight (txs co)"
proof -
  have inv: "circ_inv f" "tx_ready (length (circ_used f) + length (rx_stream (rxs ci))) (txs co)" "ends (rxs ci)"
    using f by (simp_all add: flow_def)
  note g = circ_reading_gather [OF inv(1)]
  have "length (circ_used f) = unat (cuse_size f)" by (simp add: circ_used_def)
  then have "circ_used f = [] \<longleftrightarrow> cuse_size f = 0" by (metis length_0_conv unat_eq_0)
  then have e: "circ_used f = [] \<longleftrightarrow> hev_circular_buffer_reading f = []"
    by (simp add: hev_circular_buffer_reading_def Let_def)
  show ?thesis
  proof (cases "circ_used f = []")
    case True
    then show ?thesis using o e by (auto simp: splice_out_def)
  next
    case False
    then obtain v vs where v: "hev_circular_buffer_reading f = v # vs" using e by (cases "hev_circular_buffer_reading f") auto
    have le: "length (circ_used f) \<le> length (circ_used f) + length (rx_stream (rxs ci))" by simp
    show ?thesis
    proof (rule sys_send_progress [OF inv(2) False le])
      fix p es' assume "sys_send (circ_used f) (txs co) = Some (SAgain p, es')"
        "tx_ready (length (circ_used f) + length (rx_stream (rxs ci))) es'" "tx_weight es' < tx_weight (txs co)"
      then show ?thesis using o v g False f by (auto simp: splice_out_def writev_nb_def flow_def)
    next
      fix d z es' assume d: "sys_send (circ_used f) (txs co) = Some (SOk d, es')" "d \<noteq> []" "circ_used f = d @ z"
        "tx_ready (length (circ_used f) + length (rx_stream (rxs ci)) - length d) es'" "tx_weight es' < tx_weight (txs co)"
      have "length d \<le> length (circ_used f)" using d(3) by simp
      note p = cb.pop_inv [OF inv(1) this] cb.pop_peek [OF inv(1) this]
      have "f' = hev_circular_buffer_read_finish (of_nat (length d)) f" "0 \<le> r'" "txs co' = es'"
        using o v g d(1,2) by (auto simp: splice_out_def writev_nb_def)
      then show ?thesis using p d(2-5) inv(3) by (auto simp: flow_def)
    qed
  qed
qed

lemma splice_round_direction:
  assumes d: "direction r f ci co" and s: "splice_round r f ci co = (r', f', ci', co')"
  shows "direction r' f' ci' co'" "weight r' ci' co' < weight r ci co \<or> r < 0 \<and> r' < 0"
    "txs ci' = txs ci"
proof -
  have "direction r' f' ci' co' \<and> (weight r' ci' co' < weight r ci co \<or> r < 0 \<and> r' < 0) \<and> txs ci' = txs ci"
  proof (cases "0 \<le> r")
    case False
    then show ?thesis using assms by (auto simp: splice_round_def)
  next
    case True
    obtain r1 f1 c1 where i: "splice_in f ci = (r1, f1, c1)" by (metis prod_cases3)
    have fl: "flow f ci co" and inv: "circ_inv f" using d True by (simp_all add: direction_def)
    have o: "splice_out r1 f1 co = (r', f', co')" "ci' = c1" using s i True
      by (auto simp: splice_round_def task_io_splice_def split: prod.splits)
    note si = splice_in_flow [OF fl i] and st = splice_in_stream [OF inv i]
    have tx: "txs c1 = txs ci" by (subst st(3)) simp
    note so = splice_out_flow [OF conjunct1 [OF si] o(1)]
    have inv': "circ_inv f'" using splice_out_wire(1) [OF st(1) o(1)] .
    show ?thesis
    proof (cases "circ_used f1 = []")
      case True
      then have r': "r' = r1" "f' = f1" "co' = (if r1 < 0 then co\<lparr>wr_shut := True\<rparr> else co)" using so by simp_all
      show ?thesis using si r' inv' tx o(2) \<open>0 \<le> r\<close> True by (auto simp: direction_def weight_def split: if_splits)
    next
      case False
      then have "0 \<le> r'" "flow f' c1 co'" "tx_weight (txs co') < tx_weight (txs co)" using so by simp_all
      then show ?thesis using si inv' tx o(2) \<open>0 \<le> r\<close> by (auto simp: direction_def weight_def)
    qed
  qed
  then show "direction r' f' ci' co'" "weight r' ci' co' < weight r ci co \<or> r < 0 \<and> r' < 0" "txs ci' = txs ci" by blast+
qed

lemma direction_cong:
  "direction r f ci co \<Longrightarrow> rxs ci' = rxs ci \<Longrightarrow> txs co' = txs co \<Longrightarrow> wr_shut co' = wr_shut co \<Longrightarrow> direction r f ci' co'"
  by (auto simp: direction_def flow_def split: if_splits)

section \<open>The loop\<close>

text \<open>The yielder lets the loop go on after each of these sleeps.\<close>

definition steady :: "'s yielder option \<Rightarrow> nap list \<Rightarrow> 's \<Rightarrow> bool" where
  "steady y ps s \<longleftrightarrow> (\<forall>g type. \<forall>p\<in>set ps. y = Some g \<longrightarrow> g type p s = (0, s))"

lemma splice_loop_ends:
  assumes "direction rf f ca cb" "direction rb b cb ca" "weight rf ca cb + weight rb cb ca \<le> length zs"
  shows "\<exists>f' b' s' ca' cb'. splice_loop y zs rf rb f b s ca cb = Ret (f', b', s', ca', cb') \<and>
    (steady y zs s \<longrightarrow> s' = s \<and> direction (- 1) f' ca' cb' \<and> direction (- 1) b' cb' ca')"
  using assms
proof (induction zs arbitrary: rf rb f b s ca cb)
  case Nil
  then have r: "rf < 0" "rb < 0" by (auto simp: weight_def split: if_splits)
  then have "rf AND rb \<noteq> 0" by (metis and_negative_int_iff less_irrefl)
  then show ?case using Nil r by (subst splice_loop.simps) (auto simp: splice_round_def direction_def)
next
  case (Cons p ps)
  obtain rf1 f1 ca1 cb1 where F: "splice_round rf f ca cb = (rf1, f1, ca1, cb1)" by (metis prod_cases4)
  obtain rb1 b1 cb2 ca2 where B: "splice_round rb b cb1 ca1 = (rb1, b1, cb2, ca2)" by (metis prod_cases4)
  have inv: "circ_inv f" "circ_inv b" using Cons.prems by (simp_all add: direction_def)
  note f = splice_round_direction [OF Cons.prems(1) F] and fm = splice_round_moved [OF inv(1) F]
  have db: "direction rb b cb1 ca1" by (rule direction_cong [OF Cons.prems(2)]) (simp_all add: fm f(3))
  note b = splice_round_direction [OF db B] and bm = splice_round_moved [OF inv(2) B]
  have tx: "txs cb2 = txs cb1" "rxs ca2 = rxs ca1" "wr_shut cb2 = wr_shut cb1" using b(3) bm by simp_all
  have df: "direction rf1 f1 ca2 cb2" by (rule direction_cong [OF f(1)]) (simp_all add: tx)
  have w: "weight rf1 ca2 cb2 = weight rf1 ca1 cb1" "weight rb cb1 ca1 = weight rb cb ca"
    using tx f(3) fm by (simp_all add: weight_def)
  show ?case
  proof (cases "rf1 < 0 \<and> rb1 < 0")
    case True
    then have "rf1 AND rb1 \<noteq> 0" by (metis and_negative_int_iff less_irrefl)
    then show ?thesis using True F B df b(1) by (subst splice_loop.simps) (auto simp: direction_def)
  next
    case False
    then have "weight rf1 ca2 cb2 + weight rb1 cb2 ca2 \<le> length ps"
      using f(2) b(2) w Cons.prems(3) by (auto simp: weight_def split: if_splits)
    note ih = Cons.IH [OF df b(1) this]
    have "0 < rf1 \<or> 0 < rb1 \<or> rf1 AND rb1 = 0" using False by (cases "rf1 = 0 \<or> rb1 = 0") auto
    then obtain type where "(if rf1 > 0 \<or> rb1 > 0 then Some HEV_TASK_YIELD
        else if rf1 AND rb1 = 0 then Some HEV_TASK_WAITIO else None) = Some type"
      by (cases "0 < rf1 \<or> 0 < rb1") auto
    then have eq: "splice_loop y (p # ps) rf rb f b s ca cb =
        (case (case y of None \<Rightarrow> (0, s) | Some g \<Rightarrow> g type p s) of (r, s') \<Rightarrow>
           if r \<noteq> 0 then Ret (f1, b1, s', ca2, cb2) else splice_loop y ps rf1 rb1 f1 b1 s' ca2 cb2)"
      using F B by (subst splice_loop.simps) simp
    show ?thesis
    proof (cases "steady y (p # ps) s")
      case True
      then have "(case y of None \<Rightarrow> (0, s) | Some g \<Rightarrow> g type p s) = (0, s)" "steady y ps s"
        by (auto simp: steady_def split: option.splits)
      then show ?thesis using eq ih [of s] by auto
    next
      case False
      obtain r s1 where "(case y of None \<Rightarrow> (0, s) | Some g \<Rightarrow> g type p s) = (r, s1)" by fastforce
      then show ?thesis using eq ih [of s1] False by auto
    qed
  qed
qed

lemma hev_task_io_splice_ends:
  assumes "0 < n" "n < 2 ^ 63" "length mf = n" "length mb = n" "ends (rxs ca)" "ends (rxs cb)"
    and "tx_ready (length (rx_stream (rxs ca))) (txs cb)" "tx_ready (length (rx_stream (rxs cb))) (txs ca)"
    and "rx_weight (rxs ca) + tx_weight (txs cb) + rx_weight (rxs cb) + tx_weight (txs ca) + 2 \<le> length zs"
  shows "\<exists>s' ca' cb'. hev_task_io_splice (of_nat n) (Some mf) (Some mb) y zs s ca cb = Ret (s', ca', cb') \<and>
    (steady y zs s \<longrightarrow> s' = s \<and> wire cb' = wire cb @ rx_stream (rxs ca) \<and>
       wire ca' = wire ca @ rx_stream (rxs cb) \<and> wr_shut ca' \<and> wr_shut cb')"
proof -
  obtain f b where f: "hev_circular_buffer_new (of_nat n) (Some mf) = Some f"
    and b: "hev_circular_buffer_new (of_nat n) (Some mb) = Some b" by (simp add: hev_circular_buffer_new_def)
  note nf = circ_new_inv [OF assms(1,2,3) f] and nb = circ_new_inv [OF assms(1,2,4) b]
  have d: "direction 1 f ca cb" "direction 1 b cb ca" using assms(5-8) nf nb by (simp_all add: direction_def flow_def)
  have "weight 1 ca cb + weight 1 cb ca \<le> length zs" using assms(9) by (simp add: weight_def)
  then obtain f' b' s' ca' cb' where l: "splice_loop y zs 1 1 f b s ca cb = Ret (f', b', s', ca', cb')"
    "steady y zs s \<Longrightarrow> s' = s \<and> direction (- 1) f' ca' cb' \<and> direction (- 1) b' cb' ca'"
    using splice_loop_ends [OF d, of zs y s] by blast
  have "shut_ok (wr_shut cb) 1 f cb" "shut_ok (wr_shut ca) 1 b ca" by (simp_all add: shut_ok_def)
  note m = splice_loop_moved [OF l(1) nf(1) nb(1) this]
  show ?thesis using l m nf(2) nb(2) f b
    by (auto simp: hev_task_io_splice_def task_io_splicer_init_def direction_def moved_def)
qed

text \<open>The yielder of the program goes on after every sleep that ended before its time-out and during
  which the object was not terminated.\<close>

lemma calm_steady:
  assumes "live self" "\<forall>p\<in>set zs. calm p"
  shows "steady (Some hev_socks5_task_io_yielder) zs self"
  using assms by (auto simp: steady_def hev_socks5_task_io_yielder_def live_def calm_def woken_def
      hev_task_sleep_def Let_def)

section \<open>Theorems\<close>

text \<open>C7. The TCP splice ends by itself. When both peers send some data, with pauses anywhere, and then
  close, and both sockets keep taking data, the splicer of a connection returns 0 after at most as many
  sleeps as the sockets have events left, whatever happens during the sleeps. If moreover the object
  has not been terminated and every sleep ends before its time-out and without a termination, so that
  the yielder has no reason to stop, all bytes have been relayed in both directions, both write sides
  are shut down and the object is as before.\<close>

theorem splice_terminates:
  assumes "0 \<le> sfd self" "length mf = 8192" "length mb = 8192" "ends (rxs c)" "ends (rxs u)"
    and "tx_ready (length (rx_stream (rxs c))) (txs u)" "tx_ready (length (rx_stream (rxs u))) (txs c)"
    and "rx_weight (rxs c) + tx_weight (txs u) + rx_weight (rxs u) + tx_weight (txs c) + 2 \<le> length zs"
  shows "\<exists>self' c' u'. hev_socks5_tcp_splicer (Some mf) (Some mb) zs self c u = Ret (0, self', c', u') \<and>
    (timeout self \<noteq> 0 \<and> (\<forall>p\<in>set zs. 0 < left p \<and> \<not> kill p) \<longrightarrow>
       self' = self \<and> wire u' = wire u @ rx_stream (rxs c) \<and> wire c' = wire c @ rx_stream (rxs u) \<and>
       wr_shut c' \<and> wr_shut u')"
proof -
  have n: "(0 :: nat) < 8192" "(8192 :: nat) < 2 ^ 63" by simp_all
  note e = hev_task_io_splice_ends [OF n assms(2-8), of "Some hev_socks5_task_io_yielder" self]
  have "steady (Some hev_socks5_task_io_yielder) zs self"
    if "timeout self \<noteq> 0 \<and> (\<forall>p\<in>set zs. 0 < left p \<and> \<not> kill p)"
    by (rule calm_steady) (use that in \<open>simp_all add: live_def calm_def\<close>)
  then show ?thesis using e assms(1) by (auto simp: hev_socks5_tcp_splicer_def)
qed

theorem splice_terminates_witness:
  "\<exists>self' c' u'. hev_socks5_tcp_splicer (Some (replicate 8192 0)) (Some (replicate 8192 0))
      (replicate 40 (Nap 1 False)) (demo_server\<lparr>sfd := 3, timeout := 300000\<rparr>) demo_ca demo_cb = Ret (0, self', c', u') \<and>
    wire u' = [1, 2, 3, 4] \<and> wire c' = [7] \<and> wr_shut c' \<and> wr_shut u'"
  using splice_terminates [of "demo_server\<lparr>sfd := 3, timeout := 300000\<rparr>" "replicate 8192 0" "replicate 8192 0"
    demo_ca demo_cb "replicate 40 (Nap 1 False)"]
  by (auto simp: demo_ca_def demo_cb_def calm_def)

end
