(* ===== verification/Tunnel.thy ===== *)
theory Tunnel
  imports SessionTcp Config DnsServer
begin

text \<open>
  The tunnel (\<open>src/hev-socks5-tunnel.c\<close>): the set of sessions in the order of their last use, the
  callbacks through which lwIP hands over new connections and datagrams, the task that stops
  everything, and the life of the process: initialisation, run and finalisation.

  A session is named by its address, which is also the address of its list node. All of lwIP runs
  under the task mutex, callbacks included. lwIP's demultiplexing of datagrams is modelled because the
  tunnel's callback decides whether it ends.
\<close>

section \<open>The task mutex\<close>

text \<open>The scheduler is cooperative. A task that finds the mutex locked sleeps until another task
  unlocks it; \<open>Wait\<close> stands for this. The holder of the mutex never sleeps, so the only task that
  can find it locked is the holder.\<close>

record mutex =
  locker :: bool

definition hev_task_mutex_init :: "mutex \<Rightarrow> mutex" where
  "hev_task_mutex_init self = self\<lparr>locker := False\<rparr>"

definition hev_task_mutex_lock :: "mutex \<Rightarrow> mutex outcome" where
  "hev_task_mutex_lock self = (if locker self then Wait else Ret (self\<lparr>locker := True\<rparr>))"

definition hev_task_mutex_trylock :: "mutex \<Rightarrow> int \<times> mutex" where
  "hev_task_mutex_trylock self = (if locker self then (- 1, self) else (0, self\<lparr>locker := True\<rparr>))"

definition hev_task_mutex_unlock :: "mutex \<Rightarrow> mutex" where
  "hev_task_mutex_unlock self = self\<lparr>locker := False\<rparr>"

section \<open>State\<close>

text \<open>\<open>sd_udp\<close> tells the two classes apart; \<open>sd_pcb\<close> is the connection of lwIP the session holds.\<close>

record session =
  sd_base :: socks5
  sd_udp :: bool
  sd_pcb :: "nat option"
  sd_task :: "nat option"

text \<open>The callback of a UDP connection: none, the tunnel's own, the mapped DNS, or a session's.\<close>

datatype udp_cb = NoRecv | TunnelRecv | DnsRecv | SessionRecv nat

record udp_pcb =
  remote :: "ip_addr \<times> u16"
  local :: "ip_addr \<times> u16"
  connected :: bool
  recv_fn :: udp_cb

record tunnel =
  run :: bool
  stop_requested :: bool
  tun_fd :: int
  tun_fd_local :: bool
  session_count :: int
  event_fds :: "int \<times> int"
  stat_tx_packets :: size_t
  stat_rx_packets :: size_t
  stat_tx_bytes :: size_t
  stat_rx_bytes :: size_t
  tcp_listener :: "nat option"
  udp_listener :: "nat option"
  lwip_mutex :: mutex
  task_event :: "nat option"
  task_lwip_io :: "nat option"
  task_lwip_timer :: "nat option"
  session_set :: hlist
  sessions :: "nat \<Rightarrow> session option"
  tcp_pcbs :: "nat list"
  udp_pcbs :: "(nat \<times> udp_pcb) list"
  dns_single :: "mapped_dns option"
  tcp_listening :: "nat set"
  netif_added :: bool
  fds :: "int set"

section \<open>The set of sessions\<close>

definition terminate_session :: "nat \<Rightarrow> tunnel \<Rightarrow> tunnel outcome" where
  "terminate_session node t =
     bind_o (of_option (sessions t node)) (\<lambda>s.
       Ret (t\<lparr>sessions := (sessions t)(node \<mapsto> s\<lparr>sd_base := hev_socks5_session_terminate (sd_base s)\<rparr>)\<rparr>))"

definition hev_socks5_tunnel_insert_session :: "config \<Rightarrow> nat \<Rightarrow> tunnel \<Rightarrow> tunnel outcome" where
  "hev_socks5_tunnel_insert_session cf node t =
     (let t = t\<lparr>session_set := hev_list_add_tail node (session_set t), session_count := session_count t + 1\<rparr>;
          max_count = hev_config_get_misc_max_session_count cf in
      if max_count = 0 \<or> session_count t < max_count then Ret t
      else bind_o (of_option (hev_list_first (session_set t))) (\<lambda>node. terminate_session node t))"

definition hev_socks5_tunnel_delete_session :: "nat \<Rightarrow> tunnel \<Rightarrow> tunnel" where
  "hev_socks5_tunnel_delete_session node t =
     t\<lparr>session_set := hev_list_del node (session_set t), session_count := session_count t - 1\<rparr>"

definition hev_socks5_tunnel_update_session :: "config \<Rightarrow> nat \<Rightarrow> tunnel \<Rightarrow> tunnel" where
  "hev_socks5_tunnel_update_session cf node t =
     (if hev_config_get_misc_max_session_count cf = 0 then t
      else t\<lparr>session_set := hev_list_add_tail node (hev_list_del node (session_set t))\<rparr>)"

text \<open>Dropping the only reference to a session destroys it: the destructors of both classes take the
  mutex around the release of the connection.\<close>

definition udp_remove :: "nat \<Rightarrow> tunnel \<Rightarrow> tunnel outcome" where
  "udp_remove p t =
     (if p \<in> fst ` set (udp_pcbs t) then Ret (t\<lparr>udp_pcbs := filter (\<lambda>(a, _). a \<noteq> p) (udp_pcbs t)\<rparr>) else Fault)"

definition tcp_abort :: "nat \<Rightarrow> tunnel \<Rightarrow> tunnel outcome" where
  "tcp_abort p t = (if p \<in> set (tcp_pcbs t) then Ret (t\<lparr>tcp_pcbs := removeAll p (tcp_pcbs t)\<rparr>) else Fault)"

definition release_pcb :: "session \<Rightarrow> tunnel \<Rightarrow> tunnel outcome" where
  "release_pcb s t =
     (case sd_pcb s of None \<Rightarrow> Ret t | Some p \<Rightarrow> if sd_udp s then udp_remove p t else tcp_abort p t)"

definition unref_session :: "nat \<Rightarrow> tunnel \<Rightarrow> tunnel outcome" where
  "unref_session node t =
     bind_o (of_option (sessions t node)) (\<lambda>s.
     bind_o (hev_task_mutex_lock (lwip_mutex t)) (\<lambda>m.
     bind_o (release_pcb s (t\<lparr>lwip_mutex := m\<rparr>)) (\<lambda>t.
       Ret (t\<lparr>lwip_mutex := hev_task_mutex_unlock (lwip_mutex t), sessions := (sessions t)(node := None)\<rparr>))))"

text \<open>The end of a session's task, after \<open>hev_socks5_session_run\<close> has returned.\<close>

definition hev_socks5_session_task_entry :: "nat \<Rightarrow> tunnel \<Rightarrow> tunnel outcome" where
  "hev_socks5_session_task_entry node t = unref_session node (hev_socks5_tunnel_delete_session node t)"

section \<open>Callbacks of lwIP\<close>

text \<open>What the allocators answer to a callback: the address of the new session, and of its task.\<close>

type_synonym answers = "nat option \<times> nat option"

definition new_session :: "bool \<Rightarrow> socks5_type \<Rightarrow> nat \<Rightarrow> session" where
  "new_session udp type p =
     \<lparr>sd_base = \<lparr>sfd = - 1, timeout = - 1, udp_associated = 0, stype = type, family = FAMILY_UNSPEC\<rparr>,
      sd_udp = udp, sd_pcb = Some p, sd_task = None\<rparr>"

definition put_session :: "nat \<Rightarrow> session \<Rightarrow> tunnel \<Rightarrow> tunnel" where
  "put_session node s t = t\<lparr>sessions := (sessions t)(node \<mapsto> s)\<rparr>"

text \<open>Running the new task and waking the timer task change nothing here.\<close>

definition start_session :: "config \<Rightarrow> nat \<Rightarrow> nat \<Rightarrow> tunnel \<Rightarrow> tunnel outcome" where
  "start_session cf node task t =
     bind_o (of_option (sessions t node)) (\<lambda>s.
       hev_socks5_tunnel_insert_session cf node (put_session node (s\<lparr>sd_task := Some task\<rparr>) t))"

definition tcp_accept_handler :: "config \<Rightarrow> answers \<Rightarrow> nat \<Rightarrow> lwip_err \<Rightarrow> tunnel \<Rightarrow> (lwip_err \<times> tunnel) outcome" where
  "tcp_accept_handler cf ans p err t =
     (if err \<noteq> ERR_OK then Ret (err, t)
      else if \<not> run t then Ret (ERR_RST, t)
      else case ans of
          (None, _) \<Rightarrow> Ret (ERR_MEM, t)
        | (Some tcp, None) \<Rightarrow>
            bind_o (unref_session tcp (put_session tcp (new_session False TYPE_TCP p) t)) (\<lambda>t. Ret (ERR_MEM, t))
        | (Some tcp, Some task) \<Rightarrow>
            bind_o (start_session cf tcp task (put_session tcp (new_session False TYPE_TCP p) t)) (\<lambda>t. Ret (ERR_OK, t)))"

text \<open>lwIP calls it when a handshake completes, and aborts the connection when it reports an error; the
  handler never answers \<open>ERR_ABRT\<close>.\<close>

definition lwip_accept :: "config \<Rightarrow> answers \<Rightarrow> nat \<Rightarrow> tunnel \<Rightarrow> tunnel outcome" where
  "lwip_accept cf ans p t =
     bind_o (tcp_accept_handler cf ans p ERR_OK (t\<lparr>tcp_pcbs := p # tcp_pcbs t\<rparr>)) (\<lambda>(err, t).
       if err \<noteq> ERR_OK then tcp_abort p t else Ret t)"

definition set_recv :: "nat \<Rightarrow> udp_cb \<Rightarrow> tunnel \<Rightarrow> tunnel" where
  "set_recv p cb t = t\<lparr>udp_pcbs := map (\<lambda>(a, u). (a, if a = p then u\<lparr>recv_fn := cb\<rparr> else u)) (udp_pcbs t)\<rparr>"

text \<open>The handler of the mapped DNS. \<open>mem\<close> answers the allocations of table entries; the first
  component of the result is the datagram sent back.\<close>

definition dns_recv_handler :: "(nat \<Rightarrow> bool) \<Rightarrow> nat \<Rightarrow> nat \<Rightarrow> pmem \<Rightarrow> tunnel \<Rightarrow>
    (byte list option \<times> pmem \<times> tunnel) outcome" where
  "dns_recv_handler mem upcb p m t =
     bind_o (pbuf_alloc PBUF_TRANSPORT 1500 PBUF_RAM m) (\<lambda>(b, m).
     bind_o (case b of
               None \<Rightarrow> Ret (None, m, t)
             | Some b \<Rightarrow>
                 bind_o (of_option (dns_single t)) (\<lambda>dns.
                 bind_o (deref p m) (\<lambda>pp. bind_o (read_payload pp) (\<lambda>req.
                 bind_o (deref b m) (\<lambda>pb. bind_o (read_payload pb) (\<lambda>res.
                 bind_o (hev_mapped_dns_handle mem req res dns) (\<lambda>(r, sb, dns).
                 let m = upd b (pb\<lparr>area := put (nat (payload pb)) sb (area pb)\<rparr>) m;
                     t = t\<lparr>dns_single := Some dns\<rparr> in
                 bind_o (if r < 0 then Ret (None, m)
                         else bind_o (deref b m) (\<lambda>pb.
                           let pb = pb\<lparr>plen := of_int r, tot_len := of_int r\<rparr> in
                           bind_o (read_payload pb) (\<lambda>d. Ret (Some d, upd b pb m)))) (\<lambda>(sent, m).
                 bind_o (pbuf_free (Some b) m) (\<lambda>(_, m). Ret (sent, m, t)))))))))) (\<lambda>(sent, m, t).
     bind_o (pbuf_free (Some p) m) (\<lambda>(_, m).
     bind_o (udp_remove upcb (set_recv upcb NoRecv t)) (\<lambda>t. Ret (sent, m, t)))))"

definition udp_recv_handler :: "config \<Rightarrow> answers \<Rightarrow> nat \<Rightarrow> ip_addr \<Rightarrow> u16 \<Rightarrow> tunnel \<Rightarrow> tunnel outcome" where
  "udp_recv_handler cf ans upcb addr port t =
     (if \<not> run t then udp_remove upcb t
      else if dns_single t \<noteq> None \<and> ip_type addr = IPADDR_TYPE_V4 \<and>
          hev_config_get_mapdns_port cf = uint port \<and> hev_config_get_mapdns_address cf = load32 (ip_mem addr)
        then Ret (set_recv upcb DnsRecv t)
      else
        let type = (if udp_in_udp (srv cf) then TYPE_UDP_IN_UDP else TYPE_UDP_IN_TCP) in
        case ans of
          (None, _) \<Rightarrow> udp_remove upcb t
        | (Some udp, None) \<Rightarrow>
            unref_session udp (put_session udp (new_session True type upcb) (set_recv upcb (SessionRecv udp) t))
        | (Some udp, Some task) \<Rightarrow>
            start_session cf udp task (put_session udp (new_session True type upcb) (set_recv upcb (SessionRecv udp) t)))"

section \<open>Demultiplexing of datagrams\<close>

definition same_ip :: "ip_addr \<Rightarrow> ip_addr \<Rightarrow> bool" where
  "same_ip a b \<longleftrightarrow> ip_type a = ip_type b \<and>
     (if ip_type a = IPADDR_TYPE_V6 then ip_mem a = ip_mem b else take 4 (ip_mem a) = take 4 (ip_mem b))"

definition from_peer :: "ip_addr \<times> u16 \<Rightarrow> nat \<times> udp_pcb \<Rightarrow> bool" where
  "from_peer src u \<longleftrightarrow> snd (remote (snd u)) = snd src \<and> same_ip (fst (remote (snd u))) (fst src)"

text \<open>Every UDP connection of the tunnel pretends to be the address a datagram is sent to: the
  listener is bound so and the others are copies of it. The connection is chosen by the source of the
  datagram; if there is none, the listener's callback gets a new connection to prepare and the search
  starts again. \<open>as\<close> are the answers of the allocators, one per round; the result names the
  connection that receives the datagram, \<open>Wait\<close> says that the rounds were not enough. \<open>own\<close>: the
  datagram is for the address of the interface itself.\<close>

fun udp_input :: "config \<Rightarrow> (nat option \<times> answers) list \<Rightarrow> ip_addr \<times> u16 \<Rightarrow> ip_addr \<times> u16 \<Rightarrow> bool \<Rightarrow>
    tunnel \<Rightarrow> (nat option \<times> tunnel) outcome" where
  "udp_input cf as src dest own t =
     (case find (from_peer src) (udp_pcbs t) of
        Some (a, _) \<Rightarrow>
          Ret (Some a, t\<lparr>udp_pcbs := map (\<lambda>(b, u). (b, if b = a then u\<lparr>local := dest\<rparr> else u)) (udp_pcbs t)\<rparr>)
      | None \<Rightarrow>
          if own then Ret (None, t)
          else case find (\<lambda>(_, u). \<not> connected u \<and> recv_fn u \<noteq> NoRecv) (udp_pcbs t) of
              None \<Rightarrow> Ret (None, t)
            | Some (_, l) \<Rightarrow>
                (case as of
                   [] \<Rightarrow> Wait
                 | (None, _) # _ \<Rightarrow> Ret (None, t)
                 | (Some a, ans) # as \<Rightarrow>
                     let u = \<lparr>remote = src, local = (\<lparr>ip_mem = replicate 16 0, ip_type = IPADDR_TYPE_ANY\<rparr>, 0),
                               connected = True, recv_fn = NoRecv\<rparr>;
                         t = t\<lparr>udp_pcbs := (a, u) # udp_pcbs t\<rparr> in
                     bind_o (case recv_fn l of
                               TunnelRecv \<Rightarrow> udp_recv_handler cf ans a (fst dest) (snd dest) t
                             | _ \<Rightarrow> Fault) (\<lambda>t. udp_input cf as src dest own t)))"

declare udp_input.simps [simp del]

section \<open>Tasks\<close>

text \<open>One packet of the interface: it is counted and given to lwIP under the mutex.\<close>

definition lwip_io_step :: "nat \<Rightarrow> (tunnel \<Rightarrow> tunnel outcome) \<Rightarrow> tunnel \<Rightarrow> tunnel outcome" where
  "lwip_io_step len input t =
     (if \<not> run t then Ret t
      else bind_o (hev_task_mutex_lock (lwip_mutex t)) (\<lambda>m.
        bind_o (input (t\<lparr>stat_tx_packets := stat_tx_packets t + 1, stat_tx_bytes := stat_tx_bytes t + of_nat len,
            lwip_mutex := m\<rparr>)) (\<lambda>t.
          Ret (t\<lparr>lwip_mutex := hev_task_mutex_unlock (lwip_mutex t)\<rparr>))))"

text \<open>One round of the timer task. \<open>tmr\<close> stands for lwIP's timers, told whether it is a fourth round; the
  first component of the result says whether the task then sleeps for an interval (\<open>True\<close>) or until it is
  woken, which the callbacks above do for a new session.\<close>

definition lwip_timer_step :: "(bool \<Rightarrow> tunnel \<Rightarrow> tunnel outcome) \<Rightarrow> 32 word \<Rightarrow> tunnel \<Rightarrow> (bool \<times> tunnel) outcome" where
  "lwip_timer_step tmr i t =
     (if \<not> run t then Ret (False, t)
      else bind_o (hev_task_mutex_lock (lwip_mutex t)) (\<lambda>m.
        bind_o (tmr (i AND 3 = 0) (t\<lparr>lwip_mutex := m\<rparr>)) (\<lambda>t.
          let t = t\<lparr>lwip_mutex := hev_task_mutex_unlock (lwip_mutex t)\<rparr> in
          Ret (hev_list_first (session_set t) \<noteq> None, t))))"

text \<open>The loop of the event task over the sessions; \<open>n\<close> bounds the number of nodes.\<close>

fun terminate_all :: "nat \<Rightarrow> nat option \<Rightarrow> tunnel \<Rightarrow> tunnel outcome" where
  "terminate_all n None t = Ret t"
| "terminate_all 0 (Some node) t = Wait"
| "terminate_all (Suc n) (Some node) t =
     bind_o (terminate_session node t) (\<lambda>t. terminate_all n (hev_list_node_next (session_set t) node) t)"

text \<open>The event task after its read has returned. Joining the other two tasks wakes them until they
  have seen \<open>run\<close> cleared.\<close>

definition event_task_entry :: "nat \<Rightarrow> tunnel \<Rightarrow> tunnel outcome" where
  "event_task_entry n t =
     (let t = t\<lparr>run := False\<rparr> in terminate_all n (hev_list_first (session_set t)) t)"

definition netif_output_handler :: "int \<Rightarrow> bool \<Rightarrow> tunnel \<Rightarrow> lwip_err \<times> tunnel" where
  "netif_output_handler s again t =
     (if s \<le> 0 then (if again then ERR_WOULDBLOCK else ERR_IF, t)
      else (ERR_OK, t\<lparr>stat_rx_packets := stat_rx_packets t + 1, stat_rx_bytes := stat_rx_bytes t + of_int s\<rparr>))"

section \<open>Steps of the running tunnel\<close>

text \<open>What happens while the tunnel runs: lwIP completes a connection or passes a datagram on, the
  mapped DNS has answered, a session's task ran and left a new state of its object, lwIP gave a
  connection up, a session's task has ended, the event task was told to stop.\<close>

datatype event =
    Accept nat answers
  | Datagram "(nat option \<times> answers) list" "ip_addr \<times> u16" "ip_addr \<times> u16" bool
  | DnsDone nat mapped_dns
  | Active nat socks5
  | PcbErr nat
  | SessionEnd nat
  | StopEvent

definition tunnel_tcp_err :: "nat \<Rightarrow> tunnel \<Rightarrow> tunnel outcome" where
  "tunnel_tcp_err node t =
     bind_o (of_option (sessions t node)) (\<lambda>s.
     bind_o (of_option (sd_pcb s)) (\<lambda>p.
       terminate_session node
         (put_session node (s\<lparr>sd_pcb := None\<rparr>) (t\<lparr>tcp_pcbs := removeAll p (tcp_pcbs t)\<rparr>))))"

definition session_active :: "config \<Rightarrow> nat \<Rightarrow> socks5 \<Rightarrow> tunnel \<Rightarrow> tunnel outcome" where
  "session_active cf node b t =
     bind_o (of_option (sessions t node)) (\<lambda>s.
       Ret (hev_socks5_tunnel_update_session cf node (put_session node (s\<lparr>sd_base := b\<rparr>) t)))"

fun tun_step :: "config \<Rightarrow> event \<Rightarrow> tunnel \<Rightarrow> tunnel outcome" where
  "tun_step cf (Accept p ans) t = lwip_io_step 40 (lwip_accept cf ans p) t"
| "tun_step cf (Datagram as src dest own) t =
     lwip_io_step 28 (\<lambda>t. bind_o (udp_input cf as src dest own t) (\<lambda>(_, t). Ret t)) t"
| "tun_step cf (DnsDone p d) t =
     lwip_io_step 28 (\<lambda>t. udp_remove p (set_recv p NoRecv (t\<lparr>dns_single := Some d\<rparr>))) t"
| "tun_step cf (Active node b) t = session_active cf node b t"
| "tun_step cf (PcbErr node) t = tunnel_tcp_err node t"
| "tun_step cf (SessionEnd node) t = hev_socks5_session_task_entry node t"
| "tun_step cf StopEvent t = event_task_entry (nat (session_count t)) t"

text \<open>The environment: the allocators hand out addresses that are not in use, only a live session acts,
  and the allocations for a new session's task, and for a UDP session, succeed.\<close>

fun tun_may :: "event \<Rightarrow> tunnel \<Rightarrow> bool" where
  "tun_may (Accept p ans) t \<longleftrightarrow> p \<notin> set (tcp_pcbs t) \<and>
     (case ans of (None, _) \<Rightarrow> True | (Some n, Some k) \<Rightarrow> sessions t n = None | _ \<Rightarrow> False)"
| "tun_may (Datagram as src dest own) t \<longleftrightarrow>
     (case as of [(None, _)] \<Rightarrow> True
      | [(Some a, Some n, Some k)] \<Rightarrow> a \<notin> fst ` set (udp_pcbs t) \<and> sessions t n = None | _ \<Rightarrow> False)"
| "tun_may (DnsDone p d) t \<longleftrightarrow> (\<exists>u. (p, u) \<in> set (udp_pcbs t) \<and> recv_fn u = DnsRecv)"
| "tun_may (Active node b) t \<longleftrightarrow> sessions t node \<noteq> None"
| "tun_may (PcbErr node) t \<longleftrightarrow> (\<exists>s. sessions t node = Some s \<and> \<not> sd_udp s \<and> sd_pcb s \<noteq> None)"
| "tun_may (SessionEnd node) t \<longleftrightarrow> sessions t node \<noteq> None"
| "tun_may StopEvent t \<longleftrightarrow> True"

section \<open>The sessions as a queue in the order of last use\<close>

type_synonym squeue = "(nat \<times> session) list"

definition kill_session :: "session \<Rightarrow> session" where
  "kill_session s = s\<lparr>sd_base := hev_socks5_session_terminate (sd_base s)\<rparr>"

text \<open>A new session goes to the back; when the limit is reached the front one is told to end.\<close>

definition q_insert :: "int \<Rightarrow> nat \<times> session \<Rightarrow> squeue \<Rightarrow> squeue" where
  "q_insert limit x q =
     (let q = q @ [x] in
      if limit = 0 \<or> int (length q) < limit then q
      else case q of (n, s) # r \<Rightarrow> (n, kill_session s) # r | [] \<Rightarrow> [])"

definition q_set :: "nat \<Rightarrow> (session \<Rightarrow> session) \<Rightarrow> squeue \<Rightarrow> squeue" where
  "q_set n f q = map (\<lambda>(m, s). (m, if m = n then f s else s)) q"

definition q_del :: "nat \<Rightarrow> squeue \<Rightarrow> squeue" where
  "q_del n q = filter (\<lambda>(m, _). m \<noteq> n) q"

definition q_touch :: "int \<Rightarrow> nat \<Rightarrow> squeue \<Rightarrow> squeue" where
  "q_touch limit n q = (if limit = 0 then q else q_del n q @ filter (\<lambda>(m, _). m = n) q)"

text \<open>\<open>opens\<close>: the datagram comes from a peer that has no connection yet, there is a listener, and the
  datagram is not for the mapped DNS or the interface.\<close>

definition opens :: "config \<Rightarrow> ip_addr \<times> u16 \<Rightarrow> ip_addr \<times> u16 \<Rightarrow> bool \<Rightarrow> tunnel \<Rightarrow> bool" where
  "opens cf src dest own t \<longleftrightarrow> find (from_peer src) (udp_pcbs t) = None \<and> \<not> own \<and>
     find (\<lambda>(_, u). \<not> connected u \<and> recv_fn u \<noteq> NoRecv) (udp_pcbs t) \<noteq> None \<and>
     \<not> (dns_single t \<noteq> None \<and> ip_type (fst dest) = IPADDR_TYPE_V4 \<and> mapdns_port cf = uint (snd dest) \<and>
        mapdns_address cf = load32 (ip_mem (fst dest)))"

fun q_step :: "config \<Rightarrow> tunnel \<Rightarrow> event \<Rightarrow> squeue \<Rightarrow> squeue" where
  "q_step cf t (Accept p (Some n, Some k)) q =
     (if run t then q_insert (max_session_count cf) (n, (new_session False TYPE_TCP p)\<lparr>sd_task := Some k\<rparr>) q else q)"
| "q_step cf t (Datagram [(Some a, Some n, Some k)] src dest own) q =
     (if run t \<and> opens cf src dest own t
      then q_insert (max_session_count cf)
        (n, (new_session True (if udp_in_udp (srv cf) then TYPE_UDP_IN_UDP else TYPE_UDP_IN_TCP) a)\<lparr>sd_task := Some k\<rparr>) q
      else q)"
| "q_step cf t (Active n b) q = q_touch (max_session_count cf) n (q_set n (\<lambda>s. s\<lparr>sd_base := b\<rparr>) q)"
| "q_step cf t (PcbErr n) q = q_set n (\<lambda>s. kill_session (s\<lparr>sd_pcb := None\<rparr>)) q"
| "q_step cf t (SessionEnd n) q = q_del n q"
| "q_step cf t StopEvent q = map (\<lambda>(m, s). (m, kill_session s)) q"
| "q_step cf t _ q = q"

text \<open>The list of the sessions, their number and their objects agree.\<close>

definition set_inv :: "tunnel \<Rightarrow> squeue \<Rightarrow> bool" where
  "set_inv t q \<longleftrightarrow> list_rep (session_set t) (map fst q) \<and> session_count t = int (length q) \<and> sessions t = map_of q"

lemma set_inv_distinct: "set_inv t q \<Longrightarrow> distinct (map fst q)"
  using hl.rep_distinct by (auto simp: set_inv_def)

lemma set_inv_cong:
  "session_set t' = session_set t \<Longrightarrow> session_count t' = session_count t \<Longrightarrow> sessions t' = sessions t \<Longrightarrow>
   set_inv t' q = set_inv t q"
  by (simp add: set_inv_def)

lemma map_of_q_set: "map_of (q_set n f q) m = (if m = n then map_option f (map_of q m) else map_of q m)"
  by (induction q) (auto simp: q_set_def)

lemma fst_q_set [simp]: "map fst (q_set n f q) = map fst q" "length (q_set n f q) = length q"
  by (simp_all add: q_set_def case_prod_beta comp_def)

lemma put_session_inv:
  assumes "set_inv t q" "sessions t n = Some s"
  shows "set_inv (put_session n (f s) t) (q_set n f q)"
  using assms by (auto simp: set_inv_def put_session_def map_of_q_set fun_eq_iff)

lemma terminate_session_eq:
  "sessions t n = Some s \<Longrightarrow> terminate_session n t = Ret (put_session n (kill_session s) t)"
  by (simp add: terminate_session_def put_session_def kill_session_def)

section \<open>Who owns the connections\<close>

definition owns :: "tunnel \<Rightarrow> bool \<Rightarrow> nat \<Rightarrow> nat \<Rightarrow> bool" where
  "owns t udp p n \<longleftrightarrow> (\<exists>s. sessions t n = Some s \<and> sd_udp s = udp \<and> sd_pcb s = Some p)"

text \<open>Every TCP connection belongs to exactly one session. Every UDP connection is the listener, or
  waits for the answer of the mapped DNS, or belongs to exactly one session and calls it.\<close>

definition pcb_inv :: "tunnel \<Rightarrow> bool" where
  "pcb_inv t \<longleftrightarrow>
     (\<forall>p. p \<in> set (tcp_pcbs t) \<longleftrightarrow> (\<exists>n. owns t False p n)) \<and>
     (\<forall>udp p n n'. owns t udp p n \<and> owns t udp p n' \<longrightarrow> n = n') \<and>
     distinct (map fst (udp_pcbs t)) \<and>
     (\<forall>a u. (a, u) \<in> set (udp_pcbs t) \<longrightarrow>
        (if connected u then recv_fn u = DnsRecv \<or> (\<exists>n. recv_fn u = SessionRecv n \<and> owns t True a n)
         else recv_fn u = TunnelRecv)) \<and>
     (\<forall>a n. owns t True a n \<longrightarrow> (\<exists>u. (a, u) \<in> set (udp_pcbs t) \<and> connected u \<and> recv_fn u = SessionRecv n))"

lemma pcb_invI:
  assumes "\<And>p. p \<in> set (tcp_pcbs t) \<longleftrightarrow> (\<exists>n. owns t False p n)"
    and "\<And>udp p n n'. owns t udp p n \<Longrightarrow> owns t udp p n' \<Longrightarrow> n = n'"
    and "distinct (map fst (udp_pcbs t))"
    and "\<And>a u. (a, u) \<in> set (udp_pcbs t) \<Longrightarrow> connected u \<Longrightarrow> recv_fn u \<noteq> DnsRecv \<Longrightarrow>
      \<exists>n. recv_fn u = SessionRecv n \<and> owns t True a n"
    and "\<And>a u. (a, u) \<in> set (udp_pcbs t) \<Longrightarrow> \<not> connected u \<Longrightarrow> recv_fn u = TunnelRecv"
    and "\<And>a n. owns t True a n \<Longrightarrow> \<exists>u. (a, u) \<in> set (udp_pcbs t) \<and> connected u \<and> recv_fn u = SessionRecv n"
  shows "pcb_inv t"
  unfolding pcb_inv_def if_bool_eq_conj using assms by blast

lemma pcb_invD:
  assumes "pcb_inv t"
  shows pcb_tcp: "\<And>p. p \<in> set (tcp_pcbs t) \<longleftrightarrow> (\<exists>n. owns t False p n)"
    and pcb_uniq: "\<And>udp p n n'. owns t udp p n \<Longrightarrow> owns t udp p n' \<Longrightarrow> n = n'"
    and pcb_dist: "distinct (map fst (udp_pcbs t))"
    and pcb_conn: "\<And>a u. (a, u) \<in> set (udp_pcbs t) \<Longrightarrow> connected u \<Longrightarrow> recv_fn u \<noteq> DnsRecv \<Longrightarrow>
      \<exists>n. recv_fn u = SessionRecv n \<and> owns t True a n"
    and pcb_listen: "\<And>a u. (a, u) \<in> set (udp_pcbs t) \<Longrightarrow> \<not> connected u \<Longrightarrow> recv_fn u = TunnelRecv"
    and pcb_udp: "\<And>a n. owns t True a n \<Longrightarrow> \<exists>u. (a, u) \<in> set (udp_pcbs t) \<and> connected u \<and> recv_fn u = SessionRecv n"
  using assms unfolding pcb_inv_def if_bool_eq_conj by blast+

lemma pcb_inv_cong:
  "(\<And>udp p n. owns t' udp p n = owns t udp p n) \<Longrightarrow> tcp_pcbs t' = tcp_pcbs t \<Longrightarrow> udp_pcbs t' = udp_pcbs t \<Longrightarrow>
   pcb_inv t' = pcb_inv t"
  by (simp add: pcb_inv_def)

lemma owns_put:
  "owns (put_session m s t) udp p n = (if n = m then sd_udp s = udp \<and> sd_pcb s = Some p else owns t udp p n)"
  by (simp add: owns_def put_session_def)

lemma put_fields [simp]:
  "tcp_pcbs (put_session m s t) = tcp_pcbs t" "udp_pcbs (put_session m s t) = udp_pcbs t"
  "session_set (put_session m s t) = session_set t" "session_count (put_session m s t) = session_count t"
  "lwip_mutex (put_session m s t) = lwip_mutex t" "run (put_session m s t) = run t"
  "sessions (put_session m s t) = (sessions t)(m \<mapsto> s)" "dns_single (put_session m s t) = dns_single t"
  by (simp_all add: put_session_def)

lemma owns_same:
  "sessions t m = Some s \<Longrightarrow> sd_udp s' = sd_udp s \<Longrightarrow> sd_pcb s' = sd_pcb s \<Longrightarrow>
   owns (put_session m s' t) udp p n = owns t udp p n"
  by (auto simp: owns_put) (auto simp: owns_def)

lemma pcb_inv_same:
  "sessions t m = Some s \<Longrightarrow> sd_udp s' = sd_udp s \<Longrightarrow> sd_pcb s' = sd_pcb s \<Longrightarrow>
   pcb_inv (put_session m s' t) = pcb_inv t"
  by (rule pcb_inv_cong) (simp_all add: owns_same)

lemma owns_None: "sessions t n = None \<Longrightarrow> \<not> owns t udp p n"
  by (simp add: owns_def)

lemma owns_cong: "sessions t' = sessions t \<Longrightarrow> owns t' = owns t"
  by (simp add: owns_def fun_eq_iff)

lemma pcb_inv_new_tcp:
  assumes i: "pcb_inv t" and f: "p \<notin> set (tcp_pcbs t)" "sessions t n = None"
    and s: "\<not> sd_udp s" "sd_pcb s = Some p"
  shows "pcb_inv (put_session n s (t\<lparr>tcp_pcbs := p # tcp_pcbs t\<rparr>))"
proof -
  let ?t = "put_session n s (t\<lparr>tcp_pcbs := p # tcp_pcbs t\<rparr>)"
  have o: "owns ?t udp a m \<longleftrightarrow> m = n \<and> \<not> udp \<and> a = p \<or> owns t udp a m" for udp a m
    using s owns_None [OF f(2)] owns_cong [of "t\<lparr>tcp_pcbs := p # tcp_pcbs t\<rparr>" t] by (auto simp: owns_put)
  have np: "\<not> owns t False p m" for m using pcb_tcp [OF i] f(1) by blast
  show ?thesis
  proof (rule pcb_invI)
    show "a \<in> set (tcp_pcbs ?t) \<longleftrightarrow> (\<exists>m. owns ?t False a m)" for a using pcb_tcp [OF i, of a] by (auto simp: o)
    show "owns ?t udp a m \<Longrightarrow> owns ?t udp a m' \<Longrightarrow> m = m'" for udp a m m'
      using pcb_uniq [OF i, of udp a m m'] np by (auto simp: o)
    show "distinct (map fst (udp_pcbs ?t))" using pcb_dist [OF i] by simp
  qed (use pcb_conn [OF i] pcb_listen [OF i] pcb_udp [OF i] in \<open>auto simp: o\<close>)
qed

lemma pcb_inv_drop_tcp:
  assumes i: "pcb_inv t" and s: "sessions t n = Some s" "\<not> sd_udp s"
    and u: "\<And>udp a m. owns t' udp a m \<longleftrightarrow> m \<noteq> n \<and> owns t udp a m"
    and p: "set (tcp_pcbs t') = set (tcp_pcbs t) - set_option (sd_pcb s)" "udp_pcbs t' = udp_pcbs t"
  shows "pcb_inv t'"
proof (rule pcb_invI)
  have n: "owns t udp a n \<longleftrightarrow> \<not> udp \<and> sd_pcb s = Some a" for udp a using s by (auto simp: owns_def)
  show "a \<in> set (tcp_pcbs t') \<longleftrightarrow> (\<exists>m. owns t' False a m)" for a
  proof -
    have "a \<in> set (tcp_pcbs t') \<longleftrightarrow> a \<in> set (tcp_pcbs t) \<and> \<not> owns t False a n" using n [of False a] by (auto simp: p(1))
    then show ?thesis using pcb_tcp [OF i, of a] pcb_uniq [OF i, of False a] u by metis
  qed
  show "owns t' udp a m \<Longrightarrow> owns t' udp a m' \<Longrightarrow> m = m'" for udp a m m' using pcb_uniq [OF i] u by metis
  show "distinct (map fst (udp_pcbs t'))" using pcb_dist [OF i] p(2) by simp
  show "\<exists>m. recv_fn v = SessionRecv m \<and> owns t' True a m"
    if "(a, v) \<in> set (udp_pcbs t')" "connected v" "recv_fn v \<noteq> DnsRecv" for a v
    using pcb_conn [OF i, of a v] that n [of True] u p(2) by metis
  show "recv_fn v = TunnelRecv" if "(a, v) \<in> set (udp_pcbs t')" "\<not> connected v" for a v
    using pcb_listen [OF i, of a v] that p(2) by simp
  show "\<exists>v. (a, v) \<in> set (udp_pcbs t') \<and> connected v \<and> recv_fn v = SessionRecv m" if "owns t' True a m" for a m
    using pcb_udp [OF i, of a m] that p(2) u by simp
qed

lemma pcb_inv_drop_udp:
  assumes i: "pcb_inv t" and s: "sessions t n = Some s" "sd_udp s" "sd_pcb s = Some p"
    and u: "\<And>udp a m. owns t' udp a m \<longleftrightarrow> m \<noteq> n \<and> owns t udp a m"
    and p: "tcp_pcbs t' = tcp_pcbs t" "udp_pcbs t' = filter (\<lambda>(a, _). a \<noteq> p) (udp_pcbs t)"
  shows "pcb_inv t'"
proof (rule pcb_invI)
  have n: "owns t udp a n \<longleftrightarrow> udp \<and> a = p" for udp a using s by (auto simp: owns_def)
  have mem: "(a, v) \<in> set (udp_pcbs t') \<longleftrightarrow> (a, v) \<in> set (udp_pcbs t) \<and> a \<noteq> p" for a v by (auto simp: p(2))
  show "a \<in> set (tcp_pcbs t') \<longleftrightarrow> (\<exists>m. owns t' False a m)" for a using pcb_tcp [OF i, of a] n [of False] u p(1) by metis
  show "owns t' udp a m \<Longrightarrow> owns t' udp a m' \<Longrightarrow> m = m'" for udp a m m' using pcb_uniq [OF i] u by metis
  show "distinct (map fst (udp_pcbs t'))" using pcb_dist [OF i] p(2) by (simp add: distinct_map_filter)
  show "\<exists>m. recv_fn v = SessionRecv m \<and> owns t' True a m"
    if "(a, v) \<in> set (udp_pcbs t')" "connected v" "recv_fn v \<noteq> DnsRecv" for a v
    using pcb_conn [OF i, of a v] that n [of True] u mem by metis
  show "recv_fn v = TunnelRecv" if "(a, v) \<in> set (udp_pcbs t')" "\<not> connected v" for a v
    using pcb_listen [OF i, of a v] that mem by simp
  show "\<exists>v. (a, v) \<in> set (udp_pcbs t') \<and> connected v \<and> recv_fn v = SessionRecv m" if "owns t' True a m" for a m
  proof -
    have "a \<noteq> p" using that u n [of True] pcb_uniq [OF i] by metis
    then show ?thesis using pcb_udp [OF i, of a m] that u mem by metis
  qed
qed

lemma pcb_inv_drop_dns:
  assumes i: "pcb_inv t" and a: "(p, u) \<in> set (udp_pcbs t)" "recv_fn u = DnsRecv"
    and t': "sessions t' = sessions t" "tcp_pcbs t' = tcp_pcbs t" "udp_pcbs t' = filter (\<lambda>(a, _). a \<noteq> p) (udp_pcbs t)"
  shows "pcb_inv t'"
proof (rule pcb_invI)
  have o: "owns t' = owns t" using owns_cong [OF t'(1)] .
  have no: "\<not> owns t True p m" for m
  proof
    assume "owns t True p m"
    then obtain v where v: "(p, v) \<in> set (udp_pcbs t)" "recv_fn v = SessionRecv m" using pcb_udp [OF i] by blast
    then have "v = u" using eq_key_imp_eq_value [OF pcb_dist [OF i] _ a(1)] by blast
    then show False using a(2) v(2) by simp
  qed
  have mem: "(b, v) \<in> set (udp_pcbs t') \<longleftrightarrow> (b, v) \<in> set (udp_pcbs t) \<and> b \<noteq> p" for b v by (auto simp: t'(3))
  show "distinct (map fst (udp_pcbs t'))" using pcb_dist [OF i] t'(3) by (simp add: distinct_map_filter)
  show "\<exists>m. recv_fn v = SessionRecv m \<and> owns t' True b m"
    if "(b, v) \<in> set (udp_pcbs t')" "connected v" "recv_fn v \<noteq> DnsRecv" for b v
    using pcb_conn [OF i, of b v] that mem o by metis
  show "\<exists>v. (b, v) \<in> set (udp_pcbs t') \<and> connected v \<and> recv_fn v = SessionRecv m" if "owns t' True b m" for b m
    using pcb_udp [OF i, of b m] that no mem o by metis
  show "recv_fn v = TunnelRecv" if "(b, v) \<in> set (udp_pcbs t')" "\<not> connected v" for b v
    using pcb_listen [OF i, of b v] that mem by simp
  show "b \<in> set (tcp_pcbs t') \<longleftrightarrow> (\<exists>m. owns t' False b m)" for b using pcb_tcp [OF i, of b] o t'(2) by simp
  show "owns t' udp b m \<Longrightarrow> owns t' udp b m' \<Longrightarrow> m = m'" for udp b m m' using pcb_uniq [OF i] o by metis
qed

lemma pcb_inv_new_udp_pcb:
  assumes i: "pcb_inv t" and f: "p \<notin> fst ` set (udp_pcbs t)" and c: "connected u"
    and t': "tcp_pcbs t' = tcp_pcbs t" "udp_pcbs t' = (p, u) # udp_pcbs t"
    and new: "recv_fn u = DnsRecv \<and> sessions t' = sessions t \<or>
      sessions t n = None \<and> sd_udp s \<and> sd_pcb s = Some p \<and> recv_fn u = SessionRecv n \<and> sessions t' = (sessions t)(n \<mapsto> s)"
  shows "pcb_inv t'"
proof (rule pcb_invI)
  have o: "owns t' udp a m \<longleftrightarrow> recv_fn u = SessionRecv n \<and> m = n \<and> udp \<and> a = p \<or> owns t udp a m" for udp a m
    using new owns_None [of t n udp a] by (cases "m = n") (auto simp: owns_def)
  have np: "\<not> owns t True p m" for m using pcb_udp [OF i, of p m] f by force
  show "a \<in> set (tcp_pcbs t') \<longleftrightarrow> (\<exists>m. owns t' False a m)" for a using pcb_tcp [OF i, of a] o [of False] t'(1) by simp
  show "owns t' udp a m \<Longrightarrow> owns t' udp a m' \<Longrightarrow> m = m'" for udp a m m'
    using pcb_uniq [OF i, of udp a m m'] np by (auto simp: o)
  show "distinct (map fst (udp_pcbs t'))" using pcb_dist [OF i] f by (simp add: t'(2))
  show "\<exists>m. recv_fn v = SessionRecv m \<and> owns t' True a m"
    if "(a, v) \<in> set (udp_pcbs t')" "connected v" "recv_fn v \<noteq> DnsRecv" for a v
  proof (cases "(a, v) = (p, u)")
    case True then show ?thesis using new that(3) by (auto simp: o)
  next
    case False then show ?thesis using pcb_conn [OF i, of a v] that by (auto simp: t'(2) o)
  qed
  show "recv_fn v = TunnelRecv" if "(a, v) \<in> set (udp_pcbs t')" "\<not> connected v" for a v
    using pcb_listen [OF i, of a v] that c by (auto simp: t'(2))
  show "\<exists>v. (a, v) \<in> set (udp_pcbs t') \<and> connected v \<and> recv_fn v = SessionRecv m" if "owns t' True a m" for a m
    using pcb_udp [OF i, of a m] that c by (auto simp: t'(2) o)
qed

section \<open>Every step refines the queue\<close>

text \<open>Nothing but the queue of sessions has changed.\<close>

definition same_rest :: "tunnel \<Rightarrow> tunnel \<Rightarrow> bool" where
  "same_rest t t' \<longleftrightarrow> tcp_pcbs t' = tcp_pcbs t \<and> udp_pcbs t' = udp_pcbs t \<and> lwip_mutex t' = lwip_mutex t \<and>
     run t' = run t \<and> owns t' = owns t"

lemma same_rest_pcb: "same_rest t t' \<Longrightarrow> pcb_inv t' = pcb_inv t"
  by (rule pcb_inv_cong) (simp_all add: same_rest_def)

lemma kill_session_fields [simp]: "sd_udp (kill_session s) = sd_udp s" "sd_pcb (kill_session s) = sd_pcb s"
  by (simp_all add: kill_session_def)

lemma same_rest_put:
  "sessions t m = Some s \<Longrightarrow> sd_udp s' = sd_udp s \<Longrightarrow> sd_pcb s' = sd_pcb s \<Longrightarrow> same_rest t (put_session m s' t)"
  by (simp add: same_rest_def fun_eq_iff owns_same)

lemma session_insert_inv:
  assumes l: "list_rep (session_set t) (map fst q)" "session_count t = int (length q)"
    and s: "sessions t = (map_of q)(n \<mapsto> s)" "n \<notin> fst ` set q"
  obtains t' where "hev_socks5_tunnel_insert_session cf n t = Ret t'"
    "set_inv t' (q_insert (max_session_count cf) (n, s) q)" "same_rest t t'"
proof -
  let ?m = "max_session_count cf"
  let ?t = "t\<lparr>session_set := hev_list_add_tail n (session_set t), session_count := session_count t + 1\<rparr>"
  have r: "list_rep (hev_list_add_tail n (session_set t)) (map fst (q @ [(n, s)]))"
    using hl.rep_add_tail [OF l(1), of n] s(2) by simp
  have "map_of q n = None" using s(2) by (simp add: map_of_eq_None_iff)
  then have "map_of (q @ [(n, s)]) = (map_of q)(n \<mapsto> s)" by (auto simp: map_add_def fun_eq_iff split: option.split)
  then have i: "set_inv ?t (q @ [(n, s)])" using r l(2) s(1) by (simp add: set_inv_def)
  have o: "same_rest t ?t" by (simp add: same_rest_def owns_def fun_eq_iff)
  show thesis
  proof (cases "?m = 0 \<or> session_count ?t < ?m")
    case True
    then have "q_insert ?m (n, s) q = q @ [(n, s)]" "hev_socks5_tunnel_insert_session cf n t = Ret ?t"
      using l(2) by (auto simp: q_insert_def Let_def hev_socks5_tunnel_insert_session_def
          hev_config_get_misc_max_session_count_def)
    then show thesis using that [of ?t] i o by simp
  next
    case False
    obtain h sh r where q: "q @ [(n, s)] = (h, sh) # r" by (cases "q @ [(n, s)]") auto
    have "length (q @ [(n, s)]) = Suc (length r)" by (simp only: q length_Cons)
    then have len: "length r = length q" by simp
    have h: "sessions ?t h = Some sh" "hev_list_first (session_set ?t) = Some h"
      using i q hl.rep_first by (auto simp: set_inv_def)
    have nr: "h \<notin> fst ` set r" using set_inv_distinct [OF i] q by simp
    then have "q_set h kill_session ((h, sh) # r) = (h, kill_session sh) # r"
      by (force simp: q_set_def intro!: map_idI)
    then have "set_inv (put_session h (kill_session sh) ?t) ((h, kill_session sh) # r)"
      using put_session_inv [OF i h(1), of kill_session] q by simp
    moreover have "same_rest t (put_session h (kill_session sh) ?t)"
      using same_rest_put [OF h(1), of "kill_session sh"] o by (simp add: same_rest_def)
    moreover have "q_insert ?m (n, s) q = (h, kill_session sh) # r"
      using False l(2) len by (simp add: q_insert_def Let_def q)
    ultimately show thesis
      using that [of "put_session h (kill_session sh) ?t"] False h terminate_session_eq [OF h(1)]
      by (simp add: hev_socks5_tunnel_insert_session_def hev_config_get_misc_max_session_count_def)
  qed
qed

lemma start_inv:
  assumes i: "set_inv t q" and n: "sessions t n = None"
  obtains t' where "start_session cf n k (put_session n s t) = Ret t'"
    "set_inv t' (q_insert (max_session_count cf) (n, s\<lparr>sd_task := Some k\<rparr>) q)"
    "same_rest (put_session n s t) t'"
proof -
  let ?s = "s\<lparr>sd_task := Some k\<rparr>"
  let ?t = "put_session n ?s (put_session n s t)"
  have q: "list_rep (session_set ?t) (map fst q)" "session_count ?t = int (length q)"
    "sessions ?t = (map_of q)(n \<mapsto> ?s)" "n \<notin> fst ` set q"
    using i n by (simp_all add: set_inv_def map_of_eq_None_iff)
  obtain t' where t': "hev_socks5_tunnel_insert_session cf n ?t = Ret t'"
    "set_inv t' (q_insert (max_session_count cf) (n, ?s) q)" "same_rest ?t t'"
    by (rule session_insert_inv [OF q])
  have "same_rest (put_session n s t) t'" using t'(3) same_rest_put [of "put_session n s t" n s ?s]
    by (simp add: same_rest_def)
  then show thesis using that t' by (simp add: start_session_def)
qed

definition tun_inv :: "tunnel \<Rightarrow> squeue \<Rightarrow> bool" where
  "tun_inv t q \<longleftrightarrow> set_inv t q \<and> pcb_inv t \<and> \<not> locker (lwip_mutex t)"

definition alike :: "tunnel \<Rightarrow> tunnel \<Rightarrow> bool" where
  "alike t t' \<longleftrightarrow> sessions t' = sessions t \<and> session_set t' = session_set t \<and> session_count t' = session_count t \<and>
     tcp_pcbs t' = tcp_pcbs t \<and> udp_pcbs t' = udp_pcbs t \<and> dns_single t' = dns_single t \<and> run t' = run t"

lemma alike_inv: "alike t t' \<Longrightarrow> set_inv t' q = set_inv t q" "alike t t' \<Longrightarrow> pcb_inv t' = pcb_inv t"
  unfolding alike_def by (elim conjE, rule set_inv_cong, assumption+)
    (elim conjE, rule pcb_inv_cong, simp_all only: owns_def)

lemma io_step_inv:
  assumes i: "tun_inv t q" "run t"
    and f: "\<And>t1. alike t t1 \<Longrightarrow> set_inv t1 q \<Longrightarrow> pcb_inv t1 \<Longrightarrow>
      \<exists>t2. input t1 = Ret t2 \<and> set_inv t2 q' \<and> pcb_inv t2 \<and> run t2"
  shows "\<exists>t'. lwip_io_step len input t = Ret t' \<and> tun_inv t' q' \<and> run t'"
proof -
  let ?t1 = "t\<lparr>stat_tx_packets := stat_tx_packets t + 1, stat_tx_bytes := stat_tx_bytes t + of_nat len,
    lwip_mutex := (lwip_mutex t)\<lparr>locker := True\<rparr>\<rparr>"
  have a: "alike t ?t1" by (simp add: alike_def)
  then obtain t2 where t2: "input ?t1 = Ret t2" "set_inv t2 q'" "pcb_inv t2" "run t2"
    using f [OF a] i(1) alike_inv [OF a] by (auto simp: tun_inv_def)
  have "alike t2 (t2\<lparr>lwip_mutex := hev_task_mutex_unlock (lwip_mutex t2)\<rparr>)" by (simp add: alike_def)
  then show ?thesis using i t2 alike_inv
    by (simp add: lwip_io_step_def hev_task_mutex_lock_def tun_inv_def hev_task_mutex_unlock_def)
qed

lemma accept_inv:
  assumes i: "set_inv t q" "pcb_inv t" "run t" and m: "tun_may (Accept p ans) t"
  shows "\<exists>t'. lwip_accept cf ans p t = Ret t' \<and> set_inv t' (q_step cf t (Accept p ans) q) \<and> pcb_inv t' \<and> run t'"
proof -
  let ?t = "t\<lparr>tcp_pcbs := p # tcp_pcbs t\<rparr>"
  consider k where "ans = (None, k)" | n k where "ans = (Some n, Some k)" "sessions t n = None"
    using m by (cases ans) (auto split: option.splits)
  then show ?thesis
  proof cases
    case 1
    then have "lwip_accept cf ans p t = Ret t"
      using i(3) m by (simp add: lwip_accept_def tcp_accept_handler_def tcp_abort_def)
    then show ?thesis using i 1 by simp
  next
    case 2
    let ?s = "new_session False TYPE_TCP p"
    have "set_inv ?t q" using i(1) by (simp add: set_inv_def)
    then obtain t' where t': "start_session cf n k (put_session n ?s ?t) = Ret t'"
      "set_inv t' (q_insert (max_session_count cf) (n, ?s\<lparr>sd_task := Some k\<rparr>) q)" "same_rest (put_session n ?s ?t) t'"
      using start_inv [of ?t q n cf k ?s] 2(2) by auto
    have "pcb_inv (put_session n ?s ?t)"
      using pcb_inv_new_tcp [OF i(2) _ 2(2)] m by (simp add: new_session_def)
    then show ?thesis
      using t' same_rest_pcb [OF t'(3)] i(3) 2(1)
      by (simp add: lwip_accept_def tcp_accept_handler_def same_rest_def)
  qed
qed

lemma set_recv_front:
  "p \<notin> fst ` set us \<Longrightarrow> udp_pcbs t = (p, u) # us \<Longrightarrow> set_recv p cb t = t\<lparr>udp_pcbs := (p, u\<lparr>recv_fn := cb\<rparr>) # us\<rparr>"
proof -
  assume "p \<notin> fst ` set us" "udp_pcbs t = (p, u) # us"
  moreover from this(1) have "map (\<lambda>(a, u). (a, if a = p then u\<lparr>recv_fn := cb\<rparr> else u)) us = us"
    by (intro map_idI) force
  ultimately show ?thesis by (simp add: set_recv_def)
qed

lemma find_from_peer_Some: "find (from_peer src) us = Some (a, u) \<Longrightarrow> (a, u) \<in> set us"
  by (auto simp: find_Some_iff)

lemma upd_mem:
  "(b, v) \<in> set (map (\<lambda>(b, u). (b, if b = a then g u else u)) us) \<longleftrightarrow>
    (\<exists>u. (b, u) \<in> set us \<and> v = (if b = a then g u else u))"
  by (induction us) auto

text \<open>Noting the local address keeps everything.\<close>

lemma set_local_inv:
  assumes "set_inv t q" "pcb_inv t"
  shows "set_inv (t\<lparr>udp_pcbs := map (\<lambda>(b, u). (b, if b = a then u\<lparr>local := d\<rparr> else u)) (udp_pcbs t)\<rparr>) q"
    "pcb_inv (t\<lparr>udp_pcbs := map (\<lambda>(b, u). (b, if b = a then u\<lparr>local := d\<rparr> else u)) (udp_pcbs t)\<rparr>)"
proof -
  let ?f = "\<lambda>(b, u). (b, if b = a then u\<lparr>local := d\<rparr> else u)"
  let ?t = "t\<lparr>udp_pcbs := map ?f (udp_pcbs t)\<rparr>"
  show "set_inv ?t q" using assms(1) by (simp add: set_inv_def)
  have o: "owns ?t = owns t" by (simp add: owns_def fun_eq_iff)
  have m: "(b, v) \<in> set (udp_pcbs ?t) \<longleftrightarrow> (\<exists>u. (b, u) \<in> set (udp_pcbs t) \<and> v = (if b = a then u\<lparr>local := d\<rparr> else u))" for b v
    using upd_mem [of b v a "\<lambda>u. u\<lparr>local := d\<rparr>" "udp_pcbs t"] by simp
  show "pcb_inv ?t"
  proof (rule pcb_invI)
    show "distinct (map fst (udp_pcbs ?t))" using pcb_dist [OF assms(2)] by (simp add: case_prod_beta comp_def)
    show "b \<in> set (tcp_pcbs ?t) \<longleftrightarrow> (\<exists>n. owns ?t False b n)" for b using pcb_tcp [OF assms(2)] o by simp
    show "owns ?t udp b n \<Longrightarrow> owns ?t udp b n' \<Longrightarrow> n = n'" for udp b n n' using pcb_uniq [OF assms(2)] o by simp
    show "\<exists>n. recv_fn v = SessionRecv n \<and> owns ?t True b n"
      if "(b, v) \<in> set (udp_pcbs ?t)" "connected v" "recv_fn v \<noteq> DnsRecv" for b v
      using that pcb_conn [OF assms(2), of b] unfolding m o by (auto split: if_splits)
    show "recv_fn v = TunnelRecv" if "(b, v) \<in> set (udp_pcbs ?t)" "\<not> connected v" for b v
      using that pcb_listen [OF assms(2), of b] unfolding m by (auto split: if_splits)
    show "\<exists>v. (b, v) \<in> set (udp_pcbs ?t) \<and> connected v \<and> recv_fn v = SessionRecv n" if "owns ?t True b n" for b n
    proof -
      have "owns t True b n" using that by (simp only: o)
      from pcb_udp [OF assms(2) this] obtain u
        where "(b, u) \<in> set (udp_pcbs t)" "connected u" "recv_fn u = SessionRecv n" by blast
      then show ?thesis unfolding m by (intro exI [where x = "if b = a then u\<lparr>local := d\<rparr> else u"]) auto
    qed
  qed
qed

text \<open>A datagram whose connection is known, or is not looked for, changes no session.\<close>

lemma udp_input_found:
  assumes "find (from_peer src) (udp_pcbs t) = Some (a, u)"
  shows "udp_input cf as src dest own t =
    Ret (Some a, t\<lparr>udp_pcbs := map (\<lambda>(b, u). (b, if b = a then u\<lparr>local := dest\<rparr> else u)) (udp_pcbs t)\<rparr>)"
  using assms by (simp add: udp_input.simps)

text \<open>A new peer: the listener's callback prepares the connection and the second round finds it.\<close>

lemma udp_input_new:
  assumes i: "set_inv t q" "pcb_inv t" "run t"
    and k: "find (from_peer src) (udp_pcbs t) = None" "\<not> own"
    and l: "find (\<lambda>(_, u). \<not> connected u \<and> recv_fn u \<noteq> NoRecv) (udp_pcbs t) = Some (la, l)"
    and f: "a \<notin> fst ` set (udp_pcbs t)" "sessions t n = None"
  shows "\<exists>t'. udp_input cf [(Some a, Some n, Some j)] src dest own t = Ret (Some a, t') \<and>
    set_inv t' (q_step cf t (Datagram [(Some a, Some n, Some j)] src dest own) q) \<and> pcb_inv t' \<and> run t'"
proof -
  let ?u = "\<lparr>remote = src, local = (\<lparr>ip_mem = replicate 16 0, ip_type = IPADDR_TYPE_ANY\<rparr>, 0),
    connected = True, recv_fn = NoRecv\<rparr>"
  let ?t = "t\<lparr>udp_pcbs := (a, ?u) # udp_pcbs t\<rparr>"
  let ?ans = "(Some n, Some j)"
  have tl: "recv_fn l = TunnelRecv" using pcb_listen [OF i(2), of la l] l by (auto simp: find_Some_iff) (metis nth_mem)
  have step: "udp_input cf [(Some a, ?ans)] src dest own t =
      bind_o (udp_recv_handler cf ?ans a (fst dest) (snd dest) ?t) (udp_input cf [] src dest own)"
    using k l tl by (simp add: udp_input.simps [of _ "_ # _"])
  have sr: "set_recv a cb ?t = t\<lparr>udp_pcbs := (a, ?u\<lparr>recv_fn := cb\<rparr>) # udp_pcbs t\<rparr>" for cb
    using set_recv_front [OF f(1), of ?t ?u cb] by simp
  have fp: "find (from_peer src) ((a, ?u\<lparr>recv_fn := cb\<rparr>) # us) = Some (a, ?u\<lparr>recv_fn := cb\<rparr>)" for cb us
    by (simp add: from_peer_def same_ip_def)
  have last: "\<exists>t'. udp_input cf [] src dest own t2 = Ret (Some a, t') \<and> set_inv t' q' \<and> pcb_inv t' \<and> run t'"
    if "set_inv t2 q'" "pcb_inv t2" "run t2" "udp_pcbs t2 = (a, ?u\<lparr>recv_fn := cb\<rparr>) # us" for t2 q' cb us
  proof -
    have "find (from_peer src) (udp_pcbs t2) = Some (a, ?u\<lparr>recv_fn := cb\<rparr>)" by (simp only: that(4) fp)
    note e = udp_input_found [OF this]
    show ?thesis by (intro exI conjI, rule e, (rule set_local_inv [OF that(1,2)])+) (simp add: that(3))
  qed
  show ?thesis
  proof (cases "opens cf src dest own t")
    case False
    let ?t2 = "set_recv a DnsRecv ?t"
    have h: "udp_recv_handler cf ?ans a (fst dest) (snd dest) ?t = Ret ?t2"
      using False i(3) k l by (auto simp: udp_recv_handler_def opens_def hev_config_get_mapdns_port_def
          hev_config_get_mapdns_address_def)
    have "set_inv ?t2 q" "pcb_inv ?t2" "run ?t2"
      using i pcb_inv_new_udp_pcb [OF i(2) f(1), of "?u\<lparr>recv_fn := DnsRecv\<rparr>" ?t2] by (simp_all add: sr set_inv_def)
    then show ?thesis using last [of ?t2 q DnsRecv] step h False i(3) by (simp add: sr)
  next
    case True
    let ?type = "if udp_in_udp (srv cf) then TYPE_UDP_IN_UDP else TYPE_UDP_IN_TCP"
    let ?s = "new_session True ?type a" and ?t2 = "set_recv a (SessionRecv n) ?t"
    have "set_inv ?t2 q" "sessions ?t2 n = None" using i(1) f(2) by (simp_all add: sr set_inv_def)
    then obtain t' where t': "start_session cf n j (put_session n ?s ?t2) = Ret t'"
      "set_inv t' (q_insert (max_session_count cf) (n, ?s\<lparr>sd_task := Some j\<rparr>) q)" "same_rest (put_session n ?s ?t2) t'"
      by (rule start_inv)
    have h: "udp_recv_handler cf ?ans a (fst dest) (snd dest) ?t = Ret t'"
      using True i(3) t'(1) by (auto simp: udp_recv_handler_def opens_def hev_config_get_mapdns_port_def
          hev_config_get_mapdns_address_def Let_def)
    have "pcb_inv (put_session n ?s ?t2)"
      using pcb_inv_new_udp_pcb [OF i(2) f(1), of "?u\<lparr>recv_fn := SessionRecv n\<rparr>" "put_session n ?s ?t2" n ?s] f(2)
      by (simp add: sr new_session_def)
    then have "pcb_inv t'" "run t'" "udp_pcbs t' = (a, ?u\<lparr>recv_fn := SessionRecv n\<rparr>) # udp_pcbs t"
      using same_rest_pcb [OF t'(3)] t'(3) i(3) by (simp_all add: same_rest_def sr)
    then show ?thesis using last [OF t'(2)] step h True i(3) by simp
  qed
qed

lemma datagram_inv:
  assumes i: "set_inv t q" "pcb_inv t" "run t" and m: "tun_may (Datagram as src dest own) t"
  shows "\<exists>a t'. udp_input cf as src dest own t = Ret (a, t') \<and>
    set_inv t' (q_step cf t (Datagram as src dest own) q) \<and> pcb_inv t' \<and> run t'"
proof -
  let ?l = "find (\<lambda>(_, u). \<not> connected u \<and> recv_fn u \<noteq> NoRecv) (udp_pcbs t)"
  obtain x ans where as: "as = [(x, ans)]" using m by (auto split: list.splits option.splits)
  have new: "x = None \<or> (\<exists>a n k. x = Some a \<and> ans = (Some n, Some k) \<and> a \<notin> fst ` set (udp_pcbs t) \<and> sessions t n = None)"
    using m by (cases ans) (auto simp: as split: option.splits)
  have keep: "q_step cf t (Datagram as src dest own) q = q" if "x = None \<or> \<not> opens cf src dest own t"
    using that new by (auto simp: as)
  show ?thesis
  proof (cases "find (from_peer src) (udp_pcbs t)")
    case (Some y)
    obtain a u where y: "y = (a, u)" by fastforce
    have "\<not> opens cf src dest own t" using Some by (simp add: opens_def)
    moreover have "udp_input cf as src dest own t =
        Ret (Some a, t\<lparr>udp_pcbs := map (\<lambda>(b, u). (b, if b = a then u\<lparr>local := dest\<rparr> else u)) (udp_pcbs t)\<rparr>)"
      using udp_input_found Some y by blast
    ultimately show ?thesis using set_local_inv [OF i(1,2)] keep i(3) by auto
  next
    case None
    show ?thesis
    proof (cases "own \<or> ?l = None \<or> x = None")
      case True
      then have "udp_input cf as src dest own t = Ret (None, t)"
        using None by (auto simp: udp_input.simps as split: option.split)
      moreover have "x = None \<or> \<not> opens cf src dest own t" using True by (auto simp: opens_def)
      ultimately show ?thesis using keep i by simp
    next
      case False
      then obtain la l where l: "?l = Some (la, l)" by (cases ?l) auto
      obtain a n k where a: "x = Some a" "ans = (Some n, Some k)" "a \<notin> fst ` set (udp_pcbs t)" "sessions t n = None"
        using new False by auto
      have "\<not> own" using False by simp
      from udp_input_new [OF i None this l a(3,4), of cf k dest] show ?thesis unfolding as a(1,2) by blast
    qed
  qed
qed

lemma dns_done_inv:
  assumes i: "set_inv t q" "pcb_inv t" "run t" and m: "tun_may (DnsDone p d) t"
  shows "\<exists>t'. udp_remove p (set_recv p NoRecv (t\<lparr>dns_single := Some d\<rparr>)) = Ret t' \<and> set_inv t' q \<and> pcb_inv t' \<and> run t'"
proof -
  let ?f = "\<lambda>(a, u :: udp_pcb). (a, if a = p then u\<lparr>recv_fn := NoRecv\<rparr> else u)"
  let ?t' = "t\<lparr>dns_single := Some d, udp_pcbs := filter (\<lambda>(a, _). a \<noteq> p) (udp_pcbs t)\<rparr>"
  obtain u where u: "(p, u) \<in> set (udp_pcbs t)" "recv_fn u = DnsRecv" using m by auto
  have "filter (\<lambda>(a, _). a \<noteq> p) (map ?f us) = filter (\<lambda>(a, _). a \<noteq> p) us" for us by (induction us) auto
  moreover have "p \<in> fst ` set (map ?f (udp_pcbs t))" using u(1) by force
  ultimately have "udp_remove p (set_recv p NoRecv (t\<lparr>dns_single := Some d\<rparr>)) = Ret ?t'"
    by (simp add: udp_remove_def set_recv_def)
  moreover have "pcb_inv ?t'" by (rule pcb_inv_drop_dns [OF i(2) u]) simp_all
  ultimately show ?thesis using i(1,3) by (simp add: set_inv_def)
qed

lemma q_del_set: "map_of (q_del n q) = (map_of q)(n := None)"
proof -
  have "map_of (q_del n q) m = (if m = n then None else map_of q m)" for m
    by (induction q) (auto simp: q_del_def)
  then show ?thesis by (simp add: fun_eq_iff)
qed

lemma q_del_split: "distinct (map fst q) \<Longrightarrow> map fst (q_del n q) = remove1 n (map fst q)"
  by (induction q) (auto simp: q_del_def filter_id_conv image_iff remove1_idem)

lemma owns_del: "owns (t\<lparr>sessions := (sessions t)(n := None)\<rparr>) udp a m \<longleftrightarrow> m \<noteq> n \<and> owns t udp a m"
  by (auto simp: owns_def)

lemma session_end_inv:
  assumes i: "tun_inv t q" and n: "sessions t n = Some s"
  shows "\<exists>t'. hev_socks5_session_task_entry n t = Ret t' \<and> tun_inv t' (q_del n q) \<and> run t' = run t"
proof -
  have si: "set_inv t q" and pi: "pcb_inv t" and nl: "\<not> locker (lwip_mutex t)" using i by (simp_all add: tun_inv_def)
  have inq: "n \<in> set (map fst q)" using si n map_of_SomeD [of q n s] by (force simp: set_inv_def)
  have len: "length (q_del n q) = length q - 1"
    using arg_cong [OF q_del_split [OF set_inv_distinct [OF si], of n], of length] inq by (simp add: length_remove1)
  have "0 < length q" using inq by (cases q) auto
  then have cnt: "int (length (q_del n q)) = int (length q) - 1" using len by (simp add: of_nat_diff Suc_leI)
  let ?d = "hev_socks5_tunnel_delete_session n t"
  let ?m = "(lwip_mutex t)\<lparr>locker := True\<rparr>"
  define r where "r = (case sd_pcb s of None \<Rightarrow> (tcp_pcbs t, udp_pcbs t)
     | Some p \<Rightarrow> if sd_udp s then (tcp_pcbs t, filter (\<lambda>(a, _). a \<noteq> p) (udp_pcbs t)) else (removeAll p (tcp_pcbs t), udp_pcbs t))"
  let ?t' = "?d\<lparr>lwip_mutex := (lwip_mutex t)\<lparr>locker := False\<rparr>, tcp_pcbs := fst r, udp_pcbs := snd r, sessions := (sessions t)(n := None)\<rparr>"
  have own: "sd_pcb s = Some p \<Longrightarrow> owns t (sd_udp s) p n" for p using n by (simp add: owns_def)
  have rel: "release_pcb s (?d\<lparr>lwip_mutex := ?m\<rparr>) = Ret (?d\<lparr>lwip_mutex := ?m, tcp_pcbs := fst r, udp_pcbs := snd r\<rparr>)"
  proof (cases "sd_pcb s")
    case None then show ?thesis by (simp add: release_pcb_def r_def hev_socks5_tunnel_delete_session_def)
  next
    case (Some p)
    show ?thesis
    proof (cases "sd_udp s")
      case True
      then have "p \<in> fst ` set (udp_pcbs t)" using own [OF Some] pcb_udp [OF pi] by force
      then show ?thesis using Some True
        by (simp add: release_pcb_def r_def udp_remove_def hev_socks5_tunnel_delete_session_def)
    next
      case False
      then have "p \<in> set (tcp_pcbs t)" using own [OF Some] pcb_tcp [OF pi] by force
      then show ?thesis using Some False
        by (simp add: release_pcb_def r_def tcp_abort_def hev_socks5_tunnel_delete_session_def)
    qed
  qed
  have step: "hev_socks5_session_task_entry n t = Ret ?t'"
    using nl n rel by (simp add: hev_socks5_session_task_entry_def unref_session_def hev_task_mutex_lock_def
        hev_task_mutex_unlock_def hev_socks5_tunnel_delete_session_def)
  have "set_inv ?t' (q_del n q)"
    using si inq cnt hl.rep_remove [of "session_set t" "map fst q" n] q_del_split [OF set_inv_distinct [OF si], of n]
    by (auto simp: set_inv_def hev_socks5_tunnel_delete_session_def q_del_set)
  moreover have ow: "owns ?t' udp a m \<longleftrightarrow> m \<noteq> n \<and> owns t udp a m" for udp a m by (auto simp: owns_def)
  have "pcb_inv ?t'"
  proof (cases "sd_udp s \<and> sd_pcb s \<noteq> None")
    case True
    then obtain p where p: "sd_udp s" "sd_pcb s = Some p" by auto
    show ?thesis by (rule pcb_inv_drop_udp [OF pi n p ow]) (simp_all add: r_def p)
  next
    case False
    show ?thesis
    proof (cases "sd_pcb s")
      case None
      show ?thesis by (rule pcb_inv_cong [THEN iffD2, OF _ _ _ pi]) (use None n in \<open>auto simp: ow r_def owns_def\<close>)
    next
      case (Some p)
      then show ?thesis using False by (intro pcb_inv_drop_tcp [OF pi n _ ow]) (auto simp: r_def)
    qed
  qed
  ultimately show ?thesis using step by (simp add: tun_inv_def hev_socks5_tunnel_delete_session_def)
qed

lemma filter_key: "distinct (map fst q) \<Longrightarrow> map_of q n = Some s \<Longrightarrow> filter (\<lambda>(m, _). m = n) q = [(n, s)]"
  by (induction q) (auto simp: filter_empty_conv image_iff split: if_splits)

lemma touch_inv:
  assumes si: "set_inv t q" and n: "sessions t n = Some s" and l: "limit \<noteq> 0"
  shows "set_inv (t\<lparr>session_set := hev_list_add_tail n (hev_list_del n (session_set t))\<rparr>) (q_touch limit n q)"
proof -
  have d: "distinct (map fst q)" using set_inv_distinct [OF si] .
  have qn: "map_of q n = Some s" using si n by (simp add: set_inv_def)
  have inq: "n \<in> set (map fst q)" using map_of_SomeD [OF qn] by force
  have q: "q_touch limit n q = q_del n q @ [(n, s)]" using l filter_key [OF d qn] by (simp add: q_touch_def)
  have f: "map fst (q_touch limit n q) = remove1 n (map fst q) @ [n]" by (simp add: q q_del_split [OF d])
  have len: "length (q_touch limit n q) = length q"
  proof -
    have "0 < length q" using inq by (cases q) auto
    then show ?thesis using arg_cong [OF f, of length] inq by (simp add: length_remove1)
  qed
  have "map_of (q_touch limit n q) m = map_of q m" for m
    using qn by (cases "m = n") (simp_all add: q q_del_set map_add_def split: option.split)
  then have "sessions t = map_of (q_touch limit n q)" using si by (simp add: set_inv_def fun_eq_iff)
  moreover have "list_rep (hev_list_add_tail n (hev_list_del n (session_set t))) (map fst (q_touch limit n q))"
    unfolding f using hl.rep_touch inq si by (simp add: set_inv_def)
  ultimately show ?thesis using si len by (simp add: set_inv_def)
qed

lemma active_inv:
  assumes i: "tun_inv t q" and n: "sessions t n = Some s"
  shows "\<exists>t'. session_active cf n b t = Ret t' \<and>
    tun_inv t' (q_touch (max_session_count cf) n (q_set n (\<lambda>s. s\<lparr>sd_base := b\<rparr>) q)) \<and> run t' = run t"
proof -
  let ?q = "q_set n (\<lambda>s. s\<lparr>sd_base := b\<rparr>) q" and ?t = "put_session n (s\<lparr>sd_base := b\<rparr>) t"
  let ?u = "hev_socks5_tunnel_update_session cf n ?t"
  have si: "set_inv ?t ?q" using put_session_inv [OF _ n, of q "\<lambda>s. s\<lparr>sd_base := b\<rparr>"] i by (simp add: tun_inv_def)
  have pi: "pcb_inv ?t" using pcb_inv_same [OF n, of "s\<lparr>sd_base := b\<rparr>"] i by (simp add: tun_inv_def)
  have u: "tcp_pcbs ?u = tcp_pcbs ?t" "udp_pcbs ?u = udp_pcbs ?t" "sessions ?u = sessions ?t" "run ?u = run t"
    "lwip_mutex ?u = lwip_mutex t"
    by (simp_all add: hev_socks5_tunnel_update_session_def)
  have "set_inv ?u (q_touch (max_session_count cf) n ?q)"
    using si touch_inv [OF si, of n "s\<lparr>sd_base := b\<rparr>" "max_session_count cf"]
    by (simp add: hev_socks5_tunnel_update_session_def hev_config_get_misc_max_session_count_def q_touch_def)
  moreover have "pcb_inv ?u" using pcb_inv_cong [of ?u ?t] pi u by (simp add: owns_def)
  ultimately show ?thesis using i n u by (simp add: session_active_def tun_inv_def)
qed

lemma pcb_err_inv:
  assumes i: "tun_inv t q" and n: "sessions t n = Some s" "\<not> sd_udp s" "sd_pcb s = Some p"
  shows "\<exists>t'. tunnel_tcp_err n t = Ret t' \<and> tun_inv t' (q_set n (\<lambda>s. kill_session (s\<lparr>sd_pcb := None\<rparr>)) q) \<and> run t' = run t"
proof -
  let ?s = "kill_session (s\<lparr>sd_pcb := None\<rparr>)" and ?t = "t\<lparr>tcp_pcbs := removeAll p (tcp_pcbs t)\<rparr>"
  have "put_session n ?s (put_session n x y) = put_session n ?s y" for x y by (simp add: put_session_def)
  then have step: "tunnel_tcp_err n t = Ret (put_session n ?s ?t)"
    using n terminate_session_eq [of "put_session n (s\<lparr>sd_pcb := None\<rparr>) ?t" n] by (simp add: tunnel_tcp_err_def)
  have "set_inv ?t q" using i by (simp add: tun_inv_def set_inv_def)
  then have "set_inv (put_session n ?s ?t) (q_set n (\<lambda>s. kill_session (s\<lparr>sd_pcb := None\<rparr>)) q)"
    using put_session_inv [of ?t q n s "\<lambda>s. kill_session (s\<lparr>sd_pcb := None\<rparr>)"] n(1) by simp
  moreover have "pcb_inv (put_session n ?s ?t)"
    by (rule pcb_inv_drop_tcp [of t n s]) (use i n in \<open>auto simp: tun_inv_def owns_put owns_def\<close>)
  ultimately show ?thesis using step i by (simp add: tun_inv_def)
qed

lemma terminate_all_inv:
  assumes "set_inv t (p @ q)" "length q \<le> k"
  shows "\<exists>t'. terminate_all k (case q of [] \<Rightarrow> None | x # _ \<Rightarrow> Some (fst x)) t = Ret t' \<and>
    set_inv t' (p @ map (\<lambda>(m, s). (m, kill_session s)) q) \<and> same_rest t t'"
  using assms
proof (induction q arbitrary: p t k)
  case Nil
  then show ?case by (simp add: same_rest_def)
next
  case (Cons x q)
  obtain n s where x: "x = (n, s)" by fastforce
  obtain k' where k: "k = Suc k'" using Cons.prems(2) by (cases k) auto
  have d: "distinct (map fst (p @ (n, s) # q))" using set_inv_distinct [OF Cons.prems(1)] x by simp
  then have sn: "sessions t n = Some s"
    using Cons.prems(1) by (auto simp: set_inv_def x map_add_def map_of_eq_None_iff image_iff split: option.split)
  let ?t = "put_session n (kill_session s) t"
  have "q_set n kill_session (p @ (n, s) # q) = (p @ [(n, kill_session s)]) @ q"
    using d by (force simp: q_set_def intro!: map_idI)
  then have i: "set_inv ?t ((p @ [(n, kill_session s)]) @ q)"
    using put_session_inv [OF Cons.prems(1) sn, of kill_session] x by simp
  have nxt: "hev_list_node_next (session_set ?t) n = (case q of [] \<Rightarrow> None | x # _ \<Rightarrow> Some (fst x))"
    using hl.rep_next [of "session_set t" "map fst p" n "map fst q"] Cons.prems(1) x
    by (cases q) (simp_all add: set_inv_def)
  obtain t' where t': "terminate_all k' (case q of [] \<Rightarrow> None | x # _ \<Rightarrow> Some (fst x)) ?t = Ret t'"
    "set_inv t' ((p @ [(n, kill_session s)]) @ map (\<lambda>(m, s). (m, kill_session s)) q)" "same_rest ?t t'"
    using Cons.IH [OF i, of k'] Cons.prems(2) k by auto
  have "same_rest t t'" using t'(3) same_rest_put [OF sn, of "kill_session s"] by (simp add: same_rest_def)
  then show ?case using t' nxt by (simp add: x k terminate_session_eq [OF sn])
qed

lemma stop_inv:
  assumes i: "tun_inv t q"
  shows "\<exists>t'. event_task_entry (nat (session_count t)) t = Ret t' \<and>
    tun_inv t' (map (\<lambda>(m, s). (m, kill_session s)) q) \<and> \<not> run t'"
proof -
  let ?t = "t\<lparr>run := False\<rparr>"
  have s: "set_inv ?t q" using i by (simp add: tun_inv_def set_inv_def)
  have p: "pcb_inv ?t" by (rule pcb_inv_cong [THEN iffD2, of ?t t]) (use i in \<open>simp_all add: tun_inv_def owns_def\<close>)
  have f: "hev_list_first (session_set ?t) = (case q of [] \<Rightarrow> None | x # _ \<Rightarrow> Some (fst x))"
    using hl.rep_first s by (cases q) (auto simp: set_inv_def)
  have l: "length q \<le> nat (session_count t)" using i by (simp add: tun_inv_def set_inv_def)
  obtain t' where t': "terminate_all (nat (session_count t)) (hev_list_first (session_set ?t)) ?t = Ret t'"
    "set_inv t' (map (\<lambda>(m, s). (m, kill_session s)) q)" "same_rest ?t t'"
    using terminate_all_inv [of ?t "[]" q, OF _ l] s f by auto
  then show ?thesis
    using i p same_rest_pcb [OF t'(3)] by (auto simp: event_task_entry_def tun_inv_def same_rest_def)
qed

lemma alike_step:
  assumes "alike t t'"
  shows "tun_may e t' = tun_may e t" "q_step cf t' e q = q_step cf t e q"
proof -
  have u: "udp_pcbs t' = udp_pcbs t" "tcp_pcbs t' = tcp_pcbs t" "sessions t' = sessions t" "run t' = run t"
    "dns_single t' = dns_single t" using assms unfolding alike_def by blast+
  show "tun_may e t' = tun_may e t" by (cases e) (simp_all only: tun_may.simps u)
  show "q_step cf t' e q = q_step cf t e q"
    by (cases "(cf, t, e, q)" rule: q_step.cases) (simp_all add: u opens_def)
qed

lemma tun_step_refines:
  assumes i: "tun_inv t q" and m: "tun_may e t"
  shows "\<exists>t'. tun_step cf e t = Ret t' \<and> tun_inv t' (q_step cf t e q) \<and> (run t' \<longleftrightarrow> run t \<and> e \<noteq> StopEvent)"
proof (cases e)
  case (Accept p ans)
  show ?thesis
  proof (cases "run t")
    case True
    have "\<exists>t2. lwip_accept cf ans p t1 = Ret t2 \<and> set_inv t2 (q_step cf t (Accept p ans) q) \<and> pcb_inv t2 \<and> run t2"
      if "alike t t1" "set_inv t1 q" "pcb_inv t1" for t1
    proof -
      have "run t1" using that(1) True unfolding alike_def by blast
      then show ?thesis using accept_inv [OF that(2,3), of p ans cf] alike_step [OF that(1)] m Accept by metis
    qed
    from io_step_inv [OF i True this] show ?thesis using Accept True by simp
  qed (use i Accept in \<open>cases ans; cases "fst ans"; cases "snd ans"; simp add: lwip_io_step_def\<close>)
next
  case (Datagram as src dest own)
  show ?thesis
  proof (cases "run t")
    case True
    let ?q = "q_step cf t (Datagram as src dest own) q"
    have "\<exists>t2. bind_o (udp_input cf as src dest own t1) (\<lambda>(_, t). Ret t) = Ret t2 \<and> set_inv t2 ?q \<and> pcb_inv t2 \<and> run t2"
      if "alike t t1" "set_inv t1 q" "pcb_inv t1" for t1
    proof -
      have "run t1" "tun_may (Datagram as src dest own) t1"
        using that(1) True m Datagram alike_step [OF that(1)] unfolding alike_def by blast+
      from datagram_inv [OF that(2,3) this, of cf] show ?thesis
        unfolding alike_step(2) [OF that(1)] by (auto simp: bind_o_Ret_iff)
    qed
    from io_step_inv [OF i True this] show ?thesis using Datagram True by simp
  next
    case False
    then have "q_step cf t (Datagram as src dest own) q = q"
      by (cases "(cf, t, Datagram as src dest own, q)" rule: q_step.cases) simp_all
    then show ?thesis using i Datagram False by (simp add: lwip_io_step_def)
  qed
next
  case (DnsDone p d)
  show ?thesis
  proof (cases "run t")
    case True
    have "\<exists>t2. udp_remove p (set_recv p NoRecv (t1\<lparr>dns_single := Some d\<rparr>)) = Ret t2 \<and> set_inv t2 q \<and> pcb_inv t2 \<and> run t2"
      if "alike t t1" "set_inv t1 q" "pcb_inv t1" for t1
    proof -
      have "run t1" using that(1) True unfolding alike_def by blast
      then show ?thesis using dns_done_inv [OF that(2,3), of p d] alike_step [OF that(1)] m DnsDone by metis
    qed
    from io_step_inv [OF i True this] show ?thesis using DnsDone True by simp
  qed (use i DnsDone in \<open>simp add: lwip_io_step_def\<close>)
next
  case (Active n b)
  then show ?thesis using active_inv [OF i, of n] m by auto
next
  case (PcbErr n)
  then show ?thesis using pcb_err_inv [OF i, of n] m by auto
next
  case (SessionEnd n)
  then show ?thesis using session_end_inv [OF i, of n] m by auto
next
  case StopEvent
  then show ?thesis using stop_inv [OF i] by auto
qed

section \<open>Properties\<close>

text \<open>A tunnel after its start, and every state it can come to, with the queue of sessions that its
  history says.\<close>

definition tun_start :: "tunnel \<Rightarrow> bool" where
  "tun_start t \<longleftrightarrow> run t \<and> session_set t = hev_list_new \<and> session_count t = 0 \<and> sessions t = Map.empty \<and>
     tcp_pcbs t = [] \<and> distinct (map fst (udp_pcbs t)) \<and>
     (\<forall>(a, u) \<in> set (udp_pcbs t). \<not> connected u \<and> recv_fn u = TunnelRecv) \<and> \<not> locker (lwip_mutex t)"

inductive tun_reach :: "config \<Rightarrow> tunnel \<Rightarrow> squeue \<Rightarrow> bool" for cf where
  reach_start: "tun_start t \<Longrightarrow> tun_reach cf t []"
| reach_step: "tun_reach cf t q \<Longrightarrow> tun_may e t \<Longrightarrow> tun_step cf e t = Ret t' \<Longrightarrow> tun_reach cf t' (q_step cf t e q)"

lemma tun_start_inv: "tun_start t \<Longrightarrow> tun_inv t []"
  using hl.rep_empty by (auto simp: tun_start_def tun_inv_def set_inv_def pcb_inv_def owns_def)

lemma tun_reach_inv: "tun_reach cf t q \<Longrightarrow> tun_inv t q"
proof (induction rule: tun_reach.induct)
  case (reach_step t q e t')
  then show ?case using tun_step_refines [of t q e cf] by auto
qed (rule tun_start_inv)

text \<open>C10. However the tunnel is used, with any interleaving of new connections, datagrams, session
  activity, lost connections, session ends and a stop request: the next event is always handled without
  touching freed memory and without blocking; the list of sessions walked from its front is the queue of
  the sessions in the order of their last use, in which a new session goes to the back and, once the
  limit is reached, the front one is told to end; \<open>session_count\<close> is its length; and every connection of
  lwIP is owned by exactly the session that will release it.\<close>

theorem tunnel_sessions:
  assumes "tun_reach cf t q"
  shows "walk_list hev_list_node_next (session_set t) (length q) (hev_list_first (session_set t)) = map fst q \<and>
    session_count t = int (length q) \<and> sessions t = map_of q \<and>
    (\<forall>p. p \<in> set (tcp_pcbs t) \<longleftrightarrow> (\<exists>!n. owns t False p n)) \<and>
    (\<forall>a u. (a, u) \<in> set (udp_pcbs t) \<and> connected u \<and> recv_fn u \<noteq> DnsRecv \<longrightarrow> (\<exists>!n. owns t True a n \<and> recv_fn u = SessionRecv n)) \<and>
    (\<forall>e. tun_may e t \<longrightarrow> (\<exists>t'. tun_step cf e t = Ret t'))"
proof -
  have i: "tun_inv t q" using tun_reach_inv [OF assms] .
  then have s: "set_inv t q" and p: "pcb_inv t" by (simp_all add: tun_inv_def)
  have "walk_list hev_list_node_next (session_set t) (length q) (hev_list_first (session_set t)) = map fst q"
    using hl.walk_all [of "session_set t" "map fst q" "length q"] s by (simp add: set_inv_def)
  moreover have "p \<in> set (tcp_pcbs t) \<longleftrightarrow> (\<exists>!n. owns t False p n)" for p
    using pcb_tcp [OF p, of p] pcb_uniq [OF p, of False p] by blast
  moreover have "\<exists>!n. owns t True a n \<and> recv_fn u = SessionRecv n"
    if "(a, u) \<in> set (udp_pcbs t)" "connected u" "recv_fn u \<noteq> DnsRecv" for a u
    using pcb_conn [OF p that] by auto
  moreover have "\<exists>t'. tun_step cf e t = Ret t'" if "tun_may e t" for e using tun_step_refines [OF i that] by blast
  ultimately show ?thesis using s unfolding set_inv_def by blast
qed

definition demo_tunnel :: tunnel where
  "demo_tunnel = \<lparr>run = True, stop_requested = False, tun_fd = 5, tun_fd_local = False, session_count = 0,
     event_fds = (6, 7), stat_tx_packets = 0, stat_rx_packets = 0, stat_tx_bytes = 0, stat_rx_bytes = 0,
     tcp_listener = Some 1, udp_listener = Some 2, lwip_mutex = \<lparr>locker = False\<rparr>, task_event = Some 3,
     task_lwip_io = Some 4, task_lwip_timer = Some 5, session_set = hev_list_new, sessions = Map.empty,
     tcp_pcbs = [], udp_pcbs = [(2, \<lparr>remote = (\<lparr>ip_mem = replicate 16 0, ip_type = IPADDR_TYPE_ANY\<rparr>, 0),
       local = (\<lparr>ip_mem = replicate 16 0, ip_type = IPADDR_TYPE_ANY\<rparr>, 0), connected = False, recv_fn = TunnelRecv\<rparr>)],
     dns_single = None, tcp_listening = {1}, netif_added = True, fds = {6, 7}\<rparr>"

theorem tunnel_sessions_witness:
  "\<exists>t q. tun_reach (config_default\<lparr>max_session_count := 2\<rparr>) t q \<and> session_count t = 2 \<and> map fst q = [10, 20] \<and>
     map (\<lambda>(n, s). timeout (sd_base s)) q = [0, - 1] \<and>
     walk_list hev_list_node_next (session_set t) 2 (hev_list_first (session_set t)) = [10, 20]"
proof -
  let ?c = "config_default\<lparr>max_session_count := 2\<rparr>"
  let ?e = "Accept 100 (Some 10, Some 30)" and ?f = "Accept 101 (Some 20, Some 31)"
  have r0: "tun_reach ?c demo_tunnel []"
    by (rule reach_start) (simp add: tun_start_def demo_tunnel_def)
  have m: "tun_may ?e demo_tunnel" by (simp add: demo_tunnel_def)
  obtain t1 where t1: "tun_step ?c ?e demo_tunnel = Ret t1" "tun_inv t1 (q_step ?c demo_tunnel ?e [])" "run t1"
    using tun_step_refines [OF tun_reach_inv [OF r0] m, of ?c] by (auto simp: demo_tunnel_def)
  have q1: "q_step ?c demo_tunnel ?e [] = [(10, (new_session False TYPE_TCP 100)\<lparr>sd_task := Some 30\<rparr>)]"
    by (simp add: q_insert_def demo_tunnel_def)
  have r1: "tun_reach ?c t1 (q_step ?c demo_tunnel ?e [])" by (rule reach_step [OF r0 m t1(1)])
  have m2: "tun_may ?f t1"
    using t1(2) [unfolded q1] pcb_tcp [of t1 101]
    by (auto simp: tun_inv_def set_inv_def owns_def new_session_def split: if_splits)
  obtain t2 where t2: "tun_step ?c ?f t1 = Ret t2"
    using tun_step_refines [OF tun_reach_inv [OF r1] m2, of ?c] by blast
  have q2: "q_step ?c t1 ?f (q_step ?c demo_tunnel ?e []) =
      [(10, kill_session ((new_session False TYPE_TCP 100)\<lparr>sd_task := Some 30\<rparr>)), (20, (new_session False TYPE_TCP 101)\<lparr>sd_task := Some 31\<rparr>)]"
    using t1(3) unfolding q1 by (simp add: q_insert_def)
  have r2: "tun_reach ?c t2 (q_step ?c t1 ?f (q_step ?c demo_tunnel ?e []))" by (rule reach_step [OF r1 m2 t2])
  show ?thesis
    using tunnel_sessions [OF r2 [unfolded q2]] r2 [unfolded q2]
    by (intro exI [where x = t2] exI conjI)
      (assumption | simp add: kill_session_def new_session_def hev_socks5_session_terminate_def hev_socks5_set_timeout_def numeral_2_eq_2)+
qed

lemma udp_input_spins:
  assumes l: "pcb_inv t" "run t" "opens cf src dest own t"
    and as: "list_all (\<lambda>(a, ans). (\<exists>x. a = Some x \<and> x \<notin> fst ` set (udp_pcbs t)) \<and> fst ans = None) as"
  shows "udp_input cf as src dest own t = Wait"
  using as
proof (induction as)
  case Nil
  then show ?case using l(3) by (auto simp: udp_input.simps opens_def)
next
  case (Cons x as)
  obtain a y where x: "x = (Some a, None, y)" and a: "a \<notin> fst ` set (udp_pcbs t)" using Cons.prems by (cases x) auto
  obtain la u where lu: "find (\<lambda>(_, u). \<not> connected u \<and> recv_fn u \<noteq> NoRecv) (udp_pcbs t) = Some (la, u)"
    using l(3) by (auto simp: opens_def)
  have tl: "recv_fn u = TunnelRecv" using pcb_listen [OF l(1), of la u] lu by (auto simp: find_Some_iff) (metis nth_mem)
  have "filter (\<lambda>(b, _). b \<noteq> a) (udp_pcbs t) = udp_pcbs t" using a by (auto simp: filter_id_conv image_iff)
  then have "udp_recv_handler cf (None, y) a (fst dest) (snd dest) (t\<lparr>udp_pcbs := (a, v) # udp_pcbs t\<rparr>) = Ret t" for v
    using l(2,3) by (auto simp: udp_recv_handler_def opens_def udp_remove_def hev_config_get_mapdns_port_def
        hev_config_get_mapdns_address_def)
  then have "udp_input cf (x # as) src dest own t = udp_input cf as src dest own t"
    using l(3) lu tl by (simp add: x udp_input.simps [of _ "_ # _"] opens_def)
  then show ?case using Cons by simp
qed

text \<open>A new UDP session without a task: its destruction waits for the mutex that lwIP's task holds.\<close>

lemma udp_task_hangs:
  assumes "pcb_inv t" "opens cf src dest own t" "run t" "locker (lwip_mutex t)"
  shows "udp_input cf ((Some a, Some n, None) # bs) src dest own t = Wait"
proof -
  obtain la u where lu: "find (\<lambda>(_, u). \<not> connected u \<and> recv_fn u \<noteq> NoRecv) (udp_pcbs t) = Some (la, u)"
    using assms(2) by (auto simp: opens_def)
  have tl: "recv_fn u = TunnelRecv" using pcb_listen [OF assms(1), of la u] lu by (auto simp: find_Some_iff) (metis nth_mem)
  have "udp_recv_handler cf (Some n, None) a (fst dest) (snd dest) (t\<lparr>udp_pcbs := (a, v) # udp_pcbs t\<rparr>) = Wait" for v
    using assms(2-4) by (auto simp: udp_recv_handler_def opens_def hev_config_get_mapdns_port_def
        hev_config_get_mapdns_address_def unref_session_def put_session_def set_recv_def hev_task_mutex_lock_def Let_def)
  then show ?thesis using assms(2) lu tl by (simp add: udp_input.simps [of _ "_ # _"] opens_def)
qed

text \<open>C37. What a failed allocation for a new session does. If there is no memory for a TCP session, the
  connection is aborted and only the packet counters change. In the three other cases the task that runs lwIP
  hangs: if the task of a new TCP session or of a new UDP session cannot be allocated, the handler
  destroys the session while it holds the mutex that the destructor takes, and waits for itself; if a UDP
  session cannot be allocated, the handler removes the connection and lwIP starts the same search again,
  which does not end however many rounds it makes with the allocation failing.\<close>

theorem tunnel_out_of_memory_hangs:
  assumes "tun_reach cf t q" "run t" "opens cf src dest own t"
    and "list_all (\<lambda>(a, ans). (\<exists>x. a = Some x \<and> x \<notin> fst ` set (udp_pcbs t)) \<and> fst ans = None) as"
    and "p \<notin> set (tcp_pcbs t)"
  shows "tun_step cf (Accept p (Some n, None)) t = Wait \<and> tun_step cf (Datagram as src dest own) t = Wait \<and>
    tun_step cf (Datagram ((Some a, Some n, None) # bs) src dest own) t = Wait \<and>
    tun_step cf (Accept p (None, k)) t =
      Ret (t\<lparr>stat_tx_packets := stat_tx_packets t + 1, stat_tx_bytes := stat_tx_bytes t + 40\<rparr>)"
proof -
  have i: "pcb_inv t" "\<not> locker (lwip_mutex t)" using tun_reach_inv [OF assms(1)] by (simp_all add: tun_inv_def)
  let ?t = "t\<lparr>stat_tx_packets := stat_tx_packets t + 1, stat_tx_bytes := stat_tx_bytes t + of_nat 28,
    lwip_mutex := (lwip_mutex t)\<lparr>locker := True\<rparr>\<rparr>"
  have a: "alike t ?t" by (simp add: alike_def)
  have o: "opens cf src dest own ?t" "run ?t" using assms(2,3) by (simp_all add: opens_def)
  have pi: "pcb_inv ?t" using alike_inv(2) [OF a] i(1) by simp
  have "udp_input cf as src dest own ?t = Wait" using udp_input_spins [of ?t cf src dest own as] pi o assms(4) by simp
  moreover have "udp_input cf ((Some a, Some n, None) # bs) src dest own ?t = Wait" by (rule udp_task_hangs [OF pi o]) simp
  moreover have "removeAll p (tcp_pcbs t) = tcp_pcbs t" using assms(5) by simp
  ultimately show ?thesis using assms(2) i(2)
    by (simp add: lwip_io_step_def hev_task_mutex_lock_def hev_task_mutex_unlock_def lwip_accept_def tcp_accept_handler_def
        unref_session_def put_session_def tcp_abort_def)
qed

theorem tunnel_out_of_memory_hangs_witness:
  "tun_step config_default (Accept 100 (Some 10, None)) demo_tunnel = Wait \<and>
   tun_step config_default (Datagram (replicate 1000 (Some 9, None, None)) (\<lparr>ip_mem = replicate 16 1, ip_type = 0\<rparr>, 53)
     (\<lparr>ip_mem = replicate 16 2, ip_type = 0\<rparr>, 53) False) demo_tunnel = Wait \<and>
   tun_step config_default (Datagram [(Some 9, Some 10, None)] (\<lparr>ip_mem = replicate 16 1, ip_type = 0\<rparr>, 53)
     (\<lparr>ip_mem = replicate 16 2, ip_type = 0\<rparr>, 53) False) demo_tunnel = Wait \<and>
   tun_step config_default (Accept 100 (None, None)) demo_tunnel = Ret (demo_tunnel\<lparr>stat_tx_packets := 1, stat_tx_bytes := 40\<rparr>)"
proof -
  have r: "tun_reach config_default demo_tunnel []"
    by (rule reach_start) (simp add: tun_start_def demo_tunnel_def)
  have "opens config_default (\<lparr>ip_mem = replicate 16 1, ip_type = 0\<rparr>, 53) (\<lparr>ip_mem = replicate 16 2, ip_type = 0\<rparr>, 53) False demo_tunnel"
    by (simp add: opens_def demo_tunnel_def from_peer_def)
  moreover have "list_all (\<lambda>(a, ans). (\<exists>x. a = Some x \<and> x \<notin> fst ` set (udp_pcbs demo_tunnel)) \<and> fst ans = None)
      (replicate 1000 (Some 9, None, None))"
    by (simp add: list_all_iff demo_tunnel_def)
  moreover have "100 \<notin> set (tcp_pcbs demo_tunnel)" "run demo_tunnel" "stat_tx_packets demo_tunnel = 0" "stat_tx_bytes demo_tunnel = 0"
    by (simp_all add: demo_tunnel_def)
  ultimately show ?thesis
    using tunnel_out_of_memory_hangs [OF r, of "(\<lparr>ip_mem = replicate 16 1, ip_type = 0\<rparr>, 53)" "(\<lparr>ip_mem = replicate 16 2, ip_type = 0\<rparr>, 53)"
        False "replicate 1000 (Some 9, None, None)" 100 10 9 "[]" None] by simp
qed

end
