(* ===== verification/TunnelLife.thy ===== *)
theory TunnelLife
  imports Tunnel
begin

text \<open>
  The life of the tunnel process (\<open>src/hev-socks5-tunnel.c\<close>): what initialisation acquires,
  what finalisation releases, and how a stop request from another thread reaches the event task.
\<close>

section \<open>Life of the process\<close>

text \<open>What the system answers during initialisation: the descriptor of a new interface, whether its
  set-up steps succeed, the socket pair, the addresses of tasks and connections, the allocation of the
  name table. Descriptors the system hands out are not in use.\<close>

record init_env =
  ioctl_ok :: bool
  open_res :: int
  mtu_ok :: bool
  ipv4_ok :: bool
  ipv6_ok :: bool
  state_ok :: bool
  pair_res :: "(int \<times> int) option"
  event_ioctl_ok :: bool
  new_task_event :: "nat option"
  new_task_io :: "nat option"
  new_task_timer :: "nat option"
  dns_mem :: bool
  new_tcp :: nat
  new_udp :: nat

definition tunnel_init :: "config \<Rightarrow> init_env \<Rightarrow> int \<Rightarrow> tunnel \<Rightarrow> (int \<times> tunnel) outcome" where
  "tunnel_init cf e extern_tun_fd t =
     (if extern_tun_fd \<ge> 0 then
        Ret (if \<not> ioctl_ok e then (- 1, t) else (0, t\<lparr>tun_fd := extern_tun_fd\<rparr>))
      else bind_o (hev_config_get_tunnel_name cf) (\<lambda>name.
        let t = t\<lparr>tun_fd := open_res e\<rparr> in
        if open_res e < 0 then Ret (- 1, t)
        else let t = t\<lparr>fds := insert (open_res e) (fds t)\<rparr> in
          if \<not> mtu_ok e then Ret (- 1, t)
          else bind_o (hev_config_get_tunnel_ipv4_address cf) (\<lambda>ipv4.
            if ipv4 \<noteq> None \<and> \<not> ipv4_ok e then Ret (- 1, t)
            else bind_o (hev_config_get_tunnel_ipv6_address cf) (\<lambda>ipv6.
              if ipv6 \<noteq> None \<and> \<not> ipv6_ok e then Ret (- 1, t)
              else if \<not> state_ok e then Ret (- 1, t)
              else bind_o (hev_config_get_tunnel_post_up_script cf) (\<lambda>script.
                Ret (0, t\<lparr>tun_fd_local := True\<rparr>))))))"

definition tunnel_fini :: "config \<Rightarrow> tunnel \<Rightarrow> tunnel outcome" where
  "tunnel_fini cf t =
     (if \<not> tun_fd_local t then Ret t
      else bind_o (hev_config_get_tunnel_pre_down_script cf) (\<lambda>script.
        Ret (t\<lparr>fds := fds t - {tun_fd t}, tun_fd_local := False, tun_fd := - 1\<rparr>)))"

definition gateway_init :: "init_env \<Rightarrow> tunnel \<Rightarrow> int \<times> tunnel" where
  "gateway_init e t =
     (0, t\<lparr>netif_added := True, tcp_listener := Some (new_tcp e), tcp_listening := insert (new_tcp e) (tcp_listening t),
        udp_listener := Some (new_udp e),
        udp_pcbs := (new_udp e, \<lparr>remote = (\<lparr>ip_mem = replicate 16 0, ip_type = IPADDR_TYPE_ANY\<rparr>, 0),
          local = (\<lparr>ip_mem = replicate 16 0, ip_type = IPADDR_TYPE_ANY\<rparr>, 0), connected = False,
          recv_fn = TunnelRecv\<rparr>) # udp_pcbs t\<rparr>)"

text \<open>Both functions of lwIP ignore a null pointer. The pointers are not cleared.\<close>

definition gateway_fini :: "tunnel \<Rightarrow> tunnel outcome" where
  "gateway_fini t =
     bind_o (case udp_listener t of None \<Rightarrow> Ret t | Some u \<Rightarrow> udp_remove u t) (\<lambda>t.
     bind_o (case tcp_listener t of
               None \<Rightarrow> Ret t
             | Some l \<Rightarrow> if l \<in> tcp_listening t then Ret (t\<lparr>tcp_listening := tcp_listening t - {l}\<rparr>) else Fault) (\<lambda>t.
       Ret (t\<lparr>netif_added := False\<rparr>)))"

definition event_task_init :: "init_env \<Rightarrow> tunnel \<Rightarrow> int \<times> tunnel" where
  "event_task_init e t =
     (case pair_res e of
        None \<Rightarrow> (- 1, t)
      | Some (a, b) \<Rightarrow>
          let t = t\<lparr>event_fds := (a, b), fds := insert a (insert b (fds t))\<rparr> in
          if \<not> event_ioctl_ok e then (- 1, t)
          else let t = t\<lparr>task_event := new_task_event e\<rparr> in
            if new_task_event e = None then (- 1, t) else (0, t))"

definition event_task_fini :: "tunnel \<Rightarrow> tunnel" where
  "event_task_fini t =
     (let t = t\<lparr>task_event := None\<rparr>;
          t = (if fst (event_fds t) \<ge> 0
               then t\<lparr>fds := fds t - {fst (event_fds t)}, event_fds := (- 1, snd (event_fds t))\<rparr> else t)
      in if snd (event_fds t) \<ge> 0
         then t\<lparr>fds := fds t - {snd (event_fds t)}, event_fds := (fst (event_fds t), - 1)\<rparr> else t)"

definition lwip_io_task_init :: "init_env \<Rightarrow> tunnel \<Rightarrow> int \<times> tunnel" where
  "lwip_io_task_init e t = (if new_task_io e = None then - 1 else 0, t\<lparr>task_lwip_io := new_task_io e\<rparr>)"

definition lwip_io_task_fini :: "tunnel \<Rightarrow> tunnel" where
  "lwip_io_task_fini t = t\<lparr>task_lwip_io := None\<rparr>"

definition lwip_timer_task_init :: "init_env \<Rightarrow> tunnel \<Rightarrow> int \<times> tunnel" where
  "lwip_timer_task_init e t = (if new_task_timer e = None then - 1 else 0, t\<lparr>task_lwip_timer := new_task_timer e\<rparr>)"

definition lwip_timer_task_fini :: "tunnel \<Rightarrow> tunnel" where
  "lwip_timer_task_fini t = t\<lparr>task_lwip_timer := None\<rparr>"

definition mapped_dns_init :: "config \<Rightarrow> init_env \<Rightarrow> tunnel \<Rightarrow> int \<times> tunnel" where
  "mapped_dns_init cf e t =
     (let network = hev_config_get_mapdns_network cf; netmask = hev_config_get_mapdns_netmask cf;
          cache_size = hev_config_get_mapdns_cache_size cf in
      if cache_size = 0 then (0, t)
      else case hev_mapped_dns_new (dns_mem e) network netmask cache_size of
          None \<Rightarrow> (- 1, t)
        | Some d \<Rightarrow> (0, t\<lparr>dns_single := Some d\<rparr>))"

definition mapped_dns_fini :: "tunnel \<Rightarrow> tunnel" where
  "mapped_dns_fini t = t\<lparr>dns_single := None\<rparr>"

definition hev_socks5_tunnel_fini :: "config \<Rightarrow> tunnel \<Rightarrow> tunnel outcome" where
  "hev_socks5_tunnel_fini cf t =
     bind_o (gateway_fini (event_task_fini (lwip_io_task_fini (lwip_timer_task_fini (mapped_dns_fini t))))) (\<lambda>t.
     bind_o (tunnel_fini cf t) (\<lambda>t.
       Ret (t\<lparr>stat_tx_packets := 0, stat_rx_packets := 0, stat_tx_bytes := 0, stat_rx_bytes := 0,
          run := False, stop_requested := False\<rparr>)))"

text \<open>A step of the initialisation that fails runs \<open>fini\<close> and ends it.\<close>

definition or_fini :: "config \<Rightarrow> int \<times> tunnel \<Rightarrow> (tunnel \<Rightarrow> (int \<times> tunnel) outcome) \<Rightarrow> (int \<times> tunnel) outcome" where
  "or_fini cf x k =
     (case x of (res, t) \<Rightarrow>
        if res < 0 then bind_o (hev_socks5_tunnel_fini cf t) (\<lambda>t. Ret (- 1, t)) else k t)"

definition hev_socks5_tunnel_init :: "config \<Rightarrow> init_env \<Rightarrow> int \<Rightarrow> tunnel \<Rightarrow> (int \<times> tunnel) outcome" where
  "hev_socks5_tunnel_init cf e extern_tun_fd t =
     bind_o (tunnel_init cf e extern_tun_fd t) (\<lambda>x.
     or_fini cf x (\<lambda>t.
     or_fini cf (gateway_init e t) (\<lambda>t.
     or_fini cf (event_task_init e t) (\<lambda>t.
     or_fini cf (lwip_io_task_init e t) (\<lambda>t.
     or_fini cf (lwip_timer_task_init e t) (\<lambda>t.
     or_fini cf (mapped_dns_init cf e t) (\<lambda>t.
       Ret (0, t\<lparr>lwip_mutex := hev_task_mutex_init (lwip_mutex t)\<rparr>))))))))"

text \<open>\<open>loop\<close> is the run of all tasks until the event task has ended; the first component of its argument
  says whether the stop signal was already given.\<close>

definition hev_socks5_tunnel_run :: "(bool \<times> tunnel \<Rightarrow> tunnel outcome) \<Rightarrow> tunnel \<Rightarrow> (int \<times> tunnel) outcome" where
  "hev_socks5_tunnel_run loop t =
     (let t = t\<lparr>run := True\<rparr> in
      bind_o (loop (stop_requested t \<and> 0 \<le> snd (event_fds t), t)) (\<lambda>t. Ret (0, t\<lparr>stop_requested := False\<rparr>)))"

definition hev_socks5_tunnel_stats :: "tunnel \<Rightarrow> size_t \<times> size_t \<times> size_t \<times> size_t" where
  "hev_socks5_tunnel_stats t = (stat_tx_packets t, stat_tx_bytes t, stat_rx_packets t, stat_rx_bytes t)"

section \<open>Everything is released\<close>

definition idle :: "tunnel \<Rightarrow> bool" where
  "idle t \<longleftrightarrow> event_fds t = (- 1, - 1) \<and> \<not> tun_fd_local t \<and> task_event t = None \<and> task_lwip_io t = None \<and>
     task_lwip_timer t = None \<and> dns_single t = None \<and> udp_pcbs t = [] \<and> tcp_pcbs t = [] \<and> tcp_listening t = {} \<and>
     session_set t = hev_list_new \<and> session_count t = 0 \<and> sessions t = Map.empty"

definition env_ok :: "init_env \<Rightarrow> tunnel \<Rightarrow> bool" where
  "env_ok e t \<longleftrightarrow>
     (0 \<le> open_res e \<longrightarrow> open_res e \<notin> fds t) \<and>
     (case pair_res e of None \<Rightarrow> True
      | Some (a, b) \<Rightarrow> 0 \<le> a \<and> 0 \<le> b \<and> a \<noteq> b \<and> a \<notin> insert (open_res e) (fds t) \<and> b \<notin> insert (open_res e) (fds t))"

text \<open>The state after the interface is set up: finalisation leads back to the idle state with the
  descriptors \<open>F\<close>.\<close>

definition undoable :: "int set \<Rightarrow> tunnel \<Rightarrow> bool" where
  "undoable F t \<longleftrightarrow>
     (event_fds t = (- 1, - 1) \<or> 0 \<le> fst (event_fds t) \<and> 0 \<le> snd (event_fds t)) \<and>
     (\<exists>u v l. udp_listener t = Some u \<and> udp_pcbs t = [(u, v)] \<and> \<not> connected v \<and> recv_fn v = TunnelRecv \<and>
        tcp_listener t = Some l \<and> tcp_listening t = {l}) \<and>
     fds t - (if 0 \<le> fst (event_fds t) then {fst (event_fds t), snd (event_fds t)} else {}) -
       (if tun_fd_local t then {tun_fd t} else {}) = F \<and>
     tcp_pcbs t = [] \<and> session_set t = hev_list_new \<and> session_count t = 0 \<and> sessions t = Map.empty"

lemma config_strings:
  assumes "cfg_ok cf"
  obtains n a b p d where "hev_config_get_tunnel_name cf = Ret n" "hev_config_get_tunnel_ipv4_address cf = Ret a"
    "hev_config_get_tunnel_ipv6_address cf = Ret b" "hev_config_get_tunnel_post_up_script cf = Ret p"
    "hev_config_get_tunnel_pre_down_script cf = Ret d"
proof -
  have "\<exists>s. x = Ret s" if "short_str n x" for n x using that by (auto simp: short_str_def)
  then show thesis
    using that assms str_or_null_short
    unfolding hev_config_get_tunnel_name_def hev_config_get_tunnel_ipv4_address_def hev_config_get_tunnel_ipv6_address_def
      hev_config_get_tunnel_post_up_script_def hev_config_get_tunnel_pre_down_script_def cfg_ok_def
    by metis
qed

lemma fini_undoes:
  assumes "cfg_ok cf" "undoable F t"
  obtains t' where "hev_socks5_tunnel_fini cf t = Ret t'" "idle t'" "fds t' = F" "\<not> run t'" "\<not> stop_requested t'"
    "udp_listener t' = udp_listener t"
proof -
  obtain d where d: "hev_config_get_tunnel_pre_down_script cf = Ret d" using config_strings [OF assms(1)] by metis
  obtain a b u v l where t: "event_fds t = (a, b)" "a = - 1 \<and> b = - 1 \<or> 0 \<le> a \<and> 0 \<le> b"
    "udp_listener t = Some u" "udp_pcbs t = [(u, v)]" "tcp_listener t = Some l" "tcp_listening t = {l}"
    "fds t - (if 0 \<le> a then {a, b} else {}) - (if tun_fd_local t then {tun_fd t} else {}) = F"
    using assms(2) by (cases "event_fds t") (auto simp: undoable_def)
  have r: "tcp_pcbs t = []" "session_set t = hev_list_new" "session_count t = 0" "sessions t = Map.empty"
    using assms(2) by (simp_all add: undoable_def)
  let ?t = "event_task_fini (lwip_io_task_fini (lwip_timer_task_fini (mapped_dns_fini t)))"
  have f: "event_fds ?t = (- 1, - 1)" "fds ?t = fds t - (if 0 \<le> a then {a, b} else {})" "udp_listener ?t = Some u"
    "udp_pcbs ?t = [(u, v)]" "tcp_listener ?t = Some l" "tcp_listening ?t = {l}" "tun_fd_local ?t = tun_fd_local t"
    "tun_fd ?t = tun_fd t" "task_event ?t = None" "task_lwip_io ?t = None" "task_lwip_timer ?t = None" "dns_single ?t = None"
    using t(1-6) by (auto simp: event_task_fini_def lwip_io_task_fini_def lwip_timer_task_fini_def mapped_dns_fini_def Let_def)
  have g: "tcp_pcbs ?t = []" "session_set ?t = hev_list_new" "session_count ?t = 0" "sessions ?t = Map.empty"
    using r by (simp_all add: event_task_fini_def lwip_io_task_fini_def lwip_timer_task_fini_def mapped_dns_fini_def Let_def)
  let ?u = "?t\<lparr>udp_pcbs := [], tcp_listening := {}, netif_added := False\<rparr>"
  have gw: "gateway_fini ?t = Ret ?u" using f by (simp add: gateway_fini_def udp_remove_def)
  have fin: "tunnel_fini cf ?u = Ret (if tun_fd_local t then ?u\<lparr>fds := fds ?u - {tun_fd t}, tun_fd_local := False, tun_fd := - 1\<rparr> else ?u)"
    using d f by (simp add: tunnel_fini_def)
  show thesis
    by (rule that, simp add: hev_socks5_tunnel_fini_def gw fin)
      (use f g t(3,7) in \<open>auto simp: idle_def\<close>)
qed

lemma init_steps:
  assumes c: "cfg_ok cf" and i: "idle t" and e: "env_ok e t" and ok: "tunnel_init cf e fd t = Ret (0, t1)"
  shows "undoable (fds t) (snd (gateway_init e t1))"
    "undoable (fds t) (snd (event_task_init e (snd (gateway_init e t1))))"
proof -
  obtain n a b p d where n: "hev_config_get_tunnel_name cf = Ret n" "hev_config_get_tunnel_ipv4_address cf = Ret a"
    "hev_config_get_tunnel_ipv6_address cf = Ret b" "hev_config_get_tunnel_post_up_script cf = Ret p"
    by (rule config_strings [OF c])
  have t1: "t1 = t\<lparr>tun_fd := fd\<rparr> \<or> t1 = t\<lparr>tun_fd := open_res e, fds := insert (open_res e) (fds t), tun_fd_local := True\<rparr> \<and> 0 \<le> open_res e"
    using ok by (auto simp: tunnel_init_def n Let_def split: if_splits)
  show "undoable (fds t) (snd (gateway_init e t1))"
    using t1 i e by (auto simp: undoable_def gateway_init_def idle_def env_ok_def)
  show "undoable (fds t) (snd (event_task_init e (snd (gateway_init e t1))))"
  proof (cases "pair_res e")
    case None
    then show ?thesis using t1 i e by (auto simp: undoable_def gateway_init_def event_task_init_def idle_def env_ok_def)
  next
    case (Some x)
    then show ?thesis using t1 i e
      by (cases x) (auto simp: undoable_def gateway_init_def event_task_init_def idle_def env_ok_def Let_def)
  qed
qed

lemma or_fini_undoes:
  assumes c: "cfg_ok cf" and u: "undoable F (snd x)"
    and k: "0 \<le> fst x \<Longrightarrow> \<exists>r t'. k (snd x) = Ret (r, t') \<and>
      (r = 0 \<and> undoable F t' \<and> \<not> locker (lwip_mutex t') \<or> r = - 1 \<and> idle t' \<and> fds t' = F)"
  shows "\<exists>r t'. or_fini cf x k = Ret (r, t') \<and>
    (r = 0 \<and> undoable F t' \<and> \<not> locker (lwip_mutex t') \<or> r = - 1 \<and> idle t' \<and> fds t' = F)"
proof (cases "fst x < 0")
  case True
  obtain t' where "hev_socks5_tunnel_fini cf (snd x) = Ret t'" "idle t'" "fds t' = F" by (rule fini_undoes [OF c u])
  then show ?thesis using True by (auto simp: or_fini_def split: prod.split)
next
  case False
  then show ?thesis using k by (cases x) (simp add: or_fini_def)
qed

lemma undoable_cong:
  "undoable F (t\<lparr>task_lwip_io := a\<rparr>) = undoable F t" "undoable F (t\<lparr>task_lwip_timer := a\<rparr>) = undoable F t"
  "undoable F (t\<lparr>dns_single := d\<rparr>) = undoable F t" "undoable F (t\<lparr>lwip_mutex := m\<rparr>) = undoable F t"
  by (simp_all add: undoable_def)

lemma init_undoable:
  assumes "cfg_ok cf" "idle t" "env_ok e t" "tunnel_init cf e fd t = Ret (0, t1)"
  shows "\<exists>r t'. hev_socks5_tunnel_init cf e fd t = Ret (r, t') \<and>
    (r = 0 \<and> undoable (fds t) t' \<and> \<not> locker (lwip_mutex t') \<or> r = - 1 \<and> idle t' \<and> fds t' = fds t)"
proof -
  let ?F = "fds t"
  note init = init_steps [OF assms]
  have io: "undoable ?F (snd (lwip_io_task_init e u))" and tm: "undoable ?F (snd (lwip_timer_task_init e u))"
    and dn: "undoable ?F (snd (mapped_dns_init cf e u))" if "undoable ?F u" for u
    using that by (simp_all add: lwip_io_task_init_def lwip_timer_task_init_def mapped_dns_init_def undoable_cong Let_def
        split: option.split)
  have z: "fst (gateway_init e t1) = 0" by (simp add: gateway_init_def)
  show ?thesis
    unfolding hev_socks5_tunnel_init_def assms(4) bind_o_simps
    unfolding or_fini_def [of cf "(0, t1)"] prod.case
    by (simp, intro or_fini_undoes assms(1) init io tm dn)
      (simp add: undoable_cong hev_task_mutex_init_def init io tm dn)
qed

text \<open>The failing set-up of the interface: finalisation closes nothing of what it opened, and it removes
  the listeners a previous run left behind, which are gone.\<close>

lemma tunnel_init_cases:
  assumes "cfg_ok cf"
  obtains t1 where "tunnel_init cf e fd t = Ret (0, t1)"
  | x where "tunnel_init cf e fd t =
      Ret (- 1, t\<lparr>tun_fd := x, fds := (if fd < 0 \<and> 0 \<le> open_res e then insert (open_res e) (fds t) else fds t)\<rparr>)"
proof -
  obtain n a b p d where n: "hev_config_get_tunnel_name cf = Ret n" "hev_config_get_tunnel_ipv4_address cf = Ret a"
    "hev_config_get_tunnel_ipv6_address cf = Ret b" "hev_config_get_tunnel_post_up_script cf = Ret p"
    by (rule config_strings [OF assms])
  show thesis
  proof (cases "0 \<le> fd")
    case True
    then show thesis using that(1) that(2) [of "tun_fd t"] by (cases "ioctl_ok e") (simp_all add: tunnel_init_def)
  next
    case False
    let ?t = "t\<lparr>tun_fd := open_res e, fds := insert (open_res e) (fds t)\<rparr>"
    have eq: "tunnel_init cf e fd t = (if open_res e < 0 then Ret (- 1, t\<lparr>tun_fd := open_res e\<rparr>)
        else if \<not> mtu_ok e \<or> a \<noteq> None \<and> \<not> ipv4_ok e \<or> b \<noteq> None \<and> \<not> ipv6_ok e \<or> \<not> state_ok e then Ret (- 1, ?t)
        else Ret (0, ?t\<lparr>tun_fd_local := True\<rparr>))" using False by (auto simp: tunnel_init_def n Let_def)
    let ?bad = "\<not> mtu_ok e \<or> a \<noteq> None \<and> \<not> ipv4_ok e \<or> b \<noteq> None \<and> \<not> ipv6_ok e \<or> \<not> state_ok e"
    consider "open_res e < 0" | "0 \<le> open_res e" "?bad" | "0 \<le> open_res e" "\<not> ?bad" by linarith
    then show thesis
    proof cases
      case 1
      then show thesis using False eq by (intro that(2) [of "open_res e"]) simp
    next
      case 2
      then have "tunnel_init cf e fd t = Ret (- 1, ?t)" unfolding eq by (simp add: not_less)
      then show thesis using False 2(1) by (intro that(2) [of "open_res e"]) simp
    next
      case 3
      then have "tunnel_init cf e fd t = Ret (0, ?t\<lparr>tun_fd_local := True\<rparr>)" unfolding eq by (simp add: not_less)
      then show thesis by (rule that(1))
    qed
  qed
qed

lemma fini_of_idle:
  assumes "idle t"
  shows "if udp_listener t = None \<and> tcp_listener t = None
    then \<exists>t'. hev_socks5_tunnel_fini cf t = Ret t' \<and> idle t' \<and> fds t' = fds t
    else hev_socks5_tunnel_fini cf t = Fault"
proof -
  let ?t = "event_task_fini (lwip_io_task_fini (lwip_timer_task_fini (mapped_dns_fini t)))"
  have t: "?t = t" using assms
    by (simp add: idle_def event_task_fini_def lwip_io_task_fini_def lwip_timer_task_fini_def mapped_dns_fini_def)
  show ?thesis using assms
    by (auto simp: hev_socks5_tunnel_fini_def t gateway_fini_def idle_def udp_remove_def tunnel_fini_def split: option.splits)
qed

text \<open>C18. Initialisation of an idle tunnel with a well-formed configuration, in every case. When the interface
  can be set up, initialisation either succeeds or leaves the process as it was, whichever of its later
  steps fails: no descriptor, task, connection or name table stays behind. After success the tunnel is
  ready to run without sessions, and finalisation returns to the idle state with exactly the
  descriptors there were before. When setting up the interface fails at the first start,
  initialisation returns an error and everything but the descriptor is released: an interface that was
  opened by the failing set-up stays open. When it fails at a start after an earlier run, finalisation
  uses the listeners of that run, which were freed: a fault.\<close>

theorem tunnel_lifecycle:
  assumes "cfg_ok cf" "idle t" "env_ok e t"
  shows "\<exists>r1 t1. tunnel_init cf e fd t = Ret (r1, t1) \<and>
    (if r1 = 0 then \<exists>r t'. hev_socks5_tunnel_init cf e fd t = Ret (r, t') \<and>
       (if r = 0 then tun_start (t'\<lparr>run := True\<rparr>) \<and>
          (\<exists>t2. hev_socks5_tunnel_fini cf t' = Ret t2 \<and> idle t2 \<and> fds t2 = fds t)
        else r = - 1 \<and> idle t' \<and> fds t' = fds t)
     else if udp_listener t = None \<and> tcp_listener t = None then
       \<exists>t'. hev_socks5_tunnel_init cf e fd t = Ret (- 1, t') \<and> idle t' \<and>
         fds t' = (if fd < 0 \<and> 0 \<le> open_res e then insert (open_res e) (fds t) else fds t)
     else hev_socks5_tunnel_init cf e fd t = Fault)"
proof (cases rule: tunnel_init_cases [OF assms(1), of e fd t])
  case (1 t1)
  obtain r t' where i: "hev_socks5_tunnel_init cf e fd t = Ret (r, t')"
    "r = 0 \<and> undoable (fds t) t' \<and> \<not> locker (lwip_mutex t') \<or> r = - 1 \<and> idle t' \<and> fds t' = fds t"
    using init_undoable [OF assms 1] by blast
  have "if r = 0 then tun_start (t'\<lparr>run := True\<rparr>) \<and>
          (\<exists>t2. hev_socks5_tunnel_fini cf t' = Ret t2 \<and> idle t2 \<and> fds t2 = fds t)
        else r = - 1 \<and> idle t' \<and> fds t' = fds t"
  proof (cases "r = 0")
    case True
    then have u: "undoable (fds t) t'" "\<not> locker (lwip_mutex t')" using i(2) by auto
    obtain t2 where "hev_socks5_tunnel_fini cf t' = Ret t2" "idle t2" "fds t2 = fds t" by (rule fini_undoes [OF assms(1) u(1)])
    moreover have "tun_start (t'\<lparr>run := True\<rparr>)" using u by (auto simp: tun_start_def undoable_def)
    ultimately show ?thesis using True by auto
  qed (use i in auto)
  then show ?thesis using 1 i(1) by auto
next
  case (2 x)
  let ?t = "t\<lparr>tun_fd := x, fds := (if fd < 0 \<and> 0 \<le> open_res e then insert (open_res e) (fds t) else fds t)\<rparr>"
  have "idle ?t" using assms(2) by (simp add: idle_def)
  note f = fini_of_idle [OF this, of cf]
  have "hev_socks5_tunnel_init cf e fd t = bind_o (hev_socks5_tunnel_fini cf ?t) (\<lambda>t. Ret (- 1, t))"
    using 2 by (simp add: hev_socks5_tunnel_init_def or_fini_def)
  then show ?thesis using f 2 by (auto split: if_splits)
qed

definition demo_idle :: tunnel where
  "demo_idle = demo_tunnel\<lparr>run := False, tun_fd := - 1, event_fds := (- 1, - 1), task_event := None, task_lwip_io := None,
     task_lwip_timer := None, tcp_listener := None, udp_listener := None, udp_pcbs := [], tcp_listening := {}, fds := {0, 1, 2}\<rparr>"

definition demo_init :: init_env where
  "demo_init = \<lparr>ioctl_ok = True, open_res = - 1, mtu_ok = True, ipv4_ok = True, ipv6_ok = True, state_ok = True,
     pair_res = Some (6, 7), event_ioctl_ok = True, new_task_event = Some 3, new_task_io = Some 4, new_task_timer = None,
     dns_mem = True, new_tcp = 1, new_udp = 2\<rparr>"

text \<open>The last task cannot be allocated: everything is released. The interface opens and its MTU cannot be
  set: its descriptor 8 stays.\<close>

theorem tunnel_lifecycle_witness:
  "(\<exists>t'. hev_socks5_tunnel_init config_default demo_init 5 demo_idle = Ret (- 1, t') \<and> idle t' \<and> fds t' = {0, 1, 2}) \<and>
   (\<exists>t'. hev_socks5_tunnel_init config_default (demo_init\<lparr>open_res := 8, mtu_ok := False\<rparr>) (- 1) demo_idle = Ret (- 1, t') \<and>
      fds t' = {0, 1, 2, 8})"
proof -
  let ?t = "demo_idle\<lparr>tun_fd := 5\<rparr>" and ?e = "demo_init\<lparr>open_res := 8, mtu_ok := False\<rparr>"
  have i: "tunnel_init config_default demo_init 5 demo_idle = Ret (0, ?t)"
    by (simp add: tunnel_init_def demo_init_def)
  have d: "idle demo_idle" "env_ok demo_init demo_idle" "fds demo_idle = {0, 1, 2}" "env_ok ?e demo_idle"
    "udp_listener demo_idle = None" "tcp_listener demo_idle = None"
    by (simp_all add: idle_def env_ok_def demo_idle_def demo_init_def demo_tunnel_def)
  obtain r t' where r: "hev_socks5_tunnel_init config_default demo_init 5 demo_idle = Ret (r, t')"
    "if r = 0 then tun_start (t'\<lparr>run := True\<rparr>) \<and>
       (\<exists>t2. hev_socks5_tunnel_fini config_default t' = Ret t2 \<and> idle t2 \<and> fds t2 = fds demo_idle)
     else r = - 1 \<and> idle t' \<and> fds t' = fds demo_idle"
    using tunnel_lifecycle [OF default_ok d(1,2), of 5] i by auto
  have "r \<noteq> 0"
    using r(1) unfolding hev_socks5_tunnel_init_def i bind_o_simps
    by (auto simp: or_fini_def gateway_init_def event_task_init_def
        lwip_io_task_init_def lwip_timer_task_init_def demo_init_def bind_o_Ret_iff)
  then have 1: "\<exists>t'. hev_socks5_tunnel_init config_default demo_init 5 demo_idle = Ret (- 1, t') \<and> idle t' \<and> fds t' = {0, 1, 2}"
    using r d(3) by auto
  have "tunnel_init config_default ?e (- 1) demo_idle \<noteq> Ret (0, t1)" for t1
    by (cases "hev_config_get_tunnel_name config_default") (simp_all add: tunnel_init_def demo_init_def)
  then have "\<exists>t'. hev_socks5_tunnel_init config_default ?e (- 1) demo_idle = Ret (- 1, t') \<and> fds t' = insert 8 (fds demo_idle)"
    using tunnel_lifecycle [OF default_ok d(1,4), of "- 1"] d(5,6) by (auto simp: demo_init_def split: if_splits)
  moreover have "insert 8 (fds demo_idle) = {0, 1, 2, 8}" using d(3) by auto
  ultimately show ?thesis using 1 by auto
qed

text \<open>A start that follows an earlier run and fails to set up the interface removes the listeners of
  the earlier run a second time, because finalisation leaves their pointers in place: freed memory is
  used.\<close>

lemma tunnel_failed_restart_faults:
  assumes "cfg_ok cf" "idle t" "env_ok e t" "tunnel_init cf e fd t = Ret (0, t1)"
    and "hev_socks5_tunnel_init cf e fd t = Ret (0, t')" "hev_socks5_tunnel_fini cf t' = Ret t2"
    and "0 \<le> fd2" "\<not> ioctl_ok e2"
  shows "hev_socks5_tunnel_init cf e2 fd2 t2 = Fault"
proof -
  have u: "undoable (fds t) t'" using init_undoable [OF assms(1-4)] assms(5) by auto
  then obtain l where l: "udp_listener t' = Some l" by (auto simp: undoable_def)
  obtain t3 where "hev_socks5_tunnel_fini cf t' = Ret t3" "idle t3" "udp_listener t3 = udp_listener t'"
    by (rule fini_undoes [OF assms(1) u])
  then have t2: "idle t2" "udp_listener t2 = Some l" using assms(6) l by auto
  have "udp_remove l (event_task_fini (lwip_io_task_fini (lwip_timer_task_fini (mapped_dns_fini t2)))) = Fault"
    using t2(1) by (simp add: udp_remove_def idle_def event_task_fini_def lwip_io_task_fini_def lwip_timer_task_fini_def
        mapped_dns_fini_def Let_def)
  then have "hev_socks5_tunnel_fini cf t2 = Fault"
    using t2 by (simp add: hev_socks5_tunnel_fini_def gateway_fini_def idle_def event_task_fini_def lwip_io_task_fini_def
        lwip_timer_task_fini_def mapped_dns_fini_def Let_def)
  then show ?thesis using assms(7,8) by (simp add: hev_socks5_tunnel_init_def tunnel_init_def or_fini_def)
qed

lemma tunnel_failed_restart_faults_example:
  "\<exists>t' t2. hev_socks5_tunnel_init config_default (demo_init\<lparr>new_task_timer := Some 5\<rparr>) 5 demo_idle = Ret (0, t') \<and>
     hev_socks5_tunnel_fini config_default t' = Ret t2 \<and>
     hev_socks5_tunnel_init config_default (demo_init\<lparr>ioctl_ok := False\<rparr>) 5 t2 = Fault"
proof -
  let ?e = "demo_init\<lparr>new_task_timer := Some 5\<rparr>"
  have i: "tunnel_init config_default ?e 5 demo_idle = Ret (0, demo_idle\<lparr>tun_fd := 5\<rparr>)"
    by (simp add: tunnel_init_def demo_init_def)
  have d: "idle demo_idle" "env_ok ?e demo_idle"
    by (simp_all add: idle_def env_ok_def demo_idle_def demo_init_def demo_tunnel_def)
  have "hev_config_get_mapdns_cache_size config_default = 0"
    by (simp add: hev_config_get_mapdns_cache_size_def config_default_def)
  then obtain t' where t': "hev_socks5_tunnel_init config_default ?e 5 demo_idle = Ret (0, t')"
    unfolding hev_socks5_tunnel_init_def i bind_o_simps
    by (auto simp: or_fini_def gateway_init_def event_task_init_def mapped_dns_init_def
        lwip_io_task_init_def lwip_timer_task_init_def demo_init_def)
  then have "undoable (fds demo_idle) t'" using init_undoable [OF default_ok d i] by auto
  then obtain t2 where t2: "hev_socks5_tunnel_fini config_default t' = Ret t2" by (rule fini_undoes [OF default_ok])
  then show ?thesis
    using t' tunnel_failed_restart_faults [OF default_ok d i t' t2, of 5 "demo_init\<lparr>ioctl_ok := False\<rparr>"] by auto
qed

section \<open>Stopping from another thread\<close>

text \<open>The accesses of the two threads to the shared variables, in program order. The main thread creates
  the socket pair (\<open>event_task_init\<close>), sets \<open>run\<close>, looks at \<open>stop_requested\<close>, signals if it is set, and
  enters the scheduler, which it leaves when the event task has read a byte; the other thread executes
  \<open>hev_socks5_tunnel_stop\<close>: it sets \<open>stop_requested\<close>, reads the descriptor and writes a byte if there
  is one. The accesses take effect one at a time, in any interleaving of the two threads.\<close>

datatype main_pc = InInit | Ready | RunSet | Signalling | Scheduling | Left
datatype stop_pc = NotCalled | Requested | GotFd bool | Returned

record signals =
  s_requested :: bool
  s_fd :: bool
  s_bytes :: nat
  s_main :: main_pc
  s_stop :: stop_pc

inductive signal_step :: "signals \<Rightarrow> signals \<Rightarrow> bool" where
  m_pair: "s_main s = InInit \<Longrightarrow> signal_step s (s\<lparr>s_fd := True, s_main := Ready\<rparr>)"
| m_run: "s_main s = Ready \<Longrightarrow> signal_step s (s\<lparr>s_main := RunSet\<rparr>)"
| m_look: "s_main s = RunSet \<Longrightarrow> signal_step s (s\<lparr>s_main := (if s_requested s then Signalling else Scheduling)\<rparr>)"
| m_signal: "s_main s = Signalling \<Longrightarrow>
     signal_step s (s\<lparr>s_bytes := s_bytes s + (if s_fd s then 1 else 0), s_main := Scheduling\<rparr>)"
| m_leave: "s_main s = Scheduling \<Longrightarrow> 0 < s_bytes s \<Longrightarrow> signal_step s (s\<lparr>s_requested := False, s_main := Left\<rparr>)"
| t_request: "s_stop s = NotCalled \<Longrightarrow> signal_step s (s\<lparr>s_requested := True, s_stop := Requested\<rparr>)"
| t_fd: "s_stop s = Requested \<Longrightarrow> signal_step s (s\<lparr>s_stop := GotFd (s_fd s)\<rparr>)"
| t_write: "s_stop s = GotFd b \<Longrightarrow>
     signal_step s (s\<lparr>s_bytes := s_bytes s + (if b then 1 else 0), s_stop := Returned\<rparr>)"

definition signals0 :: signals where
  "signals0 = \<lparr>s_requested = False, s_fd = False, s_bytes = 0, s_main = InInit, s_stop = NotCalled\<rparr>"

definition signal_inv :: "signals \<Rightarrow> bool" where
  "signal_inv s \<longleftrightarrow> (s_fd s \<longleftrightarrow> s_main s \<noteq> InInit) \<and>
     (s_main s = Left \<longrightarrow> 0 < s_bytes s) \<and>
     (case s_stop s of
        NotCalled \<Rightarrow> \<not> s_requested s
      | Requested \<Rightarrow> s_requested s \<or> s_main s = Left
      | GotFd b \<Rightarrow> (s_requested s \<or> s_main s = Left) \<and> (b \<or> s_main s = Scheduling \<longrightarrow> b \<or> 0 < s_bytes s)
      | Returned \<Rightarrow> s_main s = Left \<or> 0 < s_bytes s \<or> s_requested s \<and> s_main s \<noteq> Scheduling)"

lemma signal_step_inv: "signal_step s s' \<Longrightarrow> signal_inv s \<Longrightarrow> signal_inv s'"
  by (induction rule: signal_step.induct) (auto simp: signal_inv_def split: stop_pc.splits)

lemma signal_reach_inv: "signal_step\<^sup>*\<^sup>* signals0 s \<Longrightarrow> signal_inv s"
proof (induction rule: rtranclp_induct)
  case base
  show ?case by (simp add: signal_inv_def signals0_def)
qed (rule signal_step_inv)

text \<open>C36. A stop request is not lost, whenever the other thread makes it: in every interleaving, once the
  request has returned and the main thread waits in its scheduler, a byte is in the socket pair, so the
  event task wakes and the main thread can leave.\<close>

theorem tunnel_stop_not_lost:
  assumes "signal_step\<^sup>*\<^sup>* signals0 s" "s_stop s = Returned" "s_main s = Scheduling"
  shows "0 < s_bytes s \<and> (\<exists>s'. signal_step s s' \<and> s_main s' = Left)"
proof -
  have "0 < s_bytes s" using signal_reach_inv [OF assms(1)] assms(2,3) by (simp add: signal_inv_def)
  then show ?thesis using m_leave [OF assms(3)] by force
qed

text \<open>The other thread comes first: it finds no descriptor, and the main thread signals for it.\<close>

theorem tunnel_stop_not_lost_witness:
  "\<exists>s. signal_step\<^sup>*\<^sup>* signals0 s \<and> s_stop s = Returned \<and> s_main s = Scheduling \<and> 0 < s_bytes s"
proof -
  let ?s = "\<lambda>r f n m p. \<lparr>s_requested = r, s_fd = f, s_bytes = n, s_main = m, s_stop = p\<rparr>"
  have 1: "signal_step signals0 (?s True False 0 InInit Requested)"
    using t_request [of signals0] by (simp add: signals0_def)
  have 2: "signal_step (?s True False 0 InInit Requested) (?s True False 0 InInit (GotFd False))"
    using t_fd [of "?s True False 0 InInit Requested"] by simp
  have 3: "signal_step (?s True False 0 InInit (GotFd False)) (?s True False 0 InInit Returned)"
    using t_write [of "?s True False 0 InInit (GotFd False)" False] by simp
  have 4: "signal_step (?s True False 0 InInit Returned) (?s True True 0 Ready Returned)"
    using m_pair [of "?s True False 0 InInit Returned"] by simp
  have 5: "signal_step (?s True True 0 Ready Returned) (?s True True 0 RunSet Returned)"
    using m_run [of "?s True True 0 Ready Returned"] by simp
  have 6: "signal_step (?s True True 0 RunSet Returned) (?s True True 0 Signalling Returned)"
    using m_look [of "?s True True 0 RunSet Returned"] by simp
  have 7: "signal_step (?s True True 0 Signalling Returned) (?s True True 1 Scheduling Returned)"
    using m_signal [of "?s True True 0 Signalling Returned"] by simp
  have "signal_step\<^sup>*\<^sup>* signals0 (?s True True 1 Scheduling Returned)"
    using 1 2 3 4 5 6 7 by (meson r_into_rtranclp rtranclp_trans)
  then show ?thesis using tunnel_stop_not_lost [of "?s True True 1 Scheduling Returned"] by auto
qed

end
