(* ===== verification/CachedTree.thy ===== *)
theory CachedTree
  imports RBTree
begin

text \<open>
  The red-black tree with a pointer to its first node (\<open>lib/rbtree/hev-rbtree-cached.c\<close> of the task
  system), and the loop with which the scheduler and the timer insert into it: behind the nodes that
  are not greater. With the elements in order it is a queue by key, first come first served among equal
  keys.
\<close>

section \<open>Operations\<close>

record 'a cached =
  base :: "'a rbt"
  leftmost_node :: "'a option"

definition cached_empty :: "'a cached" where
  "cached_empty = \<lparr>base = Nil, leftmost_node = None\<rparr>"

definition hev_rbtree_cached_first :: "'a cached \<Rightarrow> 'a option" where
  "hev_rbtree_cached_first self = leftmost_node self"

definition hev_rbtree_cached_insert_color :: "'a \<Rightarrow> 'a frame list \<Rightarrow> bool \<Rightarrow> 'a cached \<Rightarrow> 'a cached outcome" where
  "hev_rbtree_cached_insert_color node fs lm self =
     (let self = if lm then self\<lparr>leftmost_node := Some node\<rparr> else self in
      bind_o (hev_rbtree_insert_color (hev_rbtree_node_link node) fs) (\<lambda>t. Ret (self\<lparr>base := t\<rparr>)))"

text \<open>The element a place holds: the address of the node.\<close>

fun node_elem :: "'a rbt \<times> 'a frame list \<Rightarrow> 'a option" where
  "node_elem (Nd l c x r, fs) = Some x"
| "node_elem (Nil, fs) = None"

definition hev_rbtree_cached_erase :: "'a \<Rightarrow> 'a cached \<Rightarrow> 'a cached outcome" where
  "hev_rbtree_cached_erase node self =
     (case place (\<lambda>x. x = node) (base self) [] of
        None \<Rightarrow> Fault
      | Some (u, fs) \<Rightarrow>
          let self = if leftmost_node self = Some node
            then self\<lparr>leftmost_node := Option.bind (hev_rbtree_node_next u fs) node_elem\<rparr> else self in
          bind_o (hev_rbtree_erase u fs) (\<lambda>t. Ret (self\<lparr>base := t\<rparr>)))"

definition hev_rbtree_cached_replace :: "'a \<Rightarrow> 'a \<Rightarrow> 'a cached \<Rightarrow> 'a cached outcome" where
  "hev_rbtree_cached_replace victim new self =
     (case place (\<lambda>x. x = victim) (base self) [] of
        None \<Rightarrow> Fault
      | Some (u, fs) \<Rightarrow> bind_o (hev_rbtree_replace u fs new) (\<lambda>t.
          let self = self\<lparr>base := t\<rparr> in
          Ret (if leftmost_node self = Some victim then self\<lparr>leftmost_node := Some new\<rparr> else self)))"

text \<open>The insertion loop. \<open>left\<close> tells whether the new node goes to the left of a node; the flag stays
  set as long as it only went left.\<close>

fun insert_slot :: "('a \<Rightarrow> bool) \<Rightarrow> 'a rbt \<Rightarrow> 'a frame list \<Rightarrow> bool \<Rightarrow> 'a frame list \<times> bool" where
  "insert_slot left Nil fs lm = (fs, lm)"
| "insert_slot left (Nd l c x r) fs lm =
     (if left x then insert_slot left l (LeftOf c x r # fs) lm
      else insert_slot left r (RightOf l c x # fs) False)"

definition cached_insert :: "('a \<Rightarrow> bool) \<Rightarrow> 'a \<Rightarrow> 'a cached \<Rightarrow> 'a cached outcome" where
  "cached_insert left node self =
     (let (fs, lm) = insert_slot left (base self) [] True in hev_rbtree_cached_insert_color node fs lm self)"

section \<open>The queue it represents\<close>

definition queue_of :: "'a cached \<Rightarrow> 'a list" where
  "queue_of self = inorder (base self)"

definition cached_inv :: "'a cached \<Rightarrow> bool" where
  "cached_inv self \<longleftrightarrow> rbt_inv (base self) \<and> distinct (queue_of self) \<and>
     leftmost_node self = (case queue_of self of [] \<Rightarrow> None | x # xs \<Rightarrow> Some x)"

text \<open>The abstract insertion: behind everything that is not greater.\<close>

definition enqueue :: "('a \<Rightarrow> 'k::linorder) \<Rightarrow> 'a \<Rightarrow> 'a list \<Rightarrow> 'a list" where
  "enqueue k x xs = filter (\<lambda>y. k y \<le> k x) xs @ x # filter (\<lambda>y. \<not> k y \<le> k x) xs"

lemma cached_empty_inv [simp]: "cached_inv cached_empty" "queue_of cached_empty = []"
  by (simp_all add: cached_inv_def queue_of_def cached_empty_def rbt_inv_def)

lemma cached_first_queue:
  "cached_inv self \<Longrightarrow> hev_rbtree_cached_first self = (case queue_of self of [] \<Rightarrow> None | x # xs \<Rightarrow> Some x)"
  by (simp add: cached_inv_def hev_rbtree_cached_first_def)

lemma set_enqueue [simp]: "set (enqueue k x xs) = insert x (set xs)"
  by (auto simp: enqueue_def)

lemma distinct_enqueue [simp]: "distinct (enqueue k x xs) \<longleftrightarrow> distinct xs \<and> x \<notin> set xs"
proof -
  have "distinct (filter P xs @ filter (\<lambda>y. \<not> P y) xs) \<longleftrightarrow> distinct xs" for P
    by (induction xs) (auto simp: distinct_append)
  then show ?thesis by (auto simp: enqueue_def)
qed

lemma length_enqueue [simp]: "length (enqueue k x xs) = Suc (length xs)"
  using sum_length_filter_compl [of "\<lambda>y. k y \<le> k x" xs] by (simp add: enqueue_def)

lemma sorted_enqueue: "sorted (map k xs) \<Longrightarrow> sorted (map k (enqueue k x xs))"
  by (auto simp: enqueue_def sorted_append sorted_filter intro: less_imp_le)

lemma insert_slot_places:
  assumes "insert_slot left t fs lm = (gs, lm')" "sorted (map k (before fs @ inorder t @ behind fs))"
    and "\<forall>y. left y \<longleftrightarrow> k x < k y" "\<forall>y \<in> set (before fs). k y \<le> k x" "\<forall>y \<in> set (behind fs). k x < k y"
    and "lm \<longleftrightarrow> before fs = []"
  shows "zip_up Nil gs = zip_up t fs \<and> (\<forall>y \<in> set (before gs). k y \<le> k x) \<and>
    (\<forall>y \<in> set (behind gs). k x < k y) \<and> (lm' \<longleftrightarrow> before gs = [])"
  using assms
proof (induction t arbitrary: fs lm)
  case Nil
  then show ?case by auto
next
  case (Nd l c z r)
  have s: "\<forall>y \<in> set (inorder l). k y \<le> k z" "\<forall>y \<in> set (inorder r). k z \<le> k y"
    using Nd.prems(2) by (auto simp: sorted_append)
  show ?case
  proof (cases "k x < k z")
    case True
    show ?thesis by (rule Nd.IH(1) [of "LeftOf c z r # fs" lm, simplified zip_up.simps])
        (use True Nd.prems s in \<open>auto simp: ball_Un\<close>)
  next
    case False
    show ?thesis by (rule Nd.IH(2) [of "RightOf l c z # fs" False, simplified zip_up.simps])
        (use False Nd.prems s in \<open>auto simp: ball_Un\<close>)
  qed
qed

lemma cached_insert_queue:
  assumes "cached_inv self" "sorted (map k (queue_of self))" "\<forall>y. left y \<longleftrightarrow> k x < k y" "x \<notin> set (queue_of self)"
  shows "\<exists>self'. cached_insert left x self = Ret self' \<and> cached_inv self' \<and>
    queue_of self' = enqueue k x (queue_of self)"
proof -
  obtain fs lm where i: "insert_slot left (base self) [] True = (fs, lm)" by fastforce
  have p: "zip_up Nil fs = base self" "\<forall>y \<in> set (before fs). k y \<le> k x" "\<forall>y \<in> set (behind fs). k x < k y"
    "lm \<longleftrightarrow> before fs = []"
    using insert_slot_places [OF i, of k x] assms(2,3) by (simp_all add: queue_of_def)
  have q: "queue_of self = before fs @ behind fs" using arg_cong [OF p(1), of inorder] by (simp add: queue_of_def)
  have e: "enqueue k x (queue_of self) = before fs @ x # behind fs"
    using p(2,3) filter_False [of "behind fs" "\<lambda>y. k y \<le> k x"] filter_True [of "behind fs" "\<lambda>y. \<not> k y \<le> k x"]
    by (auto simp: enqueue_def q not_le filter_empty_conv)
  obtain t where t: "hev_rbtree_insert_color (hev_rbtree_node_link x) fs = Ret t" "rbt_inv t"
    "inorder t = before fs @ x # behind fs"
    using insert_inv [of fs x] assms(1) p(1) by (auto simp: cached_inv_def)
  have "distinct (before fs @ x # behind fs)"
    using assms(1,4) unfolding e [symmetric] by (simp add: cached_inv_def)
  then show ?thesis
    using t p(4) assms(1) q e
    by (cases "before fs")
      (auto simp: cached_insert_def i hev_rbtree_cached_insert_color_def Let_def cached_inv_def queue_of_def)
qed

lemma filter_other: "x \<notin> set xs \<Longrightarrow> filter (\<lambda>y. y \<noteq> x) xs = xs"
  by (induction xs) auto

lemma cached_place:
  assumes "x \<in> set (queue_of self)"
  obtains u fs l c r where "place (\<lambda>y. y = x) (base self) [] = Some (u, fs)" "u = Nd l c x r" "zip_up u fs = base self"
proof -
  obtain u fs where p: "place (\<lambda>y. y = x) (base self) [] = Some (u, fs)"
    using place_None [of "\<lambda>y. y = x" "base self" "[]" x] assms by (fastforce simp: queue_of_def)
  then show ?thesis using that place_Some [OF p] by auto
qed

lemma cached_erase_queue:
  assumes "cached_inv self" "x \<in> set (queue_of self)"
  shows "\<exists>self'. hev_rbtree_cached_erase x self = Ret self' \<and> cached_inv self' \<and>
    queue_of self' = filter (\<lambda>y. y \<noteq> x) (queue_of self)"
proof -
  obtain u fs l c r where p: "place (\<lambda>y. y = x) (base self) [] = Some (u, fs)"
    and u: "u = Nd l c x r" "zip_up u fs = base self" by (rule cached_place [OF assms(2)])
  let ?pre = "before fs @ inorder l" and ?post = "inorder r @ behind fs"
  have q: "queue_of self = ?pre @ x # ?post" using arg_cong [OF u(2), of inorder] u(1) by (simp add: queue_of_def)
  have d: "x \<notin> set ?pre" "x \<notin> set ?post" "distinct (?pre @ ?post)"
    using assms(1) q by (auto simp: cached_inv_def)
  have f: "filter (\<lambda>y. y \<noteq> x) (queue_of self) = ?pre @ ?post"
    unfolding q using d(1,2) by (simp add: filter_other)
  obtain t where t: "hev_rbtree_erase u fs = Ret t" "rbt_inv t" "inorder t = ?pre @ ?post"
    using erase_inv [of l c x r fs] assms(1) u by (auto simp: cached_inv_def)
  have n: "Option.bind (hev_rbtree_node_next u fs) node_elem = (case ?post of [] \<Rightarrow> None | y # ys \<Rightarrow> Some y)"
    using node_next_at [of u fs ?pre x ?post] u(1)
    by (auto simp: node_at_def split: option.splits prod.splits list.splits)
  have lm: "leftmost_node self = (case queue_of self of [] \<Rightarrow> None | x # xs \<Rightarrow> Some x)"
    using assms(1) by (simp add: cached_inv_def)
  show ?thesis
  proof (cases ?pre)
    case Nil
    then have "leftmost_node self = Some x" using lm q by simp
    then show ?thesis using p t n f d(3) Nil
      by (simp add: hev_rbtree_cached_erase_def Let_def cached_inv_def queue_of_def)
  next
    case (Cons y ys)
    then have "leftmost_node self = Some y" using lm q by simp
    moreover have "y \<noteq> x" using Cons d(1) by (metis list.set_intros(1))
    ultimately show ?thesis using p t f d(3) Cons
      by (simp add: hev_rbtree_cached_erase_def Let_def cached_inv_def queue_of_def)
  qed
qed

text \<open>Replacing a node keeps its place in the queue.\<close>

lemma cached_replace_queue:
  assumes "cached_inv self" "x \<in> set (queue_of self)" "y \<notin> set (queue_of self)"
  shows "\<exists>self'. hev_rbtree_cached_replace x y self = Ret self' \<and> cached_inv self' \<and>
    queue_of self' = map (\<lambda>z. if z = x then y else z) (queue_of self)"
proof -
  obtain u fs l c r where p: "place (\<lambda>y. y = x) (base self) [] = Some (u, fs)"
    and u: "u = Nd l c x r" "zip_up u fs = base self" by (rule cached_place [OF assms(2)])
  let ?pre = "before fs @ inorder l" and ?post = "inorder r @ behind fs" and ?f = "\<lambda>z. if z = x then y else z"
  have q: "queue_of self = ?pre @ x # ?post" using arg_cong [OF u(2), of inorder] u(1) by (simp add: queue_of_def)
  have d: "x \<notin> set ?pre" "x \<notin> set ?post" "distinct (?pre @ y # ?post)"
    using assms(1,3) q by (auto simp: cached_inv_def)
  have m: "map ?f (queue_of self) = ?pre @ y # ?post" unfolding q using d(1,2) by (auto intro!: map_idI)
  let ?t = "zip_up (Nd l c y r) fs"
  have t: "rbt_inv ?t" "inorder ?t = map ?f (queue_of self)"
    using inv_payload [of l c x r fs y] assms(1) u m by (simp_all add: cached_inv_def)
  define self' where "self' = self\<lparr>base := ?t, leftmost_node := map_option ?f (leftmost_node self)\<rparr>"
  have q': "queue_of self' = map ?f (queue_of self)" using t(2) by (simp add: self'_def queue_of_def)
  have e: "leftmost_node self' = map_option ?f (leftmost_node self)" by (simp add: self'_def)
  have "leftmost_node self' = (case queue_of self' of [] \<Rightarrow> None | z # zs \<Rightarrow> Some z)"
    unfolding q' e using assms(1) by (cases "queue_of self") (simp_all add: cached_inv_def)
  then have "cached_inv self'" using t(1) d(3) q' m by (simp add: cached_inv_def) (simp add: self'_def)
  moreover have "hev_rbtree_cached_replace x y self = Ret self'"
    using p u(1) by (cases "leftmost_node self") (simp_all add: hev_rbtree_cached_replace_def hev_rbtree_replace_def self'_def)
  ultimately show ?thesis using q' by blast
qed

end
