(* ===== verification/Scheduler.thy ===== *)
theory Scheduler
  imports CachedTree "HOL-Library.Product_Lexorder"
begin

text \<open>
  The scheduler of the task system (\<open>kern/core/hev-task-system-schedule.c\<close>), its tasks
  (\<open>kern/task/hev-task.c\<close>, \<open>hev-task-executer.c\<close>) and its timer (\<open>kern/time/hev-task-timer.c\<close>).
  Running tasks are nodes of a cached red-black tree by their scheduling key; the task with the least
  key is resumed, and a task that gives the processor back pays for it with its priority. The build has no
  scheduling clock (\<open>CONFIG_SCHED_CLOCK\<close> is \<open>CLOCK_NONE\<close>), so every turn costs one unit.

  A task is a heap object under its address. The stack switch of \<open>setjmp\<close> and \<open>longjmp\<close> is the order of
  events: what the current task does until it gives the processor back, what the kernel does then. The
  reactor and the clock answer. The list of all tasks, which only a debugger reads, is left out.
\<close>

section \<open>State\<close>

type_synonym u64 = "64 word"

datatype task_state = HEV_TASK_STOPPED | HEV_TASK_RUNNING | HEV_TASK_WAITING

record task =
  sched_key :: u64
  joiner :: "nat option"
  task_refs :: int
  priority :: int
  next_priority :: int
  state :: task_state

record timespec =
  tv_sec :: int
  tv_nsec :: int

text \<open>A node of the timer lies on the stack of the task that sleeps.\<close>

record timer_node =
  node_addr :: nat
  expire :: timespec
  node_task :: nat

record sched =
  total_task_count :: u32
  running_task_count :: u32
  current_task :: "nat option"
  running_tasks :: "nat cached"
  tasks :: "nat \<Rightarrow> task option"
  sort_tree :: "timer_node cached"

definition get_task :: "nat \<Rightarrow> sched \<Rightarrow> task outcome" where
  "get_task a ctx = of_option (tasks ctx a)"

definition put_task :: "nat \<Rightarrow> task \<Rightarrow> sched \<Rightarrow> sched" where
  "put_task a t ctx = ctx\<lparr>tasks := (tasks ctx)(a \<mapsto> t)\<rparr>"

definition get_current :: "sched \<Rightarrow> nat outcome" where
  "get_current ctx = of_option (current_task ctx)"

section \<open>Running tasks\<close>

definition key_of :: "sched \<Rightarrow> nat \<Rightarrow> u64" where
  "key_of ctx a = (case tasks ctx a of Some t \<Rightarrow> sched_key t | None \<Rightarrow> 0)"

definition hev_task_system_update_sched_key :: "sched \<Rightarrow> sched outcome" where
  "hev_task_system_update_sched_key ctx =
     bind_o (get_current ctx) (\<lambda>a. bind_o (get_task a ctx) (\<lambda>t.
       let runtime = 1 in Ret (put_task a (t\<lparr>sched_key := sched_key t + runtime * word_of_int (priority t)\<rparr>) ctx)))"

definition hev_task_system_get_min_sched_key :: "sched \<Rightarrow> u64 outcome" where
  "hev_task_system_get_min_sched_key ctx =
     (case hev_rbtree_cached_first (running_tasks ctx) of
        Some a \<Rightarrow> bind_o (get_task a ctx) (\<lambda>t. Ret (sched_key t))
      | None \<Rightarrow> Ret 0)"

text \<open>\<open>_hev_task_system_insert_task\<close>.\<close>

definition system_insert_task :: "nat \<Rightarrow> sched \<Rightarrow> sched outcome" where
  "system_insert_task a ctx =
     bind_o (cached_insert (\<lambda>this. key_of ctx a < key_of ctx this) a (running_tasks ctx))
       (\<lambda>tree. Ret (ctx\<lparr>running_tasks := tree\<rparr>))"

definition hev_task_system_insert_task :: "nat \<Rightarrow> sched \<Rightarrow> sched outcome" where
  "hev_task_system_insert_task a ctx =
     bind_o (get_task a ctx) (\<lambda>t.
       let ctx = put_task a (t\<lparr>state := HEV_TASK_RUNNING, priority := next_priority t\<rparr>) ctx in
       bind_o (system_insert_task a ctx) (\<lambda>ctx. Ret (ctx\<lparr>running_task_count := running_task_count ctx + 1\<rparr>)))"

definition erase_task :: "nat \<Rightarrow> sched \<Rightarrow> sched outcome" where
  "erase_task a ctx =
     bind_o (hev_rbtree_cached_erase a (running_tasks ctx)) (\<lambda>tree. Ret (ctx\<lparr>running_tasks := tree\<rparr>))"

definition hev_task_system_reinsert_current_task :: "sched \<Rightarrow> sched outcome" where
  "hev_task_system_reinsert_current_task ctx =
     bind_o (get_current ctx) (\<lambda>a. bind_o (get_task a ctx) (\<lambda>t.
       bind_o (erase_task a (put_task a (t\<lparr>priority := next_priority t\<rparr>) ctx)) (system_insert_task a)))"

definition hev_task_unref :: "nat \<Rightarrow> sched \<Rightarrow> sched outcome" where
  "hev_task_unref a ctx =
     bind_o (get_task a ctx) (\<lambda>t.
       let t = t\<lparr>task_refs := task_refs t - 1\<rparr> in
       if task_refs t \<noteq> 0 then Ret (put_task a t ctx) else Ret (ctx\<lparr>tasks := (tasks ctx)(a := None)\<rparr>))"

definition hev_task_system_remove_current_task :: "task_state \<Rightarrow> sched \<Rightarrow> sched outcome" where
  "hev_task_system_remove_current_task st ctx =
     bind_o (get_current ctx) (\<lambda>a. bind_o (get_task a ctx) (\<lambda>t.
       bind_o (erase_task a (put_task a (t\<lparr>state := st\<rparr>) ctx)) (\<lambda>ctx.
         let ctx = ctx\<lparr>running_task_count := running_task_count ctx - 1\<rparr> in
         if st = HEV_TASK_STOPPED
         then hev_task_unref a (ctx\<lparr>total_task_count := total_task_count ctx - 1\<rparr>)
         else bind_o (get_task a ctx) (\<lambda>t. Ret (put_task a (t\<lparr>sched_key := word_of_int (next_priority t)\<rparr>) ctx)))))"

text \<open>Waking a stopped task aborts the process.\<close>

definition hev_task_system_wakeup_task_with_context :: "nat \<Rightarrow> sched \<Rightarrow> sched outcome" where
  "hev_task_system_wakeup_task_with_context a ctx =
     bind_o (get_task a ctx) (\<lambda>t.
       if state t = HEV_TASK_RUNNING then Ret ctx
       else if state t = HEV_TASK_STOPPED then Fault
       else bind_o (hev_task_system_get_min_sched_key ctx) (\<lambda>m.
         hev_task_system_insert_task a (put_task a (t\<lparr>sched_key := sched_key t + m\<rparr>) ctx)))"

section \<open>The timer\<close>

definition hev_task_timer_cmp :: "timespec \<Rightarrow> timespec \<Rightarrow> int" where
  "hev_task_timer_cmp a b =
     (if tv_sec a < tv_sec b then - 1 else if tv_sec a > tv_sec b then 1
      else if tv_nsec a < tv_nsec b then - 1 else if tv_nsec a > tv_nsec b then 1 else 0)"

definition hev_task_timer_node_cmp :: "timer_node \<Rightarrow> timer_node \<Rightarrow> int" where
  "hev_task_timer_node_cmp a b =
     (let res = hev_task_timer_cmp (expire a) (expire b) in
      if res \<noteq> 0 then res
      else if node_addr a < node_addr b then - 1 else if node_addr a > node_addr b then 1 else 0)"

definition hev_task_timer_get_expire :: "timespec \<Rightarrow> u32 \<Rightarrow> timespec" where
  "hev_task_timer_get_expire e ms =
     (let sec = tv_sec e + uint (ms div 1000); nsec = tv_nsec e + uint (ms mod 1000 * 1000000) in
      if nsec > 1000000000 then \<lparr>tv_sec = sec + 1, tv_nsec = nsec - 1000000000\<rparr>
      else \<lparr>tv_sec = sec, tv_nsec = nsec\<rparr>)"

definition hev_task_timer_get_time :: "timespec \<Rightarrow> timespec \<Rightarrow> u32" where
  "hev_task_timer_get_time now e =
     (let sec = tv_sec e - tv_sec now; nsec = tv_nsec e - tv_nsec now;
          (sec, nsec) = (if nsec < 0 then (sec - 1, nsec + 1000000000) else (sec, nsec)) in
      if sec < 0 then 0 else word_of_int (sec * 1000 + (nsec + 999999) div 1000000))"

text \<open>The unsigned result becomes the signed argument of the reactor.\<close>

definition hev_task_timer_get_timeout :: "timespec \<Rightarrow> sched \<Rightarrow> int" where
  "hev_task_timer_get_timeout now ctx =
     (case hev_rbtree_cached_first (sort_tree ctx) of
        None \<Rightarrow> - 1
      | Some this \<Rightarrow> sint (hev_task_timer_get_time now (expire this)))"

definition hev_task_timer_wakeup :: "timespec \<Rightarrow> sched \<Rightarrow> sched outcome" where
  "hev_task_timer_wakeup now ctx =
     (case hev_rbtree_cached_first (sort_tree ctx) of
        None \<Rightarrow> Ret ctx
      | Some this \<Rightarrow>
          if hev_task_timer_cmp now (expire this) < 0 then Ret ctx
          else hev_task_system_wakeup_task_with_context (node_task this) ctx)"

definition hev_task_timer_wake :: "timespec \<Rightarrow> sched \<Rightarrow> sched outcome" where
  "hev_task_timer_wake now ctx =
     (case hev_rbtree_cached_first (sort_tree ctx) of None \<Rightarrow> Ret ctx | Some _ \<Rightarrow> hev_task_timer_wakeup now ctx)"

text \<open>\<open>hev_task_timer_wait\<close> up to its yield: the node enters the tree; the flag of the loop is kept.\<close>

definition timer_wait_begin :: "timespec \<Rightarrow> u32 \<Rightarrow> nat \<Rightarrow> nat \<Rightarrow> sched \<Rightarrow> (timer_node \<times> bool \<times> sched) outcome" where
  "timer_wait_begin now ms addr a ctx =
     (let node = \<lparr>node_addr = addr, expire = hev_task_timer_get_expire now ms, node_task = a\<rparr>;
          (fs, lm) = insert_slot (\<lambda>this. hev_task_timer_node_cmp node this < 0) (base (sort_tree ctx)) [] True in
      bind_o (hev_rbtree_cached_insert_color node fs lm (sort_tree ctx))
        (\<lambda>tree. Ret (node, lm, ctx\<lparr>sort_tree := tree\<rparr>)))"

text \<open>After the yield: the result is the time that remains.\<close>

definition timer_wait_end :: "timespec \<Rightarrow> timer_node \<Rightarrow> bool \<Rightarrow> sched \<Rightarrow> (u32 \<times> sched) outcome" where
  "timer_wait_end now node lm ctx =
     (let lm = (if hev_rbtree_cached_first (sort_tree ctx) = Some node then True else lm) in
      bind_o (hev_rbtree_cached_erase node (sort_tree ctx)) (\<lambda>tree.
        let ctx = ctx\<lparr>sort_tree := tree\<rparr> in
        bind_o (if lm then hev_task_timer_wakeup now ctx else Ret ctx) (\<lambda>ctx.
          Ret (hev_task_timer_get_time now (expire node), ctx))))"

section \<open>Switching tasks\<close>

text \<open>What a poll meets: the time before it, and for every time-out the tasks whose events are ready and
  the time after it.\<close>

record poll =
  poll_at :: timespec
  reactor :: "int \<Rightarrow> nat list \<times> timespec"

fun wakeup_all :: "nat list \<Rightarrow> sched \<Rightarrow> sched outcome" where
  "wakeup_all [] ctx = Ret ctx"
| "wakeup_all (a # as) ctx = bind_o (hev_task_system_wakeup_task_with_context a ctx) (wakeup_all as)"

definition hev_task_system_io_poll :: "poll \<Rightarrow> int \<Rightarrow> sched \<Rightarrow> sched outcome" where
  "hev_task_system_io_poll p tmo ctx =
     (let tmo = (if tmo < 0 then hev_task_timer_get_timeout (poll_at p) ctx else tmo);
          (events, after) = reactor p tmo in
      bind_o (wakeup_all (take 1024 events) ctx) (hev_task_timer_wake after))"

fun poll_until_running :: "poll list \<Rightarrow> sched \<Rightarrow> sched outcome" where
  "poll_until_running [] ctx = Wait"
| "poll_until_running (p # ps) ctx =
     bind_o (hev_task_system_io_poll p (- 1) ctx) (\<lambda>ctx.
       if running_task_count ctx \<noteq> 0 then Ret ctx else poll_until_running ps ctx)"

definition hev_task_system_pick_current_task :: "poll list \<Rightarrow> sched \<Rightarrow> sched outcome" where
  "hev_task_system_pick_current_task ps ctx =
     bind_o
       (if running_task_count ctx < total_task_count ctx then
          if running_task_count ctx \<noteq> 0 then
            case ps of [] \<Rightarrow> Wait | p # _ \<Rightarrow> hev_task_system_io_poll p 0 ctx
          else poll_until_running ps ctx
        else Ret ctx)
       (\<lambda>ctx. case hev_rbtree_cached_first (running_tasks ctx) of
           None \<Rightarrow> Fault
         | Some a \<Rightarrow> Ret (ctx\<lparr>current_task := Some a\<rparr>))"

text \<open>How the kernel context is entered: from \<open>hev_task_system_run\<close>, or by the jump of the current task.\<close>

datatype entry = RUN_SCHEDULER | SCHED_SWITCH | SCHED_WAITIO | SCHED_REMOVE

definition hev_task_system_schedule :: "entry \<Rightarrow> poll list \<Rightarrow> sched \<Rightarrow> sched outcome" where
  "hev_task_system_schedule e ps ctx =
     bind_o
       (case e of
          RUN_SCHEDULER \<Rightarrow> Ret ctx
        | SCHED_SWITCH \<Rightarrow> bind_o (hev_task_system_update_sched_key ctx) hev_task_system_reinsert_current_task
        | SCHED_WAITIO \<Rightarrow> bind_o (hev_task_system_update_sched_key ctx)
            (hev_task_system_remove_current_task HEV_TASK_WAITING)
        | SCHED_REMOVE \<Rightarrow> hev_task_system_remove_current_task HEV_TASK_STOPPED ctx)
       (\<lambda>ctx. if total_task_count ctx = 0 then Ret (ctx\<lparr>current_task := None\<rparr>)
         else hev_task_system_pick_current_task ps ctx)"

section \<open>Tasks\<close>

text \<open>\<open>a\<close> is the address of the new object; its stack is allocated.\<close>

definition hev_task_new :: "nat \<Rightarrow> sched \<Rightarrow> sched" where
  "hev_task_new a ctx = put_task a
     \<lparr>sched_key = 0, joiner = None, task_refs = 1, priority = 0, next_priority = 8, state = HEV_TASK_STOPPED\<rparr> ctx"

definition hev_task_ref :: "nat \<Rightarrow> sched \<Rightarrow> sched outcome" where
  "hev_task_ref a ctx = bind_o (get_task a ctx) (\<lambda>t. Ret (put_task a (t\<lparr>task_refs := task_refs t + 1\<rparr>) ctx))"

definition hev_task_set_priority :: "nat \<Rightarrow> int \<Rightarrow> sched \<Rightarrow> sched outcome" where
  "hev_task_set_priority a p ctx =
     (let p = (if p < 0 then 0 else if p > 15 then 15 else p) in
      bind_o (get_task a ctx) (\<lambda>t. Ret (put_task a (t\<lparr>next_priority := p\<rparr>) ctx)))"

definition hev_task_system_run_new_task :: "nat \<Rightarrow> sched \<Rightarrow> sched outcome" where
  "hev_task_system_run_new_task a ctx =
     bind_o (if current_task ctx \<noteq> None
         then bind_o (hev_task_system_get_min_sched_key ctx) (\<lambda>m. bind_o (get_task a ctx) (\<lambda>t.
           Ret (put_task a (t\<lparr>sched_key := sched_key t + m\<rparr>) ctx)))
         else Ret ctx)
       (\<lambda>ctx. bind_o (hev_task_system_insert_task a ctx) (\<lambda>ctx.
         Ret (ctx\<lparr>total_task_count := total_task_count ctx + 1\<rparr>)))"

definition hev_task_run :: "nat \<Rightarrow> sched \<Rightarrow> sched outcome" where
  "hev_task_run a ctx =
     bind_o (get_task a ctx) (\<lambda>t.
       if state t \<noteq> HEV_TASK_STOPPED then Ret ctx
       else hev_task_system_run_new_task a
         (put_task a (t\<lparr>priority := next_priority t, sched_key := word_of_int (next_priority t)\<rparr>) ctx))"

text \<open>\<open>hev_task_join\<close>: registration, and one round of its loop up to the yield (\<open>True\<close>: the task has
  stopped).\<close>

definition task_join_begin :: "nat \<Rightarrow> sched \<Rightarrow> (int \<times> sched) outcome" where
  "task_join_begin a ctx =
     bind_o (get_task a ctx) (\<lambda>t.
       if joiner t \<noteq> None then Ret (- 1, ctx)
       else Ret (0, put_task a (t\<lparr>joiner := current_task ctx\<rparr>) ctx))"

definition task_join_round :: "nat \<Rightarrow> sched \<Rightarrow> (bool \<times> sched) outcome" where
  "task_join_round a ctx =
     bind_o (get_task a ctx) (\<lambda>t.
       if state t = HEV_TASK_STOPPED then Ret (True, ctx)
       else bind_o (hev_task_system_wakeup_task_with_context a ctx) (\<lambda>ctx. Ret (False, ctx)))"

text \<open>The end of \<open>hev_task_executer\<close>, when the entry function has returned.\<close>

definition task_executer_end :: "poll list \<Rightarrow> sched \<Rightarrow> sched outcome" where
  "task_executer_end ps ctx =
     bind_o (get_current ctx) (\<lambda>a. bind_o (get_task a ctx) (\<lambda>t.
       bind_o (case joiner t of Some j \<Rightarrow> hev_task_system_wakeup_task_with_context j ctx | None \<Rightarrow> Ret ctx)
         (hev_task_system_schedule SCHED_REMOVE ps)))"

end
