(* ===== verification/SchedRun.thy ===== *)
theory SchedRun
  imports Scheduler
begin

text \<open>
  The scheduler under all sequences of what tasks may do: the running tree holds exactly the running tasks
  in order of their keys with its first node cached, the counters count, and the kernel always finds a
  task to resume. Nothing here needs the keys not to wrap around.
\<close>

section \<open>Events\<close>

text \<open>What the current task (or, before the first turn, the program) does, and the turns of the kernel.
  A task that sleeps keeps its timer node and the flag of the insertion on its stack until it is resumed.\<close>

datatype sched_event =
    Wake nat | New nat | Run nat | Ref nat | Unref nat | SetPriority nat int | Join nat | JoinRound nat
  | SleepEnd timespec timer_node bool
  | Start "poll list" | Yield "poll list" | WaitIO "poll list" | Sleep timespec u32 nat "poll list"
  | Exit "poll list" | Return "poll list"

fun sched_step :: "sched_event \<Rightarrow> sched \<Rightarrow> sched outcome" where
  "sched_step (Wake a) ctx = hev_task_system_wakeup_task_with_context a ctx"
| "sched_step (New a) ctx = Ret (hev_task_new a ctx)"
| "sched_step (Run a) ctx = hev_task_run a ctx"
| "sched_step (Ref a) ctx = hev_task_ref a ctx"
| "sched_step (Unref a) ctx = hev_task_unref a ctx"
| "sched_step (SetPriority a p) ctx = hev_task_set_priority a p ctx"
| "sched_step (Join a) ctx = bind_o (task_join_begin a ctx) (\<lambda>(_, ctx). Ret ctx)"
| "sched_step (JoinRound a) ctx = bind_o (task_join_round a ctx) (\<lambda>(_, ctx). Ret ctx)"
| "sched_step (SleepEnd now n lm) ctx = bind_o (timer_wait_end now n lm ctx) (\<lambda>(_, ctx). Ret ctx)"
| "sched_step (Start ps) ctx = hev_task_system_schedule RUN_SCHEDULER ps ctx"
| "sched_step (Yield ps) ctx = hev_task_system_schedule SCHED_SWITCH ps ctx"
| "sched_step (WaitIO ps) ctx = hev_task_system_schedule SCHED_WAITIO ps ctx"
| "sched_step (Sleep now ms addr ps) ctx =
     bind_o (get_current ctx) (\<lambda>a. bind_o (timer_wait_begin now ms addr a ctx) (\<lambda>(_, _, ctx).
       hev_task_system_schedule SCHED_WAITIO ps ctx))"
| "sched_step (Exit ps) ctx = hev_task_system_schedule SCHED_REMOVE ps ctx"
| "sched_step (Return ps) ctx = task_executer_end ps ctx"

definition st :: "sched \<Rightarrow> nat \<Rightarrow> task_state option" where
  "st ctx a = map_option state (tasks ctx a)"

definition running :: "sched \<Rightarrow> nat set" where
  "running ctx = {a. st ctx a = Some HEV_TASK_RUNNING}"

definition alive :: "sched \<Rightarrow> nat set" where
  "alive ctx = {a. st ctx a = Some HEV_TASK_RUNNING \<or> st ctx a = Some HEV_TASK_WAITING}"

text \<open>The reactor reports live tasks only.\<close>

definition polls_ok :: "poll list \<Rightarrow> nat set \<Rightarrow> bool" where
  "polls_ok ps A \<longleftrightarrow> (\<forall>p \<in> set ps. \<forall>tmo. set (fst (reactor p tmo)) \<subseteq> A)"

definition sleepers :: "sched \<Rightarrow> nat set" where
  "sleepers ctx = node_task ` set (queue_of (sort_tree ctx))"

text \<open>What the callers keep to: no stopped or freed task is woken, no reference of a live task is dropped
  that was not taken, a task does not end while it sleeps, and a joiner waits for the task it joined.\<close>

fun sched_may :: "sched_event \<Rightarrow> sched \<Rightarrow> bool" where
  "sched_may (Wake a) ctx \<longleftrightarrow> a \<in> alive ctx"
| "sched_may (New a) ctx \<longleftrightarrow> tasks ctx a = None \<and> card (dom (tasks ctx)) < 2 ^ 32 - 1"
| "sched_may (Run a) ctx \<longleftrightarrow> tasks ctx a \<noteq> None"
| "sched_may (Ref a) ctx \<longleftrightarrow> tasks ctx a \<noteq> None"
| "sched_may (Unref a) ctx \<longleftrightarrow> (case tasks ctx a of None \<Rightarrow> False | Some t \<Rightarrow> state t = HEV_TASK_STOPPED \<or> task_refs t > 1)"
| "sched_may (SetPriority a p) ctx \<longleftrightarrow> tasks ctx a \<noteq> None"
| "sched_may (Join a) ctx \<longleftrightarrow> tasks ctx a \<noteq> None"
| "sched_may (JoinRound a) ctx \<longleftrightarrow> tasks ctx a \<noteq> None"
| "sched_may (SleepEnd now n lm) ctx \<longleftrightarrow> n \<in> set (queue_of (sort_tree ctx)) \<and> current_task ctx = Some (node_task n)"
| "sched_may (Start ps) ctx \<longleftrightarrow> current_task ctx = None \<and> polls_ok ps (alive ctx)"
| "sched_may (Yield ps) ctx \<longleftrightarrow> current_task ctx \<noteq> None \<and> polls_ok ps (alive ctx)"
| "sched_may (WaitIO ps) ctx \<longleftrightarrow> current_task ctx \<noteq> None \<and> polls_ok ps (alive ctx)"
| "sched_may (Sleep now ms addr ps) ctx \<longleftrightarrow> current_task ctx \<noteq> None \<and> polls_ok ps (alive ctx) \<and>
     addr \<notin> node_addr ` set (queue_of (sort_tree ctx))"
| "sched_may (Exit ps) ctx \<longleftrightarrow> (case current_task ctx of
       None \<Rightarrow> False
     | Some a \<Rightarrow> a \<notin> sleepers ctx \<and> polls_ok ps (alive ctx - {a}))"
| "sched_may (Return ps) ctx \<longleftrightarrow> (case current_task ctx of
       None \<Rightarrow> False
     | Some a \<Rightarrow> a \<notin> sleepers ctx \<and> polls_ok ps (alive ctx - {a}) \<and>
         (\<forall>j. Option.bind (tasks ctx a) joiner = Some j \<longrightarrow> j \<in> alive ctx))"

section \<open>Invariant\<close>

definition run_inv :: "sched \<Rightarrow> bool" where
  "run_inv ctx \<longleftrightarrow> finite (dom (tasks ctx)) \<and> card (dom (tasks ctx)) < 2 ^ 32 \<and> cached_inv (running_tasks ctx) \<and>
     sorted (map (key_of ctx) (queue_of (running_tasks ctx))) \<and> set (queue_of (running_tasks ctx)) = running ctx \<and>
     running_task_count ctx = of_nat (card (running ctx)) \<and> total_task_count ctx = of_nat (card (alive ctx))"

definition node_key :: "timer_node \<Rightarrow> int \<times> int \<times> nat" where
  "node_key n = (tv_sec (expire n), tv_nsec (expire n), node_addr n)"

definition time_inv :: "sched \<Rightarrow> bool" where
  "time_inv ctx \<longleftrightarrow> cached_inv (sort_tree ctx) \<and> sorted (map node_key (queue_of (sort_tree ctx))) \<and>
     distinct (map node_addr (queue_of (sort_tree ctx))) \<and> sleepers ctx \<subseteq> alive ctx"

definition sched_inv :: "sched \<Rightarrow> bool" where
  "sched_inv ctx \<longleftrightarrow> run_inv ctx \<and> time_inv ctx \<and> (\<forall>a. current_task ctx = Some a \<longrightarrow> a \<in> running ctx) \<and>
     (\<forall>t \<in> ran (tasks ctx). task_refs t > 0)"

text \<open>The key of the next task to run.\<close>

definition min_key :: "sched \<Rightarrow> u64" where
  "min_key ctx = (case queue_of (running_tasks ctx) of [] \<Rightarrow> 0 | a # _ \<Rightarrow> key_of ctx a)"

lemma running_alive: "running ctx \<subseteq> alive ctx"
  by (auto simp: running_def alive_def)

lemma alive_dom: "alive ctx \<subseteq> dom (tasks ctx)"
  by (auto simp: alive_def st_def)

lemma st_put: "st (ctx\<lparr>tasks := (tasks ctx')(a := t)\<rparr>) = (st ctx')(a := map_option state t)"
  by (auto simp: st_def)

lemma finite_alive: "run_inv ctx \<Longrightarrow> finite (alive ctx)"
  unfolding run_inv_def using finite_subset [OF alive_dom] by blast

lemma finite_running: "run_inv ctx \<Longrightarrow> finite (running ctx)"
  using finite_subset [OF running_alive finite_alive] .

lemma alive_bound: "run_inv ctx \<Longrightarrow> card (alive ctx) < 2 ^ 32"
  unfolding run_inv_def using card_mono [OF _ alive_dom, of ctx] by linarith

lemma running_bound: "run_inv ctx \<Longrightarrow> card (running ctx) \<le> card (alive ctx)"
  using card_mono [OF finite_alive running_alive] .

lemma unat_count: "n < 2 ^ 32 \<Longrightarrow> unat (of_nat n :: u32) = n"
  by (simp add: unat_of_nat)

lemma counts:
  assumes "run_inv ctx"
  shows "unat (running_task_count ctx) = card (running ctx)" "unat (total_task_count ctx) = card (alive ctx)"
  using assms alive_bound [OF assms] running_bound [OF assms] unat_count by (auto simp: run_inv_def)

lemma count_zero:
  assumes "run_inv ctx"
  shows "running_task_count ctx = 0 \<longleftrightarrow> running ctx = {}" "total_task_count ctx = 0 \<longleftrightarrow> alive ctx = {}"
  using counts [OF assms] finite_alive [OF assms] finite_running [OF assms] by (metis card_0_eq unat_eq_zero)+

lemma min_key_eq:
  assumes "run_inv ctx"
  shows "hev_task_system_get_min_sched_key ctx = Ret (min_key ctx)"
proof (cases "queue_of (running_tasks ctx)")
  case Nil
  then show ?thesis using assms
    by (simp add: hev_task_system_get_min_sched_key_def min_key_def run_inv_def cached_first_queue)
next
  case (Cons a q)
  then have "a \<in> running ctx" using assms by (auto simp: run_inv_def)
  then show ?thesis using assms Cons
    by (auto simp: hev_task_system_get_min_sched_key_def min_key_def run_inv_def cached_first_queue key_of_def
        get_task_def running_def st_def)
qed

section \<open>The operations on the running tree\<close>

text \<open>A task enters the tree behind every task whose key is not greater.\<close>

lemma insert_task:
  assumes "cached_inv (running_tasks ctx)" "sorted (map (key_of ctx) (queue_of (running_tasks ctx)))"
    and "a \<notin> set (queue_of (running_tasks ctx))"
  shows "\<exists>tree. system_insert_task a ctx = Ret (ctx\<lparr>running_tasks := tree\<rparr>) \<and> cached_inv tree \<and>
    queue_of tree = enqueue (key_of ctx) a (queue_of (running_tasks ctx))"
  using cached_insert_queue [OF assms(1,2) _ assms(3), of "\<lambda>this. key_of ctx a < key_of ctx this"]
  by (auto simp: system_insert_task_def)

lemma map_key_other: "a \<notin> set q \<Longrightarrow> (\<And>b. b \<noteq> a \<Longrightarrow> key_of ctx' b = key_of ctx b) \<Longrightarrow>
   map (key_of ctx') q = map (key_of ctx) q"
  by (metis map_eq_conv)

lemma key_of_put:
  "key_of (put_task a t ctx) = (key_of ctx)(a := sched_key t)"
  "tasks ctx' = (tasks ctx)(a \<mapsto> t) \<Longrightarrow> key_of ctx' = (key_of ctx)(a := sched_key t)"
  by (auto simp: key_of_def put_task_def)

text \<open>What a wake-up does to a waiting task.\<close>

definition woken_task :: "sched \<Rightarrow> task \<Rightarrow> task" where
  "woken_task ctx t = t\<lparr>sched_key := sched_key t + min_key ctx, state := HEV_TASK_RUNNING, priority := next_priority t\<rparr>"

definition enter :: "nat \<Rightarrow> task \<Rightarrow> nat cached \<Rightarrow> sched \<Rightarrow> sched" where
  "enter a t tree ctx = ctx\<lparr>tasks := (tasks ctx)(a \<mapsto> t), running_tasks := tree,
     running_task_count := running_task_count ctx + 1\<rparr>"

lemma system_insert:
  assumes "run_inv ctx" "tasks ctx a = Some t0" "a \<notin> running ctx"
  shows "\<exists>tree. hev_task_system_insert_task a (put_task a t ctx) =
      Ret (enter a (t\<lparr>state := HEV_TASK_RUNNING, priority := next_priority t\<rparr>) tree ctx) \<and> cached_inv tree \<and>
    queue_of tree = enqueue ((key_of ctx)(a := sched_key t)) a (queue_of (running_tasks ctx))"
proof -
  let ?t = "t\<lparr>state := HEV_TASK_RUNNING, priority := next_priority t\<rparr>" and ?q = "queue_of (running_tasks ctx)"
  let ?ctx = "put_task a ?t ctx"
  have q: "a \<notin> set ?q" using assms by (simp add: run_inv_def)
  have k: "key_of ?ctx = (key_of ctx)(a := sched_key t)" by (simp add: key_of_put)
  have "map (key_of ?ctx) ?q = map (key_of ctx) ?q" by (rule map_key_other [OF q]) (simp add: k)
  then obtain tree where "system_insert_task a ?ctx = Ret (?ctx\<lparr>running_tasks := tree\<rparr>)" "cached_inv tree"
    "queue_of tree = enqueue ((key_of ctx)(a := sched_key t)) a ?q"
    using insert_task [of ?ctx a] assms(1) q k by (auto simp: run_inv_def put_task_def)
  then show ?thesis
    by (auto simp: hev_task_system_insert_task_def get_task_def put_task_def enter_def of_option_def)
qed

lemma enter_inv:
  assumes "run_inv ctx" "tasks ctx a = Some t0" "a \<notin> running ctx" "state t = HEV_TASK_RUNNING"
    and "cached_inv tree" "queue_of tree = enqueue ((key_of ctx)(a := sched_key t)) a (queue_of (running_tasks ctx))"
    and "ctx' = enter a t tree (ctx\<lparr>total_task_count := n\<rparr>)" "n = of_nat (card (insert a (alive ctx)))"
  shows "run_inv ctx'" "running ctx' = insert a (running ctx)" "alive ctx' = insert a (alive ctx)"
    "key_of ctx' = (key_of ctx)(a := sched_key t)"
proof -
  let ?q = "queue_of (running_tasks ctx)"
  have q: "a \<notin> set ?q" using assms by (simp add: run_inv_def)
  have st: "st ctx' = (st ctx)(a \<mapsto> HEV_TASK_RUNNING)" using assms(4,7) by (auto simp: st_def enter_def)
  show r: "running ctx' = insert a (running ctx)" and al: "alive ctx' = insert a (alive ctx)"
    by (auto simp: running_def alive_def st)
  show k: "key_of ctx' = (key_of ctx)(a := sched_key t)" using assms(7) by (simp add: key_of_put enter_def)
  have m: "map (key_of ctx') ?q = map (key_of ctx) ?q" by (rule map_key_other [OF q]) (simp add: k)
  have "sorted (map (key_of ctx') ?q)" unfolding m using assms(1) by (simp add: run_inv_def)
  then have "sorted (map (key_of ctx') (enqueue (key_of ctx') a ?q))" by (rule sorted_enqueue)
  moreover have "dom (tasks ctx') = dom (tasks ctx)" using assms(2,7) by (auto simp: enter_def)
  moreover have "of_nat (card (running ctx')) = (of_nat (card (running ctx)) + 1 :: u32)"
    using finite_running [OF assms(1)] assms(3) by (simp add: r)
  ultimately show "run_inv ctx'"
    using assms k r al by (simp add: run_inv_def enter_def)
qed

text \<open>One task is woken, or was running already.\<close>

inductive wake1 :: "sched \<Rightarrow> sched \<Rightarrow> bool" where
  "a \<notin> running ctx \<Longrightarrow> tasks ctx a = Some t \<Longrightarrow> state t = HEV_TASK_WAITING \<Longrightarrow> cached_inv tree \<Longrightarrow>
   queue_of tree = enqueue ((key_of ctx)(a := sched_key t + min_key ctx)) a (queue_of (running_tasks ctx)) \<Longrightarrow>
   wake1 ctx (enter a (woken_task ctx t) tree ctx)"

abbreviation wakes :: "sched \<Rightarrow> sched \<Rightarrow> bool" where "wakes \<equiv> wake1\<^sup>*\<^sup>*"

lemma wake1_inv:
  assumes "wake1 ctx ctx'" "run_inv ctx"
  shows "run_inv ctx'" "running ctx \<subseteq> running ctx'" "alive ctx' = alive ctx" "current_task ctx' = current_task ctx"
    "sort_tree ctx' = sort_tree ctx" "\<forall>t \<in> ran (tasks ctx). task_refs t > 0 \<Longrightarrow> \<forall>t \<in> ran (tasks ctx'). task_refs t > 0"
proof -
  obtain a t tree where 1: "ctx' = enter a (woken_task ctx t) tree ctx" "a \<notin> running ctx" "tasks ctx a = Some t"
    "state t = HEV_TASK_WAITING" "cached_inv tree"
    "queue_of tree = enqueue ((key_of ctx)(a := sched_key t + min_key ctx)) a (queue_of (running_tasks ctx))"
    using assms(1) by (cases rule: wake1.cases) blast
  have a: "a \<in> alive ctx" using 1 by (simp add: alive_def st_def)
  have w: "state (woken_task ctx t) = HEV_TASK_RUNNING" "sched_key (woken_task ctx t) = sched_key t + min_key ctx"
    "task_refs (woken_task ctx t) = task_refs t" by (simp_all add: woken_task_def)
  have "ctx\<lparr>total_task_count := total_task_count ctx\<rparr> = ctx" by simp
  note e = enter_inv [of ctx a t "woken_task ctx t" tree ctx' "total_task_count ctx", unfolded this,
    OF assms(2) 1(3) 1(2) w(1) 1(5)]
  have n: "total_task_count ctx = of_nat (card (insert a (alive ctx)))"
    using assms(2) a by (simp add: run_inv_def insert_absorb)
  note e = e [unfolded w, OF 1(6) 1(1) n]
  show "run_inv ctx'" "running ctx \<subseteq> running ctx'" "alive ctx' = alive ctx"
    using e a by (auto simp: insert_absorb)
  show "current_task ctx' = current_task ctx" "sort_tree ctx' = sort_tree ctx" using 1 by (simp_all add: enter_def)
  show "\<forall>t \<in> ran (tasks ctx'). task_refs t > 0" if "\<forall>t \<in> ran (tasks ctx). task_refs t > 0"
    using that 1 w(3) by (auto simp: enter_def ran_def)
qed

text \<open>What every number of wake-ups keeps.\<close>

definition grown :: "sched \<Rightarrow> sched \<Rightarrow> bool" where
  "grown ctx ctx' \<longleftrightarrow> run_inv ctx' \<and> running ctx \<subseteq> running ctx' \<and> alive ctx' = alive ctx \<and>
     current_task ctx' = current_task ctx \<and> sort_tree ctx' = sort_tree ctx \<and>
     ((\<forall>t \<in> ran (tasks ctx). task_refs t > 0) \<longrightarrow> (\<forall>t \<in> ran (tasks ctx'). task_refs t > 0))"

lemma wakes_grown: "wakes ctx ctx' \<Longrightarrow> run_inv ctx \<Longrightarrow> grown ctx ctx'"
proof (induction rule: rtranclp_induct)
  case base
  then show ?case by (simp add: grown_def)
next
  case (step y z)
  then have y: "grown ctx y" by simp
  then have "run_inv y" by (simp add: grown_def)
  from wake1_inv [OF step.hyps(2) this] y show ?case unfolding grown_def by (metis subset_trans)
qed

lemma wakeup_wakes:
  assumes "run_inv ctx" "a \<in> alive ctx"
  shows "\<exists>ctx'. hev_task_system_wakeup_task_with_context a ctx = Ret ctx' \<and> wakes ctx ctx' \<and> a \<in> running ctx'"
proof (cases "a \<in> running ctx")
  case True
  then show ?thesis
    by (auto simp: hev_task_system_wakeup_task_with_context_def get_task_def running_def st_def)
next
  case False
  then obtain t where t: "tasks ctx a = Some t" "state t = HEV_TASK_WAITING"
    using assms(2) by (auto simp: alive_def running_def st_def)
  obtain tree where i: "hev_task_system_insert_task a (put_task a (t\<lparr>sched_key := sched_key t + min_key ctx\<rparr>) ctx) =
      Ret (enter a (woken_task ctx t) tree ctx)" "cached_inv tree"
      "queue_of tree = enqueue ((key_of ctx)(a := sched_key t + min_key ctx)) a (queue_of (running_tasks ctx))"
    using system_insert [OF assms(1) t(1) False, of "t\<lparr>sched_key := sched_key t + min_key ctx\<rparr>"]
    by (auto simp: woken_task_def)
  have "wake1 ctx (enter a (woken_task ctx t) tree ctx)" using False t i(2,3) by (rule wake1.intros)
  moreover have "a \<in> running (enter a (woken_task ctx t) tree ctx)"
    by (simp add: running_def st_def enter_def woken_task_def)
  ultimately show ?thesis using i(1) t min_key_eq [OF assms(1)]
    by (auto simp: hev_task_system_wakeup_task_with_context_def get_task_def)
qed

section \<open>Polling\<close>

text \<open>A computation that does not fault, and whose result, if any, satisfies \<open>P\<close>.\<close>

definition safe :: "'a outcome \<Rightarrow> ('a \<Rightarrow> bool) \<Rightarrow> bool" where
  "safe m P \<longleftrightarrow> (case m of Ret x \<Rightarrow> P x | Fault \<Rightarrow> False | Wait \<Rightarrow> True)"

lemma safe_simps [simp]: "safe (Ret x) P \<longleftrightarrow> P x" "\<not> safe Fault P" "safe Wait P"
  by (simp_all add: safe_def)

lemma safe_bind: "safe m P \<Longrightarrow> (\<And>x. m = Ret x \<Longrightarrow> P x \<Longrightarrow> safe (f x) Q) \<Longrightarrow> safe (bind_o m f) Q"
  by (cases m) auto

lemma safe_mono: "safe m P \<Longrightarrow> (\<And>x. m = Ret x \<Longrightarrow> P x \<Longrightarrow> Q x) \<Longrightarrow> safe m Q"
  by (cases m) auto

lemma safe_Ret: "safe m P \<Longrightarrow> m = Ret x \<Longrightarrow> P x"
  by simp

lemma wakeup_all_wakes:
  "run_inv ctx \<Longrightarrow> set as \<subseteq> alive ctx \<Longrightarrow>
   \<exists>ctx'. wakeup_all as ctx = Ret ctx' \<and> wakes ctx ctx' \<and> set as \<subseteq> running ctx'"
proof (induction as arbitrary: ctx)
  case (Cons a as)
  obtain y where y: "hev_task_system_wakeup_task_with_context a ctx = Ret y" "wakes ctx y" "a \<in> running y"
    using wakeup_wakes [of ctx a] Cons.prems by auto
  have g: "grown ctx y" using wakes_grown y Cons.prems by blast
  obtain z where z: "wakeup_all as y = Ret z" "wakes y z" "set as \<subseteq> running z"
    using Cons.IH [of y] g Cons.prems by (auto simp: grown_def)
  have "running y \<subseteq> running z" using wakes_grown [OF z(2)] g by (simp add: grown_def)
  then show ?case using y z by (auto intro: rtranclp_trans)
qed simp

text \<open>After a poll the task of the first timer node runs, if that node has expired.\<close>

lemma timer_wake_wakes:
  assumes "run_inv ctx" "time_inv ctx"
  shows "\<exists>ctx'. hev_task_timer_wakeup now ctx = Ret ctx' \<and> wakes ctx ctx' \<and>
      (\<forall>n q. queue_of (sort_tree ctx) = n # q \<longrightarrow> hev_task_timer_cmp now (expire n) \<ge> 0 \<longrightarrow> node_task n \<in> running ctx')"
    "hev_task_timer_wake now ctx = hev_task_timer_wakeup now ctx"
proof -
  show "hev_task_timer_wake now ctx = hev_task_timer_wakeup now ctx"
    by (auto simp: hev_task_timer_wake_def hev_task_timer_wakeup_def split: option.splits)
  have f: "hev_rbtree_cached_first (sort_tree ctx) =
      (case queue_of (sort_tree ctx) of [] \<Rightarrow> None | n # q \<Rightarrow> Some n)"
    using assms(2) by (simp add: time_inv_def cached_first_queue)
  show "\<exists>ctx'. hev_task_timer_wakeup now ctx = Ret ctx' \<and> wakes ctx ctx' \<and>
      (\<forall>n q. queue_of (sort_tree ctx) = n # q \<longrightarrow> hev_task_timer_cmp now (expire n) \<ge> 0 \<longrightarrow> node_task n \<in> running ctx')"
  proof (cases "queue_of (sort_tree ctx)")
    case Nil
    then show ?thesis using f by (auto simp: hev_task_timer_wakeup_def)
  next
    case (Cons n q)
    then have "node_task n \<in> alive ctx" using assms(2) by (auto simp: time_inv_def sleepers_def)
    then show ?thesis using wakeup_wakes [OF assms(1), of "node_task n"] f Cons
      by (auto simp: hev_task_timer_wakeup_def)
  qed
qed

lemma time_grown: "time_inv ctx \<Longrightarrow> grown ctx ctx' \<Longrightarrow> time_inv ctx'"
  by (simp add: time_inv_def grown_def sleepers_def)

lemma io_poll_wakes:
  assumes "run_inv ctx" "time_inv ctx" "\<forall>tmo. set (fst (reactor p tmo)) \<subseteq> alive ctx"
  shows "\<exists>ctx'. hev_task_system_io_poll p tmo ctx = Ret ctx' \<and> wakes ctx ctx' \<and>
    (\<forall>n q. queue_of (sort_tree ctx) = n # q \<longrightarrow>
      hev_task_timer_cmp (snd (reactor p (if tmo < 0 then hev_task_timer_get_timeout (poll_at p) ctx else tmo)))
        (expire n) \<ge> 0 \<longrightarrow> node_task n \<in> running ctx')"
proof -
  let ?t = "if tmo < 0 then hev_task_timer_get_timeout (poll_at p) ctx else tmo"
  obtain es now where r: "reactor p ?t = (es, now)" by fastforce
  have "set es \<subseteq> alive ctx" using assms(3) r by (metis fst_conv)
  then have "set (take 1024 es) \<subseteq> alive ctx" by (meson set_take_subset subset_trans)
  then obtain y where y: "wakeup_all (take 1024 es) ctx = Ret y" "wakes ctx y"
    using wakeup_all_wakes [OF assms(1)] by blast
  have g: "grown ctx y" using wakes_grown [OF y(2) assms(1)] .
  then have "run_inv y" "time_inv y" "sort_tree y = sort_tree ctx"
    using time_grown [OF assms(2)] by (simp_all add: grown_def)
  from timer_wake_wakes [OF this(1,2), of now] this(3) y r show ?thesis
    unfolding hev_task_system_io_poll_def Let_def r split_conv by (auto intro: rtranclp_trans)
qed

lemma poll_until_safe:
  "run_inv ctx \<Longrightarrow> time_inv ctx \<Longrightarrow> polls_ok ps (alive ctx) \<Longrightarrow>
   safe (poll_until_running ps ctx) (\<lambda>ctx'. wakes ctx ctx' \<and> running ctx' \<noteq> {})"
proof (induction ps arbitrary: ctx)
  case (Cons p ps)
  obtain y where y: "hev_task_system_io_poll p (- 1) ctx = Ret y" "wakes ctx y"
    using io_poll_wakes [of ctx p "- 1"] Cons.prems by (auto simp: polls_ok_def)
  have g: "grown ctx y" using wakes_grown [OF y(2)] Cons.prems(1) .
  then have yi: "run_inv y" "time_inv y" "polls_ok ps (alive y)"
    using time_grown [OF Cons.prems(2)] Cons.prems(3) by (simp_all add: grown_def polls_ok_def)
  have "safe (poll_until_running ps y) (\<lambda>ctx'. wakes ctx ctx' \<and> running ctx' \<noteq> {})"
    using Cons.IH [OF yi] y(2) by (auto elim!: safe_mono intro: rtranclp_trans)
  then show ?case using y count_zero [OF yi(1)] by auto
qed simp

text \<open>The kernel resumes the first task of the tree.\<close>

definition resumes :: "sched \<Rightarrow> sched \<Rightarrow> bool" where
  "resumes ctx ctx' \<longleftrightarrow> (\<exists>a q. queue_of (running_tasks ctx) = a # q \<and> ctx' = ctx\<lparr>current_task := Some a\<rparr>)"

lemma pick_safe:
  assumes "run_inv ctx" "time_inv ctx" "polls_ok ps (alive ctx)" "alive ctx \<noteq> {}"
  shows "safe (hev_task_system_pick_current_task ps ctx) (\<lambda>ctx'. \<exists>y. wakes ctx y \<and> resumes y ctx')"
proof -
  let ?poll = "if running_task_count ctx < total_task_count ctx then
      if running_task_count ctx \<noteq> 0 then case ps of [] \<Rightarrow> Wait | p # _ \<Rightarrow> hev_task_system_io_poll p 0 ctx
      else poll_until_running ps ctx else Ret ctx"
  have less: "running_task_count ctx < total_task_count ctx \<longleftrightarrow> card (running ctx) < card (alive ctx)"
    by (simp add: word_less_nat_alt counts [OF assms(1)])
  have "running ctx \<noteq> {}" if "\<not> card (running ctx) < card (alive ctx)"
    using that assms(4) finite_alive [OF assms(1)] by (auto simp: card_gt_0_iff)
  moreover have "safe (case ps of [] \<Rightarrow> Wait | p # _ \<Rightarrow> hev_task_system_io_poll p 0 ctx)
      (\<lambda>y. wakes ctx y \<and> running y \<noteq> {})" if r: "running ctx \<noteq> {}"
  proof (cases ps)
    case (Cons p ps')
    then have "\<forall>tmo. set (fst (reactor p tmo)) \<subseteq> alive ctx" using assms(3) by (simp add: polls_ok_def)
    from io_poll_wakes [OF assms(1,2) this] obtain y where y: "hev_task_system_io_poll p 0 ctx = Ret y" "wakes ctx y"
      by blast
    then have "running ctx \<subseteq> running y" using wakes_grown [OF y(2) assms(1)] by (simp add: grown_def)
    then show ?thesis using Cons y r by auto
  qed simp
  ultimately have p: "safe ?poll (\<lambda>y. wakes ctx y \<and> running y \<noteq> {})"
    using poll_until_safe [OF assms(1-3)] count_zero [OF assms(1)] less by simp
  show ?thesis unfolding hev_task_system_pick_current_task_def
  proof (rule safe_bind [OF p])
    fix y assume y: "wakes ctx y \<and> running y \<noteq> {}"
    then have i: "run_inv y" using wakes_grown [of ctx y] assms(1) by (simp add: grown_def)
    then obtain a q where "queue_of (running_tasks y) = a # q"
      using y by (cases "queue_of (running_tasks y)") (auto simp: run_inv_def)
    then show "safe (case hev_rbtree_cached_first (running_tasks y) of None \<Rightarrow> Fault
        | Some a \<Rightarrow> Ret (y\<lparr>current_task := Some a\<rparr>)) (\<lambda>ctx'. \<exists>y. wakes ctx y \<and> resumes y ctx')"
      using i y by (auto simp: cached_first_queue run_inv_def resumes_def)
  qed
qed

section \<open>Leaving the processor\<close>

text \<open>How the current task leaves: to the place of its new key, to wait, or for good.\<close>

inductive leaves :: "nat \<Rightarrow> sched \<Rightarrow> sched \<Rightarrow> bool" for a ctx where
  switches: "tasks ctx a = Some t \<Longrightarrow> k = sched_key t + word_of_int (priority t) \<Longrightarrow> cached_inv tree \<Longrightarrow>
    queue_of tree = enqueue ((key_of ctx)(a := k)) a (filter (\<lambda>b. b \<noteq> a) (queue_of (running_tasks ctx))) \<Longrightarrow>
    leaves a ctx (ctx\<lparr>tasks := (tasks ctx)(a \<mapsto> t\<lparr>sched_key := k, priority := next_priority t\<rparr>),
      running_tasks := tree\<rparr>)"
| waits: "tasks ctx a = Some t \<Longrightarrow> cached_inv tree \<Longrightarrow>
    queue_of tree = filter (\<lambda>b. b \<noteq> a) (queue_of (running_tasks ctx)) \<Longrightarrow>
    leaves a ctx (ctx\<lparr>tasks := (tasks ctx)(a \<mapsto> t\<lparr>sched_key := word_of_int (next_priority t), state := HEV_TASK_WAITING\<rparr>),
      running_tasks := tree, running_task_count := running_task_count ctx - 1\<rparr>)"
| stops: "tasks ctx a = Some t \<Longrightarrow> cached_inv tree \<Longrightarrow>
    queue_of tree = filter (\<lambda>b. b \<noteq> a) (queue_of (running_tasks ctx)) \<Longrightarrow>
    t' = (if task_refs t = 1 then None else Some (t\<lparr>state := HEV_TASK_STOPPED, task_refs := task_refs t - 1\<rparr>)) \<Longrightarrow>
    leaves a ctx (ctx\<lparr>tasks := (tasks ctx)(a := t'), running_tasks := tree,
      running_task_count := running_task_count ctx - 1, total_task_count := total_task_count ctx - 1\<rparr>)"

lemma erase_running:
  assumes "run_inv ctx" "a \<in> running ctx" "running_tasks ctx' = running_tasks ctx"
  shows "\<exists>tree. erase_task a ctx' = Ret (ctx'\<lparr>running_tasks := tree\<rparr>) \<and> cached_inv tree \<and>
    queue_of tree = filter (\<lambda>b. b \<noteq> a) (queue_of (running_tasks ctx))"
  using cached_erase_queue [of "running_tasks ctx" a] assms by (auto simp: run_inv_def erase_task_def)

lemma sorted_others:
  assumes "run_inv ctx" "\<And>b. b \<noteq> a \<Longrightarrow> key_of ctx' b = key_of ctx b"
  shows "sorted (map (key_of ctx') (filter (\<lambda>b. b \<noteq> a) (queue_of (running_tasks ctx))))"
proof -
  have "map (key_of ctx') (filter (\<lambda>b. b \<noteq> a) (queue_of (running_tasks ctx))) =
      map (key_of ctx) (filter (\<lambda>b. b \<noteq> a) (queue_of (running_tasks ctx)))"
    using assms(2) by (auto intro!: map_cong)
  moreover have "sorted (map (key_of ctx) (queue_of (running_tasks ctx)))" using assms(1) by (simp add: run_inv_def)
  ultimately show ?thesis using sorted_filter [of "key_of ctx"] by metis
qed

lemma leave_switch:
  assumes "run_inv ctx" "current_task ctx = Some a" "a \<in> running ctx"
  shows "\<exists>ctx'. bind_o (hev_task_system_update_sched_key ctx) hev_task_system_reinsert_current_task = Ret ctx' \<and>
    leaves a ctx ctx' \<and> alive ctx' = alive ctx"
proof -
  obtain t where t: "tasks ctx a = Some t" using assms(3) by (auto simp: running_def st_def)
  let ?k = "sched_key t + word_of_int (priority t)"
  let ?t = "t\<lparr>sched_key := ?k, priority := next_priority t\<rparr>"
  let ?ctx = "put_task a ?t ctx"
  obtain tree where e: "erase_task a ?ctx = Ret (?ctx\<lparr>running_tasks := tree\<rparr>)" "cached_inv tree"
    "queue_of tree = filter (\<lambda>b. b \<noteq> a) (queue_of (running_tasks ctx))"
    using erase_running [OF assms(1,3), of ?ctx] by (auto simp: put_task_def)
  have k: "key_of (?ctx\<lparr>running_tasks := tree\<rparr>) = (key_of ctx)(a := ?k)" by (simp add: key_of_put put_task_def)
  have s: "sorted (map (key_of (?ctx\<lparr>running_tasks := tree\<rparr>)) (queue_of tree))"
    unfolding e(3) by (rule sorted_others [OF assms(1)]) (simp add: k)
  obtain tree' where i: "system_insert_task a (?ctx\<lparr>running_tasks := tree\<rparr>) = Ret (?ctx\<lparr>running_tasks := tree'\<rparr>)"
    "cached_inv tree'" "queue_of tree' = enqueue ((key_of ctx)(a := ?k)) a (queue_of tree)"
    using insert_task [of "?ctx\<lparr>running_tasks := tree\<rparr>" a] e(2,3) s k by auto
  have "leaves a ctx (?ctx\<lparr>running_tasks := tree'\<rparr>)"
    using leaves.switches [OF t refl i(2) i(3) [unfolded e(3)]] by (simp add: put_task_def)
  moreover have "alive (?ctx\<lparr>running_tasks := tree'\<rparr>) = alive ctx"
    using t by (auto simp: alive_def st_def put_task_def)
  ultimately show ?thesis using assms(2) t e(1) i(1)
    by (auto simp: hev_task_system_update_sched_key_def hev_task_system_reinsert_current_task_def get_current_def
        get_task_def Let_def put_task_def)
qed

lemma leave_wait:
  assumes "run_inv ctx" "current_task ctx = Some a" "a \<in> running ctx"
  shows "\<exists>ctx'. bind_o (hev_task_system_update_sched_key ctx)
      (hev_task_system_remove_current_task HEV_TASK_WAITING) = Ret ctx' \<and> leaves a ctx ctx' \<and> alive ctx' = alive ctx"
proof -
  obtain t where t: "tasks ctx a = Some t" "state t = HEV_TASK_RUNNING" using assms(3) by (auto simp: running_def st_def)
  let ?t = "t\<lparr>sched_key := sched_key t + word_of_int (priority t), state := HEV_TASK_WAITING\<rparr>"
  obtain tree where e: "erase_task a (put_task a ?t ctx) = Ret (put_task a ?t ctx\<lparr>running_tasks := tree\<rparr>)"
    "cached_inv tree" "queue_of tree = filter (\<lambda>b. b \<noteq> a) (queue_of (running_tasks ctx))"
    using erase_running [OF assms(1,3), of "put_task a ?t ctx"] by (auto simp: put_task_def)
  let ?c = "ctx\<lparr>tasks := (tasks ctx)(a \<mapsto> t\<lparr>sched_key := word_of_int (next_priority t), state := HEV_TASK_WAITING\<rparr>),
      running_tasks := tree, running_task_count := running_task_count ctx - 1\<rparr>"
  have "leaves a ctx ?c" by (rule leaves.waits [OF t(1) e(2,3)])
  moreover have "alive ?c = alive ctx" using t by (auto simp: alive_def st_def)
  moreover have "bind_o (hev_task_system_update_sched_key ctx) (hev_task_system_remove_current_task HEV_TASK_WAITING) =
      Ret ?c"
    using assms(2) t(1) e(1) by (auto simp: hev_task_system_update_sched_key_def
        hev_task_system_remove_current_task_def get_current_def get_task_def Let_def put_task_def
        intro!: sched.equality task.equality)
  ultimately show ?thesis by blast
qed

lemma leave_stop:
  assumes "run_inv ctx" "current_task ctx = Some a" "a \<in> running ctx"
  shows "\<exists>ctx'. hev_task_system_remove_current_task HEV_TASK_STOPPED ctx = Ret ctx' \<and> leaves a ctx ctx' \<and>
    alive ctx' = alive ctx - {a}"
proof -
  obtain t where t: "tasks ctx a = Some t" using assms(3) by (auto simp: running_def st_def)
  let ?t = "t\<lparr>state := HEV_TASK_STOPPED\<rparr>"
  obtain tree where e: "erase_task a (put_task a ?t ctx) = Ret (put_task a ?t ctx\<lparr>running_tasks := tree\<rparr>)"
    "cached_inv tree" "queue_of tree = filter (\<lambda>b. b \<noteq> a) (queue_of (running_tasks ctx))"
    using erase_running [OF assms(1,3), of "put_task a ?t ctx"] by (auto simp: put_task_def)
  let ?t' = "if task_refs t = 1 then None else Some (t\<lparr>state := HEV_TASK_STOPPED, task_refs := task_refs t - 1\<rparr>)"
  let ?c = "ctx\<lparr>tasks := (tasks ctx)(a := ?t'), running_tasks := tree,
      running_task_count := running_task_count ctx - 1, total_task_count := total_task_count ctx - 1\<rparr>"
  have "leaves a ctx ?c" by (rule leaves.stops [OF t e(2,3) refl])
  moreover have "alive ?c = alive ctx - {a}" by (auto simp: alive_def st_def split: if_splits)
  moreover have "hev_task_system_remove_current_task HEV_TASK_STOPPED ctx = Ret ?c"
    using assms(2) t e(1) by (simp add: hev_task_system_remove_current_task_def hev_task_unref_def get_current_def
        get_task_def Let_def put_task_def)
  ultimately show ?thesis by blast
qed

lemma pred_count: "finite A \<Longrightarrow> a \<in> A \<Longrightarrow> of_nat (card A) - 1 = (of_nat (card (A - {a})) :: u32)"
  using card.remove [of A a] by simp

lemma leaves_inv:
  assumes "leaves a ctx ctx'" "run_inv ctx" "a \<in> running ctx"
  shows "run_inv ctx'" "sort_tree ctx' = sort_tree ctx" "running ctx - {a} \<subseteq> running ctx'"
    "\<forall>b. b \<noteq> a \<longrightarrow> tasks ctx' b = tasks ctx b"
    "\<forall>t \<in> ran (tasks ctx). task_refs t > 0 \<Longrightarrow> \<forall>t \<in> ran (tasks ctx'). task_refs t > 0"
proof -
  have al: "a \<in> alive ctx" using assms(3) running_alive by blast
  have q: "set (queue_of (running_tasks ctx)) = running ctx" using assms(2) by (simp add: run_inv_def)
  show o: "\<forall>b. b \<noteq> a \<longrightarrow> tasks ctx' b = tasks ctx b" using assms(1) by cases auto
  then have k: "\<And>b. b \<noteq> a \<Longrightarrow> key_of ctx' b = key_of ctx b" by (simp add: key_of_def)
  have s: "sorted (map (key_of ctx') (filter (\<lambda>b. b \<noteq> a) (queue_of (running_tasks ctx))))"
    by (rule sorted_others [OF assms(2) k])
  have d: "dom (tasks ctx') \<subseteq> dom (tasks ctx)" using assms(1) by cases (auto split: if_splits)
  have f: "finite (dom (tasks ctx'))" "card (dom (tasks ctx')) < 2 ^ 32"
    using finite_subset [OF d] card_mono [OF _ d] assms(2) by (auto simp: run_inv_def)
  show "sort_tree ctx' = sort_tree ctx" using assms(1) by cases auto
  show "\<forall>t \<in> ran (tasks ctx'). task_refs t > 0" if "\<forall>t \<in> ran (tasks ctx). task_refs t > 0"
    using assms(1) that by cases (fastforce simp: ran_def split: if_splits)+
  show "run_inv ctx'" using assms(1)
  proof cases
    case (switches t k tree)
    have st: "st ctx' = st ctx" using switches by (auto simp: st_def)
    have r: "running ctx' = running ctx" "alive ctx' = alive ctx" by (simp_all add: running_def alive_def st)
    have "key_of ctx' = (key_of ctx)(a := k)" using switches by (simp add: key_of_put)
    then have "sorted (map (key_of ctx') (queue_of tree))"
      using sorted_enqueue [OF s] switches(5) by simp
    moreover have "insert a (running ctx) = running ctx" using assms(3) by blast
    ultimately show ?thesis using switches f r assms(2) q by (auto simp: run_inv_def)
  next
    case (waits t tree)
    have r: "running ctx' = running ctx - {a}" "alive ctx' = alive ctx"
      using waits al by (auto simp: running_def alive_def st_def)
    show ?thesis using waits f r s assms(2) q pred_count [OF finite_running [OF assms(2)] assms(3)]
      by (auto simp: run_inv_def)
  next
    case (stops t tree t')
    have r: "running ctx' = running ctx - {a}" "alive ctx' = alive ctx - {a}"
      using stops by (auto simp: running_def alive_def st_def split: if_splits)
    show ?thesis using stops f r s assms(2) q pred_count [OF finite_running [OF assms(2)] assms(3)]
        pred_count [OF finite_alive [OF assms(2)] al] by (auto simp: run_inv_def)
  qed
  show "running ctx - {a} \<subseteq> running ctx'" using o by (auto simp: running_def st_def)
qed

section \<open>Turns\<close>

text \<open>The current task leaves, others are woken, and the first task of the tree is resumed, if any is left.\<close>

definition task_turn :: "nat \<Rightarrow> sched \<Rightarrow> sched \<Rightarrow> bool" where
  "task_turn a ctx ctx' \<longleftrightarrow> (\<exists>x. leaves a ctx x \<and> time_inv x \<and>
     (alive x = {} \<and> ctx' = x\<lparr>current_task := None\<rparr> \<or> (\<exists>y. wakes x y \<and> resumes y ctx')))"

lemma after_leaving:
  assumes "run_inv x" "time_inv x" "polls_ok ps (alive x)"
  shows "safe (if total_task_count x = 0 then Ret (x\<lparr>current_task := None\<rparr>) else hev_task_system_pick_current_task ps x)
    (\<lambda>ctx'. alive x = {} \<and> ctx' = x\<lparr>current_task := None\<rparr> \<or> (\<exists>y. wakes x y \<and> resumes y ctx'))"
  using pick_safe [OF assms] count_zero [OF assms(1)] by (auto elim: safe_mono)

lemma time_leaves:
  assumes "leaves a ctx x" "run_inv ctx" "a \<in> running ctx" "time_inv ctx" "sleepers ctx \<subseteq> alive x"
  shows "time_inv x"
  using leaves_inv(2) [OF assms(1-3)] assms(4,5) by (simp add: time_inv_def sleepers_def)

lemma turn_safe:
  assumes "sched_inv ctx" "current_task ctx = Some a"
    and "e = SCHED_SWITCH \<or> e = SCHED_WAITIO \<or> e = SCHED_REMOVE \<and> a \<notin> sleepers ctx"
    and "polls_ok ps (if e = SCHED_REMOVE then alive ctx - {a} else alive ctx)"
  shows "safe (hev_task_system_schedule e ps ctx) (task_turn a ctx)"
proof -
  have i: "run_inv ctx" "time_inv ctx" "a \<in> running ctx" using assms(1,2) by (auto simp: sched_inv_def)
  let ?leave = "case e of RUN_SCHEDULER \<Rightarrow> Ret ctx
      | SCHED_SWITCH \<Rightarrow> bind_o (hev_task_system_update_sched_key ctx) hev_task_system_reinsert_current_task
      | SCHED_WAITIO \<Rightarrow> bind_o (hev_task_system_update_sched_key ctx)
          (hev_task_system_remove_current_task HEV_TASK_WAITING)
      | SCHED_REMOVE \<Rightarrow> hev_task_system_remove_current_task HEV_TASK_STOPPED ctx"
  have l: "safe ?leave (\<lambda>x. leaves a ctx x \<and> alive x = (if e = SCHED_REMOVE then alive ctx - {a} else alive ctx))"
    using assms(3) leave_switch [OF i(1) assms(2) i(3)] leave_wait [OF i(1) assms(2) i(3)]
      leave_stop [OF i(1) assms(2) i(3)] by auto
  show ?thesis unfolding hev_task_system_schedule_def
  proof (rule safe_bind [OF l])
    fix x assume x: "leaves a ctx x \<and> alive x = (if e = SCHED_REMOVE then alive ctx - {a} else alive ctx)"
    have s: "sleepers ctx \<subseteq> alive x" using x assms(3) i(2) by (auto simp: time_inv_def)
    have t: "time_inv x" using time_leaves [OF _ i(1,3,2) s] x by blast
    have r: "run_inv x" using leaves_inv(1) [OF _ i(1,3)] x by blast
    have p: "polls_ok ps (alive x)" using assms(4) x by simp
    show "safe (if total_task_count x = 0 then Ret (x\<lparr>current_task := None\<rparr>)
        else hev_task_system_pick_current_task ps x) (task_turn a ctx)"
      by (rule safe_mono [OF after_leaving [OF r t p]]) (use x t in \<open>auto simp: task_turn_def\<close>)
  qed
qed

lemma resumes_inv:
  assumes "resumes y ctx'" "run_inv y" "time_inv y" "\<forall>t \<in> ran (tasks y). task_refs t > 0"
  shows "sched_inv ctx'" "\<exists>a. current_task ctx' = Some a \<and> a \<in> running ctx' \<and> (\<forall>b \<in> running ctx'. key_of ctx' a \<le> key_of ctx' b)"
proof -
  obtain a q where a: "queue_of (running_tasks y) = a # q" "ctx' = y\<lparr>current_task := Some a\<rparr>"
    using assms(1) by (auto simp: resumes_def)
  have e: "running ctx' = running y" "alive ctx' = alive y" "key_of ctx' = key_of y" "sleepers ctx' = sleepers y"
    using a(2) by (auto simp: running_def alive_def st_def key_of_def sleepers_def)
  have r: "running y = insert a (set q)" "sorted (map (key_of y) (a # q))"
    using assms(2) a(1) by (auto simp: run_inv_def)
  show "sched_inv ctx'" using assms a(2) e r(1) by (simp add: sched_inv_def run_inv_def time_inv_def)
  show "\<exists>a. current_task ctx' = Some a \<and> a \<in> running ctx' \<and> (\<forall>b \<in> running ctx'. key_of ctx' a \<le> key_of ctx' b)"
    using a(2) e r by auto
qed

text \<open>The task that runs next has the least key; no task runs when none is left.\<close>

definition next_ok :: "sched \<Rightarrow> bool" where
  "next_ok ctx \<longleftrightarrow> (case current_task ctx of
     None \<Rightarrow> alive ctx = {}
   | Some a \<Rightarrow> a \<in> running ctx \<and> (\<forall>b \<in> running ctx. key_of ctx a \<le> key_of ctx b))"

lemma chosen_inv:
  assumes "run_inv x" "time_inv x" "\<forall>t \<in> ran (tasks x). task_refs t > 0"
    and "alive x = {} \<and> ctx' = x\<lparr>current_task := None\<rparr> \<or> (\<exists>y. wakes x y \<and> resumes y ctx')"
  shows "sched_inv ctx' \<and> next_ok ctx'"
  using assms(4)
proof
  assume n: "alive x = {} \<and> ctx' = x\<lparr>current_task := None\<rparr>"
  then have "running ctx' = running x" "alive ctx' = alive x" "key_of ctx' = key_of x" "sleepers ctx' = sleepers x"
    by (auto simp: running_def alive_def st_def key_of_def sleepers_def)
  then show ?thesis using n assms(1-3) by (simp add: sched_inv_def run_inv_def time_inv_def next_ok_def)
next
  assume "\<exists>y. wakes x y \<and> resumes y ctx'"
  then obtain y where y: "wakes x y" "resumes y ctx'" by blast
  have g: "grown x y" using wakes_grown [OF y(1) assms(1)] .
  have "run_inv y" "time_inv y" "\<forall>t \<in> ran (tasks y). task_refs t > 0"
    using g time_grown [OF assms(2) g] assms(3) by (auto simp: grown_def)
  from resumes_inv [OF y(2) this] show ?thesis by (auto simp: next_ok_def)
qed

lemma turn_inv:
  assumes "task_turn a ctx ctx'" "sched_inv ctx" "a \<in> running ctx"
  shows "sched_inv ctx' \<and> next_ok ctx'"
proof -
  obtain x where x: "leaves a ctx x" "time_inv x"
    "alive x = {} \<and> ctx' = x\<lparr>current_task := None\<rparr> \<or> (\<exists>y. wakes x y \<and> resumes y ctx')"
    using assms(1) by (auto simp: task_turn_def)
  have i: "run_inv ctx" "\<forall>t \<in> ran (tasks ctx). task_refs t > 0" using assms(2) by (simp_all add: sched_inv_def)
  from leaves_inv [OF x(1) i(1) assms(3)] i(2) have "run_inv x" "\<forall>t \<in> ran (tasks x). task_refs t > 0" by blast+
  from chosen_inv [OF this(1) x(2) this(2) x(3)] show ?thesis .
qed

lemma wakes_inv: "wakes ctx ctx' \<Longrightarrow> sched_inv ctx \<Longrightarrow> sched_inv ctx'"
  using wakes_grown [of ctx ctx'] time_grown [of ctx ctx'] by (auto simp: sched_inv_def grown_def)

lemma start_turn_inv:
  assumes "sched_inv ctx" "polls_ok ps (alive ctx)"
  shows "safe (hev_task_system_schedule RUN_SCHEDULER ps ctx) (\<lambda>ctx'. sched_inv ctx' \<and> next_ok ctx')"
proof -
  have i: "run_inv ctx" "time_inv ctx" "\<forall>t \<in> ran (tasks ctx). task_refs t > 0"
    using assms(1) by (simp_all add: sched_inv_def)
  show ?thesis unfolding hev_task_system_schedule_def entry.case bind_o_simps
    by (rule safe_mono [OF after_leaving [OF i(1,2) assms(2)]]) (rule chosen_inv [OF i])
qed

section \<open>Other operations\<close>

lemma run_inv_same:
  assumes "run_inv ctx" "running_tasks ctx' = running_tasks ctx" "running_task_count ctx' = running_task_count ctx"
    and "total_task_count ctx' = total_task_count ctx" "running ctx' = running ctx" "alive ctx' = alive ctx"
    and "finite (dom (tasks ctx'))" "card (dom (tasks ctx')) < 2 ^ 32" "\<forall>b \<in> running ctx. key_of ctx' b = key_of ctx b"
  shows "run_inv ctx'"
proof -
  have m: "map (key_of ctx') (queue_of (running_tasks ctx)) = map (key_of ctx) (queue_of (running_tasks ctx))"
    using assms(1,9) by (auto simp: run_inv_def)
  show ?thesis using assms(1,7,8) unfolding run_inv_def assms(2-6) m by blast
qed

text \<open>A change that leaves the state of every task alone, and the keys of the running ones.\<close>

lemma put_inv:
  assumes "run_inv ctx" "tasks ctx a = Some t0" "state t = state t0" "a \<in> running ctx \<longrightarrow> sched_key t = sched_key t0"
  shows "run_inv (put_task a t ctx)" "running (put_task a t ctx) = running ctx" "alive (put_task a t ctx) = alive ctx"
    "min_key (put_task a t ctx) = min_key ctx"
proof -
  let ?ctx = "put_task a t ctx" and ?q = "queue_of (running_tasks ctx)"
  have st: "st ?ctx = st ctx" using assms(2,3) by (auto simp: st_def put_task_def)
  show r: "running ?ctx = running ctx" and al: "alive ?ctx = alive ctx" by (simp_all add: running_def alive_def st)
  have k: "\<forall>b \<in> running ctx. key_of ?ctx b = key_of ctx b" using assms by (auto simp: key_of_def put_task_def)
  have q: "set ?q = running ctx" using assms(1) by (simp add: run_inv_def)
  have e: "running_tasks ?ctx = running_tasks ctx" "running_task_count ?ctx = running_task_count ctx"
    "total_task_count ?ctx = total_task_count ctx" by (simp_all add: put_task_def)
  show "min_key ?ctx = min_key ctx" using k q by (auto simp: min_key_def e split: list.splits)
  have d: "dom (tasks ?ctx) = dom (tasks ctx)" using assms(2) by (auto simp: put_task_def)
  show "run_inv ?ctx" by (rule run_inv_same [OF assms(1) e r al _ _ k]) (use assms(1) d in \<open>simp_all add: run_inv_def\<close>)
qed

lemma put_sched_inv:
  assumes "sched_inv ctx" "tasks ctx a = Some t0" "state t = state t0" "sched_key t = sched_key t0" "task_refs t > 0"
  shows "sched_inv (put_task a t ctx)"
proof -
  have i: "run_inv ctx" using assms(1) by (simp add: sched_inv_def)
  note p = put_inv [OF i assms(2,3)]
  have "task_refs s > 0" if "s \<in> ran (tasks (put_task a t ctx))" for s
    using that assms(1,5) by (auto simp: put_task_def sched_inv_def ran_def split: if_splits)
  then show ?thesis using assms p by (auto simp: sched_inv_def time_inv_def sleepers_def put_task_def)
qed

lemma new_task_inv:
  assumes "sched_inv ctx" "tasks ctx a = None" "card (dom (tasks ctx)) < 2 ^ 32 - 1"
  shows "sched_inv (hev_task_new a ctx)"
proof -
  let ?ctx = "hev_task_new a ctx"
  have q: "running_tasks ?ctx = running_tasks ctx" "running_task_count ?ctx = running_task_count ctx"
    "total_task_count ?ctx = total_task_count ctx" "sort_tree ?ctx = sort_tree ctx" "current_task ?ctx = current_task ctx"
    by (simp_all add: hev_task_new_def put_task_def)
  have r: "running ?ctx = running ctx" "alive ?ctx = alive ctx" "sleepers ?ctx = sleepers ctx"
    using assms(2) by (auto simp: running_def alive_def st_def sleepers_def hev_task_new_def put_task_def)
  have i: "run_inv ctx" using assms(1) by (simp add: sched_inv_def)
  have k: "\<forall>b \<in> running ctx. key_of ?ctx b = key_of ctx b"
    using assms(2) by (auto simp: running_def st_def key_of_def hev_task_new_def put_task_def)
  have d: "dom (tasks ?ctx) = insert a (dom (tasks ctx))" by (simp add: hev_task_new_def put_task_def)
  have "finite (dom (tasks ?ctx))" "card (dom (tasks ?ctx)) < 2 ^ 32"
    using i assms(2,3) unfolding d run_inv_def by (simp_all add: domIff)
  then have "run_inv ?ctx" by (intro run_inv_same [OF i q(1-3) r(1,2) _ _ k])
  moreover have "\<forall>t \<in> ran (tasks ?ctx). task_refs t > 0"
    using assms(1) by (auto simp: sched_inv_def hev_task_new_def put_task_def ran_def)
  ultimately show ?thesis using assms(1) unfolding sched_inv_def time_inv_def q r by blast
qed

lemma unref_inv:
  assumes "sched_inv ctx" "tasks ctx a = Some t" "state t = HEV_TASK_STOPPED \<or> task_refs t > 1"
  shows "\<exists>ctx'. hev_task_unref a ctx = Ret ctx' \<and> sched_inv ctx'"
proof (cases "task_refs t = 1")
  case False
  then have "task_refs t - 1 > 0" using assms by (auto simp: sched_inv_def ran_def)
  then show ?thesis using put_sched_inv [OF assms(1,2), of "t\<lparr>task_refs := task_refs t - 1\<rparr>"] False assms(2)
    by (auto simp: hev_task_unref_def get_task_def)
next
  case True
  let ?ctx = "ctx\<lparr>tasks := (tasks ctx)(a := None)\<rparr>"
  have st: "st ctx a = Some HEV_TASK_STOPPED" using True assms(2,3) by (simp add: st_def)
  have r: "running ?ctx = running ctx" "alive ?ctx = alive ctx" "sleepers ?ctx = sleepers ctx"
    using st by (auto simp: running_def alive_def st_def sleepers_def)
  have i: "run_inv ctx" using assms(1) by (simp add: sched_inv_def)
  have k: "\<forall>b \<in> running ctx. key_of ?ctx b = key_of ctx b" using st by (auto simp: running_def key_of_def)
  have "finite (dom (tasks ?ctx))" "card (dom (tasks ?ctx)) < 2 ^ 32"
    using i card_Diff1_le [of "dom (tasks ctx)" a] unfolding run_inv_def by (simp_all add: le_less_trans)
  then have "run_inv ?ctx" using r k by (intro run_inv_same [OF i]) simp_all
  moreover have "\<forall>t \<in> ran (tasks ?ctx). task_refs t > 0"
    using assms(1) by (auto simp: sched_inv_def ran_def)
  ultimately have "sched_inv ?ctx" using assms(1) r unfolding sched_inv_def time_inv_def by simp
  then show ?thesis using True assms(2) by (simp add: hev_task_unref_def get_task_def)
qed

lemma run_new_inv:
  assumes "sched_inv ctx" "tasks ctx a = Some t" "state t = HEV_TASK_STOPPED"
  shows "\<exists>ctx' t' tree. hev_task_run a ctx = Ret ctx' \<and> sched_inv ctx' \<and>
    ctx' = enter a t' tree (ctx\<lparr>total_task_count := total_task_count ctx + 1\<rparr>) \<and>
    t' = t\<lparr>sched_key := word_of_int (next_priority t) + (if current_task ctx = None then 0 else min_key ctx),
      state := HEV_TASK_RUNNING, priority := next_priority t\<rparr> \<and>
    queue_of tree = enqueue ((key_of ctx)(a := sched_key t')) a (queue_of (running_tasks ctx))"
proof -
  have i: "run_inv ctx" using assms(1) by (simp add: sched_inv_def)
  have n: "a \<notin> running ctx" "a \<notin> alive ctx" using assms(2,3) by (simp_all add: running_def alive_def st_def)
  let ?k = "word_of_int (next_priority t) + (if current_task ctx = None then 0 else min_key ctx)"
  let ?t1 = "t\<lparr>priority := next_priority t, sched_key := word_of_int (next_priority t)\<rparr>"
  let ?t2 = "t\<lparr>priority := next_priority t, sched_key := ?k\<rparr>"
  let ?t3 = "?t2\<lparr>state := HEV_TASK_RUNNING, priority := next_priority ?t2\<rparr>"
  note p = put_inv [OF i assms(2), of ?t1]
  have m: "hev_task_system_get_min_sched_key (put_task a ?t1 ctx) = Ret (min_key ctx)"
    using min_key_eq [of "put_task a ?t1 ctx"] p n by simp
  obtain tree where r: "hev_task_system_insert_task a (put_task a ?t2 ctx) = Ret (enter a ?t3 tree ctx)" "cached_inv tree"
      "queue_of tree = enqueue ((key_of ctx)(a := ?k)) a (queue_of (running_tasks ctx))"
    using system_insert [OF i assms(2) n(1), of ?t2] by auto
  let ?ctx = "enter a ?t3 tree (ctx\<lparr>total_task_count := total_task_count ctx + 1\<rparr>)"
  have "total_task_count ctx + 1 = of_nat (card (insert a (alive ctx)))"
    using i n(2) finite_alive [OF i] by (simp add: run_inv_def)
  from enter_inv [OF i assms(2) n(1) _ r(2) _ refl this, of ?t3] r(3)
  have e: "run_inv ?ctx" "running ?ctx = insert a (running ctx)" "alive ?ctx = insert a (alive ctx)" by simp_all
  have "\<forall>t \<in> ran (tasks ?ctx). task_refs t > 0"
    using assms(1,2) by (auto simp: enter_def sched_inv_def ran_def)
  then have inv: "sched_inv ?ctx" using assms(1) e
    by (auto simp: sched_inv_def time_inv_def sleepers_def enter_def)
  have "hev_task_run a ctx = Ret ?ctx"
    using assms(2,3) m r(1) by (auto simp: hev_task_run_def hev_task_system_run_new_task_def get_task_def put_task_def enter_def)
  moreover have "?t3 = t\<lparr>sched_key := ?k, state := HEV_TASK_RUNNING, priority := next_priority t\<rparr>"
    by (simp add: task.equality)
  ultimately show ?thesis using inv r(3) by (intro exI [of _ ?ctx] exI [of _ ?t3] exI [of _ tree]) simp
qed

section \<open>Sleeping\<close>

lemma node_cmp_key: "hev_task_timer_node_cmp a b < 0 \<longleftrightarrow> node_key a < node_key b"
  by (auto simp: hev_task_timer_node_cmp_def hev_task_timer_cmp_def node_key_def less_prod_def Let_def)

lemma wait_begin_inv:
  assumes "sched_inv ctx" "a \<in> alive ctx" "addr \<notin> node_addr ` set (queue_of (sort_tree ctx))"
  shows "\<exists>node lm tree. timer_wait_begin now ms addr a ctx = Ret (node, lm, ctx\<lparr>sort_tree := tree\<rparr>) \<and>
    node = \<lparr>node_addr = addr, expire = hev_task_timer_get_expire now ms, node_task = a\<rparr> \<and>
    queue_of tree = enqueue node_key node (queue_of (sort_tree ctx)) \<and> sched_inv (ctx\<lparr>sort_tree := tree\<rparr>)"
proof -
  let ?n = "\<lparr>node_addr = addr, expire = hev_task_timer_get_expire now ms, node_task = a\<rparr>"
  let ?left = "\<lambda>this. hev_task_timer_node_cmp ?n this < 0"
  have t: "cached_inv (sort_tree ctx)" "sorted (map node_key (queue_of (sort_tree ctx)))"
    "distinct (map node_addr (queue_of (sort_tree ctx)))" "sleepers ctx \<subseteq> alive ctx"
    using assms(1) by (simp_all add: sched_inv_def time_inv_def)
  have f: "?n \<notin> set (queue_of (sort_tree ctx))" using assms(3) by force
  obtain tree where tree: "cached_insert ?left ?n (sort_tree ctx) = Ret tree" "cached_inv tree"
    "queue_of tree = enqueue node_key ?n (queue_of (sort_tree ctx))"
    using cached_insert_queue [OF t(1,2) _ f, of ?left] node_cmp_key by auto
  have "inj_on node_addr (insert ?n (set (queue_of (sort_tree ctx))))" using t(3) assms(3) by (auto simp: distinct_map)
  moreover have "distinct (queue_of tree)" using tree(2) by (simp add: cached_inv_def)
  ultimately have d: "distinct (map node_addr (queue_of tree))" by (simp add: distinct_map tree(3))
  let ?ctx = "ctx\<lparr>sort_tree := tree\<rparr>"
  have e: "running ?ctx = running ctx" "alive ?ctx = alive ctx" "key_of ?ctx = key_of ctx"
    by (auto simp: running_def alive_def st_def key_of_def)
  have "time_inv ?ctx" using tree(2,3) d sorted_enqueue [OF t(2)] t(4) assms(2) e(2)
    by (simp add: time_inv_def sleepers_def)
  then have "sched_inv ?ctx" using assms(1) e by (simp add: sched_inv_def run_inv_def)
  then show ?thesis using tree by (auto simp: timer_wait_begin_def cached_insert_def Let_def bind_o_Ret_iff split: prod.splits)
qed

lemma wait_end_inv:
  assumes "sched_inv ctx" "n \<in> set (queue_of (sort_tree ctx))"
  shows "\<exists>ctx' tree. timer_wait_end now n lm ctx = Ret (hev_task_timer_get_time now (expire n), ctx') \<and>
    queue_of tree = filter (\<lambda>m. m \<noteq> n) (queue_of (sort_tree ctx)) \<and> wakes (ctx\<lparr>sort_tree := tree\<rparr>) ctx' \<and>
    sched_inv (ctx\<lparr>sort_tree := tree\<rparr>)"
proof -
  have t: "cached_inv (sort_tree ctx)" "sorted (map node_key (queue_of (sort_tree ctx)))"
    "distinct (map node_addr (queue_of (sort_tree ctx)))" "sleepers ctx \<subseteq> alive ctx"
    using assms(1) by (simp_all add: sched_inv_def time_inv_def)
  obtain tree where tree: "hev_rbtree_cached_erase n (sort_tree ctx) = Ret tree" "cached_inv tree"
    "queue_of tree = filter (\<lambda>m. m \<noteq> n) (queue_of (sort_tree ctx))"
    using cached_erase_queue [OF t(1) assms(2)] by blast
  let ?ctx = "ctx\<lparr>sort_tree := tree\<rparr>"
  have e: "running ?ctx = running ctx" "alive ?ctx = alive ctx" "key_of ?ctx = key_of ctx"
    by (auto simp: running_def alive_def st_def key_of_def)
  have ti: "time_inv ?ctx" using tree(2,3) sorted_filter [OF t(2)] distinct_map_filter [OF t(3)] t(4) e(2)
    by (auto simp: time_inv_def sleepers_def)
  then have inv: "sched_inv ?ctx" using assms(1) e by (simp add: sched_inv_def run_inv_def)
  then have "run_inv ?ctx" by (simp add: sched_inv_def)
  from timer_wake_wakes(1) [OF this ti, of now] inv tree(1,3) show ?thesis
    by (auto simp: timer_wait_end_def Let_def)
qed

section \<open>All events\<close>

fun is_turn :: "sched_event \<Rightarrow> bool" where
  "is_turn (Start ps) \<longleftrightarrow> True"
| "is_turn (Yield ps) \<longleftrightarrow> True"
| "is_turn (WaitIO ps) \<longleftrightarrow> True"
| "is_turn (Sleep now ms addr ps) \<longleftrightarrow> True"
| "is_turn (Exit ps) \<longleftrightarrow> True"
| "is_turn (Return ps) \<longleftrightarrow> True"
| "is_turn _ \<longleftrightarrow> False"

lemma wakes_alive: "wakes ctx ctx' \<Longrightarrow> sched_inv ctx \<Longrightarrow>
   alive ctx' = alive ctx \<and> running ctx \<subseteq> running ctx' \<and> sort_tree ctx' = sort_tree ctx \<and> current_task ctx' = current_task ctx"
  using wakes_grown [of ctx ctx'] by (simp add: sched_inv_def grown_def)

text \<open>A whole turn: the task may enter the timer tree or wake its joiner before it leaves.\<close>

definition turned :: "sched \<Rightarrow> nat \<Rightarrow> sched \<Rightarrow> bool" where
  "turned ctx a ctx' \<longleftrightarrow> (\<exists>tree x. wakes (ctx\<lparr>sort_tree := tree\<rparr>) x \<and> sched_inv (ctx\<lparr>sort_tree := tree\<rparr>) \<and>
     sched_inv x \<and> a \<in> running x \<and> task_turn a x ctx')"

lemma turned_at_once:
  assumes "sched_inv (ctx\<lparr>sort_tree := tree\<rparr>)" "current_task ctx = Some a" "safe m (task_turn a (ctx\<lparr>sort_tree := tree\<rparr>))"
  shows "safe m (turned ctx a)"
  using assms(3)
proof (rule safe_mono)
  fix x assume "task_turn a (ctx\<lparr>sort_tree := tree\<rparr>) x"
  moreover have "a \<in> running (ctx\<lparr>sort_tree := tree\<rparr>)" using assms(1,2) by (simp add: sched_inv_def)
  ultimately show "turned ctx a x" unfolding turned_def using assms(1) by blast
qed

lemma sort_tree_same [simp]: "ctx\<lparr>sort_tree := sort_tree ctx\<rparr> = (ctx :: sched)"
  by simp

lemma sleep_turned:
  assumes "sched_inv ctx" "current_task ctx = Some a" "sched_may (Sleep now ms addr ps) ctx"
  shows "safe (sched_step (Sleep now ms addr ps) ctx) (turned ctx a)"
proof -
  have "a \<in> alive ctx" using assms(1,2) running_alive by (auto simp: sched_inv_def)
  then obtain node lm tree where b: "timer_wait_begin now ms addr a ctx = Ret (node, lm, ctx\<lparr>sort_tree := tree\<rparr>)"
    "sched_inv (ctx\<lparr>sort_tree := tree\<rparr>)"
    using wait_begin_inv [OF assms(1), of a addr now ms] assms(3) by auto
  let ?c = "ctx\<lparr>sort_tree := tree\<rparr>"
  have "alive ?c = alive ctx" by (auto simp: alive_def st_def)
  then have "safe (hev_task_system_schedule SCHED_WAITIO ps ?c) (task_turn a ?c)"
    using turn_safe [OF b(2), of a SCHED_WAITIO ps] assms(2,3) by simp
  from turned_at_once [OF b(2) assms(2) this] show ?thesis using b(1) assms(2) by (simp add: get_current_def)
qed

lemma return_turned:
  assumes "sched_inv ctx" "current_task ctx = Some a" "sched_may (Return ps) ctx"
  shows "safe (sched_step (Return ps) ctx) (turned ctx a)"
proof -
  have i: "run_inv ctx" "a \<in> running ctx" using assms(1,2) by (simp_all add: sched_inv_def)
  obtain t where t: "tasks ctx a = Some t" using i(2) by (auto simp: running_def st_def)
  have m: "a \<notin> sleepers ctx" "polls_ok ps (alive ctx - {a})" "\<forall>j. joiner t = Some j \<longrightarrow> j \<in> alive ctx"
    using assms(2,3) t by auto
  obtain x where x: "(case joiner t of Some j \<Rightarrow> hev_task_system_wakeup_task_with_context j ctx | None \<Rightarrow> Ret ctx) = Ret x"
    "wakes ctx x"
    using wakeup_wakes [OF i(1)] m(3) by (cases "joiner t") auto
  have w: "sched_inv x" "alive x = alive ctx" "current_task x = Some a" "a \<in> running x" "sleepers x = sleepers ctx"
    using wakes_inv [OF x(2) assms(1)] wakes_alive [OF x(2) assms(1)] assms(2) i(2) by (auto simp: sleepers_def)
  have "safe (hev_task_system_schedule SCHED_REMOVE ps x) (task_turn a x)"
    using turn_safe [OF w(1,3), of SCHED_REMOVE ps] m w by simp
  then have "safe (hev_task_system_schedule SCHED_REMOVE ps x) (turned ctx a)"
  proof (rule safe_mono)
    fix y assume "task_turn a x y"
    then show "turned ctx a y" unfolding turned_def using x(2) w assms(1)
      by (intro exI [of _ "sort_tree ctx"] exI [of _ x]) simp
  qed
  then show ?thesis using x(1) assms(2) t by (simp add: task_executer_end_def get_current_def get_task_def)
qed

lemma turn_step:
  assumes "sched_inv ctx" "sched_may e ctx" "is_turn e" "current_task ctx = Some a"
  shows "safe (sched_step e ctx) (turned ctx a)"
proof (cases e)
  case (Yield ps)
  then show ?thesis
    using turned_at_once [where ctx = ctx and tree = "sort_tree ctx", OF _ assms(4)] turn_safe [OF assms(1,4), of SCHED_SWITCH ps] assms(1,2)
    by simp
next
  case (WaitIO ps)
  then show ?thesis
    using turned_at_once [where ctx = ctx and tree = "sort_tree ctx", OF _ assms(4)] turn_safe [OF assms(1,4), of SCHED_WAITIO ps] assms(1,2)
    by simp
next
  case (Sleep now ms addr ps)
  then show ?thesis using sleep_turned assms by blast
next
  case (Exit ps)
  then show ?thesis
    using turned_at_once [where ctx = ctx and tree = "sort_tree ctx", OF _ assms(4)] turn_safe [OF assms(1,4), of SCHED_REMOVE ps]
      assms(1,2,4) by simp
next
  case (Return ps)
  then show ?thesis using return_turned assms by blast
qed (use assms in auto)

lemma turned_inv: "turned ctx a ctx' \<Longrightarrow> sched_inv ctx' \<and> next_ok ctx'"
  using turn_inv by (auto simp: turned_def)

lemma quiet_inv:
  assumes "sched_inv ctx" "sched_may e ctx" "\<not> is_turn e"
  shows "\<exists>ctx'. sched_step e ctx = Ret ctx' \<and> sched_inv ctx'"
proof -
  have i: "run_inv ctx" using assms(1) by (simp add: sched_inv_def)
  have wake: "\<exists>ctx'. hev_task_system_wakeup_task_with_context a ctx = Ret ctx' \<and> sched_inv ctx'" if "a \<in> alive ctx" for a
    using wakeup_wakes [OF i that] wakes_inv [OF _ assms(1)] by blast
  have ref: "task_refs t > 0" if "tasks ctx a = Some t" for a t
    using assms(1) that by (auto simp: sched_inv_def ran_def)
  note put = put_sched_inv [OF assms(1)]
  show ?thesis
  proof (cases e)
    case (New a)
    then show ?thesis using new_task_inv [OF assms(1), of a] assms(2) by simp
  next
    case (Run a)
    then obtain t where t: "tasks ctx a = Some t" using assms(2) by auto
    then show ?thesis using run_new_inv [OF assms(1) t] Run assms(1)
      by (cases "state t = HEV_TASK_STOPPED") (auto simp: hev_task_run_def get_task_def)
  next
    case (Ref a)
    then obtain t where t: "tasks ctx a = Some t" using assms(2) by auto
    then show ?thesis using put [OF t, of "t\<lparr>task_refs := task_refs t + 1\<rparr>"] ref [OF t] Ref
      by (simp add: hev_task_ref_def get_task_def)
  next
    case (Unref a)
    then show ?thesis using unref_inv [OF assms(1)] assms(2) by (auto split: option.splits)
  next
    case (SetPriority a p)
    then obtain t where t: "tasks ctx a = Some t" using assms(2) by auto
    then show ?thesis using put [OF t, of "t\<lparr>next_priority := q\<rparr>" for q] ref [OF t] SetPriority
      by (simp add: hev_task_set_priority_def get_task_def Let_def)
  next
    case (Join a)
    then obtain t where t: "tasks ctx a = Some t" using assms(2) by auto
    then show ?thesis using put [OF t, of "t\<lparr>joiner := current_task ctx\<rparr>"] ref [OF t] Join assms(1)
      by (simp add: task_join_begin_def get_task_def)
  next
    case (JoinRound a)
    then obtain t where t: "tasks ctx a = Some t" using assms(2) by auto
    have "a \<in> alive ctx" if "state t \<noteq> HEV_TASK_STOPPED"
      using that t by (cases "state t") (auto simp: alive_def st_def)
    then show ?thesis using wake [of a] t JoinRound assms(1)
      by (cases "state t = HEV_TASK_STOPPED") (auto simp: task_join_round_def get_task_def)
  next
    case (SleepEnd now n lm)
    then show ?thesis using wait_end_inv [OF assms(1), of n now lm] wakes_inv assms(2) by auto
  qed (use wake assms(2,3) in auto)
qed

text \<open>One task system: created empty, then any events.\<close>

definition sched_start :: sched where
  "sched_start = \<lparr>total_task_count = 0, running_task_count = 0, current_task = None, running_tasks = cached_empty,
     tasks = Map.empty, sort_tree = cached_empty\<rparr>"

inductive sched_reach :: "sched \<Rightarrow> bool" where
  start: "sched_reach sched_start"
| step: "sched_reach ctx \<Longrightarrow> sched_may e ctx \<Longrightarrow> sched_step e ctx = Ret ctx' \<Longrightarrow> sched_reach ctx'"

lemma start_state_inv: "sched_inv sched_start"
  by (simp add: sched_inv_def run_inv_def time_inv_def sched_start_def running_def alive_def st_def sleepers_def)

lemma step_inv:
  assumes "sched_inv ctx" "sched_may e ctx"
  shows "safe (sched_step e ctx) (\<lambda>ctx'. sched_inv ctx' \<and> (is_turn e \<longrightarrow> next_ok ctx'))"
proof (cases "is_turn e")
  case False
  then show ?thesis using quiet_inv [OF assms] by auto
next
  case True
  show ?thesis
  proof (cases "current_task ctx")
    case None
    with assms(2) True obtain ps where "e = Start ps" "polls_ok ps (alive ctx)" by (cases e) auto
    then show ?thesis using start_turn_inv [OF assms(1)] True by simp
  next
    case (Some a)
    show ?thesis using turn_step [OF assms True Some] by (rule safe_mono) (use turned_inv in blast)
  qed
qed

lemma reach_inv: "sched_reach ctx \<Longrightarrow> sched_inv ctx"
proof (induction rule: sched_reach.induct)
  case (step ctx e ctx')
  then show ?case using step_inv [of ctx e] by simp
qed (rule start_state_inv)

lemma first_elem: "Option.bind (hev_rbtree_first t) node_elem = (case inorder t of [] \<Rightarrow> None | x # xs \<Rightarrow> Some x)"
proof (cases t)
  case (Nd l c x r)
  obtain u gs where u: "leftmost t [] = (u, gs)" by fastforce
  from leftmost_at [of l c x r "[]"] Nd u show ?thesis by (auto simp: hev_rbtree_first_def node_at_def split: list.splits)
qed (simp add: hev_rbtree_first_def)

section \<open>Runs\<close>

text \<open>A run that the scheduler answers, with the tasks it resumed.\<close>

fun sched_run :: "sched_event list \<Rightarrow> sched \<Rightarrow> (nat list \<times> sched) outcome" where
  "sched_run [] ctx = Ret ([], ctx)"
| "sched_run (e # es) ctx = bind_o (sched_step e ctx) (\<lambda>ctx'. bind_o (sched_run es ctx') (\<lambda>(tr, z).
     Ret ((if is_turn e then (case current_task ctx' of Some a \<Rightarrow> a # tr | None \<Rightarrow> tr) else tr), z)))"

text \<open>Every event is one its caller may make, and no task is given the priority that costs nothing.\<close>

fun sched_legal :: "sched_event list \<Rightarrow> sched \<Rightarrow> bool" where
  "sched_legal [] ctx \<longleftrightarrow> True"
| "sched_legal (e # es) ctx \<longleftrightarrow> sched_may e ctx \<and> (case e of SetPriority a p \<Rightarrow> p \<ge> 1 | _ \<Rightarrow> True) \<and>
     (case sched_step e ctx of Ret ctx' \<Rightarrow> sched_legal es ctx' | _ \<Rightarrow> True)"

lemma reach_run: "sched_reach ctx \<Longrightarrow> sched_legal es ctx \<Longrightarrow> sched_run es ctx = Ret (tr, z) \<Longrightarrow> sched_reach z"
proof (induction es arbitrary: ctx tr)
  case (Cons e es)
  then obtain x tr' where x: "sched_step e ctx = Ret x" "sched_run es x = Ret (tr', z)" by (auto simp: bind_o_Ret_iff)
  have "sched_reach x" using Cons.prems(1,2) x(1) by (auto intro: sched_reach.step)
  then show ?case using Cons.IH [of x tr'] Cons.prems(2) x by simp
qed simp

section \<open>Theorem\<close>

text \<open>C15. The scheduler of the task system is sound under every sequence of wake-ups, new tasks, priority changes, sleeps,
  joins and turns its callers may make, whatever the reactor reports. In every state reached the running
  tree is a red-black tree that holds exactly the running tasks in order of their keys, its cached first node
  is the first of them, both counters are exact, and no step dereferences null, wakes a stopped task or finds
  no task to resume. After every turn the task resumed has the least key of all running tasks, and the scheduler
  returns only when no task is left.\<close>

theorem scheduler_sound:
  assumes "sched_reach ctx"
  shows "rbt_inv (base (running_tasks ctx)) \<and> set (inorder (base (running_tasks ctx))) = running ctx \<and>
    sorted (map (key_of ctx) (inorder (base (running_tasks ctx)))) \<and> distinct (inorder (base (running_tasks ctx))) \<and>
    hev_rbtree_cached_first (running_tasks ctx) = Option.bind (hev_rbtree_first (base (running_tasks ctx))) node_elem \<and>
    unat (running_task_count ctx) = card (running ctx) \<and> unat (total_task_count ctx) = card (alive ctx) \<and>
    (\<forall>e. sched_may e ctx \<longrightarrow> sched_step e ctx \<noteq> Fault \<and>
      (\<forall>ctx'. is_turn e \<longrightarrow> sched_step e ctx = Ret ctx' \<longrightarrow>
        (case current_task ctx' of
           None \<Rightarrow> alive ctx' = {}
         | Some a \<Rightarrow> a \<in> running ctx' \<and> (\<forall>b \<in> running ctx'. key_of ctx' a \<le> key_of ctx' b))))"
proof -
  have i: "sched_inv ctx" by (rule reach_inv [OF assms])
  then have r: "run_inv ctx" "cached_inv (running_tasks ctx)" by (simp_all add: sched_inv_def run_inv_def)
  have "sched_step e ctx \<noteq> Fault" if "sched_may e ctx" for e using step_inv [OF i that] by auto
  moreover have "next_ok ctx'" if "sched_may e ctx" "is_turn e" "sched_step e ctx = Ret ctx'" for e ctx'
    using step_inv [OF i that(1)] that by simp
  ultimately show ?thesis using r(1) counts [OF r(1)] cached_first_queue [OF r(2)] unfolding next_ok_def
    by (auto simp: run_inv_def cached_inv_def queue_of_def first_elem)
qed

text \<open>Two tasks are created and started, and the first of them is resumed.\<close>

definition demo_task :: task where
  "demo_task = \<lparr>sched_key = 8, joiner = None, task_refs = 1, priority = 8, next_priority = 8, state = HEV_TASK_RUNNING\<rparr>"

definition demo_sched :: sched where
  "demo_sched = \<lparr>total_task_count = 2, running_task_count = 2, current_task = Some 1,
     running_tasks = \<lparr>base = Nd Nil Black 1 (Nd Nil Red 2 Nil), leftmost_node = Some 1\<rparr>,
     tasks = [1 \<mapsto> demo_task, 2 \<mapsto> demo_task], sort_tree = cached_empty\<rparr>"

lemmas sched_eval = hev_task_system_wakeup_task_with_context_def hev_task_new_def hev_task_run_def
  hev_task_system_run_new_task_def hev_task_system_insert_task_def system_insert_task_def cached_insert_def
  hev_rbtree_cached_insert_color_def hev_rbtree_node_link_def hev_task_system_get_min_sched_key_def
  hev_rbtree_cached_first_def get_task_def put_task_def get_current_def hev_task_system_schedule_def
  hev_task_system_pick_current_task_def hev_task_system_update_sched_key_def hev_task_system_reinsert_current_task_def
  hev_task_system_remove_current_task_def erase_task_def hev_rbtree_cached_erase_def hev_rbtree_erase_def
  hev_rbtree_erase_node_def key_of_def cached_empty_def of_option_def

lemma demo_reach: "sched_reach demo_sched"
proof (rule reach_run [OF sched_reach.start])
  let ?es = "[New 1, Run 1, New 2, Run 2, Start []]"
  show "sched_legal ?es sched_start"
    by (simp add: sched_start_def sched_eval Let_def polls_ok_def)
  show "sched_run ?es sched_start = Ret ([1], demo_sched)"
    by (simp add: sched_start_def sched_eval demo_sched_def demo_task_def Let_def)
qed

theorem scheduler_sound_witness:
  "set (inorder (base (running_tasks demo_sched))) = {1, 2} \<and> running demo_sched = {1, 2} \<and>
   sched_step (Yield []) demo_sched \<noteq> Fault"
proof -
  have m: "sched_may (Yield []) demo_sched" by (simp add: demo_sched_def polls_ok_def)
  have q: "set (inorder (base (running_tasks demo_sched))) = {1, 2}" by (auto simp: demo_sched_def)
  show ?thesis using scheduler_sound [OF demo_reach] m q by blast
qed

end
