(* ===== verification/SchedFair.thy ===== *)
theory SchedFair
  imports SchedRun
begin

text \<open>
  No running task starves. A task that gets the processor with the least key pays at least one unit for its
  turn, and a task that is woken or created starts above the least key, so every task can run at most once
  per key level before a task that waits in the tree. The priorities that cost nothing (\<open>0\<close>, the real-time
  priority) are excluded; the tunnel uses \<open>1\<close> and the default \<open>8\<close>.
\<close>

section \<open>Levels\<close>

definition prio_task :: "task \<Rightarrow> bool" where
  "prio_task t \<longleftrightarrow> next_priority t \<in> {1..15} \<and> (state t = HEV_TASK_RUNNING \<longrightarrow> priority t \<in> {1..15}) \<and>
     (state t = HEV_TASK_WAITING \<longrightarrow> unat (sched_key t) \<in> {1..15})"

definition prio_ok :: "sched \<Rightarrow> bool" where
  "prio_ok ctx \<longleftrightarrow> (\<forall>t \<in> ran (tasks ctx). prio_task t)"

lemma prio_put: "prio_ok ctx \<Longrightarrow> prio_task t \<Longrightarrow> prio_ok (put_task a t ctx)"
  by (auto simp: prio_ok_def put_task_def ran_def)

text \<open>The key of a running task; any other task enters above the least key.\<close>

definition level :: "sched \<Rightarrow> nat \<Rightarrow> nat" where
  "level ctx u = (if u \<in> running ctx then unat (key_of ctx u) else Suc (unat (min_key ctx)))"

text \<open>\<open>w\<close> waits in the tree with key \<open>K\<close>, far from the end of the range.\<close>

definition pending :: "nat \<Rightarrow> nat \<Rightarrow> sched \<Rightarrow> bool" where
  "pending w K ctx \<longleftrightarrow> run_inv ctx \<and> prio_ok ctx \<and> w \<in> running ctx \<and> unat (key_of ctx w) = K \<and> K + 15 < 2 ^ 64"

lemma min_key_le:
  assumes "run_inv ctx" "b \<in> running ctx"
  shows "min_key ctx \<le> key_of ctx b"
proof -
  have "b \<in> set (queue_of (running_tasks ctx))" "sorted (map (key_of ctx) (queue_of (running_tasks ctx)))"
    using assms by (simp_all add: run_inv_def)
  then show ?thesis by (auto simp: min_key_def split: list.splits)
qed

lemma hd_enqueue: "k b \<le> k x \<Longrightarrow> \<exists>q'. enqueue k x (b # q) = b # q'"
  by (simp add: enqueue_def)

lemma unat_plus: "unat a + unat b < 2 ^ 64 \<Longrightarrow> unat (a + b :: u64) = unat a + unat b"
  by (simp add: unat_word_ariths)

lemma unat_prio:
  assumes "p \<in> {1..15}"
  shows "unat (word_of_int p :: u64) = nat p"
proof -
  have "uint (word_of_int p :: u64) = p" using assms by (simp add: uint_word_of_int_eq take_bit_int_eq_self)
  from arg_cong [OF this, of nat] show ?thesis by simp
qed

text \<open>A task that enters the tree above its first key leaves the first node where it is.\<close>

lemma enter_level:
  assumes "run_inv ctx" "w \<in> running ctx" "unat (key_of ctx w) + 15 < 2 ^ 64" "a \<notin> running ctx"
    and "state t = HEV_TASK_RUNNING" "sched_key t = d + min_key ctx" "unat d \<in> {1..15}"
    and "queue_of tree = enqueue ((key_of ctx)(a := sched_key t)) a (queue_of (running_tasks ctx))"
    and "ctx' = enter a t tree (ctx\<lparr>total_task_count := n\<rparr>)"
  shows "min_key ctx' = min_key ctx" "level ctx u \<le> level ctx' u"
    "hd (queue_of (running_tasks ctx')) = hd (queue_of (running_tasks ctx))"
    "b \<noteq> a \<Longrightarrow> key_of ctx' b = key_of ctx b"
proof -
  have mw: "unat (min_key ctx) \<le> unat (key_of ctx w)" using min_key_le [OF assms(1,2)] by (simp add: word_le_nat_alt)
  then have k: "unat (sched_key t) = unat d + unat (min_key ctx)" using assms(3,6,7) by (simp add: unat_plus)
  obtain b q where q: "queue_of (running_tasks ctx) = b # q"
    using assms(1,2) by (cases "queue_of (running_tasks ctx)") (auto simp: run_inv_def)
  then have b: "b \<in> running ctx" "min_key ctx = key_of ctx b" using assms(1) by (auto simp: run_inv_def min_key_def)
  have ba: "b \<noteq> a" using b(1) assms(4) by blast
  have "min_key ctx \<le> sched_key t" using k by (simp add: word_le_nat_alt)
  then obtain q' where q': "queue_of tree = b # q'"
    using hd_enqueue [of "(key_of ctx)(a := sched_key t)" b a q] assms(8) q b(2) ba by auto
  have ko: "key_of ctx' c = (if c = a then sched_key t else key_of ctx c)" for c
    using assms(9) by (simp add: key_of_def enter_def)
  have ru: "running ctx' = insert a (running ctx)" using assms(5,9) by (auto simp: running_def st_def enter_def)
  have rt: "running_tasks ctx' = tree" using assms(9) by (simp add: enter_def)
  show m: "min_key ctx' = min_key ctx" using q' b(2) ko ba by (simp add: min_key_def [of ctx'] rt)
  show "hd (queue_of (running_tasks ctx')) = hd (queue_of (running_tasks ctx))" using q q' rt by simp
  show "level ctx u \<le> level ctx' u" using k assms(4,7) by (auto simp: level_def m ru ko)
  show "b \<noteq> a \<Longrightarrow> key_of ctx' b = key_of ctx b" for b by (simp add: ko)
qed

lemma wake1_pending:
  assumes "wake1 ctx ctx'" "pending w K ctx"
  shows "pending w K ctx'" "min_key ctx' = min_key ctx" "level ctx u \<le> level ctx' u"
    "hd (queue_of (running_tasks ctx')) = hd (queue_of (running_tasks ctx))"
proof -
  obtain a t tree where 1: "ctx' = enter a (woken_task ctx t) tree ctx" "a \<notin> running ctx" "tasks ctx a = Some t"
    "state t = HEV_TASK_WAITING" "cached_inv tree"
    "queue_of tree = enqueue ((key_of ctx)(a := sched_key t + min_key ctx)) a (queue_of (running_tasks ctx))"
    using assms(1) by (cases rule: wake1.cases) blast
  have w: "run_inv ctx" "prio_ok ctx" "w \<in> running ctx" "unat (key_of ctx w) = K" "K + 15 < 2 ^ 64"
    using assms(2) by (simp_all add: pending_def)
  have d: "unat (sched_key t) \<in> {1..15}" "next_priority t \<in> {1..15}" using w(2) 1(3,4) by (auto simp: prio_ok_def prio_task_def ran_def)
  have n: "ctx' = enter a (woken_task ctx t) tree (ctx\<lparr>total_task_count := total_task_count ctx\<rparr>)" using 1(1) by simp
  have tw: "state (woken_task ctx t) = HEV_TASK_RUNNING" "sched_key (woken_task ctx t) = sched_key t + min_key ctx"
    by (simp_all add: woken_task_def)
  note e = enter_level [OF w(1,3) _ 1(2) tw d(1) 1(6) [folded tw(2)] n, unfolded w(4), OF w(5)]
  show "min_key ctx' = min_key ctx" "level ctx u \<le> level ctx' u"
    "hd (queue_of (running_tasks ctx')) = hd (queue_of (running_tasks ctx))" using e by blast+
  have "prio_ok ctx'" using w(2) d(2) by (auto simp: prio_ok_def prio_task_def 1(1) enter_def woken_task_def ran_def)
  moreover have "w \<noteq> a" using w(3) 1(2) by blast
  moreover have "run_inv ctx'" "running ctx \<subseteq> running ctx'" using wake1_inv [OF assms(1) w(1)] by blast+
  ultimately show "pending w K ctx'" using w e(4) [of w] by (auto simp: pending_def)
qed

lemma wakes_pending:
  "wakes ctx ctx' \<Longrightarrow> pending w K ctx \<Longrightarrow>
   pending w K ctx' \<and> min_key ctx' = min_key ctx \<and> (\<forall>u. level ctx u \<le> level ctx' u) \<and>
   hd (queue_of (running_tasks ctx')) = hd (queue_of (running_tasks ctx))"
proof (induction rule: rtranclp_induct)
  case (step y z)
  then show ?case using wake1_pending [OF step.hyps(2)] by (metis order_trans)
qed simp

text \<open>A task that leaves the first place rises by at least one; nobody sinks.\<close>

lemma leaves_pending:
  assumes "leaves a ctx x" "pending w K ctx" "a = hd (queue_of (running_tasks ctx))" "a \<noteq> w"
  shows "pending w K x" "level ctx u \<le> level x u" "level ctx a < level x a"
proof -
  have w: "run_inv ctx" "prio_ok ctx" "w \<in> running ctx" "unat (key_of ctx w) = K" "K + 15 < 2 ^ 64"
    using assms(2) by (simp_all add: pending_def)
  obtain q where q: "queue_of (running_tasks ctx) = a # q"
    using w(1,3) assms(3) by (cases "queue_of (running_tasks ctx)") (auto simp: run_inv_def)
  have a: "a \<in> running ctx" "min_key ctx = key_of ctx a" using w(1) q by (auto simp: run_inv_def min_key_def)
  note l = leaves_inv [OF assms(1) w(1) a(1)]
  have aw: "unat (key_of ctx a) \<le> K" using min_key_le [OF w(1,3)] a(2) w(4) by (simp add: word_le_nat_alt)
  have o: "key_of x b = key_of ctx b" if "b \<noteq> a" for b using l(4) that by (simp add: key_of_def)
  have ro: "b \<in> running x \<longleftrightarrow> b \<in> running ctx" if "b \<noteq> a" for b using l(4) that by (simp add: running_def st_def)
  have up: "unat (key_of ctx a) < unat (key_of x a)" if "a \<in> running x"
    using assms(1)
  proof cases
    case (switches t k tree)
    then have p: "priority t \<in> {1..15}" using w(2) a(1) by (auto simp: prio_ok_def prio_task_def ran_def running_def st_def)
    have e: "key_of ctx a = sched_key t" "key_of x a = sched_key t + word_of_int (priority t)"
      using switches by (simp_all add: key_of_def)
    have "nat (priority t) \<le> 15" "0 < nat (priority t)" using p by auto
    moreover from this have "unat (sched_key t) + nat (priority t) < 2 ^ 64" using aw e(1) w(5) by simp
    ultimately show ?thesis using unat_plus [of "sched_key t" "word_of_int (priority t)"] unat_prio [OF p] e by simp
  qed (use that in \<open>auto simp: running_def st_def split: if_splits\<close>)
  have wx: "w \<in> running x" "unat (key_of x w) = K" using ro [of w] o [of w] assms(4) w(3,4) by auto
  have "unat (min_key ctx) \<le> unat (min_key x)"
  proof -
    obtain c r where c: "queue_of (running_tasks x) = c # r"
      using l(1) wx(1) by (cases "queue_of (running_tasks x)") (auto simp: run_inv_def)
    then have "c \<in> running x" "min_key x = key_of x c" using l(1) by (auto simp: run_inv_def min_key_def)
    then show ?thesis using up min_key_le [OF w(1), of c] o [of c] ro [of c] a(2)
      by (cases "c = a") (auto simp: word_le_nat_alt)
  qed
  then show la: "level ctx a < level x a" and "level ctx u \<le> level x u"
    using up o [of u] ro [of u] a by (cases "u = a"; auto simp: level_def)+
  have "prio_ok x" using assms(1)
  proof cases
    case (switches t k tree)
    then show ?thesis using w(2) a(1) by (auto simp: prio_ok_def prio_task_def ran_def running_def st_def)
  next
    case (waits t tree)
    then have "next_priority t \<in> {1..15}" using w(2) by (auto simp: prio_ok_def prio_task_def ran_def)
    moreover note unat_prio [OF this]
    ultimately show ?thesis using waits w(2) by (auto simp: prio_ok_def prio_task_def ran_def)
  next
    case (stops t tree t')
    then show ?thesis using w(2) by (auto simp: prio_ok_def prio_task_def ran_def split: if_splits)
  qed
  then show "pending w K x" using l(1) wx w(5) by (simp add: pending_def)
qed

section \<open>Runs\<close>

text \<open>The current task is the first of the tree and \<open>w\<close> waits behind it.\<close>

definition waiting_for :: "nat \<Rightarrow> nat \<Rightarrow> sched \<Rightarrow> bool" where
  "waiting_for w K ctx \<longleftrightarrow> sched_inv ctx \<and> pending w K ctx \<and> current_task ctx = Some (hd (queue_of (running_tasks ctx)))"

lemma pending_same:
  assumes "tasks ctx' = tasks ctx" "running_tasks ctx' = running_tasks ctx"
    and "running_task_count ctx' = running_task_count ctx" "total_task_count ctx' = total_task_count ctx"
  shows "pending w K ctx' = pending w K ctx" "level ctx' = level ctx"
proof -
  have e: "running ctx' = running ctx" "alive ctx' = alive ctx" "key_of ctx' = key_of ctx" "prio_ok ctx' = prio_ok ctx"
    using assms(1) by (auto simp: running_def alive_def st_def key_of_def prio_ok_def prio_task_def)
  have "min_key ctx' = min_key ctx" unfolding min_key_def assms(2) e(3) ..
  then show "pending w K ctx' = pending w K ctx" "level ctx' = level ctx"
    by (simp_all add: pending_def run_inv_def level_def fun_eq_iff e assms)
qed

lemma pending_sort_tree:
  "pending w K (ctx\<lparr>sort_tree := tree\<rparr>) = pending w K ctx" "level (ctx\<lparr>sort_tree := tree\<rparr>) = level ctx"
  by (rule pending_same; simp)+

lemma turned_waiting:
  assumes "turned ctx a ctx'" "waiting_for w K ctx" "current_task ctx = Some a" "a \<noteq> w"
  shows "waiting_for w K ctx'" "level ctx u \<le> level ctx' u" "level ctx a < level ctx' a"
proof -
  obtain tree x z where x: "wakes (ctx\<lparr>sort_tree := tree\<rparr>) x" "leaves a x z"
    "alive z = {} \<and> ctx' = z\<lparr>current_task := None\<rparr> \<or> (\<exists>y. wakes z y \<and> resumes y ctx')"
    using assms(1) by (auto simp: turned_def task_turn_def)
  have p: "pending w K (ctx\<lparr>sort_tree := tree\<rparr>)" "a = hd (queue_of (running_tasks ctx))"
    using assms(2,3) by (simp_all add: waiting_for_def pending_sort_tree)
  have px: "pending w K x" "level ctx v \<le> level x v" "a = hd (queue_of (running_tasks x))" for v
    using wakes_pending [OF x(1) p(1)] p(2) by (simp_all add: pending_sort_tree)
  note l = leaves_pending [OF x(2) px(1,3) assms(4)]
  have "w \<in> alive z" using l(1) running_alive by (auto simp: pending_def)
  then obtain y where y: "wakes z y" "resumes y ctx'" using x(3) by blast
  have py: "pending w K y" "level z v \<le> level y v" for v using wakes_pending [OF y(1) l(1)] by simp_all
  obtain b q where b: "queue_of (running_tasks y) = b # q" "ctx' = y\<lparr>current_task := Some b\<rparr>"
    using y(2) by (auto simp: resumes_def)
  have e: "pending w K ctx' = pending w K y" "level ctx' = level y"
    by (rule pending_same; simp add: b(2))+
  have "sched_inv ctx'" using turned_inv [OF assms(1)] by simp
  then show "waiting_for w K ctx'" using py(1) e(1) b by (simp add: waiting_for_def)
  show "level ctx u \<le> level ctx' u" using px(2) [of u] l(2) [of u] py(2) [of u] e(2) by simp
  show "level ctx a < level ctx' a" using px(2) [of a] l(3) py(2) [of a] e(2) by simp
qed

lemma kept_waiting:
  assumes "waiting_for w K ctx" "sched_inv ctx'" "running_tasks ctx' = running_tasks ctx" "current_task ctx' = current_task ctx"
    and "running ctx' = running ctx" "\<forall>b \<in> running ctx. key_of ctx' b = key_of ctx b" "prio_ok ctx'"
  shows "waiting_for w K ctx' \<and> level ctx' = level ctx"
proof -
  have p: "pending w K ctx" using assms(1) by (simp add: waiting_for_def)
  have "set (queue_of (running_tasks ctx)) = running ctx" using p by (simp add: pending_def run_inv_def)
  then have "min_key ctx' = min_key ctx" using assms(6) by (auto simp: min_key_def assms(3) split: list.splits)
  then show ?thesis using assms p by (auto simp: waiting_for_def pending_def sched_inv_def level_def fun_eq_iff)
qed

lemma wakes_waiting:
  assumes "wakes (ctx\<lparr>sort_tree := tree\<rparr>) ctx'" "sched_inv (ctx\<lparr>sort_tree := tree\<rparr>)" "waiting_for w K ctx"
  shows "waiting_for w K ctx'" "level ctx u \<le> level ctx' u"
proof -
  have "pending w K (ctx\<lparr>sort_tree := tree\<rparr>)" using assms(3) by (simp add: waiting_for_def pending_sort_tree)
  from wakes_pending [OF assms(1) this] wakes_inv [OF assms(1,2)] wakes_alive [OF assms(1,2)] assms(3)
  show "waiting_for w K ctx'" "level ctx u \<le> level ctx' u" by (simp_all add: waiting_for_def pending_sort_tree)
qed

lemma run_waiting:
  assumes "waiting_for w K ctx" "tasks ctx a = Some t" "state t = HEV_TASK_STOPPED" "hev_task_run a ctx = Ret ctx'"
  shows "waiting_for w K ctx'" "level ctx u \<le> level ctx' u"
proof -
  have w: "sched_inv ctx" "pending w K ctx" "current_task ctx = Some (hd (queue_of (running_tasks ctx)))"
    using assms(1) by (simp_all add: waiting_for_def)
  have r: "run_inv ctx" "w \<in> running ctx" "unat (key_of ctx w) = K" "K + 15 < 2 ^ 64" "prio_ok ctx"
    using w(2) by (simp_all add: pending_def)
  have n: "a \<notin> running ctx" "w \<noteq> a" using assms(2,3) r(2) by (auto simp: running_def st_def)
  have p: "next_priority t \<in> {1..15}" using r(5) assms(2) by (auto simp: prio_ok_def prio_task_def ran_def)
  have d: "unat (word_of_int (next_priority t) :: u64) \<in> {1..15}" using unat_prio [OF p] p by auto
  let ?t = "t\<lparr>sched_key := word_of_int (next_priority t) + min_key ctx, state := HEV_TASK_RUNNING, priority := next_priority t\<rparr>"
  obtain tree where e: "sched_inv ctx'" "ctx' = enter a ?t tree (ctx\<lparr>total_task_count := total_task_count ctx + 1\<rparr>)"
    "queue_of tree = enqueue ((key_of ctx)(a := sched_key ?t)) a (queue_of (running_tasks ctx))"
    using run_new_inv [OF w(1) assms(2,3)] assms(4) w(3) by auto
  note l = enter_level [OF r(1,2) _ n(1) _ _ d e(3,2), unfolded r(3), OF r(4)]
  show "level ctx u \<le> level ctx' u" by (rule l) simp_all
  have h: "hd (queue_of (running_tasks ctx')) = hd (queue_of (running_tasks ctx))" by (rule l) simp_all
  have k: "key_of ctx' w = key_of ctx w" by (rule l) (simp_all add: n)
  have "prio_ok ctx'" using r(5) p by (auto simp: prio_ok_def prio_task_def ran_def e(2) enter_def)
  moreover have "w \<in> running ctx'" using r(2) by (simp add: running_def st_def e(2) enter_def)
  moreover have "current_task ctx' = current_task ctx" by (simp add: e(2) enter_def)
  moreover have "run_inv ctx'" using e(1) by (simp add: sched_inv_def)
  ultimately show "waiting_for w K ctx'" using e(1) h k w(3) r by (simp add: waiting_for_def pending_def)
qed

lemma put_waiting:
  assumes "waiting_for w K ctx" "tasks ctx a = Some t0" "state t = state t0" "sched_key t = sched_key t0"
    and "next_priority t \<in> {1..15}" "priority t = priority t0" "task_refs t > 0"
  shows "waiting_for w K (put_task a t ctx) \<and> level (put_task a t ctx) = level ctx"
proof (rule kept_waiting [OF assms(1)])
  have w: "sched_inv ctx" "run_inv ctx" "prio_ok ctx" using assms(1) by (simp_all add: waiting_for_def pending_def)
  show "sched_inv (put_task a t ctx)" by (rule put_sched_inv [OF w(1) assms(2-4,7)])
  show "running (put_task a t ctx) = running ctx" by (rule put_inv [OF w(2) assms(2,3)]) (simp add: assms(4))
  show "prio_ok (put_task a t ctx)"
    by (rule prio_put [OF w(3)]) (use w(3) assms(2-6) in \<open>auto simp: prio_ok_def prio_task_def ran_def\<close>)
qed (use assms(2-4) in \<open>auto simp: put_task_def key_of_def\<close>)

lemma new_waiting:
  assumes "waiting_for w K ctx" "sched_may (New a) ctx"
  shows "waiting_for w K (hev_task_new a ctx) \<and> level (hev_task_new a ctx) = level ctx \<and>
    current_task (hev_task_new a ctx) = current_task ctx"
proof -
  have w: "sched_inv ctx" "prio_ok ctx" "tasks ctx a = None" using assms by (simp_all add: waiting_for_def pending_def)
  have "waiting_for w K (hev_task_new a ctx) \<and> level (hev_task_new a ctx) = level ctx"
  proof (rule kept_waiting [OF assms(1)])
    show "sched_inv (hev_task_new a ctx)" using new_task_inv [OF w(1)] assms(2) by simp
    show "prio_ok (hev_task_new a ctx)"
      unfolding hev_task_new_def by (rule prio_put [OF w(2)]) (simp add: prio_task_def)
  qed (use w(3) in \<open>auto simp: hev_task_new_def put_task_def running_def st_def key_of_def\<close>)
  then show ?thesis by (simp add: hev_task_new_def put_task_def)
qed

lemma unref_waiting:
  assumes "waiting_for w K ctx" "tasks ctx a = Some t" "state t = HEV_TASK_STOPPED \<or> task_refs t > 1"
    and "hev_task_unref a ctx = Ret ctx'"
  shows "waiting_for w K ctx' \<and> level ctx' = level ctx \<and> current_task ctx' = current_task ctx"
proof (cases "task_refs t = 1")
  case True
  have w: "sched_inv ctx" "prio_ok ctx" using assms by (simp_all add: waiting_for_def pending_def)
  have c: "ctx' = ctx\<lparr>tasks := (tasks ctx)(a := None)\<rparr>"
    using assms(2,4) True by (simp add: hev_task_unref_def get_task_def)
  have "sched_inv ctx'" using unref_inv [OF w(1) assms(2,3)] assms(4) by simp
  then have "waiting_for w K ctx' \<and> level ctx' = level ctx"
    by (rule kept_waiting [OF assms(1)])
      (use assms(2,3) True w(2) in \<open>auto simp: c running_def st_def key_of_def prio_ok_def ran_def\<close>)
  then show ?thesis by (simp add: c)
next
  case False
  have "task_refs t > 0" "next_priority t \<in> {1..15}"
    using assms(1,2) by (auto simp: waiting_for_def pending_def sched_inv_def prio_ok_def prio_task_def ran_def)
  then show ?thesis using put_waiting [OF assms(1,2), of "t\<lparr>task_refs := task_refs t - 1\<rparr>"] False assms(2,4)
    by (auto simp: hev_task_unref_def get_task_def put_task_def)
qed

lemma quiet_waiting:
  assumes "waiting_for w K ctx" "sched_may e ctx" "\<not> is_turn e" "sched_step e ctx = Ret ctx'"
    and "case e of SetPriority a p \<Rightarrow> p \<ge> 1 | _ \<Rightarrow> True"
  shows "waiting_for w K ctx' \<and> (\<forall>u. level ctx u \<le> level ctx' u) \<and> current_task ctx' = current_task ctx"
proof -
  have w: "sched_inv ctx" "run_inv ctx" "prio_ok ctx" using assms(1) by (simp_all add: waiting_for_def pending_def)
  have wake: "waiting_for w K x \<and> (\<forall>u. level ctx u \<le> level x u) \<and> current_task x = current_task ctx"
    if "a \<in> alive ctx" "hev_task_system_wakeup_task_with_context a ctx = Ret x" for a x
    using wakeup_wakes [OF w(2) that(1)] that(2) wakes_waiting [where ctx = ctx and tree = "sort_tree ctx" and ctx' = x] wakes_alive [of ctx x] w(1)
      assms(1) by auto
  have ref: "task_refs t > 0" "next_priority t \<in> {1..15}" if "tasks ctx a = Some t" for a t
    using w(1,3) that by (auto simp: sched_inv_def prio_ok_def prio_task_def ran_def)
  note put = put_waiting [OF assms(1)]
  show ?thesis
  proof (cases e)
    case (New a)
    then show ?thesis using new_waiting [OF assms(1)] assms(2,4) by auto
  next
    case (Run a)
    then obtain t where t: "tasks ctx a = Some t" using assms(2) by auto
    show ?thesis
    proof (cases "state t = HEV_TASK_STOPPED")
      case True
      have "current_task ctx' = current_task ctx" using run_new_inv [OF w(1) t True] assms(4) Run by (auto simp: enter_def)
      then show ?thesis using run_waiting [OF assms(1) t True] assms(4) Run by simp
    qed (use t Run assms(1,4) in \<open>simp add: hev_task_run_def get_task_def\<close>)
  next
    case (Ref a)
    then obtain t where t: "tasks ctx a = Some t" using assms(2) by auto
    then show ?thesis using put [OF t, of "t\<lparr>task_refs := task_refs t + 1\<rparr>"] ref [OF t] Ref assms(4)
      by (auto simp: hev_task_ref_def get_task_def put_task_def)
  next
    case (Unref a)
    then obtain t where t: "tasks ctx a = Some t" "state t = HEV_TASK_STOPPED \<or> task_refs t > 1"
      using assms(2) by (auto split: option.splits)
    then show ?thesis using unref_waiting [OF assms(1)] assms(4) Unref by auto
  next
    case (SetPriority a p)
    then obtain t where t: "tasks ctx a = Some t" using assms(2) by auto
    then show ?thesis using put [OF t, of "t\<lparr>next_priority := if p > 15 then 15 else p\<rparr>"] ref [OF t] SetPriority assms(4,5)
      by (auto simp: hev_task_set_priority_def get_task_def Let_def put_task_def split: if_splits)
  next
    case (Join a)
    then obtain t where t: "tasks ctx a = Some t" using assms(2) by auto
    then show ?thesis using put [OF t, of "t\<lparr>joiner := current_task ctx\<rparr>"] ref [OF t] Join assms(1,4)
      by (auto simp: task_join_begin_def get_task_def put_task_def split: if_splits)
  next
    case (JoinRound a)
    then obtain t where t: "tasks ctx a = Some t" using assms(2) by auto
    have "a \<in> alive ctx" if "state t \<noteq> HEV_TASK_STOPPED"
      using that t by (cases "state t") (auto simp: alive_def st_def)
    then show ?thesis using wake [of a] t JoinRound assms(1,4)
      by (auto simp: task_join_round_def get_task_def bind_o_Ret_iff split: if_splits)
  next
    case (SleepEnd now n lm)
    then obtain tree where "wakes (ctx\<lparr>sort_tree := tree\<rparr>) ctx'" "sched_inv (ctx\<lparr>sort_tree := tree\<rparr>)"
      using wait_end_inv [OF w(1), of n now lm] assms(2,4) by auto
    then show ?thesis using wakes_waiting [OF _ _ assms(1)] wakes_alive [of "ctx\<lparr>sort_tree := tree\<rparr>" ctx'] by simp
  qed (use wake assms in auto)
qed

section \<open>No starvation\<close>

definition distance :: "nat set \<Rightarrow> nat \<Rightarrow> sched \<Rightarrow> nat" where
  "distance V K ctx = (\<Sum>u\<in>V. Suc K - level ctx u)"

lemma distance_mono: "\<forall>u. level ctx u \<le> level ctx' u \<Longrightarrow> distance V K ctx' \<le> distance V K ctx"
  unfolding distance_def by (intro sum_mono diff_le_mono2) simp

lemma distance_drop:
  assumes "finite V" "c \<in> V" "\<forall>u. level ctx u \<le> level ctx' u" "level ctx c < level ctx' c" "level ctx c \<le> K"
  shows "distance V K ctx' < distance V K ctx"
  unfolding distance_def
proof (rule sum_strict_mono_ex1 [OF assms(1)])
  show "\<forall>u\<in>V. Suc K - level ctx' u \<le> Suc K - level ctx u" using assms(3) by (simp add: diff_le_mono2)
  show "\<exists>u\<in>V. Suc K - level ctx' u < Suc K - level ctx u" using assms(2,4,5) by (intro bexI [of _ c]) simp_all
qed

lemma first_level:
  assumes "waiting_for w K ctx"
  shows "unat (min_key ctx) \<le> K" "level ctx (hd (queue_of (running_tasks ctx))) \<le> K" "unat (min_key ctx) \<le> level ctx u"
proof -
  have r: "run_inv ctx" "w \<in> running ctx" "unat (key_of ctx w) = K"
    using assms by (simp_all add: waiting_for_def pending_def)
  show m: "unat (min_key ctx) \<le> K" using min_key_le [OF r(1,2)] r(3) by (simp add: word_le_nat_alt)
  obtain c q where q: "queue_of (running_tasks ctx) = c # q"
    using r(1,2) by (cases "queue_of (running_tasks ctx)") (auto simp: run_inv_def)
  then have "c \<in> running ctx" using r(1) by (auto simp: run_inv_def)
  then show "level ctx (hd (queue_of (running_tasks ctx))) \<le> K" using m q by (simp add: level_def min_key_def)
  show "unat (min_key ctx) \<le> level ctx u" using min_key_le [OF r(1), of u] by (simp add: level_def word_le_nat_alt)
qed

lemma run_distance:
  "waiting_for w K ctx \<Longrightarrow> current_task ctx = Some c \<Longrightarrow> c \<in> V \<Longrightarrow> finite V \<Longrightarrow> c \<noteq> w \<Longrightarrow> sched_legal es ctx \<Longrightarrow>
   sched_run es ctx = Ret (tr, z) \<Longrightarrow> set tr \<subseteq> V \<Longrightarrow> w \<notin> set tr \<Longrightarrow> length tr \<le> distance V K ctx"
proof (induction es arbitrary: ctx c tr)
  case (Cons e es)
  obtain x tr' where x: "sched_step e ctx = Ret x" "sched_run es x = Ret (tr', z)"
    "tr = (if is_turn e then (case current_task x of Some a \<Rightarrow> a # tr' | None \<Rightarrow> tr') else tr')"
    using Cons.prems(7) by (auto simp: bind_o_Ret_iff)
  have l: "sched_may e ctx" "case e of SetPriority a p \<Rightarrow> p \<ge> 1 | _ \<Rightarrow> True" "sched_legal es x"
    using Cons.prems(6) x(1) by simp_all
  show ?case
  proof (cases "is_turn e")
    case False
    have q: "waiting_for w K x" "\<forall>u. level ctx u \<le> level x u" "current_task x = Some c"
      using quiet_waiting [OF Cons.prems(1) l(1) False x(1) l(2)] Cons.prems(2) by simp_all
    have "length tr' \<le> distance V K x"
      using Cons.IH [OF q(1,3) Cons.prems(3-5) l(3) x(2)] x(3) False Cons.prems(8,9) by simp
    then show ?thesis using distance_mono [OF q(2), of V K] x(3) False by simp
  next
    case True
    have "sched_inv ctx" using Cons.prems(1) by (simp add: waiting_for_def)
    then have t: "turned ctx c x" using turn_step [OF _ l(1) True Cons.prems(2)] x(1) by simp
    note w = turned_waiting [OF t Cons.prems(1,2,5)]
    have c: "c = hd (queue_of (running_tasks ctx))" using Cons.prems(1,2) by (simp add: waiting_for_def)
    have d: "distance V K x < distance V K ctx"
      by (rule distance_drop [OF Cons.prems(4,3)]) (use w(2,3) first_level(2) [OF Cons.prems(1)] c in simp_all)
    obtain b where b: "current_task x = Some b" using w(1) by (simp add: waiting_for_def)
    have "length tr' \<le> distance V K x"
      using Cons.IH [OF w(1) b _ Cons.prems(4) _ l(3) x(2)] x(3) True b Cons.prems(8,9) by auto
    then show ?thesis using d x(3) True b by simp
  qed
qed simp

text \<open>C14. No running task starves. While all priorities are at least one and its key is not within one turn of the end of the
  64-bit range, a task that waits for the processor with key \<open>K\<close> gets it before the scheduler has made more turns than the number
  of tasks it resumes times the distance from the least key to \<open>K\<close>, whatever the other tasks do meanwhile: wake
  tasks, create tasks, sleep, yield, end, change priorities.\<close>

theorem scheduler_no_starvation:
  assumes "sched_reach ctx" "prio_ok ctx" "current_task ctx = Some c" "c = hd (inorder (base (running_tasks ctx)))"
    and "w \<in> running ctx" "unat (key_of ctx w) + 15 < 2 ^ 64"
    and "sched_legal es ctx" "sched_run es ctx = Ret (tr, z)" "finite V" "insert c (set tr) \<subseteq> V"
    and "length tr > card V * (Suc (unat (key_of ctx w)) - unat (min_key ctx))"
  shows "w = c \<or> w \<in> set tr"
proof (rule ccontr)
  assume n: "\<not> (w = c \<or> w \<in> set tr)"
  let ?K = "unat (key_of ctx w)"
  have "sched_inv ctx" by (rule reach_inv [OF assms(1)])
  then have w: "waiting_for w ?K ctx"
    using assms(2-6) by (simp add: waiting_for_def pending_def sched_inv_def queue_of_def)
  have "length tr \<le> distance V ?K ctx" using run_distance [OF w assms(3) _ assms(9) _ assms(7,8)] assms(10) n by auto
  also have "\<dots> \<le> (\<Sum>u\<in>V. Suc ?K - unat (min_key ctx))"
    unfolding distance_def by (intro sum_mono diff_le_mono2) (rule first_level(3) [OF w])
  finally show False using assms(11) by simp
qed

theorem scheduler_no_starvation_witness:
  "2 \<in> set (fst (case sched_run [Yield [], Yield [], Yield []] demo_sched of Ret x \<Rightarrow> x | _ \<Rightarrow> ([], demo_sched)))"
proof -
  let ?es = "[Yield [], Yield [], Yield []] :: sched_event list"
  have r: "sched_legal ?es demo_sched"
    by (simp add: demo_sched_def demo_task_def sched_eval Let_def polls_ok_def)
  obtain z where z: "sched_run ?es demo_sched = Ret ([2, 1, 2], z)"
    by (simp add: demo_sched_def demo_task_def sched_eval Let_def)
  have "prio_task demo_task" by (simp add: demo_task_def prio_task_def)
  then have "prio_ok demo_sched" by (auto simp: prio_ok_def demo_sched_def ran_def split: if_splits)
  moreover have "2 \<in> running demo_sched" "key_of demo_sched 2 = 8" "min_key demo_sched = 8"
    by (simp_all add: running_def st_def key_of_def min_key_def queue_of_def demo_sched_def demo_task_def)
  ultimately have "2 = (1::nat) \<or> 2 \<in> set [2, 1, 2::nat]"
    using scheduler_no_starvation [OF demo_reach, of 1 2 ?es "[2, 1, 2]" z "{1, 2}"] r z by (simp add: demo_sched_def)
  then show ?thesis using z by simp
qed

end
