(* ===== verification/SchedTimer.thy ===== *)
theory SchedTimer
  imports SchedRun
begin

text \<open>
  Time. A sleep of some milliseconds expires exactly then, although the code leaves a full second of
  nanoseconds unnormalised; the time-out of a poll is the time to the first expiry rounded up, so a poll that
  times out finds it expired and wakes its task. The time-out is handed on as a signed number, so from
  \<open>2\<^sup>31\<close> milliseconds on the poll has no time-out.
\<close>

section \<open>Nanoseconds\<close>

definition ns :: "timespec \<Rightarrow> int" where
  "ns t = tv_sec t * 1000000000 + tv_nsec t"

text \<open>What \<open>clock_gettime\<close> returns, and what an expiry may be.\<close>

definition is_time :: "timespec \<Rightarrow> bool" where
  "is_time t \<longleftrightarrow> 0 \<le> tv_nsec t \<and> tv_nsec t < 1000000000"

definition is_expiry :: "timespec \<Rightarrow> bool" where
  "is_expiry t \<longleftrightarrow> 0 \<le> tv_nsec t \<and> tv_nsec t \<le> 1000000000"

lemma expire_exact:
  assumes "is_time t"
  shows "ns (hev_task_timer_get_expire t ms) = ns t + uint ms * 1000000" "is_expiry (hev_task_timer_get_expire t ms)"
proof -
  have m: "uint (ms mod 1000 * 1000000) = uint ms mod 1000 * 1000000"
  proof -
    have "uint ms mod 1000 * 1000000 < 2 ^ 32" by (simp add: order_le_less_trans [of _ "999 * 1000000"])
    then show ?thesis by (simp add: uint_word_ariths uint_mod)
  qed
  have d: "uint (ms div 1000) = uint ms div 1000" by (simp add: uint_div)
  have s: "uint ms mod 1000 * 1000000 + uint ms div 1000 * 1000000000 = uint ms * 1000000" by presburger
  show "ns (hev_task_timer_get_expire t ms) = ns t + uint ms * 1000000"
    unfolding hev_task_timer_get_expire_def Let_def m d ns_def using s by (simp add: algebra_simps)
  have "0 \<le> uint ms mod 1000" "uint ms mod 1000 \<le> 999" by simp_all
  then show "is_expiry (hev_task_timer_get_expire t ms)"
    using assms unfolding hev_task_timer_get_expire_def Let_def m d is_expiry_def is_time_def by auto
qed

lemma cmp_ns: "is_time t \<Longrightarrow> is_expiry e \<Longrightarrow> hev_task_timer_cmp t e < 0 \<longleftrightarrow> ns t < ns e"
  by (auto simp: hev_task_timer_cmp_def ns_def is_time_def is_expiry_def)

lemma get_time_ns:
  assumes "is_time t" "is_expiry e"
  shows "hev_task_timer_get_time t e = word_of_int (max 0 ((ns e - ns t + 999999) div 1000000))"
proof -
  define sec nsec where "sec = tv_sec e - tv_sec t - (if tv_nsec e < tv_nsec t then 1 else 0)"
    and "nsec = tv_nsec e - tv_nsec t + (if tv_nsec e < tv_nsec t then 1000000000 else 0)"
  have b: "0 \<le> nsec" "nsec \<le> 1000000000" using assms by (auto simp: nsec_def is_time_def is_expiry_def)
  have d: "ns e - ns t = sec * 1000000000 + nsec" by (simp add: ns_def sec_def nsec_def)
  have g: "hev_task_timer_get_time t e = (if sec < 0 then 0 else word_of_int (sec * 1000 + (nsec + 999999) div 1000000))"
    by (auto simp: hev_task_timer_get_time_def Let_def sec_def nsec_def)
  have "(ns e - ns t + 999999) div 1000000 = sec * 1000 + (nsec + 999999) div 1000000"
    unfolding d using div_mult_self2 [of 1000000 "nsec + 999999" "sec * 1000"] by (simp add: algebra_simps)
  moreover have "(nsec + 999999) div 1000000 \<le> 1000" "0 \<le> (nsec + 999999) div 1000000" using b by linarith+
  ultimately have "sec < 0 \<Longrightarrow> max 0 ((ns e - ns t + 999999) div 1000000) = 0"
    "\<not> sec < 0 \<Longrightarrow> max 0 ((ns e - ns t + 999999) div 1000000) = sec * 1000 + (nsec + 999999) div 1000000" by linarith+
  then show ?thesis unfolding g by (cases "sec < 0") simp_all
qed

lemma get_timeout_ns:
  assumes "is_time t" "is_expiry (expire n)" "hev_rbtree_cached_first (sort_tree ctx) = Some n"
    and "d = max 0 ((ns (expire n) - ns t + 999999) div 1000000)"
  shows "d < 2 ^ 31 \<Longrightarrow> hev_task_timer_get_timeout t ctx = d"
    "2 ^ 31 \<le> d \<Longrightarrow> d < 2 ^ 32 \<Longrightarrow> hev_task_timer_get_timeout t ctx < 0"
proof -
  have g: "hev_task_timer_get_timeout t ctx = (d + 2 ^ 31) mod 2 ^ 32 - 2 ^ 31"
    using assms(3,4) get_time_ns [OF assms(1,2)] by (simp add: hev_task_timer_get_timeout_def int_word_sint)
  have p: "0 \<le> d" using assms(4) by simp
  show "hev_task_timer_get_timeout t ctx = d" if "d < 2 ^ 31"
    unfolding g using that p mod_pos_pos_trivial [of "d + 2 ^ 31" "2 ^ 32"] by simp
  show "hev_task_timer_get_timeout t ctx < 0" if "2 ^ 31 \<le> d" "d < 2 ^ 32"
    unfolding g using that mod_pos_pos_trivial [of "d - 2 ^ 31" "2 ^ 32"] mod_add_self2 [of "d - 2 ^ 31" "2 ^ 32"]
    by (simp add: add.commute)
qed

lemma poll_wakes_first:
  assumes "sched_inv ctx" "is_time (poll_at p)" "is_expiry (expire n)" "hev_rbtree_cached_first (sort_tree ctx) = Some n"
    and "\<forall>tmo. set (fst (reactor p tmo)) \<subseteq> alive ctx" "\<forall>tmo \<ge> 0. is_time (snd (reactor p tmo)) \<and>
      (fst (reactor p tmo) = [] \<longrightarrow> ns (snd (reactor p tmo)) \<ge> ns (poll_at p) + tmo * 1000000)"
    and "ns (expire n) - ns (poll_at p) \<le> (2 ^ 31 - 1) * 1000000"
  shows "\<exists>ctx'. hev_task_system_io_poll p (- 1) ctx = Ret ctx' \<and>
    (fst (reactor p (hev_task_timer_get_timeout (poll_at p) ctx)) = [] \<longrightarrow> node_task n \<in> running ctx')"
proof -
  let ?d = "max 0 ((ns (expire n) - ns (poll_at p) + 999999) div 1000000)"
  let ?r = "reactor p ?d"
  have i: "run_inv ctx" "time_inv ctx" using assms(1) by (simp_all add: sched_inv_def)
  have d: "?d < 2 ^ 31" using assms(7) by simp
  have t: "hev_task_timer_get_timeout (poll_at p) ctx = ?d" by (rule get_timeout_ns(1) [OF assms(2-4) refl d])
  obtain q where q: "queue_of (sort_tree ctx) = n # q"
    using assms(4) i(2) cached_first_queue [of "sort_tree ctx"] by (auto simp: time_inv_def split: list.splits)
  have "hev_task_timer_cmp (snd ?r) (expire n) \<ge> 0" if "fst ?r = []"
  proof -
    have "is_time (snd ?r)" "ns (snd ?r) \<ge> ns (poll_at p) + ?d * 1000000"
      using assms(6) [rule_format, of ?d] that by simp_all
    moreover have "ns (expire n) - ns (poll_at p) \<le> ?d * 1000000" by linarith
    ultimately show ?thesis using cmp_ns [OF _ assms(3)] by (simp add: linorder_not_less [symmetric])
  qed
  then show ?thesis using io_poll_wakes [OF i assms(5), of "- 1"] q t by auto
qed

lemma first_least:
  assumes "time_inv ctx" "hev_rbtree_cached_first (sort_tree ctx) = Some n" "m \<in> set (queue_of (sort_tree ctx))"
  shows "hev_task_timer_cmp (expire n) (expire m) \<le> 0"
proof -
  have "node_key n \<le> node_key m"
    using assms cached_first_queue [of "sort_tree ctx"] by (auto simp: time_inv_def split: list.splits)
  then show ?thesis by (auto simp: node_key_def less_eq_prod_def hev_task_timer_cmp_def)
qed

section \<open>Theorem\<close>

text \<open>C19. A sleep ends on time. When no task is running and the first node of the timer belongs to a sleep of
  \<open>ms\<close> milliseconds that began at \<open>now\<close>, no other sleep ends earlier, the time-out of the poll is the time
  that remains, rounded up to a millisecond, and a poll that waits this long without events puts the sleeping
  task into the running tree, no earlier than the sleep asked for. The remaining time must be below
  \<open>2\<^sup>31\<close> milliseconds; the reactor only has to report live tasks and to keep to its time-out.\<close>

theorem sleep_ends_on_time:
  assumes "sched_reach ctx" "hev_rbtree_cached_first (sort_tree ctx) = Some n"
    and "expire n = hev_task_timer_get_expire now ms" "is_time now" "is_time (poll_at p)"
    and "rest = ns now + uint ms * 1000000 - ns (poll_at p)" "rest \<le> (2 ^ 31 - 1) * 1000000"
    and "tmo = hev_task_timer_get_timeout (poll_at p) ctx" "\<forall>t. set (fst (reactor p t)) \<subseteq> alive ctx"
    and "\<forall>t \<ge> 0. is_time (snd (reactor p t)) \<and> (fst (reactor p t) = [] \<longrightarrow> ns (snd (reactor p t)) \<ge> ns (poll_at p) + t * 1000000)"
  shows "(\<forall>m \<in> set (inorder (base (sort_tree ctx))). hev_task_timer_cmp (expire n) (expire m) \<le> 0) \<and>
    0 \<le> tmo \<and> rest \<le> tmo * 1000000 \<and> (tmo = 0 \<or> (tmo - 1) * 1000000 < rest) \<and>
    (\<exists>ctx'. hev_task_system_io_poll p (- 1) ctx = Ret ctx' \<and>
      (fst (reactor p tmo) = [] \<longrightarrow> node_task n \<in> running ctx' \<and> ns (snd (reactor p tmo)) \<ge> ns now + uint ms * 1000000))"
proof -
  have i: "sched_inv ctx" by (rule reach_inv [OF assms(1)])
  have e: "is_expiry (expire n)" "ns (expire n) - ns (poll_at p) = rest"
    using expire_exact [OF assms(4), of ms] assms(3,6) by simp_all
  let ?d = "max 0 ((rest + 999999) div 1000000)"
  have d: "?d < 2 ^ 31" using assms(7) by simp
  have t: "tmo = ?d" using get_timeout_ns(1) [OF assms(5) e(1) assms(2) refl] e(2) d assms(8) by simp
  have b: "0 \<le> ?d" "rest \<le> ?d * 1000000" "?d = 0 \<or> (?d - 1) * 1000000 < rest"
    by (cases "0 < (rest + 999999) div 1000000"; simp; linarith)+
  obtain ctx' where c: "hev_task_system_io_poll p (- 1) ctx = Ret ctx'"
    "fst (reactor p tmo) = [] \<Longrightarrow> node_task n \<in> running ctx'"
    using poll_wakes_first [OF i assms(5) e(1) assms(2,9,10)] e(2) assms(7,8) by auto
  have "ns (snd (reactor p tmo)) \<ge> ns now + uint ms * 1000000" if "fst (reactor p tmo) = []"
    using assms(10) [rule_format, of tmo] that b t assms(6) by linarith
  then show ?thesis using first_least [of ctx n] i assms(2) b c unfolding t [symmetric]
    by (auto simp: sched_inv_def queue_of_def)
qed

text \<open>From \<open>2\<^sup>31\<close> milliseconds on the time-out is negative when the sleep begins: the poll waits for an
  event, however late.\<close>

lemma long_sleep_no_timeout:
  assumes "hev_rbtree_cached_first (sort_tree ctx) = Some n" "expire n = hev_task_timer_get_expire now ms"
    and "is_time now" "ms \<ge> 2 ^ 31"
  shows "hev_task_timer_get_timeout now ctx < 0"
proof -
  have "2 ^ 31 \<le> uint ms" "uint ms < 2 ^ 32" using assms(4) uint_bounded [of ms] by (simp_all add: word_le_def)
  then show ?thesis
    using get_timeout_ns(2) [OF assms(3) _ assms(1) refl] expire_exact [OF assms(3), of ms] assms(2) by simp
qed

text \<open>The first of two tasks sleeps for five milliseconds; the reactor reports nothing.\<close>

definition demo_time :: "int \<Rightarrow> timespec" where
  "demo_time t = \<lparr>tv_sec = t div 1000, tv_nsec = t mod 1000 * 1000000\<rparr>"

definition demo_poll :: "int \<Rightarrow> poll" where
  "demo_poll t = \<lparr>poll_at = demo_time t, reactor = (\<lambda>tmo. ([], demo_time (t + tmo)))\<rparr>"

definition demo_node :: timer_node where
  "demo_node = \<lparr>node_addr = 9, expire = hev_task_timer_get_expire (demo_time 100) 5, node_task = 1\<rparr>"

definition demo_asleep :: sched where
  "demo_asleep = (case sched_run [Sleep (demo_time 100) 5 9 [demo_poll 101]] demo_sched of Ret (tr, z) \<Rightarrow> z | _ \<Rightarrow> demo_sched)"

lemma demo_time_ns: "ns (demo_time t) = t * 1000000" "is_time (demo_time t)"
proof -
  have "t div 1000 * 1000000000 + t mod 1000 * 1000000 = t * 1000000" by presburger
  then show "ns (demo_time t) = t * 1000000" by (simp add: ns_def demo_time_def)
  show "is_time (demo_time t)" by (simp add: is_time_def demo_time_def)
qed

lemma demo_asleep_reach: "sched_reach demo_asleep" "hev_rbtree_cached_first (sort_tree demo_asleep) = Some demo_node"
proof -
  let ?es = "[Sleep (demo_time 100) 5 9 [demo_poll 101]]"
  note d = demo_sched_def demo_task_def sched_eval Let_def demo_poll_def demo_time_def hev_task_system_io_poll_def
    hev_task_timer_wake_def hev_task_timer_wakeup_def hev_task_timer_cmp_def hev_task_timer_get_expire_def
    timer_wait_begin_def
  have "\<exists>tr. sched_run ?es demo_sched = Ret (tr, demo_asleep) \<and>
      hev_rbtree_cached_first (sort_tree demo_asleep) = Some demo_node"
    by (simp add: demo_asleep_def demo_node_def d)
  moreover have "sched_legal ?es demo_sched" by (simp add: d polls_ok_def queue_of_def)
  ultimately show "sched_reach demo_asleep" "hev_rbtree_cached_first (sort_tree demo_asleep) = Some demo_node"
    using reach_run [OF demo_reach] by blast+
qed

theorem sleep_ends_on_time_witness:
  "\<exists>ctx'. hev_task_system_io_poll (demo_poll 102) (- 1) demo_asleep = Ret ctx' \<and> 1 \<in> running ctx'"
proof -
  have p: "poll_at (demo_poll 102) = demo_time 102" "reactor (demo_poll 102) t = ([], demo_time (102 + t))" for t
    by (simp_all add: demo_poll_def)
  show ?thesis
    using sleep_ends_on_time [OF demo_asleep_reach, of "demo_time 100" 5 "demo_poll 102" 3000000, OF _ _ _ _ _ refl]
    by (auto simp: p demo_time_ns demo_node_def)
qed

end
