(* ===== verification/Sync.thy ===== *)
theory Sync
  imports SchedRun
begin

text \<open>
  The mutex and the condition of the task system (\<open>kern/sync/hev-task-mutex.c\<close>, \<open>hev-task-cond.c\<close>). The
  nodes of waiting tasks lie on their stacks and are linked into a stack of waiters. Both only need to wake
  tasks; the locale \<open>waking\<close> is what they rely on of the scheduler.

  A call that yields is split there: what it does before, and what it does each time it is resumed.
\<close>

section \<open>What is needed of the scheduler\<close>

locale waking =
  fixes wake :: "nat \<Rightarrow> 's \<Rightarrow> 's outcome" and ok :: "'s \<Rightarrow> bool" and live :: "'s \<Rightarrow> nat set" and ready :: "'s \<Rightarrow> nat set"
  assumes wake_ready: "ok s \<Longrightarrow> a \<in> live s \<Longrightarrow>
    \<exists>s'. wake a s = Ret s' \<and> ok s' \<and> live s' = live s \<and> insert a (ready s) \<subseteq> ready s'"

interpretation sched: waking hev_task_system_wakeup_task_with_context sched_inv alive running
proof
  fix ctx a assume i: "sched_inv ctx" and a: "a \<in> alive ctx"
  then have "run_inv ctx" by (simp add: sched_inv_def)
  from wakeup_wakes [OF this a] show "\<exists>ctx'. hev_task_system_wakeup_task_with_context a ctx = Ret ctx' \<and> sched_inv ctx' \<and>
      alive ctx' = alive ctx \<and> insert a (running ctx) \<subseteq> running ctx'"
    using wakes_inv [OF _ i] wakes_alive [OF _ i] by blast
qed

section \<open>The mutex\<close>

record mnode =
  mnext :: "nat option"
  mtask :: nat

record task_mutex =
  locked :: bool
  mwaiters :: "nat option"
  mnodes :: "nat \<Rightarrow> mnode option"

definition mutex_init :: "task_mutex \<Rightarrow> task_mutex" where
  "mutex_init m = m\<lparr>locked := False, mwaiters := None\<rparr>"

text \<open>\<open>hev_task_mutex_lock\<close> by task \<open>a\<close>, whose node would be \<open>n\<close>: it has the mutex (\<open>True\<close>), or waits.\<close>

definition mutex_lock_begin :: "nat \<Rightarrow> nat \<Rightarrow> task_mutex \<Rightarrow> bool \<times> task_mutex" where
  "mutex_lock_begin n a m =
     (if locked m then (False, m\<lparr>mnodes := (mnodes m)(n \<mapsto> \<lparr>mnext = mwaiters m, mtask = a\<rparr>), mwaiters := Some n\<rparr>)
      else (True, m\<lparr>locked := True\<rparr>))"

text \<open>Each time it is resumed. Once it has the mutex, its node is gone with the frame of the call.\<close>

definition mutex_lock_resume :: "nat \<Rightarrow> task_mutex \<Rightarrow> (bool \<times> task_mutex) outcome" where
  "mutex_lock_resume n m =
     (if locked m \<or> mwaiters m \<noteq> Some n then Ret (False, m)
      else bind_o (of_option (mnodes m n)) (\<lambda>node.
        Ret (True, m\<lparr>mwaiters := mnext node, locked := True, mnodes := (mnodes m)(n := None)\<rparr>)))"

definition mutex_trylock :: "task_mutex \<Rightarrow> int \<times> task_mutex" where
  "mutex_trylock m = (if locked m then (- 1, m) else (0, m\<lparr>locked := True\<rparr>))"

definition mutex_unlock :: "(nat \<Rightarrow> 's \<Rightarrow> 's outcome) \<Rightarrow> task_mutex \<Rightarrow> 's \<Rightarrow> (task_mutex \<times> 's) outcome" where
  "mutex_unlock wake m s =
     (let m = m\<lparr>locked := False\<rparr> in
      case mwaiters m of
        None \<Rightarrow> Ret (m, s)
      | Some n \<Rightarrow> bind_o (of_option (mnodes m n)) (\<lambda>node. bind_o (wake (mtask node) s) (\<lambda>s. Ret (m, s))))"

text \<open>The stack of waiters.\<close>

fun mchain :: "(nat \<Rightarrow> mnode option) \<Rightarrow> nat option \<Rightarrow> (nat \<times> nat) list \<Rightarrow> bool" where
  "mchain h p [] \<longleftrightarrow> p = None"
| "mchain h p ((n, a) # ws) \<longleftrightarrow> p = Some n \<and> (\<exists>node. h n = Some node \<and> mtask node = a \<and> mchain h (mnext node) ws)"

lemma mchain_other: "n \<notin> fst ` set ws \<Longrightarrow> mchain (h(n := x)) p ws = mchain h p ws"
  by (induction ws arbitrary: p) auto

text \<open>Tasks use the mutex in any order while others run. A task that yields may leave the ready set, nobody
  else does. \<open>waiting\<close> are the nodes and tasks in the stack.\<close>

inductive mutex_step :: "(nat \<Rightarrow> 's \<Rightarrow> 's outcome) \<Rightarrow> ('s \<Rightarrow> bool) \<Rightarrow> ('s \<Rightarrow> nat set) \<Rightarrow> ('s \<Rightarrow> nat set) \<Rightarrow>
    task_mutex \<times> (nat \<times> nat) list \<times> 's \<Rightarrow> task_mutex \<times> (nat \<times> nat) list \<times> 's \<Rightarrow> bool"
  for wake ok live ready where
  acquire: "mutex_lock_begin n a m = (True, m') \<Longrightarrow> mutex_step wake ok live ready (m, ws, s) (m', ws, s)"
| enqueue: "mutex_lock_begin n a m = (False, m') \<Longrightarrow> n \<notin> fst ` set ws \<Longrightarrow> a \<notin> snd ` set ws \<Longrightarrow> a \<in> live s \<Longrightarrow>
    ok s' \<Longrightarrow> live s' = live s \<Longrightarrow> ready s - {a} \<subseteq> ready s' \<Longrightarrow> mutex_step wake ok live ready (m, ws, s) (m', (n, a) # ws, s')"
| again: "(n, a) \<in> set ws \<Longrightarrow> a \<in> ready s \<Longrightarrow> mutex_lock_resume n m = Ret (False, m') \<Longrightarrow>
    ok s' \<Longrightarrow> live s' = live s \<Longrightarrow> ready s - {a} \<subseteq> ready s' \<Longrightarrow> mutex_step wake ok live ready (m, ws, s) (m', ws, s')"
| take_over: "(n, a) \<in> set ws \<Longrightarrow> a \<in> ready s \<Longrightarrow> mutex_lock_resume n m = Ret (True, m') \<Longrightarrow>
    mutex_step wake ok live ready (m, ws, s) (m', filter (\<lambda>w. fst w \<noteq> n) ws, s)"
| trylock: "mutex_trylock m = (r, m') \<Longrightarrow> mutex_step wake ok live ready (m, ws, s) (m', ws, s)"
| unlock: "mutex_unlock wake m s = Ret (m', s') \<Longrightarrow> mutex_step wake ok live ready (m, ws, s) (m', ws, s')"
| others: "ok s' \<Longrightarrow> snd ` set ws \<subseteq> live s' \<Longrightarrow> ready s \<inter> snd ` set ws \<subseteq> ready s' \<Longrightarrow> mutex_step wake ok live ready (m, ws, s) (m, ws, s')"

definition mutex_inv :: "('s \<Rightarrow> bool) \<Rightarrow> ('s \<Rightarrow> nat set) \<Rightarrow> ('s \<Rightarrow> nat set) \<Rightarrow> task_mutex \<times> (nat \<times> nat) list \<times> 's \<Rightarrow> bool" where
  "mutex_inv ok live ready = (\<lambda>(m, ws, s). ok s \<and> mchain (mnodes m) (mwaiters m) ws \<and> distinct (map fst ws) \<and> distinct (map snd ws) \<and>
     snd ` set ws \<subseteq> live s \<and> (\<forall>n a ws'. \<not> locked m \<and> ws = (n, a) # ws' \<longrightarrow> a \<in> ready s))"

context waking begin

lemma unlock_wakes:
  assumes "mutex_inv ok live ready (m, ws, s)"
  shows "\<exists>s'. mutex_unlock wake m s = Ret (m\<lparr>locked := False\<rparr>, s') \<and> ok s' \<and> live s' = live s \<and> ready s \<subseteq> ready s' \<and>
    (\<forall>n a ws'. ws = (n, a) # ws' \<longrightarrow> a \<in> ready s')"
proof (cases ws)
  case Nil
  then show ?thesis using assms by (auto simp: mutex_inv_def mutex_unlock_def)
next
  case (Cons w ws')
  obtain n a where w: "w = (n, a)" by fastforce
  have "a \<in> live s" "ok s" using assms Cons w by (auto simp: mutex_inv_def)
  from wake_ready [OF this(2,1)] show ?thesis using assms Cons w
    by (auto simp: mutex_inv_def mutex_unlock_def)
qed

lemma obtain_top:
  assumes "mutex_inv ok live ready (m, ws, s)" "mutex_lock_resume n m = Ret (True, m')"
  shows "\<exists>a ws' node. ws = (n, a) # ws' \<and> \<not> locked m \<and> mnodes m n = Some node \<and> filter (\<lambda>w. fst w \<noteq> n) ws = ws' \<and>
    m' = m\<lparr>mwaiters := mnext node, locked := True, mnodes := (mnodes m)(n := None)\<rparr>"
proof -
  have r: "\<not> locked m" "mwaiters m = Some n" using assms(2) by (auto simp: mutex_lock_resume_def split: if_splits)
  obtain node where node: "mnodes m n = Some node"
      "m' = m\<lparr>mwaiters := mnext node, locked := True, mnodes := (mnodes m)(n := None)\<rparr>"
    using assms(2) r by (cases "mnodes m n") (auto simp: mutex_lock_resume_def)
  obtain a ws' where w: "ws = (n, a) # ws'" using assms(1) r(2) by (cases ws) (auto simp: mutex_inv_def)
  have "n \<notin> fst ` set ws'" using assms(1) w by (auto simp: mutex_inv_def)
  then have "filter (\<lambda>w. fst w \<noteq> n) ws' = ws'" by (induction ws') auto
  then show ?thesis using w r node by auto
qed

lemma mutex_step_inv:
  assumes "mutex_step wake ok live ready x y" "mutex_inv ok live ready x"
  shows "mutex_inv ok live ready y"
  using assms
proof (induction rule: mutex_step.induct)
  case (acquire n a m m' ws s)
  then show ?case by (auto simp: mutex_lock_begin_def mutex_inv_def split: if_splits)
next
  case (enqueue n a m m' ws s s')
  then have "m' = m\<lparr>mnodes := (mnodes m)(n \<mapsto> \<lparr>mnext = mwaiters m, mtask = a\<rparr>), mwaiters := Some n\<rparr>" "locked m"
    by (auto simp: mutex_lock_begin_def split: if_splits)
  then show ?case using enqueue by (auto simp: mutex_inv_def mchain_other)
next
  case (again n a ws s m m' s')
  have m: "m' = m" "locked m \<or> mwaiters m \<noteq> Some n"
    using again(3) by (auto simp: mutex_lock_resume_def bind_o_Ret_iff split: if_splits)
  have "b \<in> ready s'" if "\<not> locked m" "ws = (k, b) # ws'" for k b ws'
  proof -
    have "mwaiters m = Some k" using again.prems that(2) by (simp add: mutex_inv_def)
    then have "k \<noteq> n" using m(2) that(1) by auto
    then have "b \<noteq> a" using again(1) again.prems that(2) by (force simp: mutex_inv_def)
    then show ?thesis using again(6) again.prems that by (auto simp: mutex_inv_def)
  qed
  then show ?case using again m by (auto simp: mutex_inv_def)
next
  case (take_over n a ws s m m')
  from obtain_top [OF take_over(4,3)] take_over(4) show ?case by (auto simp: mutex_inv_def mchain_other)
next
  case (trylock m r m' ws s)
  then show ?case by (auto simp: mutex_trylock_def mutex_inv_def split: if_splits)
next
  case (unlock m s m' s' ws)
  from unlock_wakes [OF unlock.prems] unlock show ?case by (auto simp: mutex_inv_def)
next
  case (others s' ws s m)
  then show ?case by (auto simp: mutex_inv_def)
qed

lemma mutex_steps_inv: "(mutex_step wake ok live ready)\<^sup>*\<^sup>* x y \<Longrightarrow> mutex_inv ok live ready x \<Longrightarrow> mutex_inv ok live ready y"
  by (induction rule: rtranclp_induct) (auto intro: mutex_step_inv)

end

section \<open>The condition\<close>

record cnode =
  cprev :: "nat option"
  cnext :: "nat option"
  ctask :: "nat option"

record task_cond =
  cwaiters :: "nat option"
  cnodes :: "nat \<Rightarrow> cnode option"

definition cond_init :: "task_cond \<Rightarrow> task_cond" where
  "cond_init c = c\<lparr>cwaiters := None\<rparr>"

definition upd_cnode :: "nat \<Rightarrow> (cnode \<Rightarrow> cnode) \<Rightarrow> task_cond \<Rightarrow> task_cond outcome" where
  "upd_cnode n f c = bind_o (of_option (cnodes c n)) (\<lambda>node. Ret (c\<lparr>cnodes := (cnodes c)(n \<mapsto> f node)\<rparr>))"

text \<open>The common beginning of \<open>hev_task_cond_wait\<close> and \<open>hev_task_cond_timedwait\<close>, up to the first yield.\<close>

definition cond_wait_begin :: "(nat \<Rightarrow> 's \<Rightarrow> 's outcome) \<Rightarrow> nat \<Rightarrow> nat \<Rightarrow> task_cond \<Rightarrow> task_mutex \<Rightarrow> 's \<Rightarrow>
    (task_cond \<times> task_mutex \<times> 's) outcome" where
  "cond_wait_begin wake n a c m s =
     (let w = cwaiters c; c = c\<lparr>cnodes := (cnodes c)(n \<mapsto> \<lparr>cprev = None, cnext = w, ctask = Some a\<rparr>)\<rparr> in
      bind_o (case w of Some k \<Rightarrow> upd_cnode k (cprev_update (\<lambda>_. Some n)) c | None \<Rightarrow> Ret c) (\<lambda>c.
        let c = c\<lparr>cwaiters := Some n\<rparr> in
        bind_o (mutex_unlock wake m s) (\<lambda>(m, s). Ret (c, m, s))))"

text \<open>The test of both loops: the node has been signalled.\<close>

definition cond_signalled :: "nat \<Rightarrow> task_cond \<Rightarrow> bool outcome" where
  "cond_signalled n c = bind_o (of_option (cnodes c n)) (\<lambda>node. Ret (ctask node = None))"

text \<open>The end of \<open>hev_task_cond_timedwait\<close>, when it has the mutex again: a node without a signal is unlinked.\<close>

definition cond_timedwait_end :: "nat \<Rightarrow> task_cond \<Rightarrow> (int \<times> task_cond) outcome" where
  "cond_timedwait_end n c =
     bind_o (of_option (cnodes c n)) (\<lambda>node.
       if ctask node \<noteq> None then
         bind_o (case cprev node of Some k \<Rightarrow> upd_cnode k (cnext_update (\<lambda>_. cnext node)) c | None \<Rightarrow> Ret c) (\<lambda>c.
         bind_o (case cnext node of Some k \<Rightarrow> upd_cnode k (cprev_update (\<lambda>_. cprev node)) c | None \<Rightarrow> Ret c) (\<lambda>c.
           Ret (- 1, if cwaiters c = Some n then c\<lparr>cwaiters := None\<rparr> else c)))
       else Ret (0, c))"

text \<open>One waiter is woken and taken off; \<open>fix_prev\<close> is what only \<open>hev_task_cond_signal\<close> does.\<close>

definition cond_pop :: "bool \<Rightarrow> (nat \<Rightarrow> 's \<Rightarrow> 's outcome) \<Rightarrow> nat \<Rightarrow> task_cond \<Rightarrow> 's \<Rightarrow> (task_cond \<times> 's) outcome" where
  "cond_pop fix_prev wake n c s =
     bind_o (of_option (cnodes c n)) (\<lambda>node. bind_o (of_option (ctask node)) (\<lambda>a. bind_o (wake a s) (\<lambda>s.
       bind_o (upd_cnode n (ctask_update (\<lambda>_. None)) c) (\<lambda>c.
         let c = c\<lparr>cwaiters := cnext node\<rparr> in
         bind_o (case cnext node of
             Some k \<Rightarrow> if fix_prev then upd_cnode k (cprev_update (\<lambda>_. None)) c else Ret c
           | None \<Rightarrow> Ret c) (\<lambda>c. Ret (c, s))))))"

definition cond_signal :: "(nat \<Rightarrow> 's \<Rightarrow> 's outcome) \<Rightarrow> task_cond \<Rightarrow> 's \<Rightarrow> (task_cond \<times> 's) outcome" where
  "cond_signal wake c s = (case cwaiters c of None \<Rightarrow> Ret (c, s) | Some n \<Rightarrow> cond_pop True wake n c s)"

text \<open>The loop of \<open>hev_task_cond_broadcast\<close>, \<open>k\<close> rounds at most.\<close>

fun cond_broadcast :: "nat \<Rightarrow> (nat \<Rightarrow> 's \<Rightarrow> 's outcome) \<Rightarrow> task_cond \<Rightarrow> 's \<Rightarrow> (task_cond \<times> 's) outcome" where
  "cond_broadcast k wake c s =
     (case cwaiters c of
        None \<Rightarrow> Ret (c, s)
      | Some n \<Rightarrow> (case k of
          0 \<Rightarrow> Wait
        | Suc k \<Rightarrow> bind_o (cond_pop False wake n c s) (\<lambda>(c, s). cond_broadcast k wake c s)))"

declare cond_broadcast.simps [simp del]

text \<open>The waiters, from the last to come: their nodes and tasks. Only \<open>timedwait\<close> reads the back links.\<close>

fun cchain :: "(nat \<Rightarrow> cnode option) \<Rightarrow> nat option \<Rightarrow> (nat \<times> nat) list \<Rightarrow> bool" where
  "cchain h p [] \<longleftrightarrow> p = None"
| "cchain h p ((n, a) # ws) \<longleftrightarrow> p = Some n \<and> (\<exists>node. h n = Some node \<and> ctask node = Some a \<and> cchain h (cnext node) ws)"

lemma cchain_upd:
  assumes "cchain h p ws" "\<forall>w \<in> set ws. \<forall>node. h (fst w) = Some node \<longrightarrow>
      (\<exists>node'. h' (fst w) = Some node' \<and> ctask node' = ctask node \<and> cnext node' = cnext node)"
  shows "cchain h' p ws"
  using assms
proof (induction ws arbitrary: p)
  case (Cons w ws)
  obtain n a where w: "w = (n, a)" by fastforce
  then obtain node where node: "p = Some n" "h n = Some node" "ctask node = Some a" "cchain h (cnext node) ws"
    using Cons.prems(1) by auto
  obtain node' where node': "h' n = Some node'" "ctask node' = ctask node" "cnext node' = cnext node"
    using Cons.prems(2) w node(2) by auto
  have "cchain h' (cnext node) ws" using Cons.IH [OF node(4)] Cons.prems(2) by simp
  then show ?case using w node node' by auto
qed simp

context waking begin

lemma pop_wakes:
  assumes "cchain (cnodes c) (cwaiters c) ((n, a) # ws)" "distinct (map fst ((n, a) # ws))" "ok s" "insert a (snd ` set ws) \<subseteq> live s"
  shows "\<exists>c' s'. cond_pop fp wake n c s = Ret (c', s') \<and> cchain (cnodes c') (cwaiters c') ws \<and> ok s' \<and> live s' = live s \<and>
    insert a (ready s) \<subseteq> ready s' \<and> cond_signalled n c' = Ret True"
proof -
  obtain node where node: "cnodes c n = Some node" "ctask node = Some a" "cchain (cnodes c) (cnext node) ws"
    using assms(1) by auto
  obtain s' where s': "wake a s = Ret s'" "ok s'" "live s' = live s" "insert a (ready s) \<subseteq> ready s'"
    using wake_ready [OF assms(3), of a] assms(4) by auto
  let ?h = "(cnodes c)(n \<mapsto> node\<lparr>ctask := None\<rparr>)"
  let ?c = "c\<lparr>cnodes := ?h, cwaiters := cnext node\<rparr>"
  have n: "n \<notin> fst ` set ws" using assms(2) by simp
  then have h: "cchain ?h (cnext node) ws" by (intro cchain_upd [OF node(3)]) force
  show ?thesis
  proof (cases "fp \<and> ws \<noteq> []")
    case True
    then obtain k b ws' where ws: "ws = (k, b) # ws'" by (cases ws) auto
    then obtain nd where nd: "cnext node = Some k" "cnodes c k = Some nd" "k \<noteq> n" using node(3) n by auto
    let ?g = "?h(k \<mapsto> nd\<lparr>cprev := None\<rparr>)"
    have "cchain ?g (cnext node) ws" by (rule cchain_upd [OF h]) (use nd(2,3) in auto)
    moreover have "cond_pop fp wake n c s = Ret (c\<lparr>cnodes := ?g, cwaiters := cnext node\<rparr>, s')"
      using True node nd s'(1) by (simp add: cond_pop_def upd_cnode_def Let_def)
    ultimately show ?thesis using s' nd(3) by (simp add: cond_signalled_def)
  next
    case False
    then have "cond_pop fp wake n c s = Ret (?c, s')" using node s'(1)
      by (cases ws) (auto simp: cond_pop_def upd_cnode_def Let_def split: option.splits)
    then show ?thesis using s' h by (simp add: cond_signalled_def)
  qed
qed

text \<open>A broadcast wakes every waiter, in as many rounds as there are.\<close>

lemma broadcast_wakes:
  "cchain (cnodes c) (cwaiters c) ws \<Longrightarrow> distinct (map fst ws) \<Longrightarrow> ok s \<Longrightarrow> snd ` set ws \<subseteq> live s \<Longrightarrow> length ws \<le> k \<Longrightarrow>
   \<exists>c' s'. cond_broadcast k wake c s = Ret (c', s') \<and> cwaiters c' = None \<and> ok s' \<and> snd ` set ws \<union> ready s \<subseteq> ready s'"
proof (induction ws arbitrary: c s k)
  case Nil
  then show ?case by (simp add: cond_broadcast.simps)
next
  case (Cons w ws)
  obtain n a where w: "w = (n, a)" by fastforce
  obtain j where j: "k = Suc j" "length ws \<le> j" using Cons.prems(5) by (cases k) auto
  obtain c1 s1 where p: "cond_pop False wake n c s = Ret (c1, s1)" "cchain (cnodes c1) (cwaiters c1) ws" "ok s1"
    "live s1 = live s" "insert a (ready s) \<subseteq> ready s1"
    using pop_wakes [of c n a ws s False] Cons.prems w by auto
  from Cons.IH [OF p(2) _ p(3) _ j(2)] Cons.prems p(4) obtain c' s' where
    "cond_broadcast j wake c1 s1 = Ret (c', s')" "cwaiters c' = None" "ok s'" "snd ` set ws \<union> ready s1 \<subseteq> ready s'"
    by auto
  moreover have "cond_broadcast k wake c s = cond_broadcast j wake c1 s1"
    using p(1) w j(1) Cons.prems(1) by (auto simp: cond_broadcast.simps [of "Suc j"])
  ultimately show ?case using p(5) w by auto
qed

end

section \<open>Theorems\<close>

text \<open>C20. The mutex of the task system loses no wake-up. Tasks lock, try, unlock and are resumed in any order on the
  scheduler, while other tasks run. In every state reached the waiters form a stack of live tasks, and when the
  mutex is free while tasks wait, the one on top is in the running tree and takes the mutex when it is
  resumed; nobody gets the mutex while it is locked; and unlocking never fails.\<close>

theorem mutex_no_lost_wakeup:
  assumes "sched_reach ctx"
    and "(mutex_step hev_task_system_wakeup_task_with_context sched_inv alive running)\<^sup>*\<^sup>* (mutex_init m0, [], ctx) (m, ws, ctx')"
  shows "mchain (mnodes m) (mwaiters m) ws \<and> snd ` set ws \<subseteq> alive ctx' \<and>
    (\<forall>n a ws'. ws = (n, a) # ws' \<longrightarrow> \<not> locked m \<longrightarrow>
      a \<in> running ctx' \<and> (\<exists>m'. mutex_lock_resume n m = Ret (True, m') \<and> locked m' \<and> mchain (mnodes m') (mwaiters m') ws')) \<and>
    (locked m \<longrightarrow> \<not> fst (mutex_lock_begin n0 a0 m) \<and> mutex_lock_resume n0 m = Ret (False, m) \<and> mutex_trylock m = (- 1, m)) \<and>
    (\<exists>ctx''. mutex_unlock hev_task_system_wakeup_task_with_context m ctx' = Ret (m\<lparr>locked := False\<rparr>, ctx'') \<and>
      (\<forall>n a ws'. ws = (n, a) # ws' \<longrightarrow> a \<in> running ctx''))"
proof -
  have "mutex_inv sched_inv alive running (mutex_init m0, [], ctx)"
    using reach_inv [OF assms(1)] by (simp add: mutex_inv_def mutex_init_def)
  then have i: "mutex_inv sched_inv alive running (m, ws, ctx')" by (rule sched.mutex_steps_inv [OF assms(2)])
  have "\<exists>m'. mutex_lock_resume n m = Ret (True, m') \<and> locked m' \<and> mchain (mnodes m') (mwaiters m') ws'"
    if "ws = (n, a) # ws'" "\<not> locked m" for n a ws'
    using i that by (auto simp: mutex_inv_def mutex_lock_resume_def mchain_other)
  then show ?thesis using i sched.unlock_wakes [OF i]
    by (auto simp: mutex_inv_def mutex_lock_begin_def mutex_trylock_def mutex_lock_resume_def)
qed

definition demo_mutex :: task_mutex where
  "demo_mutex = \<lparr>locked = False, mwaiters = Some 5, mnodes = [5 \<mapsto> \<lparr>mnext = None, mtask = 2\<rparr>]\<rparr>"

theorem mutex_no_lost_wakeup_witness:
  "2 \<in> running demo_sched \<and> (\<exists>m'. mutex_lock_resume 5 demo_mutex = Ret (True, m') \<and> locked m')"
proof -
  let ?step = "mutex_step hev_task_system_wakeup_task_with_context sched_inv alive running"
  let ?m0 = "\<lparr>locked = False, mwaiters = None, mnodes = Map.empty\<rparr>" and ?m1 = "\<lparr>locked = True, mwaiters = None, mnodes = Map.empty\<rparr>"
  let ?m2 = "demo_mutex\<lparr>locked := True\<rparr>"
  have d: "2 \<in> alive demo_sched" "hev_task_system_wakeup_task_with_context 2 demo_sched = Ret demo_sched"
    by (simp_all add: alive_def st_def demo_sched_def demo_task_def hev_task_system_wakeup_task_with_context_def get_task_def)
  have 1: "?step (?m0, [], demo_sched) (?m1, [], demo_sched)"
    by (rule mutex_step.acquire [of 4 1]) (simp add: mutex_lock_begin_def)
  have 2: "?step (?m1, [], demo_sched) (?m2, [(5, 2)], demo_sched)"
    by (rule mutex_step.enqueue) (use d reach_inv [OF demo_reach] in \<open>simp_all add: mutex_lock_begin_def demo_mutex_def\<close>)
  have 3: "?step (?m2, [(5, 2)], demo_sched) (demo_mutex, [(5, 2)], demo_sched)"
    by (rule mutex_step.unlock) (simp add: mutex_unlock_def demo_mutex_def d)
  have "?step\<^sup>*\<^sup>* (mutex_init ?m0, [], demo_sched) (demo_mutex, [(5, 2)], demo_sched)"
    using 1 2 3 by (simp add: mutex_init_def)
  from mutex_no_lost_wakeup [OF demo_reach this] show ?thesis by (auto simp: demo_mutex_def)
qed

text \<open>C35. A timed wait on a condition that runs out while it is the last to have come forgets all other waiters: the list
  of the condition becomes empty although their nodes still wait, so no later signal or broadcast wakes them.\<close>

theorem cond_timeout_drops_waiters:
  assumes "cchain (cnodes c) (cwaiters c) ((n, a) # (k, b) # ws)" "n \<noteq> k" "\<forall>node. cnodes c n = Some node \<longrightarrow> cprev node = None"
  shows "\<exists>c'. cond_timedwait_end n c = Ret (- 1, c') \<and> cond_signalled k c' = Ret False \<and>
    cond_signal wake c' s = Ret (c', s) \<and> cond_broadcast r wake c' s = Ret (c', s)"
proof -
  obtain x y where x: "cwaiters c = Some n" "cnodes c n = Some x" "ctask x = Some a" "cnext x = Some k" "cprev x = None"
    and y: "cnodes c k = Some y" "ctask y = Some b" using assms(1,3) by auto
  let ?c = "c\<lparr>cnodes := (cnodes c)(k \<mapsto> y\<lparr>cprev := None\<rparr>), cwaiters := None\<rparr>"
  have "cond_timedwait_end n c = Ret (- 1, ?c)"
    using x y by (simp add: cond_timedwait_end_def upd_cnode_def)
  then show ?thesis using y(2) by (simp add: cond_signalled_def cond_signal_def cond_broadcast.simps)
qed

text \<open>Two tasks wait, and the second runs out of time.\<close>

definition demo_cond :: task_cond where
  "demo_cond = \<lparr>cwaiters = Some 6, cnodes = [5 \<mapsto> \<lparr>cprev = Some 6, cnext = None, ctask = Some 1\<rparr>,
     6 \<mapsto> \<lparr>cprev = None, cnext = Some 5, ctask = Some 2\<rparr>]\<rparr>"

theorem cond_timeout_drops_waiters_witness:
  "\<exists>c'. cond_timedwait_end 6 demo_cond = Ret (- 1, c') \<and> cond_signalled 5 c' = Ret False \<and>
    cond_signal hev_task_system_wakeup_task_with_context c' demo_sched = Ret (c', demo_sched)"
  using cond_timeout_drops_waiters [of demo_cond 6 2 5 1 "[]" hev_task_system_wakeup_task_with_context demo_sched 0]
  by (auto simp: demo_cond_def)

end
