(* ===== verification/Spec2Isabelle.thy ===== *)
theory Spec2Isabelle
  imports Authenticator Session SpliceEnd TunnelLife SchedFair SchedTimer Sync
begin

text \<open>
  This development models the C core of LanTunnel: the tunnel that turns the packets of a virtual
  network interface into SOCKS5 connections (\<open>hev-socks5-tunnel\<close>, below
  \<open>apps/android-proxy/app/src/main/jni\<close>), the SOCKS5 library it is built on
  (\<open>hev-socks5-tunnel/src/core\<close>), and the parts of its task system (\<open>third-part/hev-task-system\<close>)
  and of lwIP that its correctness rests on. Paths below are relative to \<open>hev-socks5-tunnel\<close>.

  \<^bold>\<open>The program.\<close> The device delivers packets; the input task gives them to lwIP, which calls back for each
  new connection and datagram. The callback opens a session with a task of its own. The session connects
  to the proxy, authenticates, asks for the destination and then moves bytes both ways until both
  directions have ended. A destination that the mapped DNS has handed out stands for a name, and the
  session asks the proxy for the name. All tasks are cooperative and share one thread; lwIP runs under a
  task mutex.

  \<^bold>\<open>How the code is written down.\<close> A C function is a HOL function of the objects it reads and writes; its
  result is an \<open>outcome\<close> (\<open>Prelude\<close>): \<open>Ret\<close> of a value, \<open>Fault\<close> for a dereferenced null pointer, an access
  outside an object or a failed assertion, and \<open>Wait\<close> for a task that stays suspended. Structures are
  records, derived structures extend the record of their parent, machine integers are words where
  wrap-around matters, and heap objects are entries of a map from addresses. The environment answers
  through event lists: what a socket delivers or takes, in which pieces, after which sleeps, with which
  errors. Every theorem quantifies over them.

  \<^bold>\<open>Theories.\<close>

  \<^item> \<open>Prelude\<close>: outcomes, byte order, checked accesses to memory, C strings; the rule collections.
  \<^item> \<open>RingBuffer\<close>: \<open>src/misc/hev-ring-buffer.c\<close> and the circular buffer of the task system. Both are
    byte queues; the ring in addition keeps the bytes lwIP still points to until they are acknowledged.
    The locales \<open>byte_channel\<close> and \<open>acked_channel\<close> are the contracts of the splice loops.
  \<^item> \<open>SockIO\<close>: the retry loops of \<open>lib/io/socket/hev-task-io-socket.c\<close>. The result of a call that waits
    for all its bytes depends on the stream and not on how it is cut; the vectored calls do what the
    plain calls do on the concatenated buffer. Handing the kernel an area outside its buffer is a \<open>Fault\<close>.
  \<^item> \<open>Splice\<close> and \<open>SpliceEnd\<close>: the two-way splice of \<open>lib/io/basic/hev-task-io.c\<close>. At every end of the
    loop each socket was given a prefix of what the other delivered and is shut down only when all was
    given; when both peers end their streams the splicer of a connection returns, and has relayed all
    bytes unless its yielder stopped it.
  \<^item> \<open>Socks5\<close>: the object, its time-outs and the packed address (\<open>src/core/src/hev-socks5.c\<close>,
    \<open>hev-socks5-misc.c\<close>). \<open>Actions\<close>: sequencing of protocol code with early returns, the
    total-correctness rules (\<open>runs\<close>) and the rules for whatever the environment does (\<open>ens\<close>).
  \<^item> \<open>Client\<close>, \<open>Server\<close>, \<open>Service\<close>: \<open>hev-socks5-client*.c\<close>, \<open>hev-socks5-server.c\<close>, \<open>hev-socks5-user.c\<close>,
    \<open>hev-socks5-tcp.c\<close>. The exact bytes of the handshakes, success only on a grant, service only after
    the credentials were checked, and the ownership of descriptors on every path.
  \<^item> \<open>UdpRelay\<close>: \<open>hev-socks5-udp.c\<close>. Round trips of both encodings of datagrams, with the names that are too
    long for the frame, bounds of the frame parser, forwarding.
  \<^item> \<open>RBTree\<close> and \<open>Authenticator\<close>: the red-black tree with the pointer structure as a zipper, and the user
    table on it. The locale \<open>search_order\<close> gives a finite map to the authenticator and to the mapped DNS.
  \<^item> \<open>HevList\<close>: \<open>src/misc/hev-list.c\<close> on a heap of links; the locale \<open>node_list\<close> is used by the mapped
    DNS, the sessions of the tunnel and the frames of a UDP session.
  \<^item> \<open>MappedDNS\<close> and \<open>DnsServer\<close>: \<open>src/hev-mapped-dns.c\<close>. The list, tree, records and heap refine a
    list of names in order of use; a query is answered with the address under which the name is found.
  \<^item> \<open>Pbuf\<close> and \<open>LwipAddr\<close>: packet buffers of lwIP on a heap with reference counts, where a chain is a byte
    queue and exactly the emptied buffers are freed, and the conversion of addresses in
    \<open>src/misc/hev-utils.c\<close>.
  \<^item> \<open>SessionTcp\<close>, \<open>SessionUdp\<close>, \<open>Session\<close>: \<open>src/hev-socks5-session*.c\<close>. Each direction of a TCP session is
    a stream without loss or reordering, and a UDP session sends the datagrams it was given in order and
    frees them, with the bytes of the first packet buffer only when a datagram is a chain; the composition
    gives the session from connect to splice.
  \<^item> \<open>Config\<close>: \<open>src/hev-config.c\<close> over a loaded document. Every string is terminated in its buffer, sizes
    are in range, and a SOCKS5 section without an address or a port, or with one credential alone, is
    refused; a document with no such section at all is accepted, as the code accepts it.
  \<^item> \<open>Tunnel\<close> and \<open>TunnelLife\<close>: \<open>src/hev-socks5-tunnel.c\<close>. The sessions refine a queue in order of use over
    all interleavings of callbacks, session ends and stop; initialisation that set the interface up and
    finalisation release what they acquire, and what a failing set-up of the interface leaves behind is
    stated; so is which failed allocation stops the tunnel. A stop request from another thread is not
    lost, with the accesses of the two threads in one order.

  \<^item> \<open>CachedTree\<close>, \<open>Scheduler\<close>, \<open>SchedRun\<close>, \<open>SchedFair\<close>, \<open>SchedTimer\<close>: the scheduler and the timer of the
    task system (\<open>kern/core/hev-task-system-schedule.c\<close>, \<open>kern/task/hev-task.c\<close>, \<open>kern/time/hev-task-timer.c\<close>,
    \<open>lib/rbtree/hev-rbtree-cached.c\<close>). Over all events the running tree is exact and the task resumed has
    the least key; no running task starves; sleeps end on time.
  \<^item> \<open>Sync\<close>: \<open>kern/sync/hev-task-mutex.c\<close> and \<open>hev-task-cond.c\<close>. They rely on the scheduler through the
    locale \<open>waking\<close>, interpreted on it; the mutex loses no wake-up, a timed-out wait on a condition loses
    the other waiters.

  The theorem below joins client and server.

  \<^bold>\<open>Loops and bounds.\<close> A loop that sleeps is a recursion on the events or sleeps that remain, and running
  out of them is \<open>Wait\<close>, the task that waits for ever; theorems of progress (\<open>client_tcp_handshake_complete\<close>,
  \<open>splice_terminates\<close>, \<open>mapped_dns_survives\<close>) state the events they need. A walk over a chain or list takes
  as many steps as there are objects: \<open>terminate_all\<close> the number of sessions, the destructor of a UDP
  session the number of frames, a chain of packet buffers the size of the heap, the clearing of the user
  table the size of the tree. Lists and trees that satisfy the invariants never reach these bounds.

  \<^bold>\<open>What is not modelled.\<close> lwIP's protocol engine, the YAML parser and name resolution are third-party code
  and appear as parameters or events, limited by what the code relies on: the advertised window, no more
  acknowledged than written, callbacks under the mutex. The stack switch of the task system
  (\<open>setjmp\<close>) is the order of events of the scheduler, and its reactor (\<open>epoll\<close>) an answer of the environment; the
  socket code above it sees a sleep as one event, which is the contract the scheduler theorems support. The device drivers, the process entry with its JNI
  glue, logging and scripts are sequences of system calls whose results are answers of the environment.
  The Windows, macOS and kernel-splice variants selected by the build are left out, as are the parts of
  the repository in Kotlin, Swift and Rust.
\<close>

section \<open>The task mutex\<close>

text \<open>The mutex as the tunnel sees it is the mutex with its waiters, the waiters left out: a task gets it at once,
  or waits; trying and unlocking agree.\<close>

lemma tunnel_mutex_view:
  fixes m :: task_mutex and v :: mutex
  assumes "locker v \<longleftrightarrow> locked m"
  shows "hev_task_mutex_lock v = (if fst (mutex_lock_begin n a m) then Ret (v\<lparr>locker := True\<rparr>) else Wait)"
    "fst (hev_task_mutex_trylock v) = fst (mutex_trylock m)"
    "locker (snd (hev_task_mutex_trylock v)) \<longleftrightarrow> locked (snd (mutex_trylock m))"
    "mutex_unlock wake m s = Ret (m', s') \<Longrightarrow> locker (hev_task_mutex_unlock v) \<longleftrightarrow> locked m'"
  using assms
  by (auto simp: hev_task_mutex_lock_def mutex_lock_begin_def hev_task_mutex_trylock_def mutex_trylock_def
      hev_task_mutex_unlock_def mutex_unlock_def Let_def bind_o_Ret_iff split: option.splits)

section \<open>Client and server\<close>

text \<open>C5. The client and the server of the SOCKS5 library agree on the protocol. When the server reads what
  the client sends, knows its credentials and can connect to the destination it asks for, its handshake
  succeeds and reads exactly the client's greeting; and a client that reads what this server wrote,
  however the network cuts it, completes its handshake in the standard and in the pipelined form, has sent
  exactly this greeting and leaves what follows unread.\<close>

theorem handshake_agreement:
  fixes cl :: "'b client_tcp_scheme" and s :: "'a server_scheme"
  assumes "chan_st (client_hello cl HEV_SOCKS5_REQ_CMD_CONNECT a) r (wire cs)
      (length (server_grant (client_method cl) 0 (saddr_of sa))) cs"
    and "tcp_timeout g \<noteq> 0" "saddr_wf a" "length (sin6_addr sa) = 16"
    and "server_knows cl (s\<lparr>timeout := tcp_timeout g\<rparr>) s2"
    and "hev_socks5_addr_into_sockaddr6 rv (saddr_enc a) sa0 (family s) = Ret (0, sa, fam)"
    and "hev_socks5_server_connect g binder sa (s2\<lparr>family := fam\<rparr>) w = Ret (0, s3, w3)" "live s3"
    and "stype cl = TYPE_TCP" "tcp_addr cl = Some (saddr_enc a @ z)" "creds_ok cl"
  shows "\<exists>y cs'. hev_socks5_server_handshake g rv binder sa0 s cs w = Ret (0, s3\<lparr>stype := TYPE_TCP\<rparr>, cs', w3) \<and>
    wire cs' = wire cs @ y \<and> rx_stream (rxs cs') = r \<and>
    (\<forall>cc v q. chan_st y q (wire cc) (length (client_hello cl HEV_SOCKS5_REQ_CMD_CONNECT a)) cc \<longrightarrow>
      (\<exists>cc'. hev_socks5_client_handshake g hev_socks5_client_tcp_class pipelined cl cc v =
          Ret (0, cl\<lparr>timeout := tcp_timeout g, tcp_addr := None\<rparr>, cc', v) \<and>
        wire cc' = wire cc @ client_hello cl HEV_SOCKS5_REQ_CMD_CONNECT a \<and> rx_stream (rxs cc') = q))"
proof -
  let ?y = "server_grant (client_method cl) 0 (saddr_of sa)"
  have "runs (hev_socks5_server_handshake g rv binder sa0)
    (\<lambda>x s' c' w'. x = 0 \<and> s' = s3\<lparr>stype := TYPE_TCP\<rparr> \<and> w' = w3 \<and> chan_st [] r (wire cs @ ?y) 0 c') s cs w"
    by (rule runs_server_handshake_connect [OF assms(1-8)]) simp
  then obtain cs' where cs': "hev_socks5_server_handshake g rv binder sa0 s cs w = Ret (0, s3\<lparr>stype := TYPE_TCP\<rparr>, cs', w3)"
    "chan_st [] r (wire cs @ ?y) 0 cs'" by (auto simp: runs_def)
  have ip: "saddr_wf (saddr_of sa)" "is_ip (saddr_of sa)" using assms(4) saddr_wf_of by (auto simp: saddr_of_def)
  have "\<exists>cc'. hev_socks5_client_handshake g hev_socks5_client_tcp_class pipelined cl cc v =
          Ret (0, cl\<lparr>timeout := tcp_timeout g, tcp_addr := None\<rparr>, cc', v) \<and>
        wire cc' = wire cc @ client_hello cl HEV_SOCKS5_REQ_CMD_CONNECT a \<and> rx_stream (rxs cc') = q"
    if "chan_st ?y q (wire cc) (length (client_hello cl HEV_SOCKS5_REQ_CMD_CONNECT a)) cc" for cc v q
    by (rule tcp_handshake_granted [OF that assms(2,3) ip assms(11,9,10), of pipelined v]) blast
  then show ?thesis using cs' by (intro exI [of _ ?y] exI [of _ cs']) (auto simp: chan_st_def)
qed

definition demo_known :: server where
  "demo_known = demo_server\<lparr>timeout := 300000, obj := UserObj \<lparr>user_name = [117], user_pass = [112]\<rparr>\<rparr>"

definition demo_answer :: chan where
  "demo_answer = \<lparr>rxs = [RxData [5, 2, 1], RxAgain (Nap 5 False), RxData [0, 5, 0, 0, 1, 10, 0, 0, 7, 0, 80, 9]],
     txs = [TxTake 100], wire = [], wr_shut = False, errno_of = E_NONE\<rparr>"

lemma demo_destination:
  "hev_socks5_addr_into_sockaddr6 demo_resolver (saddr_enc (SName [97] 80)) sockaddr6_zero FAMILY_UNSPEC =
     Ret (0, \<lparr>sin6_port = htons 80, sin6_addr = map4 [10, 0, 0, 7]\<rparr>, FAMILY_IPV4)"
  by code_simp

lemma demo_server_connects:
  "case hev_socks5_server_connect socks5_default_params (\<lambda>s f a. 0) \<lparr>sin6_port = htons 80, sin6_addr = map4 [10, 0, 0, 7]\<rparr>
      (demo_known\<lparr>family := FAMILY_IPV4\<rparr>) demo_os of
     Ret (r, s, w) \<Rightarrow> r = 0 \<and> timeout s = 300000 | _ \<Rightarrow> False"
  by code_simp

theorem handshake_agreement_witness:
  "\<exists>s' cs' w' cc'. hev_socks5_server_handshake socks5_default_params demo_resolver (\<lambda>s f a. 0) sockaddr6_zero
      demo_server demo_server_chan demo_os = Ret (0, s', cs', w') \<and>
    hev_socks5_client_handshake socks5_default_params hev_socks5_client_tcp_class False demo_client demo_answer demo_os =
      Ret (0, demo_client\<lparr>timeout := 300000, tcp_addr := None\<rparr>, cc', demo_os) \<and>
    wire cc' = rx_stream (rxs demo_server_chan) \<and> rx_stream (rxs cc') = [9]"
proof -
  let ?sa = "\<lparr>sin6_port = htons 80, sin6_addr = map4 [10, 0, 0, 7]\<rparr>"
  obtain s3 w3 where con: "hev_socks5_server_connect socks5_default_params (\<lambda>s f a. 0) ?sa
      (demo_known\<lparr>family := FAMILY_IPV4\<rparr>) demo_os = Ret (0, s3, w3)" "live s3"
    using demo_server_connects by (auto simp: live_def split: outcome.splits prod.splits)
  have g: "server_grant (client_method demo_client) 0 (saddr_of ?sa) = [5, 2, 1, 0, 5, 0, 0, 1, 10, 0, 0, 7, 0, 80]"
    by code_simp
  have h: "client_hello demo_client HEV_SOCKS5_REQ_CMD_CONNECT (SName [97] 80) =
      [5, 1, 2, 1, 1, 117, 1, 112, 5, 1, 0, 3, 1, 97, 0, 80]" by code_simp
  have c: "chan_st (client_hello demo_client HEV_SOCKS5_REQ_CMD_CONNECT (SName [97] 80)) [] (wire demo_server_chan)
      (length (server_grant (client_method demo_client) 0 (saddr_of ?sa))) demo_server_chan"
    unfolding h g by (simp add: chan_st_def demo_server_chan_def calm_def)
  have t: "tcp_timeout socks5_default_params = 300000" by (simp add: socks5_default_params_def)
  have k: "server_knows demo_client (demo_server\<lparr>timeout := tcp_timeout socks5_default_params\<rparr>) demo_known"
    by (simp add: server_knows_def demo_client_def demo_server_def demo_known_def t)
  have d: "stype demo_client = TYPE_TCP" "tcp_addr demo_client = Some (saddr_enc (SName [97] 80) @ [])" "creds_ok demo_client"
    "family demo_server = FAMILY_UNSPEC" "length (sin6_addr ?sa) = 16" "saddr_wf (SName [97] 80)"
    by (simp_all add: demo_client_def creds_ok_def demo_server_def map4_def)
  obtain y cs' where cs': "hev_socks5_server_handshake socks5_default_params demo_resolver (\<lambda>s f a. 0) sockaddr6_zero
      demo_server demo_server_chan demo_os = Ret (0, s3\<lparr>stype := TYPE_TCP\<rparr>, cs', w3)" "wire cs' = wire demo_server_chan @ y"
    "\<And>cc v q. chan_st y q (wire cc) (length (client_hello demo_client HEV_SOCKS5_REQ_CMD_CONNECT (SName [97] 80))) cc \<Longrightarrow>
      (\<exists>cc'. hev_socks5_client_handshake socks5_default_params hev_socks5_client_tcp_class False demo_client cc v =
          Ret (0, demo_client\<lparr>timeout := tcp_timeout socks5_default_params, tcp_addr := None\<rparr>, cc', v) \<and>
        wire cc' = wire cc @ client_hello demo_client HEV_SOCKS5_REQ_CMD_CONNECT (SName [97] 80) \<and> rx_stream (rxs cc') = q)"
    using handshake_agreement [OF c _ d(6,5) k _ con d(1-3), of demo_resolver sockaddr6_zero False] d(4) demo_destination t
    by auto
  have "y = [5, 2, 1, 0, 5, 0, 0, 1, 10, 0, 0, 7, 0, 80]"
    using demo_server_returns cs'(1,2) by (simp add: demo_server_chan_def)
  then have "chan_st y [9] (wire demo_answer) (length (client_hello demo_client HEV_SOCKS5_REQ_CMD_CONNECT (SName [97] 80)))
      demo_answer" unfolding h by (simp add: chan_st_def demo_answer_def calm_def)
  from cs'(3) [OF this, of demo_os] show ?thesis using cs'(1) t h by (auto simp: demo_answer_def demo_server_chan_def)
qed

end
